(* ===== verification/Prelude.thy ===== *)
theory Prelude
  imports Main "HOL-Library.Word" "HOL-Library.Monad_Syntax" "HOL-Library.Multiset"
begin

text \<open>
  What the components of the L-Store library share: the names of the machine types that the C
  sources use, the outcome of a computation that may reach undefined behaviour, and the generic
  facts about lists, options and words on which the component proofs rest.

  A C function that may dereference a bad pointer, index out of an array or overflow a signed
  integer is a HOL function into an \<open>option\<close> type: \<open>None\<close> is undefined behaviour (or, for a loop,
  not returning) and \<open>Some\<close> is an ordinary return.
\<close>

unbundle bit_operations_syntax

type_synonym u8 = "8 word"
type_synonym u64 = "64 word"

text \<open>Preservation facts and exact results of operations are gathered here for \<open>simp\<close> and \<open>auto\<close>.\<close>

named_theorems inv_intros \<open>operations keep the representation invariant\<close>
named_theorems op_results \<open>the value an operation returns in a given case\<close>

definition int64_ok :: "int \<Rightarrow> bool" where
  "int64_ok x \<longleftrightarrow> - (2 ^ 63) \<le> x \<and> x < 2 ^ 63"

text \<open>Conversions to \<^verbatim>\<open>int\<close>, which wraps around on the compilers in use, and to \<^verbatim>\<open>size_t\<close>.\<close>

definition to_int :: "int \<Rightarrow> int" where
  "to_int x = signed_take_bit 31 x"

definition to_size :: "int \<Rightarrow> nat" where
  "to_size x = nat (x mod 2 ^ 64)"

text \<open>\<^verbatim>\<open>apr_time_t\<close> counts microseconds.\<close>

definition apr_time_from_sec :: "int \<Rightarrow> int" where
  "apr_time_from_sec n = n * 1000000"

text \<open>
  Running a list of operations: the concrete component's step may fail (\<open>None\<close>), the abstract
  specification's step may be undefined (\<open>None\<close>: the call is outside of the contract). Both collect
  the results that the caller sees.
\<close>

fun run_ops :: "('op \<Rightarrow> 's \<Rightarrow> ('r \<times> 's) option) \<Rightarrow> 'op list \<Rightarrow> 's \<Rightarrow> ('r list \<times> 's) option" where
  "run_ops step [] s = Some ([], s)"
| "run_ops step (x # xs) s =
     (case step x s of
        None \<Rightarrow> None
      | Some (r, s') \<Rightarrow> (case run_ops step xs s' of None \<Rightarrow> None | Some (rs, s'') \<Rightarrow> Some (r # rs, s'')))"

text \<open>
  Copies into and out of a block of memory (\<^verbatim>\<open>memcpy\<close>); an access that leaves the block is undefined.
\<close>

definition write_at :: "'a list \<Rightarrow> nat \<Rightarrow> 'a list \<Rightarrow> 'a list option" where
  "write_at xs off ys =
     (if off + length ys \<le> length xs then Some (take off xs @ ys @ drop (off + length ys) xs) else None)"

definition read_at :: "'a list \<Rightarrow> nat \<Rightarrow> nat \<Rightarrow> 'a list option" where
  "read_at xs off n = (if off + n \<le> length xs then Some (take n (drop off xs)) else None)"

text \<open>
  The refinement interface: whenever the specification allows an operation, the component performs
  it, returns the same result, keeps its invariant and ends in a state whose abstraction is the
  specification's next state.
\<close>

locale data_refinement =
  fixes step :: "'op \<Rightarrow> 's \<Rightarrow> ('r \<times> 's) option"
    and spec :: "'op \<Rightarrow> 'a \<Rightarrow> ('r \<times> 'a) option"
    and abs :: "'s \<Rightarrow> 'a"
    and ok :: "'s \<Rightarrow> bool"
  assumes simulates:
    "ok s \<Longrightarrow> spec x (abs s) = Some (r, a) \<Longrightarrow> \<exists>s'. step x s = Some (r, s') \<and> ok s' \<and> abs s' = a"
begin

lemma run_simulates:
  "ok s \<Longrightarrow> run_ops spec xs (abs s) = Some (rs, a) \<Longrightarrow>
     \<exists>s'. run_ops step xs s = Some (rs, s') \<and> ok s' \<and> abs s' = a"
proof (induction xs arbitrary: s rs)
  case Nil
  then show ?case by simp
next
  case (Cons x xs)
  from Cons.prems(2) obtain r a1 rs' where 1: "spec x (abs s) = Some (r, a1)"
    and 2: "run_ops spec xs a1 = Some (rs', a)" and 3: "rs = r # rs'"
    by (auto split: option.splits)
  from simulates [OF Cons.prems(1) 1] obtain s1 where s1: "step x s = Some (r, s1)" "ok s1" "abs s1 = a1"
    by blast
  with Cons.IH [of s1 rs'] 2 3 show ?case by force
qed

end

text \<open>Generic facts on machine integers.\<close>

lemma to_int_id: "0 \<le> n \<Longrightarrow> n < 2 ^ 31 \<Longrightarrow> to_int n = n"
  by (simp add: to_int_def signed_take_bit_int_eq_self_iff)

lemma to_size_id: "0 \<le> n \<Longrightarrow> n < 2 ^ 64 \<Longrightarrow> to_size n = nat n"
  by (simp add: to_size_def)

text \<open>Generic facts on options.\<close>

lemma bind_Some_iff [op_results]:
  "Option.bind m f = Some y \<longleftrightarrow> (\<exists>x. m = Some x \<and> f x = Some y)"
  by (cases m) auto

lemma bind_Some_simp [simp]: "Option.bind (Some x) f = f x"
  by simp

text \<open>Generic facts on lists.\<close>

lemma nth_list_update_if:
  "j < length xs \<Longrightarrow> xs[i := v] ! j = (if i = j then v else xs ! j)"
  by (simp add: nth_list_update)

lemma take_Suc_update: "i < length xs \<Longrightarrow> take (Suc i) (xs[i := v]) = take i xs @ [v]"
  by (simp add: take_Suc_conv_app_nth)

lemma pair_set_eqI: "(\<And>a b. (a, b) \<in> A \<longleftrightarrow> (a, b) \<in> B) \<Longrightarrow> A = B"
  by (rule set_eqI) (simp only: split_paired_all)

text \<open>Generic facts on blocks of memory.\<close>

lemma write_at_length: "write_at xs off ys = Some zs \<Longrightarrow> length zs = length xs"
  by (auto simp: write_at_def split: if_splits)

lemma block_end: "i < n \<Longrightarrow> i * sz + sz \<le> n * (sz::nat)"
  by (metis Suc_leI add.commute mult_Suc mult_le_mono1)

lemma block_apart: "i < (j::nat) \<Longrightarrow> i * sz + sz \<le> j * sz"
  by (rule block_end)

lemma write_at_block:
  assumes "length xs = n * sz" "length b = sz" "j < n"
  obtains zs where "write_at xs (j * sz) b = Some zs" "length zs = n * sz"
    "\<And>i. i < n \<Longrightarrow> read_at zs (i * sz) sz = (if i = j then Some b else read_at xs (i * sz) sz)"
proof -
  define zs where "zs = take (j * sz) xs @ b @ drop (j * sz + sz) xs"
  have w: "write_at xs (j * sz) b = Some zs" and l: "length zs = n * sz"
    using assms block_end [OF assms(3), of sz] by (auto simp: write_at_def zs_def)
  have "read_at zs (i * sz) sz = (if i = j then Some b else read_at xs (i * sz) sz)" if "i < n" for i
  proof -
    consider "i < j" | "i = j" | "j < i" by linarith
    then have "take sz (drop (i * sz) zs) = (if i = j then b else take sz (drop (i * sz) xs))"
    proof cases
      case 1
      then have "i * sz + sz \<le> j * sz" by (rule block_apart)
      moreover have "j * sz \<le> length xs" using assms block_end [OF assms(3), of sz] by simp
      ultimately show ?thesis using 1 by (simp add: zs_def take_drop min_def)
    next
      case 2
      then show ?thesis using assms block_end [OF assms(3), of sz] by (simp add: zs_def)
    next
      case 3
      then have "j * sz + sz \<le> i * sz" by (rule block_apart)
      moreover have "j * sz + sz \<le> length xs" using assms block_end [OF assms(3), of sz] by simp
      ultimately show ?thesis using 3 assms(2) by (simp add: zs_def)
    qed
    then show ?thesis using l assms(1) block_end [OF that, of sz] by (simp add: read_at_def)
  qed
  with w l show ?thesis using that by blast
qed

text \<open>Inserting behind all others.\<close>

lemma insort_end: "\<forall>y \<in> set ys. f y < f x \<Longrightarrow> insort_key f x ys = ys @ [x]"
  by (induction ys) (auto simp: not_le)

text \<open>Generic facts on words: a word is its low bits plus the rest shifted back up.\<close>

lemma take_bit_plus_push_drop:
  fixes v :: "'a::len word"
  shows "take_bit n v + push_bit n (drop_bit n v) = v"
  using bits_ident [of n v] by (simp only: add.commute)

lemma unat_drop_bit_less:
  fixes v :: "'a::len word"
  assumes "unat v < 2 ^ (a + b)"
  shows "unat (drop_bit a v) < 2 ^ b"
proof -
  have "unat (drop_bit a v) = unat v div 2 ^ a"
    by (simp only: unat_drop_bit_eq drop_bit_eq_div [where 'a = nat])
  moreover have "unat v div 2 ^ a < 2 ^ b"
    using assms by (simp add: power_add less_mult_imp_div_less mult.commute)
  ultimately show ?thesis by simp
qed

end
