(* ===== verification/Varint.thy ===== *)
theory Varint
  imports Prelude
begin

text \<open>
  \<^verbatim>\<open>src/toolbox/varint.c\<close>: base-128 variable length integers and their zigzag form.
  A buffer is a list of bytes; writing or reading past its end is undefined behaviour.
\<close>

text \<open>\<^verbatim>\<open>varint_encode\<close>: the \<^verbatim>\<open>for\<close> loop from position \<open>i\<close>.\<close>

function varint_encode_loop :: "nat \<Rightarrow> u64 \<Rightarrow> u8 list \<Rightarrow> (int \<times> u8 list) option" where
  "varint_encode_loop i value buffer =
     (if i < 16 then
        (if i < length buffer then
           (let b = ucast (value OR 0x80) :: u8;
                value' = drop_bit 7 value
            in if value' = 0 then Some (int i + 1, buffer[i := b XOR 0x80])
               else varint_encode_loop (Suc i) value' (buffer[i := b]))
         else None)
      else Some (-1, buffer))"
  by pat_completeness auto
termination
  by (relation "measure (\<lambda>(i, v, b). 16 - i)") auto

definition varint_encode :: "u64 \<Rightarrow> u8 list \<Rightarrow> (int \<times> u8 list) option" where
  "varint_encode value buffer = varint_encode_loop 0 value buffer"

text \<open>
  \<^verbatim>\<open>varint_decode\<close>: the loop carries the position, the shift and the value read so far. Shifting
  a 64 bit value by 64 or more is undefined in C.
\<close>

function varint_decode_loop :: "nat \<Rightarrow> nat \<Rightarrow> u8 list \<Rightarrow> int \<Rightarrow> u64 \<Rightarrow> (int \<times> u64) option" where
  "varint_decode_loop i bits buffer bufsize value =
     (if int i < bufsize then
        (if i < length buffer \<and> bits < 64 then
           (let value' = value + push_bit bits (ucast (buffer ! i AND 0x7F) :: u64)
            in if buffer ! i AND 0x80 = 0 then Some (int i + 1, value')
               else varint_decode_loop (Suc i) (bits + 7) buffer bufsize value')
         else None)
      else Some (-1, value))"
  by pat_completeness auto
termination
  by (relation "measure (\<lambda>(i, k, b, n, v). nat n - i)") auto

definition varint_decode :: "u8 list \<Rightarrow> int \<Rightarrow> (int \<times> u64) option" where
  "varint_decode buffer bufsize = varint_decode_loop 0 0 buffer bufsize 0"

text \<open>
  The zigzag forms. The argument of \<^verbatim>\<open>tbx_zigzag_encode\<close> is an \<^verbatim>\<open>int64_t\<close>, so the products and the
  negation are signed: overflow is undefined. The decoder works on the unsigned value and converts
  it to \<^verbatim>\<open>int64_t\<close> at the end.
\<close>

definition tbx_zigzag_encode :: "int \<Rightarrow> u8 list \<Rightarrow> (int \<times> u8 list) option" where
  "tbx_zigzag_encode value buffer =
     (if value < 0 then
        (if int64_ok (- value) \<and> int64_ok (2 * (- value))
         then varint_encode (word_of_int (2 * (- value) - 1)) buffer else None)
      else (if int64_ok (2 * value) then varint_encode (word_of_int (2 * value)) buffer else None))"

definition tbx_zigzag_decode :: "u8 list \<Rightarrow> int \<Rightarrow> (int \<times> int) option" where
  "tbx_zigzag_decode buffer bufsize =
     (case varint_decode buffer bufsize of
        None \<Rightarrow> None
      | Some (n, zz) \<Rightarrow>
          Some (n, sint (if zz AND 1 \<noteq> 0 then - drop_bit 1 zz - 1 else drop_bit 1 zz)))"

declare varint_encode_loop.simps [simp del] varint_decode_loop.simps [simp del]


section \<open>The bytes the encoder writes\<close>

lemma const_bits:
  "bit (0x7F :: int) n \<longleftrightarrow> n < 7" "bit (0x80 :: int) n \<longleftrightarrow> n = 7"
proof -
  have "(0x7F :: int) = mask 7" by (simp add: mask_eq_exp_minus_1)
  then show "bit (0x7F :: int) n \<longleftrightarrow> n < 7" by (simp only: bit_mask_iff) simp
  have "(0x80 :: int) = 2 ^ 7" by simp
  then show "bit (0x80 :: int) n \<longleftrightarrow> n = 7" by (simp only: bit_exp_iff) auto
qed

lemma byte_low7:
  fixes v :: u64
  shows "(ucast ((ucast (v OR 0x80) :: u8) AND 0x7F) :: u64) = take_bit 7 v"
    and "(ucast (((ucast (v OR 0x80) :: u8) XOR 0x80) AND 0x7F) :: u64) = take_bit 7 v"
  by (auto intro!: bit_word_eqI simp: bit_simps const_bits)

lemma byte_high:
  fixes v :: u64
  shows "(ucast (v OR 0x80) :: u8) AND 0x80 \<noteq> 0"
    and "((ucast (v OR 0x80) :: u8) XOR 0x80) AND 0x80 = 0"
proof -
  have "bit ((ucast (v OR 0x80) :: u8) AND 0x80) 7"
    by (simp add: bit_simps const_bits)
  then show "(ucast (v OR 0x80) :: u8) AND 0x80 \<noteq> 0"
    by (metis bit_0_eq bot_apply bot_bool_def)
  show "((ucast (v OR 0x80) :: u8) XOR 0x80) AND 0x80 = 0"
    by (auto intro!: bit_word_eqI simp: bit_simps const_bits)
qed

section \<open>Round trip\<close>

text \<open>
  From position \<open>i\<close> with at most \<open>64 - 7 i\<close> bits left, the encoder stops before the end of a ten
  byte buffer, leaves the bytes before \<open>i\<close> alone, and what it wrote decodes to the value shifted
  into place.
\<close>

lemma varint_loop_roundtrip:
  assumes "unat v < 2 ^ (64 - 7 * i)" "7 * i < 64" "10 \<le> length buf"
  shows "\<exists>n buf'. varint_encode_loop i v buf = Some (int n, buf') \<and> i < n \<and> n \<le> 10 \<and>
           length buf' = length buf \<and> take i buf' = take i buf \<and> drop n buf' = drop n buf \<and>
           (\<forall>acc bufsize. int n \<le> bufsize \<longrightarrow>
              varint_decode_loop i (7 * i) buf' bufsize acc = Some (int n, acc + push_bit (7 * i) v))"
  using assms
proof (induction i v buf rule: varint_encode_loop.induct)
  case (1 i v buf)
  have i9: "i \<le> 9" using "1.prems"(2) by linarith
  then have i: "i < 16" "i < length buf" using "1.prems"(3) by auto
  let ?b = "ucast (v OR 0x80) :: u8"
  show ?case
  proof (cases "drop_bit 7 v = 0")
    case True
    then have v: "take_bit 7 v = v"
      using take_bit_plus_push_drop [of 7 v] by simp
    have "varint_encode_loop i v buf = Some (int (Suc i), buf[i := ?b XOR 0x80])"
      using i True by (subst varint_encode_loop.simps) simp
    moreover have "varint_decode_loop i (7 * i) (buf[i := ?b XOR 0x80]) bufsize acc
        = Some (int (Suc i), acc + push_bit (7 * i) v)" if "int (Suc i) \<le> bufsize" for acc bufsize
      using i that "1.prems"(2) v byte_low7 (2) [of v] byte_high (2) [of v]
      by (subst varint_decode_loop.simps) simp
    ultimately show ?thesis using i i9 by force
  next
    case False
    have i9': "7 * Suc i < 64"
    proof (rule ccontr)
      assume "\<not> 7 * Suc i < 64"
      then have "unat v < 2 ^ 7"
        using "1.prems"(1) power_increasing [of "64 - 7 * i" 7 "2::nat"] by force
      then have "unat (drop_bit 7 v) < 2 ^ 0"
        by (intro unat_drop_bit_less) simp
      then have "drop_bit 7 v = 0" by (simp add: unat_eq_0)
      with False show False ..
    qed
    have small: "unat (drop_bit 7 v) < 2 ^ (64 - 7 * Suc i)"
      using "1.prems"(1) i9' by (intro unat_drop_bit_less) (simp flip: power_add)
    obtain n buf' where n: "varint_encode_loop (Suc i) (drop_bit 7 v) (buf[i := ?b]) = Some (int n, buf')"
      "Suc i < n" "n \<le> 10" "length buf' = length buf" "take (Suc i) buf' = take (Suc i) (buf[i := ?b])"
      "drop n buf' = drop n (buf[i := ?b])"
      and dec: "\<And>acc bufsize. int n \<le> bufsize \<Longrightarrow> varint_decode_loop (Suc i) (7 * Suc i) buf' bufsize acc
              = Some (int n, acc + push_bit (7 * Suc i) (drop_bit 7 v))"
      using "1.IH" [OF i refl refl False small i9'] "1.prems"(3) by auto
    have bi: "buf' ! i = ?b"
      using arg_cong [OF n(5), of "\<lambda>xs. xs ! i"] i n(4) by simp
    have enc: "varint_encode_loop i v buf = Some (int n, buf')"
      using i False n(1) by (subst varint_encode_loop.simps) simp
    have tk: "take i buf' = take i buf"
      using arg_cong [OF n(5), of "take i"] by simp
    have dr: "drop n buf' = drop n buf"
      using n(2,6) by simp
    have "varint_decode_loop i (7 * i) buf' bufsize acc = Some (int n, acc + push_bit (7 * i) v)"
      if "int n \<le> bufsize" for acc bufsize
    proof -
      have "varint_decode_loop i (7 * i) buf' bufsize acc
          = varint_decode_loop (Suc i) (7 * Suc i) buf' bufsize (acc + push_bit (7 * i) (take_bit 7 v))"
        using that n(2,4) i "1.prems"(2) byte_low7 (1) [of v] byte_high (1) [of v]
        by (subst varint_decode_loop.simps) (simp add: bi add.commute)
      also have "\<dots> = Some (int n, acc + push_bit (7 * i) (take_bit 7 v)
                         + push_bit (7 * i) (push_bit 7 (drop_bit 7 v)))"
        using dec [OF that] by (simp add: add.commute)
      also have "\<dots> = Some (int n, acc + push_bit (7 * i) v)"
        by (simp only: add.assoc push_bit_add [symmetric] take_bit_plus_push_drop)
      finally show ?thesis .
    qed
    with enc n(2-4) tk dr show ?thesis by (intro exI [of _ n] exI [of _ buf']) simp
  qed
qed

lemma low_bit_word: "(word_of_int k :: u64) AND 1 \<noteq> 0 \<longleftrightarrow> odd k"
proof -
  have "(word_of_int k :: u64) AND 1 = of_bool (odd (word_of_int k :: u64))"
    by (simp add: and_one_eq mod2_eq_if)
  moreover have "bit (word_of_int k :: u64) 0 \<longleftrightarrow> bit k 0"
    by (simp add: bit_word_of_int_iff)
  ultimately show ?thesis by (simp add: bit_0)
qed
lemma half_word:
  assumes "0 \<le> k" "k < 2 ^ 64"
  shows "drop_bit 1 (word_of_int k :: u64) = word_of_int (k div 2)"
proof (rule word_uint_eqI)
  show "uint (drop_bit 1 (word_of_int k :: u64)) = uint (word_of_int (k div 2) :: u64)"
    using assms by (simp add: drop_bit_eq_div uint_div unsigned_of_int take_bit_int_eq_self)
qed
lemma sint_word: "- (2^63) \<le> k \<Longrightarrow> k < 2^63 \<Longrightarrow> sint (word_of_int k :: u64) = k"
  by (simp add: signed_of_int signed_take_bit_int_eq_self)

lemma varint_exact:
  assumes "10 \<le> length buf"
  shows "\<exists>n buf'. varint_encode v buf = Some (int n, buf') \<and> 1 \<le> n \<and> n \<le> 10 \<and>
           length buf' = length buf \<and> drop n buf' = drop n buf \<and>
           (\<forall>bufsize. int n \<le> bufsize \<longrightarrow> varint_decode buf' bufsize = Some (int n, v))"
  using varint_loop_roundtrip [of v 0 buf] assms unsigned_less [of v]
  by (fastforce simp: varint_encode_def varint_decode_def)

lemma zigzag_halves:
  assumes "- (2 ^ 62) < v" "v < 2 ^ 62"
  defines "zz \<equiv> (word_of_int (if v < 0 then 2 * (- v) - 1 else 2 * v) :: u64)"
  shows "sint (if zz AND 1 \<noteq> 0 then - drop_bit 1 zz - 1 else drop_bit 1 zz) = v"
proof (cases "v < 0")
  case True
  then have "zz AND 1 \<noteq> 0" unfolding zz_def low_bit_word by simp
  moreover have "drop_bit 1 zz = word_of_int ((2 * (- v) - 1) div 2)"
    unfolding zz_def if_P [OF True] using True assms(1) by (intro half_word) auto
  moreover have "(2 * (- v) - 1) div 2 = - v - 1" by presburger
  ultimately have "(if zz AND 1 \<noteq> 0 then - drop_bit 1 zz - 1 else drop_bit 1 zz) = word_of_int v"
    by simp
  then show ?thesis using assms(1,2) by (simp only:) (simp add: sint_word)
next
  case False
  then have "\<not> zz AND 1 \<noteq> 0" unfolding zz_def low_bit_word by simp
  moreover have "drop_bit 1 zz = word_of_int v"
    using False assms(2) half_word [of "2 * v"] by (simp only: zz_def if_False) simp
  ultimately show ?thesis using assms(1,2) by (simp add: sint_word)
qed

text \<open>
  C27: For every 64 bit value and every buffer of at least ten bytes, \<^verbatim>\<open>varint_encode\<close> returns a
  length \<open>n\<close> between 1 and 10, changes no byte from \<open>n\<close> on, and \<^verbatim>\<open>varint_decode\<close> of the result with
  any \<^verbatim>\<open>bufsize\<close> of at least \<open>n\<close> returns the same length and the same value.
\<close>

lemma varint_roundtrip:
  assumes "10 \<le> length buf"
  shows "\<exists>n buf'. varint_encode v buf = Some (int n, buf') \<and> 1 \<le> n \<and> n \<le> 10 \<and>
           length buf' = length buf \<and> drop n buf' = drop n buf \<and>
           (\<forall>bufsize. int n \<le> bufsize \<longrightarrow> varint_decode buf' bufsize = Some (int n, v))"
  by (rule varint_exact [OF assms])

theorem varint_roundtrip_witness:
  "\<exists>n buf'. varint_encode 300 (replicate 16 0) = Some (int n, buf') \<and> 1 \<le> n \<and> n \<le> 10 \<and>
     length buf' = 16 \<and> drop n buf' = drop n (replicate 16 0) \<and>
     (\<forall>bufsize. int n \<le> bufsize \<longrightarrow> varint_decode buf' bufsize = Some (int n, 300))"
  using varint_roundtrip [of "replicate 16 0" 300] by simp

text \<open>
  Every signed value strictly between \<open>-2^62\<close> and \<open>2^62\<close> survives \<^verbatim>\<open>tbx_zigzag_encode\<close>
  followed by \<^verbatim>\<open>tbx_zigzag_decode\<close>, in at most ten bytes.
\<close>

lemma zigzag_roundtrip:
  assumes "- (2 ^ 62) < v" "v < 2 ^ 62" "10 \<le> length buf"
  shows "\<exists>n buf'. tbx_zigzag_encode v buf = Some (int n, buf') \<and> 1 \<le> n \<and> n \<le> 10 \<and>
           drop n buf' = drop n buf \<and>
           (\<forall>bufsize. int n \<le> bufsize \<longrightarrow> tbx_zigzag_decode buf' bufsize = Some (int n, v))"
proof -
  define zz where "zz = (word_of_int (if v < 0 then 2 * (- v) - 1 else 2 * v) :: u64)"
  have enc: "tbx_zigzag_encode v buf = varint_encode zz buf"
    using assms(1,2) unfolding tbx_zigzag_encode_def int64_ok_def zz_def by simp
  have "sint (if zz AND 1 \<noteq> 0 then - drop_bit 1 zz - 1 else drop_bit 1 zz) = v"
    using zigzag_halves [OF assms(1,2)] unfolding zz_def .
  then show ?thesis
    using varint_exact [OF assms(3), of zz] unfolding enc tbx_zigzag_decode_def
    by (auto simp del: One_nat_def)
qed

lemma zigzag_roundtrip_witness:
  "\<exists>n buf'. tbx_zigzag_encode (-77) (replicate 16 0) = Some (int n, buf') \<and> 1 \<le> n \<and> n \<le> 10 \<and>
     drop n buf' = drop n (replicate 16 0) \<and>
     (\<forall>bufsize. int n \<le> bufsize \<longrightarrow> tbx_zigzag_decode buf' bufsize = Some (int n, -77))"
  by (rule zigzag_roundtrip) simp_all

text \<open>
  \<^verbatim>\<open>tbx_zigzag_encode\<close> is defined exactly on the open interval between \<open>-2^62\<close> and \<open>2^62\<close>:
  outside of it the product \<^verbatim>\<open>2*value\<close> leaves the \<^verbatim>\<open>int64_t\<close> range, so a quarter of the type at
  either end has no encoding.
\<close>

lemma zigzag_encode_domain:
  assumes "int64_ok v" "10 \<le> length buf"
  shows "tbx_zigzag_encode v buf \<noteq> None \<longleftrightarrow> - (2 ^ 62) < v \<and> v < 2 ^ 62"
proof
  assume "tbx_zigzag_encode v buf \<noteq> None"
  then show "- (2 ^ 62) < v \<and> v < 2 ^ 62"
    by (auto simp: tbx_zigzag_encode_def int64_ok_def split: if_splits)
next
  assume "- (2 ^ 62) < v \<and> v < 2 ^ 62"
  then have "tbx_zigzag_encode v buf
      = varint_encode (word_of_int (if v < 0 then 2 * (- v) - 1 else 2 * v)) buf"
    unfolding tbx_zigzag_encode_def int64_ok_def by simp
  then show "tbx_zigzag_encode v buf \<noteq> None"
    using varint_exact [OF assms(2)] by (metis option.distinct(1))
qed

lemma zigzag_encode_domain_witness:
  "tbx_zigzag_encode (2 ^ 62) (replicate 16 0) = None"
  using zigzag_encode_domain [of "2 ^ 62" "replicate 16 0"] by (simp add: int64_ok_def del: not_None_eq)

end
