(* ===== verification/Tbx_Stack.thy ===== *)
theory Tbx_Stack
  imports Prelude
begin

text \<open>
  \<^verbatim>\<open>src/toolbox/stack.c\<close>: the doubly linked list with a cursor on which the rest of L-Store is
  built. The model is at the level of the pointers: list elements are cells of an explicit store,
  NULL is \<open>None\<close>, and reading or writing through NULL or through a released cell is undefined
  behaviour (\<open>None\<close>). \<open>dll\<close> says that a list of addresses is a well formed doubly linked list,
  \<open>stack_ok\<close> is the invariant of the structure, and \<open>stack_abs\<close> reads the structure as a sequence of
  data pointers with a cursor (\<open>cstack\<close>). Every operation refines its counterpart on \<open>cstack\<close>.
\<close>

section \<open>The store\<close>

type_synonym ptr = "nat option"

record 'd tbx_stack_ele_t =
  ele_data :: "'d option"
  ele_down :: ptr
  ele_up :: ptr

record tbx_stack_t =
  st_top :: ptr
  st_bottom :: ptr
  st_curr :: ptr
  st_n :: int

text \<open>
  \<open>brk\<close> is the next address that \<^verbatim>\<open>malloc\<close> hands out; \<open>freed\<close> records the data pointers given to
  \<^verbatim>\<open>free\<close>, oldest first.
\<close>

record 'd store =
  cells :: "nat \<Rightarrow> 'd tbx_stack_ele_t option"
  brk :: nat
  freed :: "'d list"

definition load :: "'d store \<Rightarrow> nat \<Rightarrow> 'd tbx_stack_ele_t option" where
  "load h a = cells h a"

definition set_down :: "'d store \<Rightarrow> nat \<Rightarrow> ptr \<Rightarrow> 'd store option" where
  "set_down h a p = map_option (\<lambda>e. h\<lparr>cells := (cells h)(a \<mapsto> e\<lparr>ele_down := p\<rparr>)\<rparr>) (cells h a)"

definition set_up :: "'d store \<Rightarrow> nat \<Rightarrow> ptr \<Rightarrow> 'd store option" where
  "set_up h a p = map_option (\<lambda>e. h\<lparr>cells := (cells h)(a \<mapsto> e\<lparr>ele_up := p\<rparr>)\<rparr>) (cells h a)"

definition malloc_ele :: "'d store \<Rightarrow> 'd option \<Rightarrow> nat \<times> 'd store" where
  "malloc_ele h data =
     (brk h, h\<lparr>cells := (cells h)(brk h \<mapsto> \<lparr>ele_data = data, ele_down = None, ele_up = None\<rparr>),
               brk := Suc (brk h)\<rparr>)"

definition free_ele :: "'d store \<Rightarrow> nat \<Rightarrow> 'd store option" where
  "free_ele h a = (case cells h a of None \<Rightarrow> None | Some _ \<Rightarrow> Some (h\<lparr>cells := (cells h)(a := None)\<rparr>))"

definition free_data :: "'d store \<Rightarrow> 'd option \<Rightarrow> 'd store" where
  "free_data h data = (case data of None \<Rightarrow> h | Some d \<Rightarrow> h\<lparr>freed := freed h @ [d]\<rparr>)"

section \<open>The operations of stack.c\<close>

definition tbx_stack_new :: tbx_stack_t where
  "tbx_stack_new = \<lparr>st_top = None, st_bottom = None, st_curr = None, st_n = 0\<rparr>"

definition tbx_stack_get_top :: "tbx_stack_t \<Rightarrow> ptr" where
  "tbx_stack_get_top s = st_top s"

definition tbx_stack_ele_get_down :: "'d store \<Rightarrow> nat \<Rightarrow> ptr option" where
  "tbx_stack_ele_get_down h a = map_option ele_down (load h a)"

text \<open>\<^verbatim>\<open>check_ends\<close> adds \<^verbatim>\<open>MOVE_TOP\<close> (1) and \<^verbatim>\<open>MOVE_BOTTOM\<close> (2); their sum is \<^verbatim>\<open>MOVE_BOTH\<close>.\<close>

definition check_ends :: "tbx_stack_t \<Rightarrow> int" where
  "check_ends s = (let status = 0;
                       status = (if st_curr s = st_top s then status + 1 else status)
                   in if st_curr s = st_bottom s then status + 2 else status)"

definition tbx_stack_count :: "tbx_stack_t \<Rightarrow> int" where
  "tbx_stack_count s = st_n s"

definition tbx_stack_ele_get_data :: "'d store \<Rightarrow> ptr \<Rightarrow> 'd option option" where
  "tbx_stack_ele_get_data h p =
     (case p of None \<Rightarrow> Some None | Some a \<Rightarrow> map_option ele_data (load h a))"

definition set_stack_ele_data :: "'d store \<Rightarrow> ptr \<Rightarrow> 'd option \<Rightarrow> 'd store option" where
  "set_stack_ele_data h p data =
     (case p of
        None \<Rightarrow> Some h
      | Some a \<Rightarrow> map_option (\<lambda>e. h\<lparr>cells := (cells h)(a \<mapsto> e\<lparr>ele_data := data\<rparr>)\<rparr>) (load h a))"

definition tbx_stack_link_push :: "'d store \<Rightarrow> tbx_stack_t \<Rightarrow> nat \<Rightarrow> ('d store \<times> tbx_stack_t) option" where
  "tbx_stack_link_push h s ele = do {
     h \<leftarrow> set_down h ele (st_top s);
     h \<leftarrow> set_up h ele None;
     (h, s) \<leftarrow> (case st_top s of
                  None \<Rightarrow> Some (h, s\<lparr>st_bottom := Some ele\<rparr>)
                | Some t \<Rightarrow> map_option (\<lambda>h. (h, s)) (set_up h t (Some ele)));
     Some (h, s\<lparr>st_top := Some ele, st_curr := Some ele, st_n := st_n s + 1\<rparr>)
   }"

definition tbx_stack_push :: "'d store \<Rightarrow> tbx_stack_t \<Rightarrow> 'd option \<Rightarrow> ('d store \<times> tbx_stack_t) option" where
  "tbx_stack_push h s data = (let (ele, h) = malloc_ele h data in tbx_stack_link_push h s ele)"

definition tbx_stack_get_current_ptr :: "tbx_stack_t \<Rightarrow> ptr" where
  "tbx_stack_get_current_ptr s = (case st_curr s of Some c \<Rightarrow> Some c | None \<Rightarrow> None)"

definition tbx_stack_get_current_data :: "'d store \<Rightarrow> tbx_stack_t \<Rightarrow> 'd option option" where
  "tbx_stack_get_current_data h s =
     (case st_curr s of Some c \<Rightarrow> map_option ele_data (load h c) | None \<Rightarrow> Some None)"

definition tbx_stack_move_to_ptr :: "tbx_stack_t \<Rightarrow> ptr \<Rightarrow> tbx_stack_t" where
  "tbx_stack_move_to_ptr s p = s\<lparr>st_curr := p\<rparr>"

definition tbx_stack_move_to_top :: "tbx_stack_t \<Rightarrow> tbx_stack_t" where
  "tbx_stack_move_to_top s = s\<lparr>st_curr := st_top s\<rparr>"

definition tbx_stack_move_to_bottom :: "tbx_stack_t \<Rightarrow> tbx_stack_t" where
  "tbx_stack_move_to_bottom s = s\<lparr>st_curr := st_bottom s\<rparr>"

definition tbx_stack_move_down :: "'d store \<Rightarrow> tbx_stack_t \<Rightarrow> (int \<times> tbx_stack_t) option" where
  "tbx_stack_move_down h s =
     (case st_curr s of
        Some c \<Rightarrow> map_option (\<lambda>e. (1, s\<lparr>st_curr := ele_down e\<rparr>)) (load h c)
      | None \<Rightarrow> Some (0, s))"

definition tbx_stack_move_up :: "'d store \<Rightarrow> tbx_stack_t \<Rightarrow> (int \<times> tbx_stack_t) option" where
  "tbx_stack_move_up h s =
     (case st_curr s of
        Some c \<Rightarrow> map_option (\<lambda>e. (1, s\<lparr>st_curr := ele_up e\<rparr>)) (load h c)
      | None \<Rightarrow> Some (0, s))"

definition tbx_stack_top_first :: "'d store \<Rightarrow> tbx_stack_t \<Rightarrow> ('d option \<times> tbx_stack_t) option" where
  "tbx_stack_top_first h s =
     (let s = tbx_stack_move_to_top s in map_option (\<lambda>d. (d, s)) (tbx_stack_get_current_data h s))"

definition tbx_stack_bottom_first :: "'d store \<Rightarrow> tbx_stack_t \<Rightarrow> ('d option \<times> tbx_stack_t) option" where
  "tbx_stack_bottom_first h s =
     (let s = tbx_stack_move_to_bottom s in map_option (\<lambda>d. (d, s)) (tbx_stack_get_current_data h s))"

definition tbx_stack_next_down :: "'d store \<Rightarrow> tbx_stack_t \<Rightarrow> ('d option \<times> tbx_stack_t) option" where
  "tbx_stack_next_down h s = do {
     (_, s) \<leftarrow> tbx_stack_move_down h s;
     map_option (\<lambda>d. (d, s)) (tbx_stack_get_current_data h s)
   }"

definition tbx_stack_next_up :: "'d store \<Rightarrow> tbx_stack_t \<Rightarrow> ('d option \<times> tbx_stack_t) option" where
  "tbx_stack_next_up h s = do {
     (_, s) \<leftarrow> tbx_stack_move_up h s;
     map_option (\<lambda>d. (d, s)) (tbx_stack_get_current_data h s)
   }"

definition tbx_stack_link_insert_below ::
  "'d store \<Rightarrow> tbx_stack_t \<Rightarrow> nat \<Rightarrow> (int \<times> 'd store \<times> tbx_stack_t) option" where
  "tbx_stack_link_insert_below h s ele =
     (let move_ends = check_ends s in
      case st_curr s of
        Some c \<Rightarrow> do {
          let s = s\<lparr>st_n := st_n s + 1\<rparr>;
          e \<leftarrow> load h c;
          h \<leftarrow> set_down h ele (ele_down e);
          h \<leftarrow> set_up h ele (Some c);
          e \<leftarrow> load h c;
          h \<leftarrow> (case ele_down e of Some d \<Rightarrow> set_up h d (Some ele) | None \<Rightarrow> Some h);
          h \<leftarrow> set_down h c (Some ele);
          let s = (if move_ends = 1 \<or> move_ends = 3 then s\<lparr>st_top := Some c\<rparr> else s);
          let s = (if move_ends = 2 \<or> move_ends = 3 then s\<lparr>st_bottom := Some ele\<rparr> else s);
          Some (1, h, s\<lparr>st_curr := Some ele\<rparr>)
        }
      | None \<Rightarrow>
          if st_top s \<noteq> None then Some (0, h, s)
          else map_option (\<lambda>(h, s). (1, h, s)) (tbx_stack_link_push h s ele))"

definition tbx_stack_insert_below ::
  "'d store \<Rightarrow> tbx_stack_t \<Rightarrow> 'd option \<Rightarrow> (int \<times> 'd store \<times> tbx_stack_t) option" where
  "tbx_stack_insert_below h s data =
     (let (ele, h) = malloc_ele h data in do {
        (ret, h, s) \<leftarrow> tbx_stack_link_insert_below h s ele;
        h \<leftarrow> (if ret = 0 then free_ele h ele else Some h);
        Some (ret, h, s)
      })"

definition tbx_stack_link_insert_above ::
  "'d store \<Rightarrow> tbx_stack_t \<Rightarrow> nat \<Rightarrow> (int \<times> 'd store \<times> tbx_stack_t) option" where
  "tbx_stack_link_insert_above h s ele =
     (let move_ends = check_ends s in
      case st_curr s of
        Some c \<Rightarrow> do {
          let s = s\<lparr>st_n := st_n s + 1\<rparr>;
          h \<leftarrow> set_down h ele (Some c);
          e \<leftarrow> load h c;
          h \<leftarrow> set_up h ele (ele_up e);
          e \<leftarrow> load h c;
          h \<leftarrow> (case ele_up e of Some u \<Rightarrow> set_down h u (Some ele) | None \<Rightarrow> Some h);
          h \<leftarrow> set_up h c (Some ele);
          let s = (if move_ends = 1 \<or> move_ends = 3 then s\<lparr>st_top := Some ele\<rparr> else s);
          let s = (if move_ends = 2 \<or> move_ends = 3 then s\<lparr>st_bottom := Some c\<rparr> else s);
          Some (1, h, s\<lparr>st_curr := Some ele\<rparr>)
        }
      | None \<Rightarrow>
          if st_top s \<noteq> None then Some (0, h, s)
          else map_option (\<lambda>(h, s). (1, h, s)) (tbx_stack_link_push h s ele))"

definition tbx_stack_insert_above ::
  "'d store \<Rightarrow> tbx_stack_t \<Rightarrow> 'd option \<Rightarrow> (int \<times> 'd store \<times> tbx_stack_t) option" where
  "tbx_stack_insert_above h s data =
     (let (ele, h) = malloc_ele h data in do {
        (ret, h, s) \<leftarrow> tbx_stack_link_insert_above h s ele;
        h \<leftarrow> (if ret = 0 then free_ele h ele else Some h);
        Some (ret, h, s)
      })"

definition tbx_stack_unlink_current ::
  "'d store \<Rightarrow> tbx_stack_t \<Rightarrow> bool \<Rightarrow> (ptr \<times> 'd store \<times> tbx_stack_t) option" where
  "tbx_stack_unlink_current h s mv_up =
     (let move_ends = check_ends s in
      case st_curr s of
        Some ele \<Rightarrow> do {
          let s = s\<lparr>st_n := st_n s - 1\<rparr>;
          e \<leftarrow> load h ele;
          let up = ele_up e;
          let down = ele_down e;
          h \<leftarrow> (case up of Some u \<Rightarrow> set_down h u down | None \<Rightarrow> Some h);
          h \<leftarrow> (case down of Some d \<Rightarrow> set_up h d up | None \<Rightarrow> Some h);
          let s = (if mv_up then s\<lparr>st_curr := up\<rparr> else s\<lparr>st_curr := down\<rparr>);
          let s = (if move_ends = 1 \<or> move_ends = 3 then s\<lparr>st_top := down\<rparr> else s);
          let s = (if move_ends = 2 \<or> move_ends = 3 then s\<lparr>st_bottom := up\<rparr> else s);
          Some (Some ele, h, s)
        }
      | None \<Rightarrow> Some (None, h, s))"

definition tbx_stack_delete_current ::
  "'d store \<Rightarrow> tbx_stack_t \<Rightarrow> bool \<Rightarrow> bool \<Rightarrow> (int \<times> 'd store \<times> tbx_stack_t) option" where
  "tbx_stack_delete_current h s mv_up data_also = do {
     (ele, h, s) \<leftarrow> tbx_stack_unlink_current h s mv_up;
     (case ele of
        Some a \<Rightarrow> do {
          e \<leftarrow> load h a;
          let h = (if data_also then free_data h (ele_data e) else h);
          h \<leftarrow> free_ele h a;
          Some (1, h, s)
        }
      | None \<Rightarrow> Some (0, h, s))
   }"

definition pop_link :: "'d store \<Rightarrow> tbx_stack_t \<Rightarrow> (ptr \<times> 'd store \<times> tbx_stack_t) option" where
  "pop_link h s = tbx_stack_unlink_current h (tbx_stack_move_to_top s) False"

definition tbx_stack_pop :: "'d store \<Rightarrow> tbx_stack_t \<Rightarrow> ('d option \<times> 'd store \<times> tbx_stack_t) option" where
  "tbx_stack_pop h s = do {
     (ele, h, s) \<leftarrow> pop_link h s;
     (case ele of
        None \<Rightarrow> Some (None, h, s)
      | Some a \<Rightarrow> do {
          e \<leftarrow> load h a;
          h \<leftarrow> free_ele h a;
          Some (ele_data e, h, s)
        })
   }"

definition tbx_stack_pop_bottom ::
  "'d store \<Rightarrow> tbx_stack_t \<Rightarrow> ('d option \<times> 'd store \<times> tbx_stack_t) option" where
  "tbx_stack_pop_bottom h s = do {
     let s = tbx_stack_move_to_bottom s;
     data \<leftarrow> tbx_stack_get_current_data h s;
     (_, h, s) \<leftarrow> tbx_stack_delete_current h s True False;
     Some (data, h, s)
   }"

text \<open>The loops of \<^verbatim>\<open>tbx_stack_empty\<close> and \<^verbatim>\<open>tbx_stack_dup\<close> stop at the first NULL data pointer.\<close>

partial_function (option) tbx_stack_empty ::
  "'d store \<Rightarrow> tbx_stack_t \<Rightarrow> bool \<Rightarrow> ('d store \<times> tbx_stack_t) option" where
  "tbx_stack_empty h s data_also = do {
     (r, h, s) \<leftarrow> tbx_stack_pop h s;
     (case r of
        None \<Rightarrow> Some (h, s)
      | Some d \<Rightarrow> tbx_stack_empty (if data_also then free_data h (Some d) else h) s data_also)
   }"

partial_function (option) stack_dup_loop ::
  "'d store \<Rightarrow> tbx_stack_t \<Rightarrow> tbx_stack_t \<Rightarrow> ('d store \<times> tbx_stack_t \<times> tbx_stack_t) option" where
  "stack_dup_loop h new old = do {
     r \<leftarrow> tbx_stack_get_current_data h old;
     (case r of
        None \<Rightarrow> Some (h, new, old)
      | Some d \<Rightarrow> do {
          (h, new) \<leftarrow> tbx_stack_push h new (Some d);
          (_, old) \<leftarrow> tbx_stack_move_up h old;
          stack_dup_loop h new old
        })
   }"

definition tbx_stack_dup ::
  "'d store \<Rightarrow> tbx_stack_t \<Rightarrow> tbx_stack_t \<Rightarrow> ('d store \<times> tbx_stack_t \<times> tbx_stack_t) option" where
  "tbx_stack_dup h new old = stack_dup_loop h new (tbx_stack_move_to_bottom old)"


section \<open>What the stack promises: a sequence with a cursor\<close>

text \<open>
  \<open>items\<close> are the data pointers from top to bottom, \<open>cursor\<close> is the position of the current element
  (\<open>None\<close> when \<^verbatim>\<open>curr\<close> is NULL) and \<open>released\<close> the data pointers that have been freed.
\<close>

record 'd cstack =
  items :: "'d option list"
  cursor :: "nat option"
  released :: "'d list"

definition cs_first :: "'d cstack \<Rightarrow> 'd cstack" where
  "cs_first c = c\<lparr>cursor := (if items c = [] then None else Some 0)\<rparr>"

definition cs_last :: "'d cstack \<Rightarrow> 'd cstack" where
  "cs_last c = c\<lparr>cursor := (if items c = [] then None else Some (length (items c) - 1))\<rparr>"

definition cs_down :: "'d cstack \<Rightarrow> int \<times> 'd cstack" where
  "cs_down c =
     (case cursor c of
        None \<Rightarrow> (0, c)
      | Some i \<Rightarrow> (1, c\<lparr>cursor := (if Suc i < length (items c) then Some (Suc i) else None)\<rparr>))"

definition cs_up :: "'d cstack \<Rightarrow> int \<times> 'd cstack" where
  "cs_up c =
     (case cursor c of
        None \<Rightarrow> (0, c)
      | Some i \<Rightarrow> (1, c\<lparr>cursor := (if i = 0 then None else Some (i - 1))\<rparr>))"

definition cs_data :: "'d cstack \<Rightarrow> 'd option" where
  "cs_data c = (case cursor c of None \<Rightarrow> None | Some i \<Rightarrow> items c ! i)"

definition cs_push :: "'d option \<Rightarrow> 'd cstack \<Rightarrow> 'd cstack" where
  "cs_push d c = c\<lparr>items := d # items c, cursor := Some 0\<rparr>"

definition cs_insert :: "nat \<Rightarrow> 'd option \<Rightarrow> 'd cstack \<Rightarrow> int \<times> 'd cstack" where
  "cs_insert off d c =
     (case cursor c of
        Some i \<Rightarrow> (1, c\<lparr>items := take (i + off) (items c) @ [d] @ drop (i + off) (items c),
                         cursor := Some (i + off)\<rparr>)
      | None \<Rightarrow> if items c \<noteq> [] then (0, c) else (1, cs_push d c))"

definition cs_delete :: "bool \<Rightarrow> bool \<Rightarrow> 'd cstack \<Rightarrow> int \<times> 'd cstack" where
  "cs_delete mv_up data_also c =
     (case cursor c of
        None \<Rightarrow> (0, c)
      | Some i \<Rightarrow>
          (let xs = take i (items c) @ drop (Suc i) (items c) in
           (1, c\<lparr>items := xs,
                 cursor := (if mv_up then (if i = 0 then None else Some (i - 1))
                            else (if i < length xs then Some i else None)),
                 released := (case items c ! i of
                                None \<Rightarrow> released c
                              | Some d \<Rightarrow> if data_also then released c @ [d] else released c)\<rparr>)))"

section \<open>Operations as steps\<close>

datatype 'd stack_op =
    Push "'d option" | Pop | PopBottom
  | InsertBelow "'d option" | InsertAbove "'d option" | DeleteCurrent bool bool
  | MoveToTop | MoveToBottom | MoveDown | MoveUp | GetData | Count
  | TopFirst | BottomFirst | NextDown | NextUp

datatype 'd stack_res = Done | RInt int | RData "'d option"

fun stack_step :: "'d stack_op \<Rightarrow> 'd store \<times> tbx_stack_t \<Rightarrow> ('d stack_res \<times> 'd store \<times> tbx_stack_t) option" where
  "stack_step (Push d) (h, s) = map_option (\<lambda>q. (Done, q)) (tbx_stack_push h s d)"
| "stack_step Pop (h, s) = map_option (\<lambda>(r, q). (RData r, q)) (tbx_stack_pop h s)"
| "stack_step PopBottom (h, s) = map_option (\<lambda>(r, q). (RData r, q)) (tbx_stack_pop_bottom h s)"
| "stack_step (InsertBelow d) (h, s) = map_option (\<lambda>(r, q). (RInt r, q)) (tbx_stack_insert_below h s d)"
| "stack_step (InsertAbove d) (h, s) = map_option (\<lambda>(r, q). (RInt r, q)) (tbx_stack_insert_above h s d)"
| "stack_step (DeleteCurrent u f) (h, s) = map_option (\<lambda>(r, q). (RInt r, q)) (tbx_stack_delete_current h s u f)"
| "stack_step MoveToTop (h, s) = Some (RInt 1, h, tbx_stack_move_to_top s)"
| "stack_step MoveToBottom (h, s) = Some (RInt 1, h, tbx_stack_move_to_bottom s)"
| "stack_step MoveDown (h, s) = map_option (\<lambda>(r, s). (RInt r, h, s)) (tbx_stack_move_down h s)"
| "stack_step MoveUp (h, s) = map_option (\<lambda>(r, s). (RInt r, h, s)) (tbx_stack_move_up h s)"
| "stack_step GetData (h, s) = map_option (\<lambda>r. (RData r, h, s)) (tbx_stack_get_current_data h s)"
| "stack_step Count (h, s) = Some (RInt (tbx_stack_count s), h, s)"
| "stack_step TopFirst (h, s) = map_option (\<lambda>(r, s). (RData r, h, s)) (tbx_stack_top_first h s)"
| "stack_step BottomFirst (h, s) = map_option (\<lambda>(r, s). (RData r, h, s)) (tbx_stack_bottom_first h s)"
| "stack_step NextDown (h, s) = map_option (\<lambda>(r, s). (RData r, h, s)) (tbx_stack_next_down h s)"
| "stack_step NextUp (h, s) = map_option (\<lambda>(r, s). (RData r, h, s)) (tbx_stack_next_up h s)"

fun cs_step :: "'d stack_op \<Rightarrow> 'd cstack \<Rightarrow> ('d stack_res \<times> 'd cstack) option" where
  "cs_step (Push d) c = Some (Done, cs_push d c)"
| "cs_step Pop c = Some (RData (cs_data (cs_first c)), snd (cs_delete False False (cs_first c)))"
| "cs_step PopBottom c = Some (RData (cs_data (cs_last c)), snd (cs_delete True False (cs_last c)))"
| "cs_step (InsertBelow d) c = Some (apfst RInt (cs_insert 1 d c))"
| "cs_step (InsertAbove d) c = Some (apfst RInt (cs_insert 0 d c))"
| "cs_step (DeleteCurrent u f) c = Some (apfst RInt (cs_delete u f c))"
| "cs_step MoveToTop c = Some (RInt 1, cs_first c)"
| "cs_step MoveToBottom c = Some (RInt 1, cs_last c)"
| "cs_step MoveDown c = Some (apfst RInt (cs_down c))"
| "cs_step MoveUp c = Some (apfst RInt (cs_up c))"
| "cs_step GetData c = Some (RData (cs_data c), c)"
| "cs_step Count c = Some (RInt (int (length (items c))), c)"
| "cs_step TopFirst c = Some (RData (cs_data (cs_first c)), cs_first c)"
| "cs_step BottomFirst c = Some (RData (cs_data (cs_last c)), cs_last c)"
| "cs_step NextDown c = Some (RData (cs_data (snd (cs_down c))), snd (cs_down c))"
| "cs_step NextUp c = Some (RData (cs_data (snd (cs_up c))), snd (cs_up c))"

section \<open>Well formed lists in the store\<close>

text \<open>\<open>dll h u ps d\<close>: the addresses \<open>ps\<close> are linked in order, with \<open>u\<close> above the first and \<open>d\<close> below the last.\<close>

fun dll :: "'d store \<Rightarrow> ptr \<Rightarrow> nat list \<Rightarrow> ptr \<Rightarrow> bool" where
  "dll h u [] d = True"
| "dll h u (p # ps) d =
     (case cells h p of
        None \<Rightarrow> False
      | Some e \<Rightarrow> ele_up e = u \<and> ele_down e = (case ps of [] \<Rightarrow> d | q # _ \<Rightarrow> Some q) \<and> dll h (Some p) ps d)"

definition hd_ptr :: "nat list \<Rightarrow> ptr \<Rightarrow> ptr" where
  "hd_ptr ps d = (case ps of [] \<Rightarrow> d | p # _ \<Rightarrow> Some p)"

definition last_ptr :: "nat list \<Rightarrow> ptr \<Rightarrow> ptr" where
  "last_ptr ps u = (if ps = [] then u else Some (last ps))"

definition stack_rep :: "'d store \<Rightarrow> tbx_stack_t \<Rightarrow> nat list \<Rightarrow> bool" where
  "stack_rep h s ps \<longleftrightarrow>
     dll h None ps None \<and> distinct ps \<and> st_top s = hd_ptr ps None \<and> st_bottom s = last_ptr ps None \<and>
     st_n s = int (length ps) \<and> (\<forall>c. st_curr s = Some c \<longrightarrow> c \<in> set ps) \<and> (\<forall>a \<in> set ps. a < brk h)"

fun stack_walk :: "nat \<Rightarrow> 'd store \<Rightarrow> ptr \<Rightarrow> nat list" where
  "stack_walk 0 h p = []"
| "stack_walk (Suc n) h None = []"
| "stack_walk (Suc n) h (Some a) =
     a # (case cells h a of None \<Rightarrow> [] | Some e \<Rightarrow> stack_walk n h (ele_down e))"

definition stack_addrs :: "'d store \<times> tbx_stack_t \<Rightarrow> nat list" where
  "stack_addrs q = stack_walk (nat (st_n (snd q))) (fst q) (st_top (snd q))"

definition stack_ok :: "'d store \<times> tbx_stack_t \<Rightarrow> bool" where
  "stack_ok q = stack_rep (fst q) (snd q) (stack_addrs q)"

definition data_at :: "'d store \<Rightarrow> nat \<Rightarrow> 'd option" where
  "data_at h a = (case cells h a of None \<Rightarrow> None | Some e \<Rightarrow> ele_data e)"

definition pos_of :: "nat \<Rightarrow> nat list \<Rightarrow> nat" where
  "pos_of a ps = length (takeWhile (\<lambda>x. x \<noteq> a) ps)"

definition rep_abs :: "'d store \<Rightarrow> tbx_stack_t \<Rightarrow> nat list \<Rightarrow> 'd cstack" where
  "rep_abs h s ps =
     \<lparr>items = map (data_at h) ps,
      cursor = map_option (\<lambda>c. pos_of c ps) (st_curr s),
      released = freed h\<rparr>"

definition stack_abs :: "'d store \<times> tbx_stack_t \<Rightarrow> 'd cstack" where
  "stack_abs q = rep_abs (fst q) (snd q) (stack_addrs q)"

text \<open>
  The outcome of an operation on the list at \<open>ps\<close>: the new structure is well formed and stands for
  \<open>c\<close>, no cell of the old store outside of \<open>ps\<close> has changed, and the new list uses only old cells of
  \<open>ps\<close> and freshly allocated ones.
\<close>

definition stack_outcome :: "'d store \<Rightarrow> nat list \<Rightarrow> 'd store \<Rightarrow> tbx_stack_t \<Rightarrow> 'd cstack \<Rightarrow> bool" where
  "stack_outcome h ps h' s' c \<longleftrightarrow>
     (\<exists>ps'. stack_rep h' s' ps' \<and> rep_abs h' s' ps' = c \<and> set ps' \<subseteq> set ps \<union> {brk h..<brk h'}) \<and>
     brk h \<le> brk h' \<and> (\<forall>a. a \<notin> set ps \<and> a < brk h \<longrightarrow> cells h' a = cells h a)"

text \<open>Example stacks and operations.\<close>

definition demo_ops :: "nat stack_op list" where
  "demo_ops = [Push (Some 1), InsertBelow (Some 2), InsertAbove (Some 3), MoveToTop, MoveDown,
               DeleteCurrent True True, PopBottom, Count]"

definition demo_cell :: "ptr \<Rightarrow> nat \<Rightarrow> ptr \<Rightarrow> nat tbx_stack_ele_t" where
  "demo_cell u d l = \<lparr>ele_data = Some d, ele_down = l, ele_up = u\<rparr>"

definition demo_store :: "nat store" where
  "demo_store = \<lparr>cells = [4 \<mapsto> demo_cell None 10 (Some 5), 5 \<mapsto> demo_cell (Some 4) 11 None, 6 \<mapsto> demo_cell None 12 None],
                 brk = 7, freed = []\<rparr>"

definition demo_stack :: "nat \<Rightarrow> nat \<Rightarrow> int \<Rightarrow> tbx_stack_t" where
  "demo_stack t b n = \<lparr>st_top = Some t, st_bottom = Some b, st_curr = Some b, st_n = n\<rparr>"

section \<open>Facts on linked lists\<close>

lemma hd_ptr_simps [simp]: "hd_ptr [] d = d" "hd_ptr (p # ps) d = Some p"
  by (simp_all add: hd_ptr_def)

lemma last_ptr_simps [simp]:
  "last_ptr [] u = u" "last_ptr (xs @ [p]) u = Some p" "last_ptr (p # ps) u = last_ptr ps (Some p)"
  by (simp_all add: last_ptr_def)

lemma dll_Cons [simp]:
  "dll h u (p # ps) d \<longleftrightarrow>
     (\<exists>e. cells h p = Some e \<and> ele_up e = u \<and> ele_down e = hd_ptr ps d \<and> dll h (Some p) ps d)"
  by (cases ps) (auto simp: hd_ptr_def split: option.splits)

declare dll.simps(2) [simp del]

lemma hd_ptr_append [simp]: "hd_ptr (xs @ ys) d = hd_ptr xs (hd_ptr ys d)"
  by (cases xs) simp_all

lemma last_ptr_append [simp]: "last_ptr (xs @ ys) u = last_ptr ys (last_ptr xs u)"
  by (simp add: last_ptr_def)

lemma dll_append [simp]:
  "dll h u (xs @ ys) d \<longleftrightarrow> dll h u xs (hd_ptr ys d) \<and> dll h (last_ptr xs u) ys d"
  by (induction xs arbitrary: u) auto

lemma dll_cong:
  "(\<And>a. a \<in> set ps \<Longrightarrow> cells h' a = cells h a) \<Longrightarrow> dll h' u ps d = dll h u ps d"
  by (induction ps arbitrary: u) auto

lemma dll_allocated: "dll h u ps d \<Longrightarrow> a \<in> set ps \<Longrightarrow> cells h a \<noteq> None"
  by (induction ps arbitrary: u) auto

lemma stack_walk_dll: "dll h u ps None \<Longrightarrow> stack_walk (length ps) h (hd_ptr ps None) = ps"
  by (induction ps arbitrary: u) auto

lemma stack_rep_addrs: "stack_rep h s ps \<Longrightarrow> stack_addrs (h, s) = ps"
  using stack_walk_dll by (force simp: stack_rep_def stack_addrs_def)

lemma stack_repI:
  "stack_rep h s ps \<Longrightarrow> stack_ok (h, s) \<and> stack_abs (h, s) = rep_abs h s ps"
  by (simp add: stack_rep_addrs stack_ok_def stack_abs_def)

lemma pos_of_split [simp]: "c \<notin> set xs \<Longrightarrow> pos_of c (xs @ c # ys) = length xs"
  by (simp add: pos_of_def takeWhile_tail) (metis (mono_tags, lifting) takeWhile_eq_all_conv)

section \<open>Effect of each operation\<close>

lemma set_link_simps [simp]:
  "cells h a = Some e \<Longrightarrow> set_down h a p = Some (h\<lparr>cells := (cells h)(a \<mapsto> e\<lparr>ele_down := p\<rparr>)\<rparr>)"
  "cells h a = Some e \<Longrightarrow> set_up h a p = Some (h\<lparr>cells := (cells h)(a \<mapsto> e\<lparr>ele_up := p\<rparr>)\<rparr>)"
  "cells h a = Some e \<Longrightarrow> load h a = Some e"
  by (simp_all add: set_down_def set_up_def load_def)

text \<open>Writing a cell outside of a list segment does not disturb the segment.\<close>

lemma dll_upd [simp]:
  "a \<notin> set ps \<Longrightarrow> dll (h\<lparr>cells := f(a := v)\<rparr>) u ps d = dll (h\<lparr>cells := f\<rparr>) u ps d"
  by (rule dll_cong) auto

lemma dll_brk [simp]: "dll (h\<lparr>brk := n\<rparr>) u ps d = dll h u ps d" "dll (h\<lparr>freed := f\<rparr>) u ps d = dll h u ps d"
  by (rule dll_cong; simp)+

lemma last_ptr_in: "last_ptr xs None = Some a \<Longrightarrow> a \<in> set xs"
  by (auto simp: last_ptr_def split: if_splits)

lemma hd_ptr_in: "hd_ptr xs None = Some a \<Longrightarrow> a \<in> set xs"
  by (cases xs) auto

lemma check_ends_split:
  assumes rep: "stack_rep h s (xs @ c # ys)" and curr: "st_curr s = Some c"
  shows "check_ends s = (if xs = [] then 1 else 0) + (if ys = [] then 2 else 0)"
proof -
  have "(st_curr s = st_top s) = (xs = [])" "(st_curr s = st_bottom s) = (ys = [])"
    using rep curr by (cases xs; cases ys rule: rev_cases; auto simp: stack_rep_def last_ptr_def)+
  then show ?thesis by (simp add: check_ends_def)
qed

lemma unlink_split:
  assumes rep: "stack_rep h s (xs @ c # ys)" and curr: "st_curr s = Some c"
  shows "\<exists>h' s'. tbx_stack_unlink_current h s mv_up = Some (Some c, h', s') \<and> stack_rep h' s' (xs @ ys) \<and>
           (\<forall>a. data_at h' a = data_at h a) \<and> freed h' = freed h \<and> brk h' = brk h \<and> cells h' c = cells h c \<and>
           (\<forall>a. a \<notin> set (xs @ ys) \<longrightarrow> cells h' a = cells h a) \<and>
           st_curr s' = (if mv_up then last_ptr xs None else hd_ptr ys None)"
proof -
  have ends: "check_ends s = (if xs = [] then 1 else 0) + (if ys = [] then 2 else 0)"
    using check_ends_split [OF rep curr] .
  show ?thesis
    using rep curr
    by (cases xs rule: rev_cases; cases ys)
      (auto simp: tbx_stack_unlink_current_def Let_def ends stack_rep_def data_at_def dest!: last_ptr_in hd_ptr_in)
qed

lemma push_split:
  assumes "stack_rep h s ps" "cells h ele = Some e" "ele \<notin> set ps" "ele < brk h"
  shows "\<exists>h' s'. tbx_stack_link_push h s ele = Some (h', s') \<and> stack_rep h' s' (ele # ps) \<and>
           (\<forall>a. data_at h' a = data_at h a) \<and> freed h' = freed h \<and> brk h' = brk h \<and>
           (\<forall>a. a \<notin> set (ele # ps) \<longrightarrow> cells h' a = cells h a) \<and> st_curr s' = Some ele"
  using assms
  by (cases ps) (auto simp: tbx_stack_link_push_def stack_rep_def data_at_def)

lemma insert_below_split:
  assumes rep: "stack_rep h s (xs @ c # ys)" and curr: "st_curr s = Some c"
    and fresh: "cells h ele = Some e" "ele \<notin> set (xs @ c # ys)" "ele < brk h"
  shows "\<exists>h' s'. tbx_stack_link_insert_below h s ele = Some (1, h', s') \<and>
           stack_rep h' s' (xs @ c # ele # ys) \<and>
           (\<forall>a. data_at h' a = data_at h a) \<and> freed h' = freed h \<and> brk h' = brk h \<and>
           (\<forall>a. a \<notin> set (xs @ c # ele # ys) \<longrightarrow> cells h' a = cells h a) \<and> st_curr s' = Some ele"
proof -
  have ends: "check_ends s = (if xs = [] then 1 else 0) + (if ys = [] then 2 else 0)"
    using check_ends_split [OF rep curr] .
  show ?thesis
    using rep curr fresh
    by (cases xs rule: rev_cases; cases ys)
      (auto simp: tbx_stack_link_insert_below_def Let_def ends stack_rep_def data_at_def)
qed

lemma insert_above_split:
  assumes rep: "stack_rep h s (xs @ c # ys)" and curr: "st_curr s = Some c"
    and fresh: "cells h ele = Some e" "ele \<notin> set (xs @ c # ys)" "ele < brk h"
  shows "\<exists>h' s'. tbx_stack_link_insert_above h s ele = Some (1, h', s') \<and>
           stack_rep h' s' (xs @ ele # c # ys) \<and>
           (\<forall>a. data_at h' a = data_at h a) \<and> freed h' = freed h \<and> brk h' = brk h \<and>
           (\<forall>a. a \<notin> set (xs @ ele # c # ys) \<longrightarrow> cells h' a = cells h a) \<and> st_curr s' = Some ele"
proof -
  have ends: "check_ends s = (if xs = [] then 1 else 0) + (if ys = [] then 2 else 0)"
    using check_ends_split [OF rep curr] .
  show ?thesis
    using rep curr fresh
    by (cases xs rule: rev_cases; cases ys)
      (auto simp: tbx_stack_link_insert_above_def Let_def ends stack_rep_def data_at_def)
qed

lemma stack_rep_split:
  assumes "stack_rep h s ps" "st_curr s = Some c"
  obtains xs ys where "ps = xs @ c # ys" "c \<notin> set xs" "c \<notin> set ys"
  using assms by (auto simp: stack_rep_def dest!: split_list)

lemma stack_rep_empty_curr: "stack_rep h s [] \<Longrightarrow> st_curr s = None \<and> st_top s = None"
  by (cases "st_curr s") (auto simp: stack_rep_def)

lemma stack_rep_cell: "stack_rep h s ps \<Longrightarrow> a \<in> set ps \<Longrightarrow> \<exists>e. cells h a = Some e"
  using dll_allocated by (force simp: stack_rep_def)

text \<open>A fresh cell is not on any list whose addresses are below \<open>brk\<close>.\<close>

lemma malloc_rep:
  assumes "stack_rep h s ps" "malloc_ele h d = (ele, h1)"
  shows "stack_rep h1 s ps" "cells h1 ele = Some \<lparr>ele_data = d, ele_down = None, ele_up = None\<rparr>"
    "ele \<notin> set ps" "ele < brk h1" "data_at h1 ele = d" "freed h1 = freed h" "ele = brk h"
    "\<forall>a \<in> set ps. data_at h1 a = data_at h a" "\<forall>a. a \<noteq> ele \<longrightarrow> cells h1 a = cells h a"
proof -
  have h1: "h1 = h\<lparr>cells := (cells h)(brk h \<mapsto> \<lparr>ele_data = d, ele_down = None, ele_up = None\<rparr>),
                    brk := Suc (brk h)\<rparr>" and ele: "ele = brk h"
    using assms(2) by (auto simp: malloc_ele_def)
  have nb: "brk h \<notin> set ps"
    using assms(1) by (auto simp: stack_rep_def)
  show "stack_rep h1 s ps"
    using assms(1) nb unfolding h1 stack_rep_def by (auto simp: less_SucI)
  show "cells h1 ele = Some \<lparr>ele_data = d, ele_down = None, ele_up = None\<rparr>" "ele < brk h1"
    "data_at h1 ele = d" "freed h1 = freed h" "ele \<notin> set ps" "ele = brk h"
    "\<forall>a. a \<noteq> ele \<longrightarrow> cells h1 a = cells h a"
    using nb by (simp_all add: h1 ele data_at_def)
  show "\<forall>a \<in> set ps. data_at h1 a = data_at h a"
    using nb by (auto simp: h1 data_at_def)
qed


lemma stack_outcomeI:
  "stack_rep h' s' ps' \<Longrightarrow> rep_abs h' s' ps' = c \<Longrightarrow> set ps' \<subseteq> set ps \<union> {brk h..<brk h'} \<Longrightarrow>
   brk h \<le> brk h' \<Longrightarrow> (\<And>a. a \<notin> set ps \<Longrightarrow> a < brk h \<Longrightarrow> cells h' a = cells h a) \<Longrightarrow>
   stack_outcome h ps h' s' c"
  by (auto simp: stack_outcome_def)

lemma pos_of_append2: "c \<notin> set xs \<Longrightarrow> pos_of c (xs @ ys) = length xs + pos_of c ys"
  by (induction xs) (auto simp: pos_of_def)

lemma pos_of_Cons [simp]: "pos_of c (p # ps) = (if p = c then 0 else Suc (pos_of c ps))"
  by (simp add: pos_of_def)

lemma move_outcome:
  assumes "stack_rep h s ps" "\<And>c. p = Some c \<Longrightarrow> c \<in> set ps"
  shows "stack_outcome h ps h (s\<lparr>st_curr := p\<rparr>)
           ((rep_abs h s ps)\<lparr>cursor := map_option (\<lambda>c. pos_of c ps) p\<rparr>)"
  using assms by (intro stack_outcomeI [of _ _ ps]) (auto simp: stack_rep_def rep_abs_def)

lemma same_outcome: "stack_rep h s ps \<Longrightarrow> stack_outcome h ps h s (rep_abs h s ps)"
  by (rule stack_outcomeI [of _ _ ps]) auto

lemma to_top_outcome:
  assumes rep: "stack_rep h s ps"
  shows "stack_outcome h ps h (tbx_stack_move_to_top s) (cs_first (rep_abs h s ps))"
  using move_outcome [OF rep, of "st_top s"] rep
  by (cases ps) (auto simp: tbx_stack_move_to_top_def cs_first_def rep_abs_def stack_rep_def)

lemma pos_of_last: "distinct ps \<Longrightarrow> ps \<noteq> [] \<Longrightarrow> pos_of (last ps) ps = length ps - 1"
  by (cases ps rule: rev_cases) (auto simp: pos_of_append2)

lemma to_bottom_outcome:
  assumes rep: "stack_rep h s ps"
  shows "stack_outcome h ps h (tbx_stack_move_to_bottom s) (cs_last (rep_abs h s ps))"
  using move_outcome [OF rep, of "st_bottom s"] rep
  by (cases "ps = []")
    (auto simp: tbx_stack_move_to_bottom_def cs_last_def rep_abs_def stack_rep_def last_ptr_def pos_of_last)

lemma down_outcome:
  assumes rep: "stack_rep h s ps"
  shows "\<exists>r s'. tbx_stack_move_down h s = Some (r, s') \<and> r = fst (cs_down (rep_abs h s ps)) \<and>
           stack_outcome h ps h s' (snd (cs_down (rep_abs h s ps)))"
proof (cases "st_curr s")
  case None
  then show ?thesis
    using same_outcome [OF rep]
    by (auto simp: tbx_stack_move_down_def cs_down_def rep_abs_def)
next
  case (Some c)
  with rep obtain xs ys where ps: "ps = xs @ c # ys" "c \<notin> set xs" "c \<notin> set ys"
    by (rule stack_rep_split)
  from rep ps obtain e where e: "cells h c = Some e" "ele_down e = hd_ptr ys None"
    by (auto simp: stack_rep_def)
  show ?thesis
    using move_outcome [OF rep, of "hd_ptr ys None"] rep e Some ps
    by (cases ys) (auto simp: tbx_stack_move_down_def cs_down_def rep_abs_def stack_rep_def pos_of_append2)
qed

lemma up_outcome:
  assumes rep: "stack_rep h s ps"
  shows "\<exists>r s'. tbx_stack_move_up h s = Some (r, s') \<and> r = fst (cs_up (rep_abs h s ps)) \<and>
           stack_outcome h ps h s' (snd (cs_up (rep_abs h s ps)))"
proof (cases "st_curr s")
  case None
  then show ?thesis
    using same_outcome [OF rep]
    by (auto simp: tbx_stack_move_up_def cs_up_def rep_abs_def)
next
  case (Some c)
  with rep obtain xs ys where ps: "ps = xs @ c # ys" "c \<notin> set xs" "c \<notin> set ys"
    by (rule stack_rep_split)
  from rep ps obtain e where e: "cells h c = Some e" "ele_up e = last_ptr xs None"
    by (auto simp: stack_rep_def)
  show ?thesis
    using move_outcome [OF rep, of "last_ptr xs None"] rep e Some ps
    by (cases xs rule: rev_cases)
      (auto simp: tbx_stack_move_up_def cs_up_def rep_abs_def stack_rep_def pos_of_append2)
qed

lemma data_outcome:
  assumes rep: "stack_rep h s ps"
  shows "tbx_stack_get_current_data h s = Some (cs_data (rep_abs h s ps))"
proof (cases "st_curr s")
  case None
  then show ?thesis by (simp add: tbx_stack_get_current_data_def cs_data_def rep_abs_def)
next
  case (Some c)
  with rep obtain xs ys where ps: "ps = xs @ c # ys" "c \<notin> set xs" "c \<notin> set ys"
    by (rule stack_rep_split)
  with rep Some show ?thesis
    by (auto simp: tbx_stack_get_current_data_def cs_data_def rep_abs_def stack_rep_def nth_append data_at_def)
qed

lemma push_outcome:
  assumes rep: "stack_rep h s ps"
  shows "\<exists>h' s'. tbx_stack_push h s d = Some (h', s') \<and> stack_outcome h ps h' s' (cs_push d (rep_abs h s ps))"
proof -
  obtain ele h1 where m: "malloc_ele h d = (ele, h1)" by (cases "malloc_ele h d")
  note fresh = malloc_rep [OF rep m]
  obtain h' s' where p: "tbx_stack_link_push h1 s ele = Some (h', s')" "stack_rep h' s' (ele # ps)"
    "\<forall>a. data_at h' a = data_at h1 a" "freed h' = freed h1" "brk h' = brk h1"
    "\<forall>a. a \<notin> set (ele # ps) \<longrightarrow> cells h' a = cells h1 a" "st_curr s' = Some ele"
    using push_split [OF fresh(1-4)] by blast
  have "brk h1 = Suc (brk h)" using m by (auto simp: malloc_ele_def)
  moreover have "rep_abs h' s' (ele # ps) = cs_push d (rep_abs h s ps)"
    using p fresh by (auto simp: rep_abs_def cs_push_def)
  ultimately have "stack_outcome h ps h' s' (cs_push d (rep_abs h s ps))"
    using p fresh(7,9) by (intro stack_outcomeI [of _ _ "ele # ps"]) auto
  with p(1) m show ?thesis by (auto simp: tbx_stack_push_def)
qed

text \<open>Both insertions, for the position \<open>off\<close> (0 above, 1 below) of the new element.\<close>

lemma inserted_outcome:
  assumes rep: "stack_rep h s (xs @ c # ys)" "c \<notin> set xs" "st_curr s = Some c"
    and m: "malloc_ele h d = (ele, h1)"
    and ps': "ps' = (if off = 0 then xs @ ele # c # ys else xs @ c # ele # ys)" "off \<le> 1"
    and p: "stack_rep h' s' ps'" "\<forall>a. data_at h' a = data_at h1 a" "freed h' = freed h1" "brk h' = brk h1"
      "\<forall>a. a \<notin> set ps' \<longrightarrow> cells h' a = cells h1 a" "st_curr s' = Some ele"
  shows "stack_outcome h (xs @ c # ys) h' s' (snd (cs_insert off d (rep_abs h s (xs @ c # ys))))"
proof -
  note fresh = malloc_rep [OF rep(1) m]
  have brk: "brk h1 = Suc (brk h)" using m by (auto simp: malloc_ele_def)
  have "map (data_at h') xs = map (data_at h) xs" "map (data_at h') ys = map (data_at h) ys"
    "data_at h' c = data_at h c"
    using p(2) fresh(8) by auto
  moreover have "off = 0 \<or> off = 1" using ps'(2) by auto
  ultimately have "rep_abs h' s' ps' = snd (cs_insert off d (rep_abs h s (xs @ c # ys)))"
    using p fresh rep(2,3) ps'(1) by (auto simp: rep_abs_def cs_insert_def pos_of_append2)
  then show ?thesis
    using p fresh(7,9) brk ps'(1) by (intro stack_outcomeI [of _ _ ps']) (auto split: if_splits)
qed

lemma insert_none_outcome:
  assumes rep: "stack_rep h s ps" and curr: "st_curr s = None" and ne: "ps \<noteq> []"
    and m: "malloc_ele h d = (ele, h1)"
  shows "\<exists>h'. free_ele h1 ele = Some h' \<and> stack_outcome h ps h' s (rep_abs h s ps)"
proof -
  note fresh = malloc_rep [OF rep m]
  have brk: "brk h1 = Suc (brk h)" using m by (auto simp: malloc_ele_def)
  let ?h' = "h1\<lparr>cells := (cells h1)(ele := None)\<rparr>"
  have "free_ele h1 ele = Some ?h'" using fresh(2) by (simp add: free_ele_def)
  moreover have "stack_rep ?h' s ps"
    using fresh(1,3) by (simp add: stack_rep_def)
  moreover have "rep_abs ?h' s ps = rep_abs h s ps"
    using fresh(3,6,8) curr by (auto simp: rep_abs_def data_at_def)
  ultimately show ?thesis
    using fresh(7,9) brk by (auto intro!: stack_outcomeI [of _ _ ps])
qed

lemma insert_below_outcome:
  assumes rep: "stack_rep h s ps"
  shows "\<exists>r h' s'. tbx_stack_insert_below h s d = Some (r, h', s') \<and>
           r = fst (cs_insert 1 d (rep_abs h s ps)) \<and> stack_outcome h ps h' s' (snd (cs_insert 1 d (rep_abs h s ps)))"
proof -
  obtain ele h1 where m: "malloc_ele h d = (ele, h1)" by (cases "malloc_ele h d")
  note fresh = malloc_rep [OF rep m]
  show ?thesis
  proof (cases "st_curr s")
    case (Some c)
    with rep obtain xs ys where ps: "ps = xs @ c # ys" "c \<notin> set xs" "c \<notin> set ys"
      by (rule stack_rep_split)
    obtain h' s' where p: "tbx_stack_link_insert_below h1 s ele = Some (1, h', s')"
      "stack_rep h' s' (xs @ c # ele # ys)" "\<forall>a. data_at h' a = data_at h1 a" "freed h' = freed h1"
      "brk h' = brk h1" "\<forall>a. a \<notin> set (xs @ c # ele # ys) \<longrightarrow> cells h' a = cells h1 a" "st_curr s' = Some ele"
      using insert_below_split [OF fresh(1) [unfolded ps(1)] Some fresh(2-4) [unfolded ps(1)]] by blast
    have "stack_outcome h ps h' s' (snd (cs_insert 1 d (rep_abs h s ps)))"
      unfolding ps(1)
      by (rule inserted_outcome [OF rep [unfolded ps(1)] ps(2) Some m _ _ p(2-7)]) simp_all
    with p(1) m Some show ?thesis
      by (simp add: tbx_stack_insert_below_def cs_insert_def rep_abs_def)
  next
    case None
    show ?thesis
    proof (cases "ps = []")
      case True
      obtain h' s' where "tbx_stack_push h s d = Some (h', s')" "stack_outcome h ps h' s' (cs_push d (rep_abs h s ps))"
        using push_outcome [OF rep] by blast
      moreover have "st_top s = None" using rep True by (simp add: stack_rep_def)
      ultimately show ?thesis
        using None m True by (simp add: tbx_stack_insert_below_def tbx_stack_link_insert_below_def
            tbx_stack_push_def cs_insert_def rep_abs_def)
    next
      case False
      then obtain t where "st_top s = Some t" using rep by (cases ps) (auto simp: stack_rep_def)
      with False None m insert_none_outcome [OF rep None False m] show ?thesis
        by (auto simp: tbx_stack_insert_below_def tbx_stack_link_insert_below_def cs_insert_def rep_abs_def)
    qed
  qed
qed

lemma insert_above_outcome:
  assumes rep: "stack_rep h s ps"
  shows "\<exists>r h' s'. tbx_stack_insert_above h s d = Some (r, h', s') \<and>
           r = fst (cs_insert 0 d (rep_abs h s ps)) \<and> stack_outcome h ps h' s' (snd (cs_insert 0 d (rep_abs h s ps)))"
proof -
  obtain ele h1 where m: "malloc_ele h d = (ele, h1)" by (cases "malloc_ele h d")
  note fresh = malloc_rep [OF rep m]
  show ?thesis
  proof (cases "st_curr s")
    case (Some c)
    with rep obtain xs ys where ps: "ps = xs @ c # ys" "c \<notin> set xs" "c \<notin> set ys"
      by (rule stack_rep_split)
    obtain h' s' where p: "tbx_stack_link_insert_above h1 s ele = Some (1, h', s')"
      "stack_rep h' s' (xs @ ele # c # ys)" "\<forall>a. data_at h' a = data_at h1 a" "freed h' = freed h1"
      "brk h' = brk h1" "\<forall>a. a \<notin> set (xs @ ele # c # ys) \<longrightarrow> cells h' a = cells h1 a" "st_curr s' = Some ele"
      using insert_above_split [OF fresh(1) [unfolded ps(1)] Some fresh(2-4) [unfolded ps(1)]] by blast
    have "stack_outcome h ps h' s' (snd (cs_insert 0 d (rep_abs h s ps)))"
      unfolding ps(1)
      by (rule inserted_outcome [OF rep [unfolded ps(1)] ps(2) Some m _ _ p(2-7)]) simp_all
    with p(1) m Some show ?thesis
      by (simp add: tbx_stack_insert_above_def cs_insert_def rep_abs_def)
  next
    case None
    show ?thesis
    proof (cases "ps = []")
      case True
      obtain h' s' where "tbx_stack_push h s d = Some (h', s')" "stack_outcome h ps h' s' (cs_push d (rep_abs h s ps))"
        using push_outcome [OF rep] by blast
      moreover have "st_top s = None" using rep True by (simp add: stack_rep_def)
      ultimately show ?thesis
        using None m True by (simp add: tbx_stack_insert_above_def tbx_stack_link_insert_above_def
            tbx_stack_push_def cs_insert_def rep_abs_def)
    next
      case False
      then obtain t where "st_top s = Some t" using rep by (cases ps) (auto simp: stack_rep_def)
      with False None m insert_none_outcome [OF rep None False m] show ?thesis
        by (auto simp: tbx_stack_insert_above_def tbx_stack_link_insert_above_def cs_insert_def rep_abs_def)
    qed
  qed
qed

lemma outcome_data: "stack_outcome h ps h' s' c \<Longrightarrow> tbx_stack_get_current_data h' s' = Some (cs_data c)"
  using data_outcome by (fastforce simp: stack_outcome_def)

lemma outcome_mono: "stack_outcome h ps1 h' s' c \<Longrightarrow> set ps1 \<subseteq> set ps \<Longrightarrow> stack_outcome h ps h' s' c"
  unfolding stack_outcome_def by blast

lemma outcome_moved:
  assumes "stack_outcome h ps h s1 c"
  obtains ps1 where "stack_rep h s1 ps1" "rep_abs h s1 ps1 = c" "set ps1 \<subseteq> set ps"
  using assms by (auto simp: stack_outcome_def)

lemma free_rep:
  assumes "stack_rep h s ps" "a \<notin> set ps"
  shows "stack_rep (h\<lparr>cells := (cells h)(a := None)\<rparr>) s ps"
    "stack_rep (free_data h d) s ps"
  using assms by (auto simp: stack_rep_def free_data_def split: option.split)

lemma delete_outcome:
  assumes rep: "stack_rep h s ps"
  shows "\<exists>r h' s'. tbx_stack_delete_current h s u f = Some (r, h', s') \<and> r = fst (cs_delete u f (rep_abs h s ps)) \<and>
           stack_outcome h ps h' s' (snd (cs_delete u f (rep_abs h s ps)))"
proof (cases "st_curr s")
  case None
  then show ?thesis
    using same_outcome [OF rep]
    by (auto simp: tbx_stack_delete_current_def tbx_stack_unlink_current_def cs_delete_def rep_abs_def)
next
  case (Some c)
  with rep obtain xs ys where ps: "ps = xs @ c # ys" "c \<notin> set xs" "c \<notin> set ys"
    by (rule stack_rep_split)
  have dist: "set xs \<inter> set ys = {}" "distinct xs" using rep ps by (auto simp: stack_rep_def)
  obtain h1 s1 where p: "tbx_stack_unlink_current h s u = Some (Some c, h1, s1)" "stack_rep h1 s1 (xs @ ys)"
    "\<forall>a. data_at h1 a = data_at h a" "freed h1 = freed h" "brk h1 = brk h" "cells h1 c = cells h c"
    "\<forall>a. a \<notin> set (xs @ ys) \<longrightarrow> cells h1 a = cells h a"
    "st_curr s1 = (if u then last_ptr xs None else hd_ptr ys None)"
    using unlink_split [OF rep [unfolded ps(1)] Some, of u] by blast
  obtain e where e: "cells h c = Some e" using stack_rep_cell [OF rep] ps by auto
  define h2 where "h2 = (if f then free_data h1 (ele_data e) else h1)"
  define h3 where "h3 = h2\<lparr>cells := (cells h2)(c := None)\<rparr>"
  have h2: "cells h2 = cells h1" "brk h2 = brk h"
    "freed h2 = (case ele_data e of None \<Rightarrow> freed h | Some d \<Rightarrow> if f then freed h @ [d] else freed h)"
    using p(4,5) by (auto simp: h2_def free_data_def split: option.split)
  have run: "tbx_stack_delete_current h s u f = Some (1, h3, s1)"
    using p(1,6) e h2(1) by (simp add: tbx_stack_delete_current_def h2_def [symmetric] h3_def free_ele_def)
  have rep3: "stack_rep h3 s1 (xs @ ys)"
    using free_rep(1) [of h2 s1 "xs @ ys" c] free_rep(2) [OF p(2), of c] p(2) ps
    by (auto simp: h3_def h2_def)
  have data: "map (data_at h3) zs = map (data_at h) zs" if "c \<notin> set zs" for zs
    using that p(3) h2(1) by (auto simp: h3_def data_at_def)
  have curs: "map_option (\<lambda>c. pos_of c (xs @ ys)) (st_curr s1) =
      (if u then (if xs = [] then None else Some (length xs - 1)) else (if ys = [] then None else Some (length xs)))"
  proof -
    have "pos_of (last xs) (xs @ ys) = length xs - 1" if "xs \<noteq> []"
      using that dist by (cases xs rule: rev_cases) (auto simp: pos_of_append2)
    moreover have "pos_of y (xs @ y # zs) = length xs" if "ys = y # zs" for y zs
      using that dist by (auto simp: pos_of_append2)
    ultimately show ?thesis using p(8) by (auto simp: last_ptr_def hd_ptr_def split: list.split)
  qed
  have "data_at h c = ele_data e" using e by (simp add: data_at_def)
  then have "rep_abs h3 s1 (xs @ ys) = snd (cs_delete u f (rep_abs h s ps))"
    using curs data ps h2(3) Some
    by (auto simp: rep_abs_def cs_delete_def h3_def nth_append split: option.split)
  then have "stack_outcome h ps h3 s1 (snd (cs_delete u f (rep_abs h s ps)))"
    using rep3 h2 p(5,7) ps by (intro stack_outcomeI [of _ _ "xs @ ys"]) (auto simp: h3_def)
  with run Some show ?thesis by (auto simp: cs_delete_def rep_abs_def Let_def)
qed

text \<open>A pop is a move to the end followed by a deletion that keeps the data.\<close>

lemma pop_as_delete:
  "tbx_stack_pop h s = do {
     let s = tbx_stack_move_to_top s;
     d \<leftarrow> tbx_stack_get_current_data h s;
     (_, h, s) \<leftarrow> tbx_stack_delete_current h s False False;
     Some (d, h, s)
   }" if rep: "stack_rep h s ps"
proof (cases ps)
  case Nil
  with rep show ?thesis
    by (simp add: stack_rep_def tbx_stack_pop_def pop_link_def tbx_stack_move_to_top_def
        tbx_stack_unlink_current_def tbx_stack_get_current_data_def tbx_stack_delete_current_def Let_def)
next
  case (Cons p qs)
  let ?s = "tbx_stack_move_to_top s"
  have curr: "st_curr ?s = Some p" using rep Cons by (simp add: stack_rep_def tbx_stack_move_to_top_def)
  have rep': "stack_rep h ?s ([] @ p # qs)" using rep Cons by (auto simp: stack_rep_def tbx_stack_move_to_top_def)
  obtain h1 s1 where "tbx_stack_unlink_current h ?s False = Some (Some p, h1, s1)" "cells h1 p = cells h p"
    using unlink_split [OF rep' curr] by blast
  moreover obtain e where "cells h p = Some e" using stack_rep_cell [OF rep] Cons by auto
  ultimately show ?thesis
    using curr by (simp add: tbx_stack_pop_def pop_link_def tbx_stack_delete_current_def
        tbx_stack_get_current_data_def free_ele_def)
qed

lemma pop_outcome:
  assumes rep: "stack_rep h s ps"
  shows "\<exists>h' s'. tbx_stack_pop h s = Some (cs_data (cs_first (rep_abs h s ps)), h', s') \<and>
           stack_outcome h ps h' s' (snd (cs_delete False False (cs_first (rep_abs h s ps))))"
proof -
  note out = to_top_outcome [OF rep]
  obtain ps1 where ps1: "stack_rep h (tbx_stack_move_to_top s) ps1"
    "rep_abs h (tbx_stack_move_to_top s) ps1 = cs_first (rep_abs h s ps)" "set ps1 \<subseteq> set ps"
    using outcome_moved [OF out] .
  show ?thesis
    using delete_outcome [OF ps1(1), of False False] outcome_data [OF out] outcome_mono [OF _ ps1(3)] ps1(2)
    by (auto simp: pop_as_delete [OF rep])
qed

lemma pop_bottom_outcome:
  assumes rep: "stack_rep h s ps"
  shows "\<exists>h' s'. tbx_stack_pop_bottom h s = Some (cs_data (cs_last (rep_abs h s ps)), h', s') \<and>
           stack_outcome h ps h' s' (snd (cs_delete True False (cs_last (rep_abs h s ps))))"
proof -
  note out = to_bottom_outcome [OF rep]
  obtain ps1 where ps1: "stack_rep h (tbx_stack_move_to_bottom s) ps1"
    "rep_abs h (tbx_stack_move_to_bottom s) ps1 = cs_last (rep_abs h s ps)" "set ps1 \<subseteq> set ps"
    using outcome_moved [OF out] .
  show ?thesis
    using delete_outcome [OF ps1(1), of True False] outcome_data [OF out] outcome_mono [OF _ ps1(3)] ps1(2)
    by (auto simp: tbx_stack_pop_bottom_def)
qed

lemma next_outcome:
  assumes rep: "stack_rep h s ps"
  shows "\<exists>s'. tbx_stack_next_down h s = Some (cs_data (snd (cs_down (rep_abs h s ps))), s') \<and>
           stack_outcome h ps h s' (snd (cs_down (rep_abs h s ps)))"
    and "\<exists>s'. tbx_stack_next_up h s = Some (cs_data (snd (cs_up (rep_abs h s ps))), s') \<and>
           stack_outcome h ps h s' (snd (cs_up (rep_abs h s ps)))"
  using down_outcome [OF rep] up_outcome [OF rep] outcome_data
  by (force simp: tbx_stack_next_down_def tbx_stack_next_up_def)+

lemma first_outcome:
  assumes rep: "stack_rep h s ps"
  shows "\<exists>s'. tbx_stack_top_first h s = Some (cs_data (cs_first (rep_abs h s ps)), s') \<and>
           stack_outcome h ps h s' (cs_first (rep_abs h s ps))"
    and "\<exists>s'. tbx_stack_bottom_first h s = Some (cs_data (cs_last (rep_abs h s ps)), s') \<and>
           stack_outcome h ps h s' (cs_last (rep_abs h s ps))"
  using to_top_outcome [OF rep] to_bottom_outcome [OF rep] outcome_data
  by (force simp: tbx_stack_top_first_def tbx_stack_bottom_first_def Let_def)+

lemma stack_step_outcome:
  assumes rep: "stack_rep h s ps" and spec: "cs_step op (rep_abs h s ps) = Some (r, c)"
  shows "\<exists>h' s'. stack_step op (h, s) = Some (r, h', s') \<and> stack_outcome h ps h' s' c"
proof -
  note outs = push_outcome [OF rep] pop_outcome [OF rep] pop_bottom_outcome [OF rep]
    insert_below_outcome [OF rep] insert_above_outcome [OF rep] delete_outcome [OF rep]
    to_top_outcome [OF rep] to_bottom_outcome [OF rep] down_outcome [OF rep] up_outcome [OF rep]
    data_outcome [OF rep] next_outcome [OF rep] first_outcome [OF rep] same_outcome [OF rep]
  have n: "tbx_stack_count s = int (length (items (rep_abs h s ps)))"
    using rep by (simp add: tbx_stack_count_def stack_rep_def rep_abs_def)
  show ?thesis
  proof (cases op)
    case (Push d) with spec show ?thesis using push_outcome [OF rep, of d] by auto
  next
    case Pop with spec show ?thesis using pop_outcome [OF rep] by auto
  next
    case PopBottom with spec show ?thesis using pop_bottom_outcome [OF rep] by auto
  next
    case (InsertBelow d) with spec show ?thesis
      using insert_below_outcome [OF rep, of d] by (auto simp: apfst_def map_prod_def split: prod.splits)
  next
    case (InsertAbove d) with spec show ?thesis
      using insert_above_outcome [OF rep, of d] by (auto simp: apfst_def map_prod_def split: prod.splits)
  next
    case (DeleteCurrent u f) with spec show ?thesis
      using delete_outcome [OF rep, of u f] by (auto simp: apfst_def map_prod_def split: prod.splits)
  next
    case MoveDown with spec show ?thesis
      using down_outcome [OF rep] by (auto simp: apfst_def map_prod_def split: prod.splits)
  next
    case MoveUp with spec show ?thesis
      using up_outcome [OF rep] by (auto simp: apfst_def map_prod_def split: prod.splits)
  next
    case NextDown with spec show ?thesis using next_outcome(1) [OF rep] by auto
  next
    case NextUp with spec show ?thesis using next_outcome(2) [OF rep] by auto
  next
    case TopFirst with spec show ?thesis using first_outcome(1) [OF rep] by auto
  next
    case BottomFirst with spec show ?thesis using first_outcome(2) [OF rep] by auto
  qed (use spec n outs(7,8) data_outcome [OF rep] same_outcome [OF rep] in auto)
qed

interpretation stack: data_refinement stack_step cs_step stack_abs stack_ok
proof
  fix s :: "'a store \<times> tbx_stack_t" and x r a
  assume "stack_ok s" "cs_step x (stack_abs s) = Some (r, a)"
  then obtain h' s' where "stack_step x s = Some (r, h', s')" "stack_outcome (fst s) (stack_addrs s) h' s' a"
    using stack_step_outcome [of "fst s" "snd s" "stack_addrs s" x r a] by (auto simp: stack_ok_def stack_abs_def)
  then show "\<exists>s'. stack_step x s = Some (r, s') \<and> stack_ok s' \<and> stack_abs s' = a"
    using stack_repI by (auto simp: stack_outcome_def)
qed

lemma run_stack_ops:
  "stack_ok q \<Longrightarrow> run_ops cs_step ops (stack_abs q) = Some (rs, c) \<Longrightarrow>
   \<exists>q'. run_ops stack_step ops q = Some (rs, q') \<and> stack_ok q' \<and> stack_abs q' = c"
  by (rule stack.run_simulates)

lemma cs_step_total: "\<exists>r c'. cs_step op c = Some (r, c')"
  by (cases op) (auto simp: apfst_def map_prod_def split: prod.split)

lemma cs_run_total: "\<exists>rs c'. run_ops cs_step ops c = Some (rs, c')"
proof (induction ops arbitrary: c)
  case Nil then show ?case by simp
next
  case (Cons op ops)
  obtain r c1 where "cs_step op c = Some (r, c1)" using cs_step_total by blast
  moreover obtain rs c2 where "run_ops cs_step ops c1 = Some (rs, c2)" using Cons.IH by blast
  ultimately show ?case by (simp)
qed

lemma rep_frame:
  assumes "stack_outcome h ps h' s' c" "stack_rep h t qs" "set ps \<inter> set qs = {}"
  shows "stack_rep h' t qs" "items (rep_abs h' t qs) = items (rep_abs h t qs)"
    "cursor (rep_abs h' t qs) = cursor (rep_abs h t qs)"
proof -
  have same: "cells h' a = cells h a" if "a \<in> set qs" for a
    using assms that by (auto simp: stack_outcome_def stack_rep_def)
  show "stack_rep h' t qs"
    using assms(1,2) dll_cong [of qs h' h] same
    by (auto simp: stack_outcome_def stack_rep_def intro: less_le_trans)
  show "items (rep_abs h' t qs) = items (rep_abs h t qs)" "cursor (rep_abs h' t qs) = cursor (rep_abs h t qs)"
    using same by (auto simp: rep_abs_def data_at_def)
qed

lemma pop_Cons_rep:
  assumes "stack_rep h s ps" "items (rep_abs h s ps) = Some d # ds"
  shows "\<exists>h' s' ps'. tbx_stack_pop h s = Some (Some d, h', s') \<and> stack_rep h' s' ps' \<and>
           items (rep_abs h' s' ps') = ds \<and> freed h' = freed h"
proof -
  obtain h' s' where "tbx_stack_pop h s = Some (cs_data (cs_first (rep_abs h s ps)), h', s')"
     and out: "stack_outcome h ps h' s' (snd (cs_delete False False (cs_first (rep_abs h s ps))))"
    using pop_outcome [OF assms(1)] by blast
  moreover have "items (snd (cs_delete False False (cs_first (rep_abs h s ps)))) = ds"
    "released (snd (cs_delete False False (cs_first (rep_abs h s ps)))) = freed h"
    "cs_data (cs_first (rep_abs h s ps)) = Some d"
    using assms(2) by (simp_all add: cs_delete_def cs_first_def cs_data_def Let_def) (simp add: rep_abs_def)
  moreover obtain ps' where "stack_rep h' s' ps'"
    "rep_abs h' s' ps' = snd (cs_delete False False (cs_first (rep_abs h s ps)))"
    using out by (auto simp: stack_outcome_def)
  moreover have "released (rep_abs h' s' ps') = freed h'" by (simp add: rep_abs_def)
  ultimately show ?thesis by auto
qed

lemma pop_Nil_rep:
  assumes "stack_rep h s ps" "items (rep_abs h s ps) = []"
  shows "\<exists>s'. tbx_stack_pop h s = Some (None, h, s') \<and> stack_rep h s' []"
  using assms by (auto simp: rep_abs_def stack_rep_def tbx_stack_pop_def pop_link_def tbx_stack_move_to_top_def
      tbx_stack_unlink_current_def)

lemma data_at_freed [simp]: "data_at (h\<lparr>freed := f\<rparr>) = data_at h"
  by (simp add: fun_eq_iff data_at_def)

lemma stack_empty_rep:
  assumes "stack_rep h s ps" "items (rep_abs h s ps) = map Some ds"
  shows "\<exists>h' s'. tbx_stack_empty h s f = Some (h', s') \<and> stack_rep h' s' [] \<and>
           freed h' = (if f then freed h @ ds else freed h)"
  using assms
proof (induction ds arbitrary: h s ps)
  case Nil
  then show ?case using pop_Nil_rep [of h s ps] by (subst tbx_stack_empty.simps) auto
next
  case (Cons d ds)
  obtain h1 s1 ps1 where p: "tbx_stack_pop h s = Some (Some d, h1, s1)" "stack_rep h1 s1 ps1"
    "items (rep_abs h1 s1 ps1) = map Some ds" "freed h1 = freed h"
    using pop_Cons_rep [OF Cons.prems(1)] Cons.prems(2) by fastforce
  let ?h = "if f then free_data h1 (Some d) else h1"
  have "stack_rep ?h s1 ps1" "items (rep_abs ?h s1 ps1) = map Some ds"
    using p(2,3) by (auto simp: stack_rep_def free_data_def rep_abs_def)
  from Cons.IH [OF this] p(4) show ?case
    by (subst tbx_stack_empty.simps) (auto simp: p(1) free_data_def)
qed


text \<open>
  The loop of \<^verbatim>\<open>tbx_stack_dup\<close>: with the old cursor after the first \<open>k\<close> items, it pushes these in reverse
  order, which puts them on the new stack in the order they have on the old one.
\<close>

lemma dup_loop_rep:
  assumes "stack_rep h old qs" "items (rep_abs h old qs) = map Some ds"
    and "cursor (rep_abs h old qs) = (if k = 0 then None else Some (k - 1))" "k \<le> length ds"
    and "stack_rep h new ps" "items (rep_abs h new ps) = map Some es" "set ps \<inter> set qs = {}"
  shows "\<exists>h' new' old' ps' qs'. stack_dup_loop h new old = Some (h', new', old') \<and>
           stack_rep h' new' ps' \<and> items (rep_abs h' new' ps') = map Some (take k ds @ es) \<and>
           stack_rep h' old' qs' \<and> items (rep_abs h' old' qs') = map Some ds \<and> freed h' = freed h"
  using assms
proof (induction k arbitrary: h new old ps qs es)
  case 0
  then have "tbx_stack_get_current_data h old = Some None"
    using data_outcome [OF 0(1)] by (simp add: cs_data_def)
  with 0 show ?case by (subst stack_dup_loop.simps) auto
next
  case (Suc k)
  let ?c = "rep_abs h old qs"
  have d: "tbx_stack_get_current_data h old = Some (Some (ds ! k))"
    using data_outcome [OF Suc.prems(1)] Suc.prems(2-4) by (simp add: cs_data_def)
  obtain h1 new1 where p: "tbx_stack_push h new (Some (ds ! k)) = Some (h1, new1)"
     "stack_outcome h ps h1 new1 (cs_push (Some (ds ! k)) (rep_abs h new ps))"
    using push_outcome [OF Suc.prems(5)] by blast
  then obtain ps1 where ps1: "stack_rep h1 new1 ps1" "rep_abs h1 new1 ps1 = cs_push (Some (ds ! k)) (rep_abs h new ps)"
    "set ps1 \<subseteq> set ps \<union> {brk h..<brk h1}"
    by (auto simp: stack_outcome_def)
  note fr = rep_frame [OF p(2) Suc.prems(1,7)]
  obtain r old1 where u: "tbx_stack_move_up h1 old = Some (r, old1)"
    and out: "stack_outcome h1 qs h1 old1 (snd (cs_up (rep_abs h1 old qs)))"
    using up_outcome [OF fr(1)] by blast
  obtain qs1 where qs1: "stack_rep h1 old1 qs1" "rep_abs h1 old1 qs1 = snd (cs_up (rep_abs h1 old qs))"
    "set qs1 \<subseteq> set qs"
    using outcome_moved [OF out] .
  have "set ps1 \<inter> set qs1 = {}"
    using ps1(3) qs1(3) Suc.prems(1,7) by (fastforce simp: stack_rep_def)
  moreover have "items (rep_abs h1 new1 ps1) = map Some (ds ! k # es)" "freed h1 = freed h"
    using ps1(2) Suc.prems(6) by (auto simp: cs_push_def rep_abs_def)
  moreover have "items (rep_abs h1 old1 qs1) = map Some ds"
    "cursor (rep_abs h1 old1 qs1) = (if k = 0 then None else Some (k - 1))"
    using qs1(2) fr(2,3) Suc.prems(2,3) by (simp_all add: cs_up_def)
  ultimately obtain h' new' old' ps' qs' where "stack_dup_loop h1 new1 old1 = Some (h', new', old')"
    "stack_rep h' new' ps'" "items (rep_abs h' new' ps') = map Some (take k ds @ ds ! k # es)"
    "stack_rep h' old' qs'" "items (rep_abs h' old' qs') = map Some ds" "freed h' = freed h"
    using Suc.IH [OF qs1(1) _ _ _ ps1(1)] Suc.prems(4) by (metis Suc_leD)
  moreover have "take (Suc k) ds = take k ds @ [ds ! k]"
    using Suc.prems(4) by (simp add: take_Suc_conv_app_nth)
  ultimately show ?case
    by (subst stack_dup_loop.simps) (auto simp: d p(1) u)
qed

section \<open>Example stacks\<close>

lemmas demo_defs = demo_store_def demo_stack_def demo_cell_def

lemma demo_addrs:
  "stack_addrs (demo_store, demo_stack 4 5 2) = [4, 5]" "stack_addrs (demo_store, demo_stack 6 6 1) = [6]"
  by (simp_all add: stack_addrs_def demo_defs numeral_2_eq_2)

lemma demo_items:
  "items (stack_abs (demo_store, demo_stack 4 5 2)) = map Some [10, 11]"
  "items (stack_abs (demo_store, demo_stack 6 6 1)) = map Some [12]"
  by (simp_all add: stack_abs_def demo_addrs rep_abs_def) (simp_all add: data_at_def demo_defs)

lemma demo_rep:
  "stack_rep demo_store (demo_stack 4 5 2) [4, 5]" "stack_rep demo_store (demo_stack 6 6 1) [6]"
  by (simp_all add: stack_rep_def demo_defs)

section \<open>Properties\<close>

text \<open>
  C11: any sequence of stack operations, started on a well formed structure, runs without touching an
  invalid pointer, returns the results that the sequence with a cursor returns, and ends in a well formed
  structure that stands for the sequence with a cursor after the same operations.
\<close>

theorem stack_refines_sequence:
  assumes "stack_ok q"
  shows "\<exists>rs c q'. run_ops cs_step ops (stack_abs q) = Some (rs, c) \<and>
           run_ops stack_step ops q = Some (rs, q') \<and> stack_ok q' \<and> stack_abs q' = c"
  using run_stack_ops [OF assms] cs_run_total [of ops "stack_abs q"] by blast

theorem stack_refines_sequence_witness:
  "run_ops stack_step demo_ops (\<lparr>cells = Map.empty, brk = 0, freed = []\<rparr>, tbx_stack_new) \<noteq> None \<and>
   map_option fst (run_ops cs_step demo_ops \<lparr>items = [], cursor = None, released = []\<rparr>) =
     Some [Done, RInt 1, RInt 1, RInt 1, RInt 1, RInt 1, RData (Some 2), RInt 1]"
proof -
  let ?q = "(\<lparr>cells = Map.empty, brk = 0, freed = []\<rparr> :: nat store, tbx_stack_new)"
  have "stack_ok ?q"
    by (simp add: stack_ok_def stack_addrs_def stack_rep_def tbx_stack_new_def)
  from stack_refines_sequence [OF this, of demo_ops]
  have "run_ops stack_step demo_ops ?q \<noteq> None" by auto
  moreover have "map_option fst (run_ops cs_step demo_ops \<lparr>items = [], cursor = None, released = []\<rparr>) =
     Some [Done, RInt 1, RInt 1, RInt 1, RInt 1, RInt 1, RData (Some 2), RInt 1]"
    by (simp add: demo_ops_def cs_push_def cs_insert_def cs_first_def cs_last_def cs_down_def cs_delete_def cs_data_def)
  ultimately show ?thesis by blast
qed

text \<open>
  C30: an operation on one stack leaves every other stack in the same store alone: if the two stacks share no
  element, the other one is still well formed, with the same elements, the same data and the same cursor, and
  the two still share no element.
\<close>

theorem stack_step_frame:
  assumes "stack_ok (h, s)" "stack_ok (h, t)" "set (stack_addrs (h, s)) \<inter> set (stack_addrs (h, t)) = {}"
  shows "\<exists>r h' s'. stack_step op (h, s) = Some (r, h', s') \<and> stack_ok (h', s') \<and> stack_ok (h', t) \<and>
           set (stack_addrs (h', s')) \<inter> set (stack_addrs (h', t)) = {} \<and>
           items (stack_abs (h', t)) = items (stack_abs (h, t)) \<and>
           cursor (stack_abs (h', t)) = cursor (stack_abs (h, t))"
proof -
  have rep: "stack_rep h s (stack_addrs (h, s))" "stack_rep h t (stack_addrs (h, t))"
    using assms(1,2) by (simp_all add: stack_ok_def)
  obtain r c where "cs_step op (rep_abs h s (stack_addrs (h, s))) = Some (r, c)"
    using cs_step_total by blast
  then obtain h' s' where run: "stack_step op (h, s) = Some (r, h', s')"
    and out: "stack_outcome h (stack_addrs (h, s)) h' s' c"
    using stack_step_outcome [OF rep(1)] by blast
  note fr = rep_frame [OF out rep(2) assms(3)]
  obtain ps where ps: "stack_rep h' s' ps" "set ps \<subseteq> set (stack_addrs (h, s)) \<union> {brk h..<brk h'}"
    using out by (auto simp: stack_outcome_def)
  have "set ps \<inter> set (stack_addrs (h, t)) = {}"
    using ps(2) assms(3) rep(2) by (fastforce simp: stack_rep_def)
  then show ?thesis
    using run fr stack_repI [OF fr(1)] stack_repI [OF ps(1)] stack_rep_addrs [OF fr(1)] stack_rep_addrs [OF ps(1)]
    by (auto simp: stack_abs_def)
qed

theorem stack_step_frame_witness:
  "\<exists>r h' s'. stack_step (DeleteCurrent True True) (demo_store, demo_stack 4 5 2) = Some (r, h', s') \<and>
     stack_ok (h', demo_stack 6 6 1) \<and> items (stack_abs (h', demo_stack 6 6 1)) = [Some 12]"
  using stack_step_frame [of demo_store "demo_stack 4 5 2" "demo_stack 6 6 1" "DeleteCurrent True True"]
  by (auto simp: stack_ok_def demo_addrs demo_rep demo_items simp del: stack_step.simps)

text \<open>
  C31: \<^verbatim>\<open>tbx_stack_empty\<close> terminates on a stack whose data pointers are all non-NULL, leaves it empty, and, when asked
  to free the data, frees every data pointer exactly once, from top to bottom; otherwise it frees none.
\<close>

theorem stack_empty_frees:
  assumes "stack_ok (h, s)" "items (stack_abs (h, s)) = map Some ds"
  shows "\<exists>h' s'. tbx_stack_empty h s data_also = Some (h', s') \<and> stack_ok (h', s') \<and>
           items (stack_abs (h', s')) = [] \<and> tbx_stack_count s' = 0 \<and>
           freed h' = (if data_also then freed h @ ds else freed h)"
proof -
  obtain h' s' where r: "tbx_stack_empty h s data_also = Some (h', s')" "stack_rep h' s' []"
    "freed h' = (if data_also then freed h @ ds else freed h)"
    using stack_empty_rep [of h s "stack_addrs (h, s)" ds data_also] assms by (auto simp: stack_ok_def stack_abs_def)
  then show ?thesis
    using stack_repI [OF r(2)] by (auto simp: rep_abs_def stack_rep_def tbx_stack_count_def)
qed

theorem stack_empty_frees_witness:
  "\<exists>h' s'. tbx_stack_empty demo_store (demo_stack 4 5 2) True = Some (h', s') \<and> freed h' = [10, 11]"
  using stack_empty_frees [of demo_store "demo_stack 4 5 2" "[10, 11]" True]
  by (auto simp: stack_ok_def demo_addrs demo_rep demo_items) (simp add: demo_store_def)

text \<open>
  \<^verbatim>\<open>tbx_stack_dup\<close> terminates and puts copies of the data pointers of \<open>old\<close> on top of \<open>new\<close>, in the same order;
  \<open>old\<close> keeps its elements and nothing is freed.
\<close>

lemma stack_dup_copies:
  assumes "stack_ok (h, old)" "items (stack_abs (h, old)) = map Some ds"
    and "stack_ok (h, new)" "items (stack_abs (h, new)) = map Some es"
    and "set (stack_addrs (h, new)) \<inter> set (stack_addrs (h, old)) = {}"
  shows "\<exists>h' new' old'. tbx_stack_dup h new old = Some (h', new', old') \<and>
           stack_ok (h', new') \<and> items (stack_abs (h', new')) = map Some (ds @ es) \<and>
           stack_ok (h', old') \<and> items (stack_abs (h', old')) = map Some ds \<and> freed h' = freed h"
proof -
  have rep: "stack_rep h old (stack_addrs (h, old))" "stack_rep h new (stack_addrs (h, new))"
    using assms by (simp_all add: stack_ok_def)
  let ?old = "tbx_stack_move_to_bottom old"
  obtain qs where qs: "stack_rep h ?old qs" "rep_abs h ?old qs = cs_last (stack_abs (h, old))"
    "set qs \<subseteq> set (stack_addrs (h, old))"
    using outcome_moved [OF to_bottom_outcome [OF rep(1)]] by (metis stack_abs_def fst_conv snd_conv)
  have "items (rep_abs h ?old qs) = map Some ds"
    "cursor (rep_abs h ?old qs) = (if length ds = 0 then None else Some (length ds - 1))"
    using qs(2) assms(2) by (simp_all add: cs_last_def)
  moreover have "items (rep_abs h new (stack_addrs (h, new))) = map Some es"
    using assms(4) by (simp add: stack_abs_def)
  ultimately obtain h' new' old' ps' qs' where "tbx_stack_dup h new old = Some (h', new', old')"
    "stack_rep h' new' ps'" "items (rep_abs h' new' ps') = map Some (ds @ es)"
    "stack_rep h' old' qs'" "items (rep_abs h' old' qs') = map Some ds" "freed h' = freed h"
    using dup_loop_rep [OF qs(1) _ _ order.refl rep(2)] qs(3) assms(5)
    by (fastforce simp: tbx_stack_dup_def)
  then show ?thesis using stack_repI by metis
qed

lemma stack_dup_copies_witness:
  "\<exists>h' new' old'. tbx_stack_dup demo_store (demo_stack 6 6 1) (demo_stack 4 5 2) = Some (h', new', old') \<and>
     items (stack_abs (h', new')) = [Some 10, Some 11, Some 12]"
  using stack_dup_copies [of demo_store "demo_stack 4 5 2" "[10, 11]" "demo_stack 6 6 1" "[12]"]
  by (auto simp: stack_ok_def demo_addrs demo_rep demo_items)

end
