(* ===== verification/Range_Stack.thy ===== *)
theory Range_Stack
  imports Tbx_Stack
begin

text \<open>
  The ordered list of non-overlapping byte ranges of \<^verbatim>\<open>toolbox/range_stack.c\<close>.  The ranges are heap arrays of two
  64 bit integers whose addresses are the data pointers of a stack; the stack is the sequence with a cursor that
  \<^verbatim>\<open>Tbx_Stack\<close> shows the linked structure to implement.  \<open>rmem\<close> holds the contents of the arrays and \<open>released\<close> of
  the stack also records the arrays that this component frees itself.  A signed overflow gives \<open>None\<close>.
\<close>

section \<open>The code\<close>

type_synonym rmem = "nat \<Rightarrow> int \<times> int"

definition int64_add :: "int \<Rightarrow> int \<Rightarrow> int option" where
  "int64_add a b = (if int64_ok (a + b) then Some (a + b) else None)"

definition free_rng :: "nat \<Rightarrow> nat cstack \<Rightarrow> nat cstack" where
  "free_rng r st = st\<lparr>released := released st @ [r]\<rparr>"

definition cursor_left :: "'d cstack \<Rightarrow> nat" where
  "cursor_left st = (case cursor st of None \<Rightarrow> 0 | Some i \<Rightarrow> Suc (length (items st) - i))"

lemma cs_down_left [simp]: "cs_data st = Some r \<Longrightarrow> cursor_left (snd (cs_down st)) < cursor_left st"
  by (auto simp: cs_data_def cs_down_def cursor_left_def split: option.splits)

lemma cs_delete_left [simp]: "cs_data st = Some r \<Longrightarrow> cursor_left (snd (cs_delete False f st)) < cursor_left st"
  by (auto simp: cs_data_def cs_delete_def cursor_left_def Let_def split: option.splits)

text \<open>The loop of \<^verbatim>\<open>_range_collapse\<close>; \<open>t\<close> is the array that has just been expanded, \<open>go\<close> is \<^verbatim>\<open>more == 1\<close>.\<close>

function collapse_loop ::
  "nat \<Rightarrow> int \<Rightarrow> bool \<Rightarrow> rmem \<Rightarrow> nat cstack \<Rightarrow> rmem \<times> nat cstack" where
  "collapse_loop t hi1 go m st =
     (case cs_data st of
        Some r \<Rightarrow>
          if \<not> go then (m, st)
          else if hi1 \<ge> fst (m r) then
            (if snd (m r) > snd (m t)
             then collapse_loop t hi1 False (m(t := (fst (m t), snd (m r)))) (snd (cs_delete False True st))
             else collapse_loop t hi1 go m (snd (cs_delete False True st)))
          else collapse_loop t hi1 False m st
      | None \<Rightarrow> (m, st))"
  by pat_completeness auto
termination
  by (relation "measure (\<lambda>(t, hi1, go, m, st). cursor_left st + (if go then 1 else 0))")
    (auto simp: less_SucI)

declare collapse_loop.simps [simp del]

definition range_collapse :: "rmem \<Rightarrow> nat cstack \<Rightarrow> (rmem \<times> nat cstack) option" where
  "range_collapse m st = do {
     trng \<leftarrow> cs_data st;
     hi1 \<leftarrow> int64_add (snd (m trng)) 1;
     Some (collapse_loop trng hi1 True m (snd (cs_down st)))
   }"

text \<open>The search for the insertion point gives the current and the previous range.\<close>

function find_insert ::
  "int \<Rightarrow> rmem \<Rightarrow> nat option \<Rightarrow> nat cstack \<Rightarrow> nat option \<times> nat option \<times> nat cstack" where
  "find_insert lo m prng st =
     (case cs_data st of
        Some r \<Rightarrow> if lo \<le> fst (m r) then (Some r, prng, st) else find_insert lo m (Some r) (snd (cs_down st))
      | None \<Rightarrow> (None, prng, st))"
  by pat_completeness auto
termination
  by (relation "measure (\<lambda>(lo, m, prng, st). cursor_left st)") auto

declare find_insert.simps [simp del]

definition tbx_range_stack_merge :: "rmem \<Rightarrow> nat cstack option \<Rightarrow> nat \<Rightarrow> (rmem \<times> nat cstack) option" where
  "tbx_range_stack_merge m st new_rng =
     (let st = (case st of None \<Rightarrow> \<lparr>items = [], cursor = None, released = []\<rparr> | Some st \<Rightarrow> st) in
      if length (items st) = 0 then Some (m, cs_push (Some new_rng) st)
      else do {
        let lo = fst (m new_rng);
        let hi = snd (m new_rng);
        let (rng, prng, st) = find_insert lo m None (cs_first st);
        prng1 \<leftarrow> (case prng of None \<Rightarrow> int64_add lo (- 10) | Some p \<Rightarrow> Some (snd (m p)));
        prng1_1 \<leftarrow> int64_add prng1 1;
        if lo \<le> prng1_1 then
          (if prng1 < hi then do {
             let m = (case prng of None \<Rightarrow> m | Some p \<Rightarrow> m(p := (fst (m p), hi)));
             (m, st) \<leftarrow> (if rng \<noteq> None then range_collapse m (snd (cs_up st)) else Some (m, st));
             Some (m, free_rng new_rng st)
           }
           else Some (m, free_rng new_rng st))
        else (case rng of
            Some r \<Rightarrow> do {
              hi_1 \<leftarrow> int64_add hi 1;
              if fst (m r) \<le> hi_1 then do {
                let st = free_rng new_rng st;
                let m = m(r := (lo, snd (m r)));
                if snd (m r) < hi then range_collapse (m(r := (fst (m r), hi))) st
                else Some (m, st)
              }
              else Some (m, snd (cs_insert 0 (Some new_rng) st))
            }
          | None \<Rightarrow> Some (m, snd (cs_insert 1 (Some new_rng) (cs_last st))))
      })"

definition tbx_range_stack_merge2 :: "rmem \<Rightarrow> nat cstack option \<Rightarrow> nat \<Rightarrow> int \<Rightarrow> int \<Rightarrow> (rmem \<times> nat cstack) option" where
  "tbx_range_stack_merge2 m st rng lo hi = tbx_range_stack_merge (m(rng := (lo, hi))) st rng"

section \<open>What the list of ranges promises\<close>

text \<open>Ranges in increasing order, with at least one value between two neighbours.\<close>

fun ranges_ok :: "(int \<times> int) list \<Rightarrow> bool" where
  "ranges_ok [] = True"
| "ranges_ok [r] = (fst r \<le> snd r)"
| "ranges_ok (r # q # rs) = (fst r \<le> snd r \<and> snd r + 1 < fst q \<and> ranges_ok (q # rs))"

definition covered :: "(int \<times> int) list \<Rightarrow> int set" where
  "covered rs = (\<Union>r \<in> set rs. {fst r .. snd r})"

definition ptrs :: "nat cstack \<Rightarrow> nat list" where
  "ptrs st = map the (items st)"

definition ranges :: "rmem \<Rightarrow> nat cstack \<Rightarrow> (int \<times> int) list" where
  "ranges m st = map m (ptrs st)"

definition range_stack_ok :: "rmem \<Rightarrow> nat cstack \<Rightarrow> bool" where
  "range_stack_ok m st \<longleftrightarrow>
     None \<notin> set (items st) \<and> distinct (ptrs st) \<and> ranges_ok (ranges m st) \<and>
     (\<forall>i. cursor st = Some i \<longrightarrow> i < length (items st))"

text \<open>Room for the additions of one that the code makes to a bound, and for its subtraction of ten.\<close>

definition small_rng :: "int \<times> int \<Rightarrow> bool" where
  "small_rng r \<longleftrightarrow> - (2 ^ 63) + 10 \<le> fst r \<and> snd r < 2 ^ 63 - 1"

text \<open>Absorbing the ranges that an extended range with upper bound \<open>b\<close> has reached.\<close>

fun absorb :: "int \<Rightarrow> (int \<times> int) list \<Rightarrow> int \<times> (int \<times> int) list" where
  "absorb b [] = (b, [])"
| "absorb b (r # rs) =
     (if b + 1 \<ge> fst r then (if snd r > b then (snd r, rs) else absorb b rs) else (b, r # rs))"

text \<open>The cursor stands on the first of \<open>ys\<close>, with \<open>xs\<close> above it.\<close>

definition at_split :: "nat list \<Rightarrow> nat list \<Rightarrow> nat cstack \<Rightarrow> bool" where
  "at_split xs ys st \<longleftrightarrow>
     items st = map Some (xs @ ys) \<and> cursor st = (if ys = [] then None else Some (length xs))"

lemma at_split_data:
  "at_split xs [] st \<Longrightarrow> cs_data st = None" "at_split xs (y # ys) st \<Longrightarrow> cs_data st = Some y"
  by (simp_all add: at_split_def cs_data_def nth_append)

lemma at_split_down: "at_split xs (y # ys) st \<Longrightarrow> at_split (xs @ [y]) ys (snd (cs_down st))"
  by (cases ys) (auto simp: at_split_def cs_down_def)

lemma cs_down_released [simp]: "released (snd (cs_down st)) = released st"
  by (simp add: cs_down_def split: option.split)

lemma cs_up_released [simp]: "released (snd (cs_up st)) = released st"
  by (simp add: cs_up_def split: option.split)

lemma at_split_up: "at_split (xs @ [x]) (y # ys) st \<Longrightarrow> at_split xs (x # y # ys) (snd (cs_up st))"
  by (simp add: at_split_def cs_up_def)

lemma at_split_delete:
  assumes "at_split xs (y # ys) st"
  shows "at_split xs ys (snd (cs_delete False True st))"
    "released (snd (cs_delete False True st)) = released st @ [y]"
  using assms by (auto simp: at_split_def cs_delete_def nth_append Let_def)

lemma at_split_free [simp]: "at_split xs ys (free_rng r st) = at_split xs ys st" "released (free_rng r st) = released st @ [r]"
  by (simp_all add: at_split_def free_rng_def)

lemma at_split_ptrs: "at_split xs ys st \<Longrightarrow> ptrs st = xs @ ys \<and> items st = map Some (xs @ ys)"
  by (simp add: at_split_def ptrs_def)

subsection \<open>Collapsing\<close>

lemma collapse_loop_absorb:
  assumes "at_split (xs @ t # zs) ys st" "distinct (xs @ t # ys)"
    and "hi1 = snd (m t) + 1" "absorb (snd (m t)) (map m ys) = (b, rs)" "zs = []"
  shows "\<exists>ys1 ys2 m' st'. collapse_loop t hi1 True m st = (m', st') \<and> ys = ys1 @ ys2 \<and> rs = map m ys2 \<and>
           m' = m(t := (fst (m t), b)) \<and> items st' = map Some (xs @ t # ys2) \<and>
           (\<forall>i. cursor st' = Some i \<longrightarrow> i < length (items st')) \<and> released st' = released st @ ys1"
  using assms
proof (induction ys arbitrary: st)
  case Nil
  from at_split_data(1) Nil(1) have "collapse_loop t hi1 True m st = (m, st)"
    by (subst collapse_loop.simps) auto
  with Nil show ?case by (auto simp: at_split_def)
next
  case (Cons y ys)
  note st = Cons.prems(1) and data = at_split_data(2) [OF Cons.prems(1)]
  note del = at_split_delete [OF Cons.prems(1)]
  show ?case
  proof (cases "hi1 \<ge> fst (m y)")
    case False
    then have "collapse_loop t hi1 True m st = (m, st)"
      using data by (subst collapse_loop.simps, simp, subst collapse_loop.simps, simp)
    moreover have "b = snd (m t)" "rs = map m (y # ys)"
      using False Cons.prems(3,4) by auto
    ultimately show ?thesis
      using st Cons.prems(5) by (auto simp: at_split_def intro!: exI [of _ "[]"])
  next
    case le: True
    show ?thesis
    proof (cases "snd (m y) > snd (m t)")
      case True
      let ?m = "m(t := (fst (m t), snd (m y)))" and ?st = "snd (cs_delete False True st)"
      have "collapse_loop t hi1 True m st = collapse_loop t hi1 False ?m ?st"
        using data le True by (subst collapse_loop.simps) simp
      also have "\<dots> = (?m, ?st)"
        by (subst collapse_loop.simps) (simp split: option.split)
      moreover have "b = snd (m y)" "rs = map m ys"
        using le True Cons.prems(3,4) by auto
      ultimately show ?thesis
        using del Cons.prems(5) by (auto simp: at_split_def intro!: exI [of _ "[y]"] split: if_splits)
    next
      case False
      have "collapse_loop t hi1 True m st = collapse_loop t hi1 True m (snd (cs_delete False True st))"
        using data le False by (subst collapse_loop.simps) simp
      moreover have "absorb (snd (m t)) (map m ys) = (b, rs)"
        using le False Cons.prems(3,4) by simp
      ultimately show ?thesis
        using Cons.IH [OF del(1)] del(2) Cons.prems(2,3,5) by (fastforce intro: exI [of _ "y # _"])
    qed
  qed
qed

lemma range_collapse_absorb:
  assumes "at_split xs (t # ys) st" "distinct (xs @ t # ys)" "int64_ok (snd (m t) + 1)"
    and "absorb (snd (m t)) (map m ys) = (b, rs)"
  shows "\<exists>ys1 ys2 m' st'. range_collapse m st = Some (m', st') \<and> ys = ys1 @ ys2 \<and> rs = map m ys2 \<and>
           m' = m(t := (fst (m t), b)) \<and> items st' = map Some (xs @ t # ys2) \<and>
           (\<forall>i. cursor st' = Some i \<longrightarrow> i < length (items st')) \<and> released st' = released st @ ys1"
proof -
  have "at_split (xs @ t # []) ys (snd (cs_down st))" using at_split_down [OF assms(1)] by simp
  from collapse_loop_absorb [OF this assms(2) refl assms(4) refl] show ?thesis
    using at_split_data(2) [OF assms(1)] assms(3)
    by (simp add: range_collapse_def int64_add_def)
qed

subsection \<open>The insertion point\<close>

lemma find_insert_split:
  assumes "at_split xs ys st" "prng = (if xs = [] then None else Some (last xs))"
    and "\<forall>x \<in> set xs. fst (m x) < lo"
  shows "\<exists>xs' ys' st'. find_insert lo m prng st =
           ((case ys' of [] \<Rightarrow> None | y # _ \<Rightarrow> Some y), (if xs' = [] then None else Some (last xs')), st') \<and>
           xs @ ys = xs' @ ys' \<and> at_split xs' ys' st' \<and> (\<forall>x \<in> set xs'. fst (m x) < lo) \<and>
           (\<forall>y rest. ys' = y # rest \<longrightarrow> lo \<le> fst (m y)) \<and> released st' = released st"
  using assms
proof (induction ys arbitrary: xs st prng)
  case Nil
  then show ?case by (subst find_insert.simps) (auto simp: at_split_data(1))
next
  case (Cons y ys)
  note data = at_split_data(2) [OF Cons.prems(1)]
  show ?case
  proof (cases "lo \<le> fst (m y)")
    case True
    then have "find_insert lo m prng st = (Some y, prng, st)"
      using data by (subst find_insert.simps) simp
    with True Cons.prems show ?thesis by (intro exI [of _ xs] exI [of _ "y # ys"]) auto
  next
    case False
    with Cons.IH [OF at_split_down [OF Cons.prems(1)], of "Some y"] Cons.prems(3) data show ?thesis
      by (subst find_insert.simps) simp
  qed
qed

subsection \<open>Canonical lists of ranges\<close>

lemma ranges_ok_Cons:
  "ranges_ok (r # rs) \<longleftrightarrow> fst r \<le> snd r \<and> (rs \<noteq> [] \<longrightarrow> snd r + 1 < fst (hd rs)) \<and> ranges_ok rs"
  by (cases rs) auto

lemma ranges_ok_append:
  "ranges_ok (xs @ ys) \<longleftrightarrow>
     ranges_ok xs \<and> ranges_ok ys \<and> (xs \<noteq> [] \<longrightarrow> ys \<noteq> [] \<longrightarrow> snd (last xs) + 1 < fst (hd ys))"
  by (induction xs) (auto simp: ranges_ok_Cons)

lemma covered_simps [simp]:
  "covered [] = {}" "covered (r # rs) = {fst r..snd r} \<union> covered rs" "covered (xs @ ys) = covered xs \<union> covered ys"
  by (auto simp: covered_def)

lemma absorb_ok:
  assumes "ranges_ok rs" "absorb b rs = (b', rs')" "a \<le> b" "rs \<noteq> [] \<longrightarrow> a \<le> fst (hd rs)"
  shows "b \<le> b' \<and> ranges_ok rs' \<and> (rs' \<noteq> [] \<longrightarrow> b' + 1 < fst (hd rs')) \<and>
    {a..b'} \<union> covered rs' = {a..b} \<union> covered rs"
  using assms
proof (induction rs)
  case (Cons r rs)
  have r: "fst r \<le> snd r" "rs \<noteq> [] \<longrightarrow> snd r + 1 < fst (hd rs)" "ranges_ok rs" "a \<le> fst r"
    using Cons.prems(1,4) by (simp_all add: ranges_ok_Cons)
  consider "b + 1 < fst r" | "fst r \<le> b + 1" "b < snd r" | "fst r \<le> b + 1" "snd r \<le> b" by linarith
  then show ?case
  proof cases
    case 1 with Cons.prems show ?thesis by auto
  next
    case 2 
    then have "{a..snd r} = {a..b} \<union> {fst r..snd r}" using r Cons.prems(3) by auto
    with 2 Cons.prems(2) r show ?thesis by auto
  next
    case 3
    then have "{a..b} = {a..b} \<union> {fst r..snd r}" using r by auto
    moreover have "rs \<noteq> [] \<longrightarrow> a \<le> fst (hd rs)" using r by auto
    ultimately show ?thesis using 3 Cons.IH r(3) Cons.prems(2,3) by auto
  qed
qed auto

lemma absorb_small:
  "absorb b rs = (b', rs') \<Longrightarrow> \<forall>r \<in> set rs. snd r < n \<Longrightarrow> b < n \<Longrightarrow> b' < n \<and> set rs' \<subseteq> set rs"
  by (induction rs) (auto split: if_splits)

lemma extend_ok:
  assumes "ranges_ok (rs1 @ rs2)" "absorb hi rs2 = (b, rs2')" "a \<le> hi"
    and "rs1 \<noteq> [] \<longrightarrow> snd (last rs1) + 1 < a" "rs2 \<noteq> [] \<longrightarrow> a \<le> fst (hd rs2)"
  shows "ranges_ok (rs1 @ (a, b) # rs2')"
    "covered (rs1 @ (a, b) # rs2') = covered rs1 \<union> {a..hi} \<union> covered rs2"
proof -
  have rs: "ranges_ok rs1" "ranges_ok rs2" using assms(1) by (simp_all add: ranges_ok_append)
  note ab = absorb_ok [OF rs(2) assms(2,3,5)]
  then show "ranges_ok (rs1 @ (a, b) # rs2')" using rs(1) assms(3,4) by (simp add: ranges_ok_append ranges_ok_Cons)
  show "covered (rs1 @ (a, b) # rs2') = covered rs1 \<union> {a..hi} \<union> covered rs2" using ab by auto
qed

subsection \<open>Merging\<close>

text \<open>The outcome of a merge of the array \<open>new\<close>.\<close>

definition merged :: "rmem \<Rightarrow> nat cstack \<Rightarrow> nat \<Rightarrow> rmem \<Rightarrow> nat cstack \<Rightarrow> bool" where
  "merged m st new m' st' \<longleftrightarrow>
     range_stack_ok m' st' \<and> covered (ranges m' st') = covered (ranges m st) \<union> {fst (m new)..snd (m new)} \<and>
     mset (ptrs st') + mset (released st') = mset (ptrs st) + mset (released st) + {#new#} \<and>
     set (ptrs st') \<subseteq> insert new (set (ptrs st)) \<and>
     (\<forall>r \<in> set (ranges m' st'). small_rng r) \<and> (\<forall>p. p \<notin> set (ptrs st) \<longrightarrow> m' p = m p)"

lemma mergedI:
  assumes "items st' = map Some ps'" "distinct ps'" "\<forall>i. cursor st' = Some i \<longrightarrow> i < length ps'"
    and "ranges_ok (map m' ps')" "covered (map m' ps') = covered (ranges m st) \<union> {fst (m new)..snd (m new)}"
    and "mset ps' + mset (released st') = mset (ptrs st) + mset (released st) + {#new#}"
    and "set ps' \<subseteq> insert new (set (ptrs st))"
    and "\<And>p. p \<in> set ps' \<Longrightarrow> small_rng (m' p)" "\<And>p. p \<notin> set (ptrs st) \<Longrightarrow> m' p = m p"
  shows "merged m st new m' st'"
  using assms by (auto simp: merged_def range_stack_ok_def ranges_def ptrs_def o_def)

text \<open>Both ways of collapsing: the range at \<open>p\<close> has grown to \<open>(a, hi)\<close> and swallows some of those below.\<close>

lemma collapse_merged:
  assumes split: "at_split xs (p # ys) st1" "distinct (xs @ p # ys)" "ptrs st = xs @ p # ys"
    and rel: "mset (released st1) + extra = mset (released st) + {#new#}" "extra = {#} \<or> extra = {#new#}"
    and ok: "ranges_ok (map m xs @ map m ys)" "a \<le> hi" "xs \<noteq> [] \<longrightarrow> snd (m (last xs)) + 1 < a"
      "ys \<noteq> [] \<longrightarrow> a \<le> fst (m (hd ys))"
    and cov: "{a..hi} = {fst (m p)..snd (m p)} \<union> {fst (m new)..snd (m new)}"
    and small: "\<forall>q \<in> set (xs @ p # ys). small_rng (m q)" "small_rng (a, hi)"
  shows "\<exists>m' st'. range_collapse (m(p := (a, hi))) st1 = Some (m', st') \<and>
           merged m st new m' (if extra = {#} then st' else free_rng new st')"
proof -
  let ?m = "m(p := (a, hi))"
  have pys: "p \<notin> set ys" "p \<notin> set xs" "map ?m ys = map m ys" "map ?m xs = map m xs" using split(2) by auto
  obtain b rs where ab: "absorb hi (map m ys) = (b, rs)" by fastforce
  have "int64_ok (hi + 1)" using small(2) ok(2) by (simp add: int64_ok_def small_rng_def)
  with range_collapse_absorb [OF split(1,2), of ?m b rs] ab pys obtain ys1 ys2 m' st' where
    c: "range_collapse ?m st1 = Some (m', st')" "ys = ys1 @ ys2" "rs = map ?m ys2" "m' = m(p := (a, b))"
    "items st' = map Some (xs @ p # ys2)" "\<forall>i. cursor st' = Some i \<longrightarrow> i < length (items st')"
    "released st' = released st1 @ ys1"
    by auto
  have rs: "rs = map m ys2" "map m' (xs @ p # ys2) = map m xs @ (a, b) # map m ys2"
    using pys c by auto
  have ext: "ranges_ok (map m xs @ (a, b) # rs)"
    "covered (map m xs @ (a, b) # rs) = covered (map m xs) \<union> {a..hi} \<union> covered (map m ys)"
    using extend_ok [OF ok(1) ab ok(2)] ok(3,4) by (auto simp: last_map hd_map)
  have "b < 2 ^ 63 - 1"
    using absorb_small [OF ab, of "2 ^ 63 - 1"] small by (auto simp: small_rng_def)
  then have sm: "small_rng (m' q)" if "q \<in> set (xs @ p # ys2)" for q
    using that small c(2,4) by (auto simp: small_rng_def)
  have cov': "covered (map m' (xs @ p # ys2)) = covered (ranges m st) \<union> {fst (m new)..snd (m new)}"
    using ext(2) cov unfolding rs(2) rs(1) [symmetric] by (auto simp: ranges_def split(3))
  have "merged m st new m' (if extra = {#} then st' else free_rng new st')"
    using rel split(2,3) c(2-7) ext(1) cov' sm rs
    by (intro mergedI [of _ "xs @ p # ys2"]) (auto simp: free_rng_def)
  with c(1) show ?thesis by blast
qed

lemma range_stack_okD:
  assumes "range_stack_ok m st"
  shows "items st = map Some (ptrs st)" "distinct (ptrs st)" "ranges_ok (map m (ptrs st))"
proof -
  have "None \<notin> set (items st)" using assms by (simp add: range_stack_ok_def)
  then have "\<forall>x \<in> set (items st). Some (the x) = x" by (metis option.collapse)
  then show "items st = map Some (ptrs st)" by (simp add: ptrs_def map_idI)
  show "distinct (ptrs st)" "ranges_ok (map m (ptrs st))"
    using assms by (simp_all add: range_stack_ok_def ranges_def)
qed

lemma ranges_ok_member: "ranges_ok rs \<Longrightarrow> r \<in> set rs \<Longrightarrow> fst r \<le> snd r"
  by (induction rs) (auto simp: ranges_ok_Cons)

text \<open>The three ways to go on from the insertion point.\<close>

lemma extend_prev_merged:
  assumes split: "at_split (xs @ [p]) ys st1" "distinct (xs @ p # ys)" "ptrs st = xs @ p # ys" "released st1 = released st"
    and ok: "ranges_ok (map m (ptrs st))" "fst (m p) < fst (m new)" "ys \<noteq> [] \<longrightarrow> fst (m new) \<le> fst (m (hd ys))"
      "fst (m new) \<le> snd (m p) + 1" "snd (m p) < snd (m new)"
    and small: "\<forall>q \<in> set (xs @ p # ys). small_rng (m q)" "small_rng (m new)"
  shows "\<exists>m' st'. (if ys \<noteq> [] then range_collapse (m(p := (fst (m p), snd (m new)))) (snd (cs_up st1))
                    else Some (m(p := (fst (m p), snd (m new))), st1)) = Some (m', st') \<and>
                  merged m st new m' (free_rng new st')"
proof -
  let ?a = "fst (m p)" and ?hi = "snd (m new)"
  have r: "ranges_ok (map m xs @ map m ys)" "?a \<le> ?hi" "xs \<noteq> [] \<longrightarrow> snd (m (last xs)) + 1 < ?a"
    "ys \<noteq> [] \<longrightarrow> ?a \<le> fst (m (hd ys))" "?a \<le> snd (m p)"
    using ok split(3) by (auto simp: ranges_ok_append ranges_ok_Cons last_map hd_map)
  have cov: "{?a..?hi} = {?a..snd (m p)} \<union> {fst (m new)..?hi}" using ok r(5) by auto
  have sm: "small_rng (?a, ?hi)" using small by (auto simp: small_rng_def)
  show ?thesis
  proof (cases ys)
    case Nil
    have pxs: "map (m(p := (?a, ?hi))) xs = map m xs" using split(2) by auto
    have "merged m st new (m(p := (?a, ?hi))) (free_rng new st1)"
      using split small(1) sm r(1-3) cov Nil pxs
      by (intro mergedI [of _ "xs @ [p]"])
        (auto simp: at_split_def free_rng_def ranges_def ranges_ok_append ranges_ok_Cons last_map)
    with Nil show ?thesis by auto
  next
    case (Cons y zs)
    have "at_split xs (p # ys) (snd (cs_up st1))"
      using at_split_up [of xs p y zs] split(1) Cons by simp
    moreover have "mset (released (snd (cs_up st1))) + {#new#} = mset (released st) + {#new#}"
      using split(4) by simp
    ultimately show ?thesis
      using collapse_merged [OF _ split(2,3) _ _ r(1-4) cov small(1) sm, of _ "{#new#}"] Cons by auto
  qed
qed

lemma extend_curr_merged:
  assumes split: "at_split xs (y # ys) st1" "distinct (xs @ y # ys)" "ptrs st = xs @ y # ys" "released st1 = released st"
    and ok: "ranges_ok (map m (ptrs st))" "xs \<noteq> [] \<longrightarrow> snd (m (last xs)) + 1 < fst (m new)"
      "fst (m new) \<le> fst (m y)" "fst (m y) \<le> snd (m new) + 1" "fst (m new) \<le> snd (m new)"
    and small: "\<forall>q \<in> set (xs @ y # ys). small_rng (m q)" "small_rng (m new)"
  shows "\<exists>m' st'. (if snd (m y) < snd (m new) then range_collapse (m(y := (fst (m new), snd (m new)))) (free_rng new st1)
                    else Some (m(y := (fst (m new), snd (m y))), free_rng new st1)) = Some (m', st') \<and>
                  merged m st new m' st'"
proof -
  let ?lo = "fst (m new)" and ?hi = "snd (m new)"
  have r: "ranges_ok (map m xs @ map m ys)" "ranges_ok (map m ys)" "ys \<noteq> [] \<longrightarrow> snd (m y) + 1 < fst (m (hd ys))" "fst (m y) \<le> snd (m y)"
    "ranges_ok (map m xs)"
    using ok split(3) by (auto simp: ranges_ok_append ranges_ok_Cons last_map hd_map)
  show ?thesis
  proof (cases "snd (m y) < ?hi")
    case True
    have "{?lo..?hi} = {fst (m y)..snd (m y)} \<union> {?lo..?hi}" using True ok r(4) by auto
    moreover have "ys \<noteq> [] \<longrightarrow> ?lo \<le> fst (m (hd ys))" using r(3,4) ok(3) by linarith
    ultimately show ?thesis
      using collapse_merged [of xs y ys "free_rng new st1" st "{#}" new m ?lo ?hi] True split small ok(2,5) r(1)
      by auto
  next
    case False
    have yxs: "map (m(y := (?lo, snd (m y)))) xs = map m xs" "map (m(y := (?lo, snd (m y)))) ys = map m ys"
      using split(2) by auto
    have cov: "{?lo..snd (m y)} = {fst (m y)..snd (m y)} \<union> {?lo..?hi}" using False ok by auto
    have sm: "small_rng (?lo, snd (m y))" using small by (auto simp: small_rng_def)
    have "merged m st new (m(y := (?lo, snd (m y)))) (free_rng new st1)"
      using split yxs cov sm small(1) r ok(2,3)
      by (intro mergedI [of _ "xs @ y # ys"])
        (auto simp: at_split_def free_rng_def ranges_def ranges_ok_append ranges_ok_Cons last_map hd_map)
    with False show ?thesis by auto
  qed
qed

lemma insert_merged:
  assumes "items st' = map Some (xs @ new # ys)" "cursor st' = Some (length xs)" "released st' = released st"
    and "ptrs st = xs @ ys" "distinct (xs @ ys)" "new \<notin> set (xs @ ys)" "ranges_ok (map m (ptrs st))"
    and "xs \<noteq> [] \<longrightarrow> snd (m (last xs)) + 1 < fst (m new)" "ys \<noteq> [] \<longrightarrow> snd (m new) + 1 < fst (m (hd ys))"
    and "fst (m new) \<le> snd (m new)" "\<forall>q \<in> set (xs @ ys). small_rng (m q)" "small_rng (m new)"
  shows "merged m st new m st'"
  using assms
  by (intro mergedI [of _ "xs @ new # ys"])
    (auto simp: ranges_def ranges_ok_append ranges_ok_Cons last_map hd_map)

lemma merge_merged:
  assumes ok: "range_stack_ok m st" and new: "new \<notin> set (ptrs st)" "fst (m new) \<le> snd (m new)" "small_rng (m new)"
    and small: "\<forall>r \<in> set (ranges m st). small_rng r"
  shows "\<exists>m' st'. tbx_range_stack_merge m (Some st) new = Some (m', st') \<and> merged m st new m' st'"
proof (cases "items st = []")
  case True
  then show ?thesis
    using assms by (auto simp: tbx_range_stack_merge_def cs_push_def ptrs_def ranges_def intro!: mergedI [of _ "[new]"])
next
  case False
  note st = range_stack_okD [OF ok]
  let ?lo = "fst (m new)" and ?hi = "snd (m new)"
  have "at_split [] (ptrs st) (cs_first st)"
    using st(1) False by (auto simp: at_split_def cs_first_def)
  from find_insert_split [OF this, of None m ?lo] obtain xs ys st1 where
    f: "find_insert ?lo m None (cs_first st) =
      ((case ys of [] \<Rightarrow> None | y # _ \<Rightarrow> Some y), (if xs = [] then None else Some (last xs)), st1)"
    "ptrs st = xs @ ys" "at_split xs ys st1" "\<forall>x \<in> set xs. fst (m x) < ?lo"
    "\<forall>y rest. ys = y # rest \<longrightarrow> ?lo \<le> fst (m y)" "released st1 = released st"
    by (auto simp: cs_first_def)
  have sm: "\<forall>q \<in> set (xs @ ys). small_rng (m q)" using small f(2) by (auto simp: ranges_def)
  note step = tbx_range_stack_merge_def Let_def f(1)
  have adds: "int64_add ?lo (- 10) = Some (?lo - 10)" "int64_add (?lo - 10) 1 = Some (?lo - 9)"
    "int64_add ?hi 1 = Some (?hi + 1)"
    using new(2,3) by (auto simp: int64_add_def int64_ok_def small_rng_def)
  have add1: "int64_add (snd (m q)) 1 = Some (snd (m q) + 1)" if "q \<in> set (xs @ ys)" for q
  proof -
    have "small_rng (m q)" "fst (m q) \<le> snd (m q)"
      using that sm ranges_ok_member [OF st(3), of "m q"] f(2) by auto
    then show ?thesis by (simp add: int64_add_def int64_ok_def small_rng_def)
  qed
  have dist: "distinct (xs @ ys)" using st(2) f(2) by simp
  have okm: "ranges_ok (map m (ptrs st))" by (rule st(3))
  show ?thesis
  proof (cases "xs \<noteq> [] \<and> ?lo \<le> snd (m (last xs)) + 1")
    case True
    then obtain us p where us: "xs = us @ [p]" by (cases xs rule: rev_cases) auto
    have p: "fst (m p) < ?lo" "ys \<noteq> [] \<longrightarrow> ?lo \<le> fst (m (hd ys))" using f(4,5) us by (cases ys; auto)+
    show ?thesis
    proof (cases "snd (m p) < ?hi")
      case hi: True
      obtain m' st' where "(if ys \<noteq> [] then range_collapse (m(p := (fst (m p), ?hi))) (snd (cs_up st1))
          else Some (m(p := (fst (m p), ?hi)), st1)) = Some (m', st')" "merged m st new m' (free_rng new st')"
        using extend_prev_merged [of us p ys st1 st m new] f(2,3,6) us dist okm p True hi sm new(3) by auto
      moreover have "tbx_range_stack_merge m (Some st) new = do {
          (m, st) \<leftarrow> (if ys \<noteq> [] then range_collapse (m(p := (fst (m p), ?hi))) (snd (cs_up st1))
            else Some (m(p := (fst (m p), ?hi)), st1)); Some (m, free_rng new st) }"
        using True hi us add1 [of p] False by (cases ys) (simp_all add: step)
      ultimately show ?thesis by simp
    next
      case hi: False
      have "fst (m p) \<le> snd (m p)" using ranges_ok_member [OF okm, of "m p"] f(2) us by auto
      have "{?lo..?hi} \<subseteq> {fst (m p)..snd (m p)}" using p(1) hi by auto
      then have "merged m st new m (free_rng new st1)"
        using f(2,3,6) us dist okm sm
        by (intro mergedI [of _ "ptrs st"]) (auto simp: at_split_def free_rng_def ranges_def split: if_splits)
      then show ?thesis
        using True hi us add1 [of p] False by (simp add: step)
    qed
  next
    case prev: False
    then have pl: "xs \<noteq> [] \<longrightarrow> snd (m (last xs)) + 1 < ?lo" by auto
    have go: "tbx_range_stack_merge m (Some st) new = (case ys of [] \<Rightarrow> Some (m, snd (cs_insert 1 (Some new) (cs_last st1)))
        | y # _ \<Rightarrow> if fst (m y) \<le> ?hi + 1
           then (if snd (m y) < ?hi then range_collapse (m(y := (?lo, ?hi))) (free_rng new st1)
                 else Some (m(y := (?lo, snd (m y))), free_rng new st1))
           else Some (m, snd (cs_insert 0 (Some new) st1)))"
      using prev adds add1 [of "last xs"] False by (cases "xs = []"; cases ys) (simp_all add: step)
    show ?thesis
    proof (cases ys)
      case Nil
      have "merged m st new m (snd (cs_insert 1 (Some new) (cs_last st1)))"
        using f(2,3,6) Nil dist new sm okm pl False
        by (intro insert_merged [of _ xs _ "[]"]) (auto simp: at_split_def cs_last_def cs_insert_def ptrs_def)
      with go Nil show ?thesis by simp
    next
      case (Cons y zs)
      have y: "?lo \<le> fst (m y)" using f(5) Cons by simp
      show ?thesis
      proof (cases "fst (m y) \<le> ?hi + 1")
        case True
        then show ?thesis
          using extend_curr_merged [of xs y zs st1 st m new] f(2,3,6) Cons dist okm pl y new(2,3) sm go by auto
      next
        case False
        have "merged m st new m (snd (cs_insert 0 (Some new) st1))"
          using f(2,3,6) Cons dist new sm okm pl False
          by (intro insert_merged [of _ xs _ ys]) (auto simp: at_split_def cs_insert_def)
        with go Cons False show ?thesis by simp
      qed
    qed
  qed
qed

subsection \<open>A set of integers has at most one canonical list\<close>

lemma covered_above: "ranges_ok (r # rs) \<Longrightarrow> x \<in> covered rs \<Longrightarrow> snd r + 1 < x"
  by (induction rs arbitrary: r) (force simp: ranges_ok_Cons)+

lemma ranges_ok_unique:
  "ranges_ok rs \<Longrightarrow> ranges_ok qs \<Longrightarrow> covered rs = covered qs \<Longrightarrow> rs = qs"
proof (induction rs arbitrary: qs)
  case Nil
  then show ?case by (cases qs) (auto simp: ranges_ok_Cons)
next
  case (Cons r rs)
  then obtain q qs' where qs: "qs = q # qs'" by (cases qs) (auto simp: ranges_ok_Cons)
  have r: "fst r \<le> snd r" "\<And>x. x \<in> covered rs \<Longrightarrow> snd r + 1 < x"
    and q: "fst q \<le> snd q" "\<And>x. x \<in> covered qs' \<Longrightarrow> snd q + 1 < x"
    using covered_above [OF Cons.prems(1)] covered_above [OF Cons.prems(2) [unfolded qs]] Cons.prems(1,2) qs
    by (auto simp: ranges_ok_Cons)
  have eq: "{fst r..snd r} \<union> covered rs = {fst q..snd q} \<union> covered qs'"
    using Cons.prems(3) qs by simp
  have "fst r \<in> {fst q..snd q} \<union> covered qs'" "fst q \<in> {fst r..snd r} \<union> covered rs"
    using eq r(1) q(1) by auto
  then have f: "fst r = fst q" using r q by fastforce
  have "snd r + 1 \<notin> {fst q..snd q} \<union> covered qs'"
    unfolding eq [symmetric] using r(2) by force
  moreover have "snd q + 1 \<notin> {fst r..snd r} \<union> covered rs"
    unfolding eq using q(2) by force
  ultimately have s: "snd r = snd q" using f r(1) q(1) by auto
  have "covered rs = ({fst r..snd r} \<union> covered rs) - {..snd r}"
    using r(2) by force
  moreover have "covered qs' = ({fst q..snd q} \<union> covered qs') - {..snd q}"
    using q(2) by force
  ultimately have "covered rs = covered qs'" using eq s by simp
  with Cons f s qs show ?case by (auto simp: ranges_ok_Cons prod_eq_iff)
qed

subsection \<open>Sequences of merges\<close>

definition range_small :: "rmem \<Rightarrow> nat cstack \<Rightarrow> bool" where
  "range_small m st \<longleftrightarrow> range_stack_ok m st \<and> (\<forall>r \<in> set (ranges m st). small_rng r)"

lemma merge2_merged:
  assumes ok: "range_small m st" and new: "n \<notin> set (ptrs st)" "lo \<le> hi" "small_rng (lo, hi)"
  shows "\<exists>m' st'. tbx_range_stack_merge2 m (Some st) n lo hi = Some (m', st') \<and> range_small m' st' \<and>
           covered (ranges m' st') = covered (ranges m st) \<union> {lo..hi} \<and> set (ptrs st') \<subseteq> insert n (set (ptrs st))"
proof -
  let ?m = "m(n := (lo, hi))"
  have same: "ranges ?m st = ranges m st" using new(1) by (auto simp: ranges_def)
  have "range_stack_ok ?m st" using ok same by (simp add: range_small_def range_stack_ok_def)
  then obtain m' st' where "tbx_range_stack_merge2 m (Some st) n lo hi = Some (m', st')" "merged ?m st n m' st'"
    using merge_merged [of ?m st n] assms same by (auto simp: tbx_range_stack_merge2_def range_small_def)
  then show ?thesis using same by (auto simp: merged_def range_small_def)
qed

text \<open>Merging a list of ranges one after the other, each in an array of its own (addresses \<open>n\<close>, \<open>n + 1\<close>, \ldots).\<close>

fun merge_all :: "(int \<times> int) list \<Rightarrow> nat \<Rightarrow> rmem \<times> nat cstack \<Rightarrow> (rmem \<times> nat cstack) option" where
  "merge_all [] n q = Some q"
| "merge_all (r # rs) n (m, st) = tbx_range_stack_merge2 m (Some st) n (fst r) (snd r) \<bind> merge_all rs (Suc n)"

lemma merge_all_covers:
  assumes "range_small m st" "\<forall>p \<in> set (ptrs st). p < n" "\<forall>r \<in> set rs. fst r \<le> snd r \<and> small_rng r"
  shows "\<exists>m' st'. merge_all rs n (m, st) = Some (m', st') \<and> range_small m' st' \<and>
           covered (ranges m' st') = covered (ranges m st) \<union> covered rs"
  using assms
proof (induction rs arbitrary: n m st)
  case Nil
  then show ?case by simp
next
  case (Cons r rs)
  obtain m1 st1 where 1: "tbx_range_stack_merge2 m (Some st) n (fst r) (snd r) = Some (m1, st1)" "range_small m1 st1"
    "covered (ranges m1 st1) = covered (ranges m st) \<union> {fst r..snd r}" "set (ptrs st1) \<subseteq> insert n (set (ptrs st))"
    using merge2_merged [OF Cons.prems(1), of n "fst r" "snd r"] Cons.prems(2,3) by auto
  have "\<forall>p \<in> set (ptrs st1). p < Suc n" using 1(4) Cons.prems(2) by (auto simp: less_Suc_eq)
  from Cons.IH [OF 1(2) this] Cons.prems(3) 1(1,3) show ?case by auto
qed

lemma merge2_NULL: "tbx_range_stack_merge2 m None n lo hi =
    tbx_range_stack_merge2 m (Some \<lparr>items = [], cursor = None, released = []\<rparr>) n lo hi"
  by (simp add: tbx_range_stack_merge2_def tbx_range_stack_merge_def)

text \<open>
  C19: merging a range into a well formed list of ranges never overflows, keeps the list sorted, disjoint and
  free of adjacent neighbours, and the list afterwards covers exactly the old integers and the new ones.  Every
  range array is afterwards either on the list or freed, and exactly once: no array is leaked or freed twice.
\<close>

theorem range_merge_correct:
  assumes "range_stack_ok m st" "\<forall>r \<in> set (ranges m st). small_rng r"
    and "new \<notin> set (ptrs st)" "fst (m new) \<le> snd (m new)" "small_rng (m new)"
  shows "\<exists>m' st'. tbx_range_stack_merge m (Some st) new = Some (m', st') \<and> range_stack_ok m' st' \<and>
           covered (ranges m' st') = covered (ranges m st) \<union> {fst (m new)..snd (m new)} \<and>
           mset (ptrs st') + mset (released st') = mset (ptrs st) + mset (released st) + {#new#}"
  using merge_merged [of m st new] assms by (auto simp: merged_def)

definition demo_ranges :: rmem where
  "demo_ranges p = (if p = 5 then (100, 200) else if p = 6 then (300, 400) else if p = 7 then (150, 299) else (0, 0))"

definition demo_range_stack :: "nat cstack" where
  "demo_range_stack = \<lparr>items = [Some 5, Some 6], cursor = None, released = []\<rparr>"

theorem range_merge_correct_witness:
  "\<exists>m' st'. tbx_range_stack_merge demo_ranges (Some demo_range_stack) 7 = Some (m', st') \<and>
     covered (ranges m' st') = {100..400} \<and> mset (ptrs st') + mset (released st') = {#5, 6, 7#}"
proof -
  have "covered (ranges demo_ranges demo_range_stack) \<union> {fst (demo_ranges 7)..snd (demo_ranges 7)} = {100..400}"
    by (auto simp: ranges_def ptrs_def demo_ranges_def demo_range_stack_def)
  moreover have "range_stack_ok demo_ranges demo_range_stack"
     "\<forall>r \<in> set (ranges demo_ranges demo_range_stack). small_rng r" "7 \<notin> set (ptrs demo_range_stack)"
     "mset (ptrs demo_range_stack) + mset (released demo_range_stack) + {#7#} = {#5, 6, 7#}"
    by (auto simp: range_stack_ok_def ranges_def ptrs_def demo_ranges_def demo_range_stack_def small_rng_def)
  moreover have "fst (demo_ranges 7) \<le> snd (demo_ranges 7)" "small_rng (demo_ranges 7)"
    by (simp_all add: demo_ranges_def small_rng_def)
  ultimately show ?thesis
    using range_merge_correct [of demo_ranges demo_range_stack 7] by metis
qed

text \<open>
  C29: the list of ranges is a canonical form: merging ranges in any two orders, or any two collections of
  ranges that cover the same integers, into an empty list gives the same list.
\<close>

theorem range_merge_canonical:
  assumes "\<forall>r \<in> set rs \<union> set qs. fst r \<le> snd r \<and> small_rng r" "covered rs = covered qs"
    and "st0 = \<lparr>items = [], cursor = None, released = []\<rparr>"
  shows "\<exists>m1 st1 m2 st2. merge_all rs n (m, st0) = Some (m1, st1) \<and> merge_all qs n (m, st0) = Some (m2, st2) \<and>
           ranges m1 st1 = ranges m2 st2 \<and> covered (ranges m1 st1) = covered rs"
proof -
  have e: "range_small m st0" "\<forall>p \<in> set (ptrs st0). p < n" "covered (ranges m st0) = {}"
    by (simp_all add: assms(3) range_small_def range_stack_ok_def ptrs_def ranges_def)
  obtain m1 st1 where 1: "merge_all rs n (m, st0) = Some (m1, st1)" "range_small m1 st1" "covered (ranges m1 st1) = covered rs"
    using merge_all_covers [OF e(1,2), of rs] e(3) assms(1) by auto
  obtain m2 st2 where 2: "merge_all qs n (m, st0) = Some (m2, st2)" "range_small m2 st2" "covered (ranges m2 st2) = covered qs"
    using merge_all_covers [OF e(1,2), of qs] e(3) assms(1) by auto
  have "ranges m1 st1 = ranges m2 st2"
    using 1 2 assms(2) by (auto simp: range_small_def range_stack_ok_def intro: ranges_ok_unique)
  with 1 2 show ?thesis by blast
qed

theorem range_merge_canonical_witness:
  "\<exists>m1 st1. merge_all [(101, 200), (50, 75), (20, 100)] 1 (demo_ranges, \<lparr>items = [], cursor = None, released = []\<rparr>) = Some (m1, st1) \<and>
     covered (ranges m1 st1) = {20..200}"
proof -
  have "covered [(101, 200), (50, 75), (20, 100)] = {20..200}" "covered [(20, 200)] = {20..200}" by auto
  with range_merge_canonical [of "[(101, 200), (50, 75), (20, 100)]" "[(20, 200)]" _ 1 demo_ranges]
  show ?thesis by (auto simp: small_rng_def simp del: covered_simps)
qed

end
