(* ===== verification/Que.thy ===== *)
theory Que
  imports Prelude
begin

text \<open>
  The bounded queue between threads of \<^verbatim>\<open>toolbox/que.c\<close>.  A put or a get holds the lock of the queue during one
  pass of its loop and gives it up only while it waits on a condition, so an execution is a sequence of passes, made
  by calls and by wake-ups of waiting threads, in any order.  The clock readings are inputs of a pass.
\<close>

section \<open>The code\<close>

record tbx_que_t =
  array :: "u8 list"
  n_objects :: nat
  object_size :: nat
  slot :: nat
  n_used :: nat
  get_waiting :: nat
  put_waiting :: nat

definition TBX_QUE_BLOCK :: int where
  "TBX_QUE_BLOCK = 123456789"

definition tbx_que_create :: "nat \<Rightarrow> nat \<Rightarrow> tbx_que_t" where
  "tbx_que_create n sz =
     \<lparr>array = replicate (n * sz) 0, n_objects = n, object_size = sz, slot = 0, n_used = 0,
      get_waiting = 0, put_waiting = 0\<rparr>"

text \<open>How a pass of the loop ends: the call returns its error code (and the object read), or it waits.\<close>

datatype que_out = Ret int "u8 list option" | Wait int

text \<open>\<open>now\<close> is the clock at the time-out test, \<open>now'\<close> the one read again by a call that always blocks.\<close>

definition que_put_pass ::
  "tbx_que_t \<Rightarrow> u8 list option \<Rightarrow> int \<Rightarrow> int \<Rightarrow> int \<Rightarrow> int \<Rightarrow> (que_out \<times> tbx_que_t) option" where
  "que_put_pass q obj dt stime now now' =
     (if n_used q < n_objects q then
        (case obj of
           Some b \<Rightarrow> do {
             b \<leftarrow> read_at b 0 (object_size q);
             arr \<leftarrow> write_at (array q) (((n_used q + slot q) mod n_objects q) * object_size q) b;
             Some (Ret 0 None, q\<lparr>array := arr, n_used := n_used q + 1\<rparr>)
           }
         | None \<Rightarrow> Some (Ret 0 None, q))
      else if now - stime > dt then Some (Ret 1 None, q)
      else Some (Wait (if dt = TBX_QUE_BLOCK then now' else stime), q\<lparr>put_waiting := put_waiting q + 1\<rparr>))"

definition que_get_pass ::
  "tbx_que_t \<Rightarrow> bool \<Rightarrow> int \<Rightarrow> int \<Rightarrow> int \<Rightarrow> int \<Rightarrow> (que_out \<times> tbx_que_t) option" where
  "que_get_pass q obj dt stime now now' =
     (if n_used q > 0 then
        (if obj then do {
           let s = slot q mod n_objects q;
           b \<leftarrow> read_at (array q) (s * object_size q) (object_size q);
           Some (Ret 0 (Some b), q\<lparr>slot := s + 1, n_used := n_used q - 1\<rparr>)
         }
         else Some (Ret 0 None, q))
      else if now - stime > dt then Some (Ret 1 None, q)
      else Some (Wait (if dt = TBX_QUE_BLOCK then now' else stime), q\<lparr>get_waiting := get_waiting q + 1\<rparr>))"

section \<open>Threads that share a queue\<close>

text \<open>A thread outside of the queue, or waiting inside of a put or a get for its condition.\<close>

datatype que_thread =
    Outside
  | InPut "u8 list option" int int
  | InGet bool int int

text \<open>\<open>puts\<close> and \<open>gots\<close> record the objects of the successful calls in the order of their passes.\<close>

record que_sys =
  que :: tbx_que_t
  threads :: "que_thread list"
  puts :: "u8 list list"
  gots :: "u8 list list"

definition put_pass_of :: "nat \<Rightarrow> u8 list option \<Rightarrow> int \<Rightarrow> int \<Rightarrow> int \<Rightarrow> int \<Rightarrow> que_sys \<Rightarrow> que_sys option" where
  "put_pass_of i obj dt stime now now' s =
     map_option (\<lambda>(out, q). case out of
         Ret e _ \<Rightarrow> s\<lparr>que := q, threads := (threads s)[i := Outside],
                     puts := puts s @ (if e = 0 then (case obj of Some b \<Rightarrow> [b] | None \<Rightarrow> []) else [])\<rparr>
       | Wait stime' \<Rightarrow> s\<lparr>que := q, threads := (threads s)[i := InPut obj dt stime']\<rparr>)
       (que_put_pass (que s) obj dt stime now now')"

definition get_pass_of :: "nat \<Rightarrow> bool \<Rightarrow> int \<Rightarrow> int \<Rightarrow> int \<Rightarrow> int \<Rightarrow> que_sys \<Rightarrow> que_sys option" where
  "get_pass_of i obj dt stime now now' s =
     map_option (\<lambda>(out, q). case out of
         Ret _ r \<Rightarrow> s\<lparr>que := q, threads := (threads s)[i := Outside],
                     gots := gots s @ (case r of Some b \<Rightarrow> [b] | None \<Rightarrow> [])\<rparr>
       | Wait stime' \<Rightarrow> s\<lparr>que := q, threads := (threads s)[i := InGet obj dt stime']\<rparr>)
       (que_get_pass (que s) obj dt stime now now')"

inductive que_step :: "que_sys \<Rightarrow> que_sys \<Rightarrow> bool" where
  call_put: "i < length (threads s) \<Longrightarrow> threads s ! i = Outside \<Longrightarrow>
     (case obj of Some b \<Rightarrow> length b = object_size (que s) | None \<Rightarrow> True) \<Longrightarrow>
     put_pass_of i obj dt stime now now' s = Some s' \<Longrightarrow> que_step s s'"
| call_get: "i < length (threads s) \<Longrightarrow> threads s ! i = Outside \<Longrightarrow>
     get_pass_of i obj dt stime now now' s = Some s' \<Longrightarrow> que_step s s'"
| wake_put: "i < length (threads s) \<Longrightarrow> threads s ! i = InPut obj dt stime \<Longrightarrow>
     put_pass_of i obj dt stime now now' (s\<lparr>que := (que s)\<lparr>put_waiting := put_waiting (que s) - 1\<rparr>\<rparr>) = Some s' \<Longrightarrow>
     que_step s s'"
| wake_get: "i < length (threads s) \<Longrightarrow> threads s ! i = InGet obj dt stime \<Longrightarrow>
     get_pass_of i obj dt stime now now' (s\<lparr>que := (que s)\<lparr>get_waiting := get_waiting (que s) - 1\<rparr>\<rparr>) = Some s' \<Longrightarrow>
     que_step s s'"

definition que_start :: "nat \<Rightarrow> nat \<Rightarrow> nat \<Rightarrow> que_sys" where
  "que_start n sz t = \<lparr>que = tbx_que_create n sz, threads = replicate t Outside, puts = [], gots = []\<rparr>"

inductive que_reach :: "nat \<Rightarrow> nat \<Rightarrow> nat \<Rightarrow> que_sys \<Rightarrow> bool" for n sz t where
  start: "que_reach n sz t (que_start n sz t)"
| step: "que_reach n sz t s \<Longrightarrow> que_step s s' \<Longrightarrow> que_reach n sz t s'"

section \<open>What the queue holds\<close>

definition que_list :: "tbx_que_t \<Rightarrow> u8 list list" where
  "que_list q = map (\<lambda>k. the (read_at (array q) (((slot q + k) mod n_objects q) * object_size q) (object_size q)))
                  [0..<n_used q]"

definition que_ok :: "tbx_que_t \<Rightarrow> bool" where
  "que_ok q \<longleftrightarrow> 0 < n_objects q \<and> length (array q) = n_objects q * object_size q \<and> n_used q \<le> n_objects q"

fun in_put :: "que_thread \<Rightarrow> bool" where
  "in_put (InPut _ _ _) = True" | "in_put _ = False"

fun in_get :: "que_thread \<Rightarrow> bool" where
  "in_get (InGet _ _ _) = True" | "in_get _ = False"

fun put_size_ok :: "nat \<Rightarrow> que_thread \<Rightarrow> bool" where
  "put_size_ok sz (InPut (Some b) _ _) = (length b = sz)"
| "put_size_ok sz _ = True"

definition que_inv :: "que_sys \<Rightarrow> bool" where
  "que_inv s \<longleftrightarrow>
     que_ok (que s) \<and> puts s = gots s @ que_list (que s) \<and>
     put_waiting (que s) = length (filter in_put (threads s)) \<and>
     get_waiting (que s) = length (filter in_get (threads s)) \<and>
     (\<forall>th \<in> set (threads s). put_size_ok (object_size (que s)) th)"

lemma filter_update_count:
  "i < length xs \<Longrightarrow>
   length (filter P (xs[i := y])) + (if P (xs ! i) then 1 else 0) = length (filter P xs) + (if P y then 1 else 0)"
proof (induction xs arbitrary: i)
  case (Cons x xs)
  then show ?case by (cases i) auto
qed simp

section \<open>Effect of a pass\<close>

lemma que_list_fields:
  "que_list (q\<lparr>put_waiting := a\<rparr>) = que_list q" "que_list (q\<lparr>get_waiting := b\<rparr>) = que_list q"
  "que_ok (q\<lparr>put_waiting := a\<rparr>) = que_ok q" "que_ok (q\<lparr>get_waiting := b\<rparr>) = que_ok q"
  by (simp_all add: que_list_def que_ok_def)

lemma mod_apart:
  assumes "k < m" "m < (n::nat)"
  shows "(s + k) mod n \<noteq> (m + s) mod n"
proof
  assume "(s + k) mod n = (m + s) mod n"
  then have "(s + m - (s + k)) mod n = 0" by (metis add.commute mod_eq_dvd_iff_nat add_le_cancel_left assms(1) less_imp_le_nat mod_0_imp_dvd dvd_imp_mod_0)
  then show False using assms by simp
qed

lemma put_stores:
  assumes "que_ok q" "n_used q < n_objects q" "length b = object_size q"
  shows "\<exists>arr. write_at (array q) (((n_used q + slot q) mod n_objects q) * object_size q) b = Some arr \<and>
           que_ok (q\<lparr>array := arr, n_used := n_used q + 1\<rparr>) \<and>
           que_list (q\<lparr>array := arr, n_used := n_used q + 1\<rparr>) = que_list q @ [b]"
proof -
  let ?n = "n_objects q" and ?sz = "object_size q" and ?j = "(n_used q + slot q) mod n_objects q"
  have n: "?j < ?n" "length (array q) = ?n * ?sz" using assms(1) by (simp_all add: que_ok_def)
  obtain arr where arr: "write_at (array q) (?j * ?sz) b = Some arr" "length arr = ?n * ?sz"
    "\<And>i. i < ?n \<Longrightarrow> read_at arr (i * ?sz) ?sz = (if i = ?j then Some b else read_at (array q) (i * ?sz) ?sz)"
    by (rule write_at_block [OF n(2) assms(3) n(1)]) blast
  have "read_at arr (((slot q + k) mod ?n) * ?sz) ?sz = read_at (array q) (((slot q + k) mod ?n) * ?sz) ?sz"
    if "k < n_used q" for k
    using arr(3) [of "(slot q + k) mod ?n"] mod_apart [OF that assms(2), of "slot q"] n(1) by auto
  moreover have "read_at arr (((slot q + n_used q) mod ?n) * ?sz) ?sz = Some b"
    using arr(3) [OF n(1)] by (simp add: add.commute)
  ultimately show ?thesis
    using arr(1,2) assms by (auto simp: que_list_def que_ok_def)
qed

lemma get_takes:
  assumes "que_ok q" "0 < n_used q"
  shows "\<exists>b. read_at (array q) ((slot q mod n_objects q) * object_size q) (object_size q) = Some b \<and>
           que_ok (q\<lparr>slot := slot q mod n_objects q + 1, n_used := n_used q - 1\<rparr>) \<and>
           que_list q = b # que_list (q\<lparr>slot := slot q mod n_objects q + 1, n_used := n_used q - 1\<rparr>)"
proof -
  let ?n = "n_objects q" and ?sz = "object_size q"
  have "slot q mod ?n < ?n" using assms(1) by (simp add: que_ok_def)
  from block_end [OF this, of ?sz] obtain b where b: "read_at (array q) ((slot q mod ?n) * ?sz) ?sz = Some b"
    using assms(1) by (auto simp: read_at_def que_ok_def)
  have "[0..<n_used q] = 0 # map Suc [0..<n_used q - 1]"
    using assms(2) by (metis Suc_pred' map_Suc_upt upt_conv_Cons)
  moreover have "(slot q mod ?n + 1 + k) mod ?n = (slot q + Suc k) mod ?n" for k
    by (metis add.assoc mod_add_left_eq plus_1_eq_Suc)
  ultimately have "que_list q = b # que_list (q\<lparr>slot := slot q mod ?n + 1, n_used := n_used q - 1\<rparr>)"
    using b by (simp add: que_list_def o_def)
  with b show ?thesis using assms(1) by (auto simp: que_ok_def)
qed

text \<open>One pass of a put or of a get that starts with the counters of the other waiting threads.\<close>

lemma put_pass_inv:
  assumes ok: "que_ok (que s)" "puts s = gots s @ que_list (que s)" "i < length (threads s)"
    and size: "case obj of Some b \<Rightarrow> length b = object_size (que s) | None \<Rightarrow> True"
      "\<forall>th \<in> set (threads s). put_size_ok (object_size (que s)) th"
    and cnt: "put_waiting (que s) + (if in_put (threads s ! i) then 1 else 0) = length (filter in_put (threads s))"
      "get_waiting (que s) = length (filter in_get (threads s))" "\<not> in_get (threads s ! i)"
  shows "\<exists>s'. put_pass_of i obj dt stime now now' s = Some s' \<and> que_inv s'"
proof -
  have sz: "\<forall>th \<in> set ((threads s)[i := t]). put_size_ok (object_size (que s)) th"
    if "put_size_ok (object_size (que s)) t" for t
    using size(2) that set_update_subset_insert by fastforce
  have c: "length (filter in_put ((threads s)[i := t])) = put_waiting (que s) + (if in_put t then 1 else 0)"
    "length (filter in_get ((threads s)[i := t])) = get_waiting (que s) + (if in_get t then 1 else 0)" for t
    using filter_update_count [OF ok(3), of in_put t] filter_update_count [OF ok(3), of in_get t] cnt by auto
  consider "n_used (que s) < n_objects (que s)" "obj = None"
    | b where "n_used (que s) < n_objects (que s)" "obj = Some b"
    | "\<not> n_used (que s) < n_objects (que s)" by fastforce
  then show ?thesis
  proof cases
    case 1 then show ?thesis
      using ok sz [of Outside] c by (auto simp: put_pass_of_def que_put_pass_def que_inv_def)
  next
    case 2
    then have "read_at b 0 (object_size (que s)) = Some b" using size(1) by (simp add: read_at_def)
    with 2 put_stores [OF ok(1) 2(1), of b] size(1) ok sz [of Outside] c show ?thesis
      by (auto simp: put_pass_of_def que_put_pass_def que_inv_def)
  next
    case 3
    have "put_size_ok (object_size (que s)) (InPut obj dt t)" for t using size(1) by (cases obj) auto
    with 3 show ?thesis
      using ok sz sz [of Outside] c by (auto simp: put_pass_of_def que_put_pass_def que_inv_def que_list_fields)
  qed
qed

lemma get_pass_inv:
  assumes ok: "que_ok (que s)" "puts s = gots s @ que_list (que s)" "i < length (threads s)"
    and size: "\<forall>th \<in> set (threads s). put_size_ok (object_size (que s)) th"
    and cnt: "put_waiting (que s) = length (filter in_put (threads s))" "\<not> in_put (threads s ! i)"
      "get_waiting (que s) + (if in_get (threads s ! i) then 1 else 0) = length (filter in_get (threads s))"
  shows "\<exists>s'. get_pass_of i obj dt stime now now' s = Some s' \<and> que_inv s'"
proof -
  have sz: "\<forall>th \<in> set ((threads s)[i := t]). put_size_ok (object_size (que s)) th"
    if "put_size_ok (object_size (que s)) t" for t
    using size that set_update_subset_insert by fastforce
  have c: "length (filter in_put ((threads s)[i := t])) = put_waiting (que s) + (if in_put t then 1 else 0)"
    "length (filter in_get ((threads s)[i := t])) = get_waiting (que s) + (if in_get t then 1 else 0)" for t
    using filter_update_count [OF ok(3), of in_put t] filter_update_count [OF ok(3), of in_get t] cnt by auto
  consider "0 < n_used (que s)" "\<not> obj" | "0 < n_used (que s)" "obj" | "\<not> 0 < n_used (que s)" by fastforce
  then show ?thesis
  proof cases
    case 1 then show ?thesis
      using ok sz [of Outside] c by (auto simp: get_pass_of_def que_get_pass_def que_inv_def)
  next
    case 2 with get_takes [OF ok(1) 2(1)] ok sz [of Outside] c show ?thesis
      by (auto simp: get_pass_of_def que_get_pass_def que_inv_def Let_def)
  next
    case 3 then show ?thesis
      using ok sz [of Outside] sz [of "InGet obj dt stime"] sz [of "InGet obj dt now'"] c by (auto simp: get_pass_of_def que_get_pass_def que_inv_def que_list_fields)
  qed
qed

lemma que_inv_start: "0 < n \<Longrightarrow> que_inv (que_start n sz t)"
  by (auto simp: que_inv_def que_start_def tbx_que_create_def que_ok_def que_list_def)

lemma filter_pos: "i < length xs \<Longrightarrow> P (xs ! i) \<Longrightarrow> 0 < length (filter P xs)"
  using nth_mem [of i xs] by (auto simp: filter_empty_conv)

lemma wake_put_inv:
  assumes "que_inv s" "i < length (threads s)" "threads s ! i = InPut obj dt stime"
  shows "\<exists>s'. put_pass_of i obj dt stime now now' (s\<lparr>que := (que s)\<lparr>put_waiting := put_waiting (que s) - 1\<rparr>\<rparr>) = Some s' \<and>
           que_inv s'"
proof (rule put_pass_inv)
  have "0 < length (filter in_put (threads s))" using filter_pos [OF assms(2), of in_put] assms(3) by simp
  then show "put_waiting (que (s\<lparr>que := (que s)\<lparr>put_waiting := put_waiting (que s) - 1\<rparr>\<rparr>)) +
      (if in_put (threads (s\<lparr>que := (que s)\<lparr>put_waiting := put_waiting (que s) - 1\<rparr>\<rparr>) ! i) then 1 else 0) =
      length (filter in_put (threads (s\<lparr>que := (que s)\<lparr>put_waiting := put_waiting (que s) - 1\<rparr>\<rparr>)))"
    using assms(1,3) by (simp add: que_inv_def)
  show "case obj of Some b \<Rightarrow> length b = object_size (que (s\<lparr>que := (que s)\<lparr>put_waiting := put_waiting (que s) - 1\<rparr>\<rparr>)) | None \<Rightarrow> True"
    using assms nth_mem [OF assms(2)] by (cases obj) (auto simp: que_inv_def)
qed (use assms in \<open>auto simp: que_inv_def que_list_fields\<close>)

lemma wake_get_inv:
  assumes "que_inv s" "i < length (threads s)" "threads s ! i = InGet obj dt stime"
  shows "\<exists>s'. get_pass_of i obj dt stime now now' (s\<lparr>que := (que s)\<lparr>get_waiting := get_waiting (que s) - 1\<rparr>\<rparr>) = Some s' \<and>
           que_inv s'"
proof (rule get_pass_inv)
  have "0 < length (filter in_get (threads s))" using filter_pos [OF assms(2), of in_get] assms(3) by simp
  then show "get_waiting (que (s\<lparr>que := (que s)\<lparr>get_waiting := get_waiting (que s) - 1\<rparr>\<rparr>)) +
      (if in_get (threads (s\<lparr>que := (que s)\<lparr>get_waiting := get_waiting (que s) - 1\<rparr>\<rparr>) ! i) then 1 else 0) =
      length (filter in_get (threads (s\<lparr>que := (que s)\<lparr>get_waiting := get_waiting (que s) - 1\<rparr>\<rparr>)))"
    using assms(1,3) by (simp add: que_inv_def)
qed (use assms in \<open>auto simp: que_inv_def que_list_fields\<close>)

lemma que_step_inv: "que_step s s' \<Longrightarrow> que_inv s \<Longrightarrow> que_inv s'"
proof (induction rule: que_step.induct)
  case (call_put i s obj dt stime now now' s')
  then show ?case
    using put_pass_inv [of s i obj dt stime now now'] by (auto simp: que_inv_def)
next
  case (call_get i s obj dt stime now now' s')
  then show ?case
    using get_pass_inv [of s i obj dt stime now now'] by (auto simp: que_inv_def)
next
  case (wake_put i s obj dt stime now now' s')
  then show ?case using wake_put_inv [of s i obj dt stime now now'] by auto
next
  case (wake_get i s obj dt stime now now' s')
  then show ?case using wake_get_inv [of s i obj dt stime now now'] by auto
qed

lemma que_reach_inv: "que_reach n sz t s \<Longrightarrow> 0 < n \<Longrightarrow> que_inv s"
  by (induction rule: que_reach.induct) (auto intro: que_inv_start que_step_inv)

section \<open>Properties\<close>

text \<open>
  C13: however the passes of any number of threads interleave, the queue is first in, first out and loses nothing:
  the objects put so far are the objects got so far followed by the objects in the ring buffer, which never holds
  more than its capacity, and the waiting counters count the threads that wait.
\<close>

theorem que_fifo:
  assumes "que_reach n sz t s" "0 < n"
  shows "puts s = gots s @ que_list (que s) \<and> n_used (que s) \<le> n_objects (que s) \<and>
         put_waiting (que s) = length (filter in_put (threads s)) \<and>
         get_waiting (que s) = length (filter in_get (threads s))"
  using que_reach_inv [OF assms] by (auto simp: que_inv_def que_ok_def)

lemma demo_que_reach:
  "que_reach 1 1 2 \<lparr>que = (tbx_que_create 1 1)\<lparr>array := [7], n_used := 1, put_waiting := 1\<rparr>,
                    threads = [Outside, InPut (Some [8]) 10 0], puts = [[7]], gots = []\<rparr>"
proof -
  let ?s1 = "\<lparr>que = (tbx_que_create 1 1)\<lparr>array := [7], n_used := 1\<rparr>, threads = [Outside, Outside], puts = [[7]], gots = []\<rparr>"
  have "que_step (que_start 1 1 2) ?s1"
    by (rule call_put [of 0 _ "Some [7]" 10 0 0 0])
      (simp_all add: que_start_def tbx_que_create_def put_pass_of_def que_put_pass_def read_at_def write_at_def numeral_2_eq_2)
  then have "que_reach 1 1 2 ?s1" by (rule que_reach.step [OF que_reach.start])
  moreover have "que_step ?s1 \<lparr>que = (tbx_que_create 1 1)\<lparr>array := [7], n_used := 1, put_waiting := 1\<rparr>,
                    threads = [Outside, InPut (Some [8]) 10 0], puts = [[7]], gots = []\<rparr>"
    by (rule call_put [of 1 _ "Some [8]" 10 0 0 0])
      (simp_all add: tbx_que_create_def put_pass_of_def que_put_pass_def TBX_QUE_BLOCK_def)
  ultimately show ?thesis by (rule que_reach.step)
qed

theorem que_fifo_witness:
  "\<exists>s. que_reach 1 1 2 s \<and> puts s = [[7]] \<and> put_waiting (que s) = 1 \<and> puts s = gots s @ que_list (que s)"
  using demo_que_reach que_fifo [OF demo_que_reach] by auto

text \<open>
  C36: in every reachable state, a thread that waits inside of a put completes it with its next pass once there is
  room, and the object is then the last of the queue.
\<close>

theorem que_wake_completes:
  assumes "que_reach n sz t s" "0 < n" "i < length (threads s)" "threads s ! i = InPut (Some b) dt stime"
    and "n_used (que s) < n_objects (que s)"
  shows "\<exists>s'. put_pass_of i (Some b) dt stime now now' (s\<lparr>que := (que s)\<lparr>put_waiting := put_waiting (que s) - 1\<rparr>\<rparr>) = Some s' \<and>
           threads s' ! i = Outside \<and> que_list (que s') = que_list (que s) @ [b] \<and>
           put_waiting (que s') = put_waiting (que s) - 1"
proof -
  let ?q = "(que s)\<lparr>put_waiting := put_waiting (que s) - 1\<rparr>"
  have inv: "que_inv s" using que_reach_inv [OF assms(1,2)] .
  have b: "length b = object_size (que s)"
    using inv nth_mem [OF assms(3)] assms(4) by (auto simp: que_inv_def)
  have "que_ok ?q" using inv by (simp add: que_inv_def que_list_fields)
  from put_stores [OF this, of b] b assms(5) obtain arr where
    "write_at (array (que s)) (((n_used (que s) + slot (que s)) mod n_objects (que s)) * object_size (que s)) b = Some arr"
    "que_list (?q\<lparr>array := arr, n_used := n_used ?q + 1\<rparr>) = que_list (que s) @ [b]"
    by (auto simp: que_list_fields)
  moreover have "read_at b 0 (object_size (que s)) = Some b" using b by (simp add: read_at_def)
  ultimately show ?thesis
    using assms(3,5) by (simp add: put_pass_of_def que_put_pass_def)
qed

lemma demo_que_room:
  "que_reach 1 1 2 \<lparr>que = (tbx_que_create 1 1)\<lparr>array := [7], slot := 1, put_waiting := 1\<rparr>,
                    threads = [Outside, InPut (Some [8]) 10 0], puts = [[7]], gots = [[7]]\<rparr>"
  by (rule que_reach.step [OF demo_que_reach], rule call_get [of 0 _ True 10 0 0 0])
    (simp_all add: tbx_que_create_def get_pass_of_def que_get_pass_def read_at_def)

theorem que_wake_completes_witness:
  "\<exists>s s'. que_reach 1 1 2 s \<and> que_list (que s) = [] \<and>
     put_pass_of 1 (Some [8]) 10 0 5 5 (s\<lparr>que := (que s)\<lparr>put_waiting := put_waiting (que s) - 1\<rparr>\<rparr>) = Some s' \<and>
     que_list (que s') = [[8]] \<and> put_waiting (que s') = 0"
  using demo_que_room que_wake_completes [OF demo_que_room, of 1 "[8]" 10 0 5 5]
  by (fastforce simp: tbx_que_create_def que_list_def)

text \<open>
  A put that asks to block until it completes gives up all the same: when the queue is full and its wait lasts
  longer than \<^verbatim>\<open>TBX_QUE_BLOCK\<close> microseconds, the pass after the wait returns the time-out error.
\<close>

lemma que_block_expires:
  assumes "n_used q = n_objects q" "now - stime \<le> TBX_QUE_BLOCK" "now2 - now' > TBX_QUE_BLOCK"
  shows "que_put_pass q obj TBX_QUE_BLOCK stime now now' = Some (Wait now', q\<lparr>put_waiting := put_waiting q + 1\<rparr>) \<and>
         que_put_pass q obj TBX_QUE_BLOCK now' now2 now2' = Some (Ret 1 None, q)"
  using assms by (simp add: que_put_pass_def)

lemma que_block_expires_witness:
  "que_put_pass ((tbx_que_create 1 1)\<lparr>n_used := 1\<rparr>) None TBX_QUE_BLOCK 0 200000000 200000000 =
     Some (Ret 1 None, (tbx_que_create 1 1)\<lparr>n_used := 1\<rparr>)"
  using que_block_expires [of "(tbx_que_create 1 1)\<lparr>n_used := 1\<rparr>" 0 0 200000000 0 None 200000000]
  by (simp add: tbx_que_create_def TBX_QUE_BLOCK_def)

end
