(* ===== verification/Pigeon.thy ===== *)
theory Pigeon
  imports Prelude
begin

text \<open>
  The slot allocators of \<^verbatim>\<open>toolbox/pigeon_hole.c\<close> (a fixed array of holes) and \<^verbatim>\<open>toolbox/pigeon_coop.c\<close> (shelves of
  holes with the data the holes stand for, growing and shrinking by shelf).  Every operation runs under the lock of
  its structure, so it is one step on the state.
\<close>

section \<open>Pigeon holes\<close>

record tbx_ph_t =
  nholes :: nat
  nused :: int
  next_slot :: nat
  hole :: "bool list"

record tbx_ph_iter_t =
  start_slot :: int
  count :: int
  found :: int

definition tbx_ph_new :: "nat \<Rightarrow> tbx_ph_t" where
  "tbx_ph_new sz = \<lparr>nholes = sz, nused = 0, next_slot = 0, hole = replicate sz False\<rparr>"

definition tbx_ph_iter_init :: "tbx_ph_t \<Rightarrow> tbx_ph_iter_t" where
  "tbx_ph_iter_init ph =
     (let s = int (next_slot ph) - nused ph in
      \<lparr>start_slot = (if s < 0 then s + int (nholes ph) else s), count = 0, found = 0\<rparr>)"

text \<open>The slot that a scan visits at step \<open>i\<close>.\<close>

definition scan_slot :: "int \<Rightarrow> nat \<Rightarrow> nat \<Rightarrow> nat" where
  "scan_slot start n i = nat ((start + int i) mod int n)"

definition tbx_ph_next :: "tbx_ph_t \<Rightarrow> tbx_ph_iter_t \<Rightarrow> int \<times> tbx_ph_iter_t" where
  "tbx_ph_next ph pi =
     (if count pi = -1 then (-1, pi)
      else case find (\<lambda>i. hole ph ! scan_slot (start_slot pi) (nholes ph) i) [nat (count pi)..<nholes ph] of
        Some i \<Rightarrow> (int (scan_slot (start_slot pi) (nholes ph) i),
                   pi\<lparr>count := int i + 1, found := found pi + 1\<rparr>)
      | None \<Rightarrow> (-1, pi\<lparr>count := -1\<rparr>))"

definition tbx_ph_used :: "tbx_ph_t \<Rightarrow> int" where
  "tbx_ph_used ph = nused ph"

definition tbx_ph_free :: "tbx_ph_t \<Rightarrow> int" where
  "tbx_ph_free ph = int (nholes ph) - nused ph"

definition tbx_ph_release :: "tbx_ph_t \<Rightarrow> int \<Rightarrow> tbx_ph_t" where
  "tbx_ph_release ph slot =
     (if slot < 0 \<or> slot \<ge> int (nholes ph) then ph
      else if hole ph ! nat slot then ph\<lparr>hole := (hole ph)[nat slot := False], nused := nused ph - 1\<rparr>
      else ph)"

text \<open>\<open>None\<close> is the call of \<^verbatim>\<open>abort\<close>.\<close>

definition tbx_ph_reserve :: "tbx_ph_t \<Rightarrow> (int \<times> tbx_ph_t) option" where
  "tbx_ph_reserve ph =
     (if nused ph = int (nholes ph) then Some (-1, ph)
      else case find (\<lambda>i. \<not> hole ph ! scan_slot (int (next_slot ph)) (nholes ph) i) [0..<nholes ph] of
        Some i \<Rightarrow>
          (let slot = scan_slot (int (next_slot ph)) (nholes ph) i in
           Some (int slot, ph\<lparr>hole := (hole ph)[slot := True], nused := nused ph + 1,
                              next_slot := (slot + 1) mod nholes ph\<rparr>))
      | None \<Rightarrow> None)"

section \<open>Pigeon coops\<close>

text \<open>
  \<open>data_shelf\<close> holds the base address of each shelf's data, which the callback \<^verbatim>\<open>new\<close> of the coop returned; \<open>freed_data\<close>
  records the addresses handed to its callback \<^verbatim>\<open>free\<close>.
\<close>

record tbx_pc_t =
  shelf_size :: nat
  item_size :: nat
  check_shelf :: nat
  pc_nused :: int
  ph_shelf :: "tbx_ph_t list"
  data_shelf :: "nat list"
  freed_data :: "nat list"

record tbx_pch_t =
  pch_shelf :: int
  pch_hole :: int
  pch_data :: "nat option"

record tbx_pc_iter_t =
  pci_shelf :: int
  pci_pi :: tbx_ph_iter_t
  pci_on :: nat

abbreviation nshelves :: "tbx_pc_t \<Rightarrow> nat" where
  "nshelves pc \<equiv> length (ph_shelf pc)"

definition no_pch :: tbx_pch_t where
  "no_pch = \<lparr>pch_shelf = -1, pch_hole = -1, pch_data = None\<rparr>"

definition tbx_pc_new :: "nat \<Rightarrow> nat \<Rightarrow> nat \<Rightarrow> tbx_pc_t" where
  "tbx_pc_new sz item addr =
     \<lparr>shelf_size = sz, item_size = item, check_shelf = 0, pc_nused = 0,
      ph_shelf = [tbx_ph_new sz], data_shelf = [addr], freed_data = []\<rparr>"

definition hole_addr :: "tbx_pc_t \<Rightarrow> nat \<Rightarrow> nat \<Rightarrow> nat" where
  "hole_addr pc i slot = data_shelf pc ! i + slot * item_size pc"

text \<open>The loop over the shelves; \<open>ks\<close> are the values of its counter that are left.\<close>

fun reserve_on_shelves :: "tbx_pc_t \<Rightarrow> nat \<Rightarrow> nat list \<Rightarrow> (tbx_pch_t \<times> tbx_pc_t) option option" where
  "reserve_on_shelves pc start [] = Some None"
| "reserve_on_shelves pc start (k # ks) =
     (let i = (start + k) mod nshelves pc in do {
        (slot, ph) \<leftarrow> tbx_ph_reserve (ph_shelf pc ! i);
        if slot \<noteq> -1 then
          Some (Some (\<lparr>pch_shelf = int i, pch_hole = slot, pch_data = Some (hole_addr pc i (nat slot))\<rparr>,
                      pc\<lparr>ph_shelf := (ph_shelf pc)[i := ph], pc_nused := pc_nused pc + 1, check_shelf := i\<rparr>))
        else reserve_on_shelves (pc\<lparr>ph_shelf := (ph_shelf pc)[i := ph]\<rparr>) start ks
      })"

text \<open>\<open>addr\<close> is the address that \<^verbatim>\<open>new\<close> returns when the coop has to grow.\<close>

definition tbx_pch_reserve :: "tbx_pc_t \<Rightarrow> nat \<Rightarrow> (tbx_pch_t \<times> tbx_pc_t) option" where
  "tbx_pch_reserve pc addr =
     (let n = nat (pc_nused pc div int (shelf_size pc));
          start_shelf = (if n > check_shelf pc then check_shelf pc else n) in do {
        r \<leftarrow> reserve_on_shelves pc start_shelf [0..<nshelves pc];
        (case r of
           Some res \<Rightarrow> Some res
         | None \<Rightarrow> do {
             let i = nshelves pc;
             (slot, ph) \<leftarrow> tbx_ph_reserve (tbx_ph_new (shelf_size pc));
             Some (\<lparr>pch_shelf = int i, pch_hole = slot, pch_data = Some (addr + nat slot)\<rparr>,
                   pc\<lparr>ph_shelf := ph_shelf pc @ [ph], data_shelf := data_shelf pc @ [addr],
                      check_shelf := i, pc_nused := pc_nused pc + 1\<rparr>)
           })
      })"

text \<open>The search for the last used shelf, from shelf \<open>i\<close> downwards.\<close>

fun last_used_shelf :: "tbx_ph_t list \<Rightarrow> nat \<Rightarrow> nat" where
  "last_used_shelf shelves 0 = 0"
| "last_used_shelf shelves (Suc i) =
     (if tbx_ph_used (shelves ! Suc i) = 0 then last_used_shelf shelves i else Suc i)"

definition tbx_pch_release :: "tbx_pc_t \<Rightarrow> tbx_pch_t \<Rightarrow> int \<times> tbx_pch_t \<times> tbx_pc_t" where
  "tbx_pch_release pc pch =
     (if pch_shelf pch < 0 \<or> pch_shelf pch \<ge> int (nshelves pc) then (-1, pch, pc)
      else
        (let s = nat (pch_shelf pch);
             ph = tbx_ph_release (ph_shelf pc ! s) (pch_hole pch);
             n = tbx_ph_used ph;
             pc = pc\<lparr>ph_shelf := (ph_shelf pc)[s := ph], check_shelf := s, pc_nused := pc_nused pc - 1\<rparr> in
         (0, no_pch,
          if n = 0 \<and> nshelves pc > 1 then
            (let k = last_used_shelf (ph_shelf pc) (nshelves pc - 1) + 1 in
             if k < nshelves pc
             then pc\<lparr>ph_shelf := take k (ph_shelf pc), data_shelf := take k (data_shelf pc),
                     freed_data := freed_data pc @ drop k (data_shelf pc)\<rparr>
             else pc)
          else pc)))"

text \<open>An iterator works on the holes of shelf \<open>pci_on\<close>, the one that \<^verbatim>\<open>pi.ph\<close> points to.\<close>

definition tbx_pc_iter_init :: "tbx_pc_t \<Rightarrow> tbx_pc_iter_t" where
  "tbx_pc_iter_init pc = \<lparr>pci_shelf = 0, pci_pi = tbx_ph_iter_init (ph_shelf pc ! 0), pci_on = 0\<rparr>"

fun next_on_shelves :: "tbx_pc_t \<Rightarrow> tbx_pc_iter_t \<Rightarrow> nat list \<Rightarrow> (tbx_pch_t \<times> tbx_pc_iter_t) option" where
  "next_on_shelves pc pci [] = None"
| "next_on_shelves pc pci (i # is) =
     (if tbx_ph_used (ph_shelf pc ! i) > 0 then
        (let (slot, pi) = tbx_ph_next (ph_shelf pc ! i) (tbx_ph_iter_init (ph_shelf pc ! i));
             pci = pci\<lparr>pci_pi := pi, pci_on := i\<rparr> in
         if slot \<ge> 0
         then Some (\<lparr>pch_shelf = pci_shelf pci, pch_hole = slot,
                     pch_data = Some (hole_addr pc (nat (pci_shelf pci)) (nat slot))\<rparr>, pci)
         else next_on_shelves pc pci is)
      else next_on_shelves pc pci is)"

definition tbx_pc_next :: "tbx_pc_t \<Rightarrow> tbx_pc_iter_t \<Rightarrow> tbx_pch_t \<times> tbx_pc_iter_t" where
  "tbx_pc_next pc pci =
     (if pci_shelf pci = -1 then (no_pch, pci)
      else if pci_shelf pci \<ge> int (nshelves pc) then (no_pch, pci)
      else
        (let (slot, pi) = tbx_ph_next (ph_shelf pc ! pci_on pci) (pci_pi pci);
             pci = pci\<lparr>pci_pi := pi\<rparr> in
         if slot \<ge> 0
         then (\<lparr>pch_shelf = pci_shelf pci, pch_hole = slot,
                pch_data = Some (hole_addr pc (nat (pci_shelf pci)) (nat slot))\<rparr>, pci)
         else
           (let pci = pci\<lparr>pci_shelf := pci_shelf pci + 1\<rparr> in
            case next_on_shelves pc pci [nat (pci_shelf pci)..<nshelves pc] of
              Some res \<Rightarrow> res
            | None \<Rightarrow> (no_pch, pci\<lparr>pci_shelf := -1\<rparr>))))"

section \<open>What the allocators hold\<close>

definition used_holes :: "tbx_ph_t \<Rightarrow> nat set" where
  "used_holes ph = {i. i < nholes ph \<and> hole ph ! i}"

definition ph_ok :: "tbx_ph_t \<Rightarrow> bool" where
  "ph_ok ph \<longleftrightarrow> 0 < nholes ph \<and> length (hole ph) = nholes ph \<and> next_slot ph < nholes ph \<and>
     nused ph = int (card (used_holes ph))"

text \<open>The slots that an iterator returns until it is exhausted, with \<open>n\<close> calls at most.\<close>

fun ph_collect :: "nat \<Rightarrow> tbx_ph_t \<Rightarrow> tbx_ph_iter_t \<Rightarrow> int list" where
  "ph_collect 0 ph pi = []"
| "ph_collect (Suc n) ph pi =
     (let (slot, pi) = tbx_ph_next ph pi in if slot = -1 then [] else slot # ph_collect n ph pi)"

definition used_pairs :: "tbx_pc_t \<Rightarrow> (nat \<times> nat) set" where
  "used_pairs pc = (SIGMA s:{..<nshelves pc}. used_holes (ph_shelf pc ! s))"

definition pc_ok :: "tbx_pc_t \<Rightarrow> bool" where
  "pc_ok pc \<longleftrightarrow> 0 < shelf_size pc \<and> 0 < nshelves pc \<and> length (data_shelf pc) = nshelves pc \<and>
     (\<forall>ph \<in> set (ph_shelf pc). ph_ok ph \<and> nholes ph = shelf_size pc) \<and>
     pc_nused pc = int (card (used_pairs pc))"

definition handle_of :: "tbx_pch_t \<Rightarrow> nat \<times> nat" where
  "handle_of pch = (nat (pch_shelf pch), nat (pch_hole pch))"

fun pc_collect :: "nat \<Rightarrow> tbx_pc_t \<Rightarrow> tbx_pc_iter_t \<Rightarrow> (int \<times> int) list" where
  "pc_collect 0 pc pci = []"
| "pc_collect (Suc n) pc pci =
     (let (pch, pci) = tbx_pc_next pc pci in
      if pch_hole pch = -1 then [] else (pch_shelf pch, pch_hole pch) # pc_collect n pc pci)"

section \<open>Pigeon hole facts\<close>

lemma used_holes_finite [simp]: "finite (used_holes ph)"
  by (rule finite_subset [of _ "{..<nholes ph}"]) (auto simp: used_holes_def)

lemma used_holes_bound: "card (used_holes ph) \<le> nholes ph"
  using card_mono [of "{..<nholes ph}" "used_holes ph"] by (auto simp: used_holes_def)

lemma scan_slot_less [simp]: "0 < n \<Longrightarrow> scan_slot start n i < n"
  by (simp add: scan_slot_def nat_less_iff)

text \<open>A scan of \<open>n\<close> steps visits every slot exactly once.\<close>

lemma scan_slot_inj: "inj_on (scan_slot start n) {..<n}"
proof
  fix i j
  assume "i \<in> {..<n}" "j \<in> {..<n}" "scan_slot start n i = scan_slot start n j"
  then have "(start + int i) mod int n = (start + int j) mod int n"
    by (auto simp: scan_slot_def nat_eq_iff2)
  then have "(start + int i - start) mod int n = (start + int j - start) mod int n"
    by (rule mod_diff_cong) (rule refl)
  then have "int i mod int n = int j mod int n" by simp
  with \<open>i \<in> {..<n}\<close> \<open>j \<in> {..<n}\<close> show "i = j" by simp
qed

lemma scan_slot_surj: "0 < n \<Longrightarrow> scan_slot start n ` {..<n} = {..<n}"
  by (rule endo_inj_surj) (auto simp: scan_slot_inj)

lemma scan_slot_ex:
  assumes "s < n" obtains i where "i < n" "scan_slot start n i = s"
proof -
  have "s \<in> scan_slot start n ` {..<n}" using assms scan_slot_surj [of n start] by auto
  then show ?thesis using that by auto
qed

lemma ph_ok_new: "0 < sz \<Longrightarrow> ph_ok (tbx_ph_new sz)" "used_holes (tbx_ph_new sz) = {}"
  by (auto simp: ph_ok_def tbx_ph_new_def used_holes_def)

lemma used_holes_update:
  assumes "length (hole ph) = nholes ph" "s < nholes ph"
  shows "used_holes (ph\<lparr>hole := (hole ph)[s := True], nused := u, next_slot := n\<rparr>) = insert s (used_holes ph)"
    "used_holes (ph\<lparr>hole := (hole ph)[s := False], nused := u\<rparr>) = used_holes ph - {s}"
  using assms by (auto simp: used_holes_def nth_list_update split: if_splits)

lemma ph_full_iff: "ph_ok ph \<Longrightarrow> nused ph = int (nholes ph) \<longleftrightarrow> used_holes ph = {..<nholes ph}"
proof
  assume ok: "ph_ok ph" and full: "nused ph = int (nholes ph)"
  have "used_holes ph \<subseteq> {..<nholes ph}" by (auto simp: used_holes_def)
  moreover have "card (used_holes ph) = card {..<nholes ph}" using ok full by (simp add: ph_ok_def)
  ultimately show "used_holes ph = {..<nholes ph}" by (intro card_subset_eq) auto
next
  assume "ph_ok ph" "used_holes ph = {..<nholes ph}"
  then show "nused ph = int (nholes ph)" by (simp add: ph_ok_def)
qed

lemma find_first:
  assumes "find P [a..<b] = Some i"
  shows "P i \<and> a \<le> i \<and> i < b \<and> (\<forall>j. a \<le> j \<and> j < i \<longrightarrow> \<not> P j)"
proof -
  obtain k where k: "k < length [a..<b]" "P ([a..<b] ! k)" "i = [a..<b] ! k" "\<forall>j<k. \<not> P ([a..<b] ! j)"
    using assms by (auto simp: find_Some_iff)
  have "\<not> P j" if "a \<le> j" "j < i" for j
    using k(4) [rule_format, of "j - a"] that k(1,3) by simp
  with k show ?thesis by auto
qed

lemma ph_reserve_free:
  assumes ok: "ph_ok ph" and room: "nused ph \<noteq> int (nholes ph)"
  shows "\<exists>s ph'. tbx_ph_reserve ph = Some (int s, ph') \<and> s < nholes ph \<and> s \<notin> used_holes ph \<and> ph_ok ph' \<and>
           nholes ph' = nholes ph \<and> used_holes ph' = insert s (used_holes ph)"
proof -
  let ?slot = "scan_slot (int (next_slot ph)) (nholes ph)"
  have n: "0 < nholes ph" using ok by (simp add: ph_ok_def)
  obtain s where s: "s < nholes ph" "\<not> hole ph ! s"
    using room ph_full_iff [OF ok] by (auto simp: used_holes_def)
  obtain i where "i < nholes ph" "?slot i = s" by (rule scan_slot_ex [OF s(1)])
  with s(2) have "i < nholes ph" "\<not> hole ph ! ?slot i" by simp_all
  then have "find (\<lambda>i. \<not> hole ph ! ?slot i) [0..<nholes ph] \<noteq> None"
    by (auto simp: find_None_iff)
  then obtain k where k: "find (\<lambda>i. \<not> hole ph ! ?slot i) [0..<nholes ph] = Some k" by blast
  note kk = find_first [OF k]
  have free: "?slot k \<notin> used_holes ph" using kk by (simp add: used_holes_def)
  define ph' where "ph' = ph\<lparr>hole := (hole ph)[?slot k := True], nused := nused ph + 1,
                           next_slot := (?slot k + 1) mod nholes ph\<rparr>"
  have "tbx_ph_reserve ph = Some (int (?slot k), ph')"
    using k room by (simp add: tbx_ph_reserve_def Let_def ph'_def)
  moreover have used: "used_holes ph' = insert (?slot k) (used_holes ph)"
    unfolding ph'_def by (rule used_holes_update) (use ok n in \<open>simp_all add: ph_ok_def\<close>)
  moreover have "ph_ok ph'"
    unfolding ph_ok_def used using ok n free by (simp add: ph'_def ph_ok_def)
  moreover have "nholes ph' = nholes ph" by (simp add: ph'_def)
  ultimately show ?thesis using free n by (metis scan_slot_less)
qed

lemma ph_reserve_full: "nused ph = int (nholes ph) \<Longrightarrow> tbx_ph_reserve ph = Some (-1, ph)"
  by (simp add: tbx_ph_reserve_def)

lemma ph_release_used:
  assumes "ph_ok ph" "s \<in> used_holes ph"
  shows "ph_ok (tbx_ph_release ph (int s))" "nholes (tbx_ph_release ph (int s)) = nholes ph"
    "used_holes (tbx_ph_release ph (int s)) = used_holes ph - {s}"
proof -
  have s: "s < nholes ph" "hole ph ! s" using assms(2) by (auto simp: used_holes_def)
  have "0 < card (used_holes ph)" using assms(2) by (auto simp: card_gt_0_iff)
  then have "int (card (used_holes ph - {s})) = int (card (used_holes ph)) - 1"
    using assms(2) by (simp add: of_nat_diff Suc_leI)
  then show "ph_ok (tbx_ph_release ph (int s))" "nholes (tbx_ph_release ph (int s)) = nholes ph"
    "used_holes (tbx_ph_release ph (int s)) = used_holes ph - {s}"
    using s assms(1) used_holes_update(2) [of ph s] by (auto simp: tbx_ph_release_def ph_ok_def)
qed

text \<open>An iterator returns the used slots in the order of its scan.\<close>

lemma ph_collect_from:
  assumes "nholes ph - i < n" "0 < nholes ph" "count pi = int i"
  shows "ph_collect n ph pi =
    map int (filter (\<lambda>s. hole ph ! s) (map (scan_slot (start_slot pi) (nholes ph)) [i..<nholes ph]))"
  using assms
proof (induction n arbitrary: i pi)
  case (Suc n)
  let ?slot = "scan_slot (start_slot pi) (nholes ph)"
  show ?case
  proof (cases "find (\<lambda>i. hole ph ! ?slot i) [i..<nholes ph]")
    case None
    then have "filter (\<lambda>s. hole ph ! s) (map ?slot [i..<nholes ph]) = []"
      by (auto simp: find_None_iff filter_empty_conv)
    with None Suc.prems(3) show ?thesis by (simp add: tbx_ph_next_def)
  next
    case (Some k)
    note k = find_first [OF Some]
    have "[i..<nholes ph] = [i..<k] @ k # [Suc k..<nholes ph]"
      using k upt_add_eq_append [of i k "nholes ph - k"] upt_conv_Cons [of k "nholes ph"] by simp
    moreover have "filter (\<lambda>s. hole ph ! s) (map ?slot [i..<k]) = []"
      using k by (auto simp: filter_empty_conv)
    ultimately have "filter (\<lambda>s. hole ph ! s) (map ?slot [i..<nholes ph]) =
        ?slot k # filter (\<lambda>s. hole ph ! s) (map ?slot [Suc k..<nholes ph])"
      using k by simp
    moreover have "nholes ph - Suc k < n" using k Suc.prems(1) by linarith
    ultimately show ?thesis
      using Some Suc.prems(2,3) Suc.IH [of "Suc k" "pi\<lparr>count := int k + 1, found := found pi + 1\<rparr>"]
      by (simp add: tbx_ph_next_def)
  qed
qed simp

lemma ph_collect_all:
  assumes "ph_ok ph"
  shows "distinct (ph_collect (Suc (nholes ph)) ph (tbx_ph_iter_init ph))"
    "set (ph_collect (Suc (nholes ph)) ph (tbx_ph_iter_init ph)) = int ` used_holes ph"
proof -
  let ?slot = "scan_slot (start_slot (tbx_ph_iter_init ph)) (nholes ph)"
  have n: "0 < nholes ph" using assms by (simp add: ph_ok_def)
  have c: "ph_collect (Suc (nholes ph)) ph (tbx_ph_iter_init ph) =
      map int (filter (\<lambda>s. hole ph ! s) (map ?slot [0..<nholes ph]))"
    using ph_collect_from [of ph 0 "Suc (nholes ph)" "tbx_ph_iter_init ph"] n
    by (simp add: tbx_ph_iter_init_def Let_def)
  have "distinct (map ?slot [0..<nholes ph])"
    using scan_slot_inj [of "start_slot (tbx_ph_iter_init ph)" "nholes ph"]
    by (simp add: distinct_map atLeast0LessThan)
  then have "distinct (filter (\<lambda>s. hole ph ! s) (map ?slot [0..<nholes ph]))" by (rule distinct_filter)
  then show "distinct (ph_collect (Suc (nholes ph)) ph (tbx_ph_iter_init ph))"
    unfolding c by (simp add: distinct_map)
  have "set (map ?slot [0..<nholes ph]) = {..<nholes ph}"
    using scan_slot_surj [OF n] by (simp add: atLeast0LessThan)
  then show "set (ph_collect (Suc (nholes ph)) ph (tbx_ph_iter_init ph)) = int ` used_holes ph"
    unfolding c used_holes_def by auto
qed

section \<open>Pigeon coop facts\<close>

lemma pc_shelf_ok: "pc_ok pc \<Longrightarrow> i < nshelves pc \<Longrightarrow> ph_ok (ph_shelf pc ! i) \<and> nholes (ph_shelf pc ! i) = shelf_size pc"
  by (simp add: pc_ok_def)

lemma used_pairs_finite [simp]: "finite (used_pairs pc)"
  by (simp add: used_pairs_def)

lemma used_pairs_iff: "(i, s) \<in> used_pairs pc \<longleftrightarrow> i < nshelves pc \<and> s \<in> used_holes (ph_shelf pc ! i)"
  by (auto simp: used_pairs_def)

lemma used_pairs_update:
  assumes "i < nshelves pc" "ph_shelf pc' = (ph_shelf pc)[i := ph]"
  shows "(a, b) \<in> used_pairs pc' \<longleftrightarrow> (if a = i then b \<in> used_holes ph else (a, b) \<in> used_pairs pc)"
  using assms by (cases "a = i") (simp_all add: used_pairs_iff)

lemma used_pairs_insert:
  assumes "i < nshelves pc" "ph_shelf pc' = (ph_shelf pc)[i := ph]"
    "used_holes ph = insert s (used_holes (ph_shelf pc ! i))"
  shows "used_pairs pc' = insert (i, s) (used_pairs pc)"
  by (rule pair_set_eqI, unfold used_pairs_update [OF assms(1,2)] assms(3))
    (use assms(1) in \<open>simp add: used_pairs_iff\<close>)

lemma used_pairs_remove:
  assumes "i < nshelves pc" "ph_shelf pc' = (ph_shelf pc)[i := ph]"
    "used_holes ph = used_holes (ph_shelf pc ! i) - {s}"
  shows "used_pairs pc' = used_pairs pc - {(i, s)}"
  by (rule pair_set_eqI, unfold used_pairs_update [OF assms(1,2)] assms(3))
    (use assms(1) in \<open>simp add: used_pairs_iff\<close>)

text \<open>A state after one hole has been taken.\<close>

definition took :: "tbx_pc_t \<Rightarrow> nat \<Rightarrow> nat \<Rightarrow> tbx_pc_t \<Rightarrow> bool" where
  "took pc i s pc' \<longleftrightarrow> pc_ok pc' \<and> (i, s) \<notin> used_pairs pc \<and> used_pairs pc' = insert (i, s) (used_pairs pc) \<and>
     i < nshelves pc' \<and> s < shelf_size pc \<and> shelf_size pc' = shelf_size pc \<and> item_size pc' = item_size pc \<and>
     take (nshelves pc) (data_shelf pc') = data_shelf pc \<and> freed_data pc' = freed_data pc"

lemma took_shelf:
  assumes ok: "pc_ok pc" and i: "i < nshelves pc"
    and ph: "ph_ok ph" "nholes ph = nholes (ph_shelf pc ! i)" "s < nholes ph"
      "s \<notin> used_holes (ph_shelf pc ! i)" "used_holes ph = insert s (used_holes (ph_shelf pc ! i))"
  shows "took pc i s (pc\<lparr>ph_shelf := (ph_shelf pc)[i := ph], pc_nused := pc_nused pc + 1, check_shelf := i\<rparr>)"
proof -
  let ?pc = "pc\<lparr>ph_shelf := (ph_shelf pc)[i := ph], pc_nused := pc_nused pc + 1, check_shelf := i\<rparr>"
  have used: "used_pairs ?pc = insert (i, s) (used_pairs pc)"
    by (rule used_pairs_insert [OF i _ ph(5)]) simp
  have new: "(i, s) \<notin> used_pairs pc" using ph(4) by (simp add: used_pairs_iff)
  have "\<forall>p \<in> set ((ph_shelf pc)[i := ph]). ph_ok p \<and> nholes p = shelf_size pc"
    using ok ph(1,2) pc_shelf_ok [OF ok i] set_update_subset_insert [of "ph_shelf pc" i ph] by (auto simp: pc_ok_def)
  then have "pc_ok ?pc" using ok new unfolding pc_ok_def used by simp
  then show ?thesis using used new i ph(2,3) pc_shelf_ok [OF ok i] ok by (simp add: took_def pc_ok_def)
qed

lemma reserve_shelves:
  assumes ok: "pc_ok pc"
  shows "(\<exists>i s pc'. reserve_on_shelves pc start ks =
             Some (Some (\<lparr>pch_shelf = int i, pch_hole = int s, pch_data = Some (hole_addr pc i s)\<rparr>, pc')) \<and>
             took pc i s pc' \<and> i < nshelves pc) \<or>
         reserve_on_shelves pc start ks = Some None"
proof (induction ks)
  case (Cons k ks)
  let ?i = "(start + k) mod nshelves pc"
  have i: "?i < nshelves pc" using ok by (simp add: pc_ok_def)
  note ph = pc_shelf_ok [OF ok i]
  show ?case
  proof (cases "nused (ph_shelf pc ! ?i) = int (nholes (ph_shelf pc ! ?i))")
    case True
    then show ?thesis using Cons.IH by (simp add: ph_reserve_full Let_def)
  next
    case False
    then obtain s p where "tbx_ph_reserve (ph_shelf pc ! ?i) = Some (int s, p)" "s < nholes (ph_shelf pc ! ?i)"
      "s \<notin> used_holes (ph_shelf pc ! ?i)" "ph_ok p" "nholes p = nholes (ph_shelf pc ! ?i)"
      "used_holes p = insert s (used_holes (ph_shelf pc ! ?i))"
      using ph_reserve_free ph by blast
    with took_shelf [OF ok i, of p s] i show ?thesis by (auto simp: Let_def)
  qed
qed simp

lemma grow_took:
  assumes ok: "pc_ok pc" and ph: "ph_ok ph" "nholes ph = shelf_size pc" "used_holes ph = {s}" "s < shelf_size pc"
  shows "took pc (nshelves pc) s (pc\<lparr>ph_shelf := ph_shelf pc @ [ph], data_shelf := data_shelf pc @ [addr],
            check_shelf := nshelves pc, pc_nused := pc_nused pc + 1\<rparr>)"
proof -
  let ?pc = "pc\<lparr>ph_shelf := ph_shelf pc @ [ph], data_shelf := data_shelf pc @ [addr],
            check_shelf := nshelves pc, pc_nused := pc_nused pc + 1\<rparr>"
  have used: "used_pairs ?pc = insert (nshelves pc, s) (used_pairs pc)"
  proof (rule pair_set_eqI)
    fix a b
    show "(a, b) \<in> used_pairs ?pc \<longleftrightarrow> (a, b) \<in> insert (nshelves pc, s) (used_pairs pc)"
      by (cases "a < nshelves pc"; cases "a = nshelves pc")
        (simp_all add: used_pairs_iff nth_append ph(3) less_Suc_eq)
  qed
  have new: "(nshelves pc, s) \<notin> used_pairs pc" by (simp add: used_pairs_iff)
  have "pc_ok ?pc" using ok new ph(1,2) unfolding pc_ok_def used by auto
  then show ?thesis using used new ph(4) ok by (simp add: took_def pc_ok_def)
qed

lemma ph_new_reserve: "0 < sz \<Longrightarrow> \<exists>p. tbx_ph_reserve (tbx_ph_new sz) = Some (0, p) \<and> ph_ok p \<and>
    nholes p = sz \<and> used_holes p = {0}"
proof -
  assume sz: "0 < sz"
  have "find (\<lambda>i. \<not> hole (tbx_ph_new sz) ! scan_slot 0 sz i) [0..<sz] = Some 0"
    using sz by (simp add: upt_conv_Cons tbx_ph_new_def)
  then have "fst (the (tbx_ph_reserve (tbx_ph_new sz))) = 0"
    using sz by (simp add: tbx_ph_reserve_def tbx_ph_new_def scan_slot_def)
  with ph_reserve_free [OF ph_ok_new(1) [OF sz]] sz show ?thesis
    by (auto simp: ph_ok_new(2)) (auto simp: tbx_ph_new_def)
qed

lemma pch_reserve_took:
  assumes ok: "pc_ok pc"
  shows "\<exists>i s pc'. tbx_pch_reserve pc addr =
           Some (\<lparr>pch_shelf = int i, pch_hole = int s, pch_data = Some (hole_addr pc' i s)\<rparr>, pc') \<and> took pc i s pc'"
proof -
  let ?start = "if nat (pc_nused pc div int (shelf_size pc)) > check_shelf pc then check_shelf pc
                else nat (pc_nused pc div int (shelf_size pc))"
  consider i s pc' where "reserve_on_shelves pc ?start [0..<nshelves pc] =
        Some (Some (\<lparr>pch_shelf = int i, pch_hole = int s, pch_data = Some (hole_addr pc i s)\<rparr>, pc'))"
      "took pc i s pc'" "i < nshelves pc"
    | "reserve_on_shelves pc ?start [0..<nshelves pc] = Some None"
    using reserve_shelves [OF ok, of ?start "[0..<nshelves pc]"] by blast
  then show ?thesis
  proof cases
    case 1
    have "data_shelf pc' ! i = data_shelf pc ! i"
      using 1(2,3) by (metis took_def nth_take)
    then have "hole_addr pc i s = hole_addr pc' i s" using 1(2) by (simp add: hole_addr_def took_def)
    with 1(1,2) show ?thesis by (simp add: tbx_pch_reserve_def Let_def)
  next
    case 2
    have "0 < shelf_size pc" using ok by (simp add: pc_ok_def)
    from ph_new_reserve [OF this] obtain p where p: "tbx_ph_reserve (tbx_ph_new (shelf_size pc)) = Some (0, p)"
      "ph_ok p" "nholes p = shelf_size pc" "used_holes p = {0}" by blast
    let ?pc = "pc\<lparr>ph_shelf := ph_shelf pc @ [p], data_shelf := data_shelf pc @ [addr],
            check_shelf := nshelves pc, pc_nused := pc_nused pc + 1\<rparr>"
    have "took pc (nshelves pc) 0 ?pc" using grow_took [OF ok p(2-4)] ok by (simp add: pc_ok_def)
    moreover have "hole_addr ?pc (nshelves pc) 0 = addr"
      using ok by (simp add: hole_addr_def nth_append pc_ok_def)
    ultimately show ?thesis using 2 p(1)
      by (intro exI [of _ "nshelves pc"] exI [of _ 0] exI [of _ ?pc]) (simp add: tbx_pch_reserve_def Let_def)
  qed
qed

lemma last_used_above:
  "last_used_shelf sh i \<le> i \<and> (\<forall>j. last_used_shelf sh i < j \<and> j \<le> i \<longrightarrow> nused (sh ! j) = 0)"
proof (induction i)
  case (Suc i)
  show ?case
  proof (cases "tbx_ph_used (sh ! Suc i) = 0")
    case True
    with Suc show ?thesis by (auto simp: tbx_ph_used_def le_Suc_eq)
  qed simp
qed simp

lemma used_pairs_trim:
  assumes "\<forall>j. k \<le> j \<and> j < nshelves pc \<longrightarrow> used_holes (ph_shelf pc ! j) = {}" "ph_shelf pc' = take k (ph_shelf pc)"
  shows "used_pairs pc' = used_pairs pc"
proof (rule pair_set_eqI)
  fix a b
  show "(a, b) \<in> used_pairs pc' \<longleftrightarrow> (a, b) \<in> used_pairs pc"
    using assms by (cases "a < k") (auto simp: used_pairs_iff)
qed

text \<open>A state after one hole has been given back.\<close>

definition gave :: "tbx_pc_t \<Rightarrow> nat \<times> nat \<Rightarrow> tbx_pc_t \<Rightarrow> bool" where
  "gave pc h pc' \<longleftrightarrow> pc_ok pc' \<and> used_pairs pc' = used_pairs pc - {h} \<and> shelf_size pc' = shelf_size pc \<and>
     item_size pc' = item_size pc \<and> data_shelf pc' = take (nshelves pc') (data_shelf pc) \<and>
     freed_data pc' = freed_data pc @ drop (nshelves pc') (data_shelf pc)"

lemma released_shelf:
  assumes ok: "pc_ok pc" and used: "(i, s) \<in> used_pairs pc"
  shows "gave pc (i, s) (pc\<lparr>ph_shelf := (ph_shelf pc)[i := tbx_ph_release (ph_shelf pc ! i) (int s)],
           check_shelf := i, pc_nused := pc_nused pc - 1\<rparr>)" (is "gave _ _ ?pc")
proof -
  have i: "i < nshelves pc" "s \<in> used_holes (ph_shelf pc ! i)" using used by (simp_all add: used_pairs_iff)
  note ph = pc_shelf_ok [OF ok i(1)]
  note rel = ph_release_used [OF conjunct1 [OF ph] i(2)]
  have u: "used_pairs ?pc = used_pairs pc - {(i, s)}"
    by (rule used_pairs_remove [OF i(1) _ rel(3)]) simp
  have "0 < card (used_pairs pc)" using used by (auto simp: card_gt_0_iff)
  then have n: "int (card (used_pairs pc - {(i, s)})) = int (card (used_pairs pc)) - 1"
    using used by (simp add: of_nat_diff Suc_leI)
  have "\<forall>p \<in> set ((ph_shelf pc)[i := tbx_ph_release (ph_shelf pc ! i) (int s)]). ph_ok p \<and> nholes p = shelf_size pc"
    using ok rel(1,2) ph set_update_subset_insert [of "ph_shelf pc" i] by (fastforce simp: pc_ok_def)
  then have "pc_ok ?pc" using ok n unfolding pc_ok_def u by simp
  then show ?thesis using u ok by (simp add: gave_def pc_ok_def)
qed

lemma gave_trim:
  assumes "gave pc h pc1" "0 < k" "k < nshelves pc1" "\<forall>j. k \<le> j \<and> j < nshelves pc1 \<longrightarrow> nused (ph_shelf pc1 ! j) = 0"
    and "nshelves pc1 = nshelves pc" "pc_ok pc"
  shows "gave pc h (pc1\<lparr>ph_shelf := take k (ph_shelf pc1), data_shelf := take k (data_shelf pc1),
                       freed_data := freed_data pc1 @ drop k (data_shelf pc1)\<rparr>)" (is "gave _ _ ?pc")
proof -
  have ok: "pc_ok pc1" using assms(1) by (simp add: gave_def)
  have "\<forall>j. k \<le> j \<and> j < nshelves pc1 \<longrightarrow> used_holes (ph_shelf pc1 ! j) = {}"
    using assms(4) pc_shelf_ok [OF ok] by (auto simp: ph_ok_def)
  then have u: "used_pairs ?pc = used_pairs pc1" by (rule used_pairs_trim) simp
  have "\<forall>p \<in> set (take k (ph_shelf pc1)). ph_ok p \<and> nholes p = shelf_size pc1"
    using ok by (auto simp: pc_ok_def dest: in_set_takeD)
  then have "pc_ok ?pc" using ok assms(2,3) unfolding pc_ok_def u by simp
  moreover have "data_shelf pc1 = data_shelf pc" "freed_data pc1 = freed_data pc"
    using assms(1,5,6) by (simp_all add: gave_def pc_ok_def)
  ultimately show ?thesis using u assms(1,3) by (simp add: gave_def min_def)
qed

lemma pch_release_gave:
  assumes ok: "pc_ok pc" and used: "(i, s) \<in> used_pairs pc"
    and pch: "pch_shelf pch = int i" "pch_hole pch = int s"
  shows "\<exists>pc'. tbx_pch_release pc pch = (0, no_pch, pc') \<and> gave pc (i, s) pc'"
proof -
  define ph where "ph = tbx_ph_release (ph_shelf pc ! i) (int s)"
  define pc1 where "pc1 = pc\<lparr>ph_shelf := (ph_shelf pc)[i := ph], check_shelf := i, pc_nused := pc_nused pc - 1\<rparr>"
  define k where "k = last_used_shelf (ph_shelf pc1) (nshelves pc1 - 1) + 1"
  have i: "i < nshelves pc" using used by (simp add: used_pairs_iff)
  have g: "gave pc (i, s) pc1" unfolding pc1_def ph_def by (rule released_shelf [OF ok used])
  have n: "nshelves pc1 = nshelves pc" by (simp add: pc1_def)
  have run: "tbx_pch_release pc pch = (0, no_pch,
     if tbx_ph_used ph = 0 \<and> nshelves pc1 > 1 \<and> k < nshelves pc1
     then pc1\<lparr>ph_shelf := take k (ph_shelf pc1), data_shelf := take k (data_shelf pc1),
              freed_data := freed_data pc1 @ drop k (data_shelf pc1)\<rparr>
     else pc1)"
    using i pch unfolding k_def pc1_def ph_def by (simp add: tbx_pch_release_def Let_def)
  show ?thesis
  proof (cases "tbx_ph_used ph = 0 \<and> nshelves pc1 > 1 \<and> k < nshelves pc1")
    case True
    have "\<forall>j. k \<le> j \<and> j < nshelves pc1 \<longrightarrow> nused (ph_shelf pc1 ! j) = 0"
      using last_used_above [of "ph_shelf pc1" "nshelves pc1 - 1"] by (auto simp: k_def)
    with gave_trim [OF g, of k] True n ok run show ?thesis by (simp add: k_def)
  next
    case False
    then have "tbx_pch_release pc pch = (0, no_pch, pc1)" unfolding run by (simp only: if_False)
    with g show ?thesis by simp
  qed
qed

section \<open>Properties\<close>

text \<open>
  A reservation in a pigeon hole structure never reaches the \<^verbatim>\<open>abort\<close>.  It fails with -1, without a change, when
  every hole is used; otherwise it returns a hole that was free, which is then used, along with exactly the holes
  that were used before.
\<close>

lemma ph_reserve_correct:
  assumes "ph_ok ph"
  shows "if used_holes ph = {..<nholes ph} then tbx_ph_reserve ph = Some (-1, ph)
         else \<exists>s ph'. tbx_ph_reserve ph = Some (int s, ph') \<and> s < nholes ph \<and> s \<notin> used_holes ph \<and>
                ph_ok ph' \<and> used_holes ph' = insert s (used_holes ph)"
  using ph_reserve_free [OF assms] ph_reserve_full [of ph] ph_full_iff [OF assms] by (auto split: if_splits)

lemma ph_reserve_correct_witness:
  "\<exists>s ph'. tbx_ph_reserve (tbx_ph_new 3) = Some (int s, ph') \<and> s < 3 \<and> ph_ok ph' \<and> used_holes ph' = {s}"
proof -
  have "nholes (tbx_ph_new 3) = 3" by (simp add: tbx_ph_new_def)
  moreover have "{..<3 :: nat} \<noteq> {}" by (simp add: lessThan_empty_iff)
  ultimately show ?thesis
    using ph_reserve_correct [OF ph_ok_new(1), of 3] by (simp add: ph_ok_new(2) eq_commute [of "{}"])
qed

text \<open>
  An iterator over a pigeon hole structure returns every used hole exactly once and then -1, wherever the scan
  starts.
\<close>

lemma ph_iterate_all:
  assumes "ph_ok ph"
  shows "distinct (ph_collect (Suc (nholes ph)) ph (tbx_ph_iter_init ph)) \<and>
         set (ph_collect (Suc (nholes ph)) ph (tbx_ph_iter_init ph)) = int ` used_holes ph \<and>
         length (ph_collect (Suc (nholes ph)) ph (tbx_ph_iter_init ph)) = nat (tbx_ph_used ph)"
proof -
  note c = ph_collect_all [OF assms]
  have "length (ph_collect (Suc (nholes ph)) ph (tbx_ph_iter_init ph)) = card (int ` used_holes ph)"
    using distinct_card [OF c(1)] c(2) by simp
  also have "\<dots> = nat (tbx_ph_used ph)"
    using assms by (simp add: card_image ph_ok_def tbx_ph_used_def)
  finally show ?thesis using c by simp
qed

definition demo_ph :: tbx_ph_t where
  "demo_ph = \<lparr>nholes = 4, nused = 2, next_slot = 0, hole = [True, False, False, True]\<rparr>"

lemma demo_ph_ok: "ph_ok demo_ph" "used_holes demo_ph = {0, 3}"
proof -
  show u: "used_holes demo_ph = {0, 3}"
    by (auto simp: used_holes_def demo_ph_def less_Suc_eq numeral_eq_Suc)
  show "ph_ok demo_ph" unfolding ph_ok_def u by (simp add: demo_ph_def)
qed

lemma ph_iterate_all_witness:
  "set (ph_collect 5 demo_ph (tbx_ph_iter_init demo_ph)) = {0, 3} \<and> distinct (ph_collect 5 demo_ph (tbx_ph_iter_init demo_ph))"
  using ph_iterate_all [OF demo_ph_ok(1)] demo_ph_ok(2) by (simp add: demo_ph_def)

text \<open>
  C23: a reservation in a coop always succeeds, growing the coop when every shelf is full.  The handle it returns was
  not in use and is in use afterwards, together with exactly the handles in use before; its data pointer is the
  address of its hole on its shelf, and the data of every existing shelf stays where it was.
\<close>

theorem pc_reserve_fresh:
  assumes "pc_ok pc"
  shows "\<exists>pch pc'. tbx_pch_reserve pc addr = Some (pch, pc') \<and> pc_ok pc' \<and> handle_of pch \<notin> used_pairs pc \<and>
           used_pairs pc' = insert (handle_of pch) (used_pairs pc) \<and>
           pch_data pch = Some (hole_addr pc' (fst (handle_of pch)) (snd (handle_of pch))) \<and>
           take (nshelves pc) (data_shelf pc') = data_shelf pc"
proof -
  obtain i s pc' where r: "tbx_pch_reserve pc addr =
      Some (\<lparr>pch_shelf = int i, pch_hole = int s, pch_data = Some (hole_addr pc' i s)\<rparr>, pc')" "took pc i s pc'"
    using pch_reserve_took [OF assms] by blast
  then show ?thesis by (simp add: handle_of_def took_def)
qed

lemma pc_ok_new: "0 < sz \<Longrightarrow> pc_ok (tbx_pc_new sz item addr)" "used_pairs (tbx_pc_new sz item addr) = {}"
proof -
  show u: "used_pairs (tbx_pc_new sz item addr) = {}"
    by (auto simp: used_pairs_def tbx_pc_new_def ph_ok_new(2))
  show "0 < sz \<Longrightarrow> pc_ok (tbx_pc_new sz item addr)"
    unfolding pc_ok_def u using ph_ok_new(1) [of sz] by (simp add: tbx_pc_new_def) (simp add: tbx_ph_new_def)
qed

theorem pc_reserve_fresh_witness:
  "\<exists>pch pc'. tbx_pch_reserve (tbx_pc_new 2 8 1000) 2000 = Some (pch, pc') \<and> used_pairs pc' = {handle_of pch}"
  using pc_reserve_fresh [OF pc_ok_new(1), of 2 8 1000 2000] by (auto simp: pc_ok_new(2))

text \<open>
  C24: releasing a handle in use succeeds, invalidates the handle and takes exactly this handle out of use.  Only the
  data of empty shelves at the end are freed, so every other handle keeps its shelf, its hole and its data.
\<close>

theorem pc_release_exact:
  assumes "pc_ok pc" "handle_of pch \<in> used_pairs pc" "0 \<le> pch_shelf pch" "0 \<le> pch_hole pch"
  shows "\<exists>pc'. tbx_pch_release pc pch = (0, no_pch, pc') \<and> pc_ok pc' \<and>
           used_pairs pc' = used_pairs pc - {handle_of pch} \<and>
           data_shelf pc' = take (nshelves pc') (data_shelf pc) \<and>
           freed_data pc' = freed_data pc @ drop (nshelves pc') (data_shelf pc)"
  using pch_release_gave [of pc "nat (pch_shelf pch)" "nat (pch_hole pch)" pch] assms
  by (auto simp: handle_of_def gave_def)

definition demo_pc :: tbx_pc_t where
  "demo_pc = \<lparr>shelf_size = 4, item_size = 8, check_shelf = 0, pc_nused = 2, ph_shelf = [demo_ph], data_shelf = [1000],
              freed_data = []\<rparr>"

lemma demo_pc_ok: "pc_ok demo_pc" "used_pairs demo_pc = {(0, 0), (0, 3)}"
proof -
  show u: "used_pairs demo_pc = {(0, 0), (0, 3)}"
    by (auto simp: used_pairs_def demo_pc_def demo_ph_ok(2))
  show "pc_ok demo_pc" unfolding pc_ok_def u by (simp add: demo_pc_def demo_ph_ok(1)) (simp add: demo_ph_def)
qed

theorem pc_release_exact_witness:
  "\<exists>pc'. tbx_pch_release demo_pc \<lparr>pch_shelf = 0, pch_hole = 3, pch_data = None\<rparr> = (0, no_pch, pc') \<and>
     used_pairs pc' = {(0, 0)}"
  using pc_release_exact [OF demo_pc_ok(1), of "\<lparr>pch_shelf = 0, pch_hole = 3, pch_data = None\<rparr>"] demo_pc_ok(2)
  by (auto simp: handle_of_def)

text \<open>
  A second release of the same handle is not detected by the coop: it returns 0 and lowers the number of used
  holes although no hole is given back, so that this number is wrong from then on.
\<close>

lemma pc_double_release:
  assumes "pc_ok pc" "i < nshelves pc" "s \<notin> used_holes (ph_shelf pc ! i)" "s < shelf_size pc"
    and "nused (ph_shelf pc ! i) > 0" "pch_shelf pch = int i" "pch_hole pch = int s"
  shows "\<exists>pc'. tbx_pch_release pc pch = (0, no_pch, pc') \<and> used_pairs pc' = used_pairs pc \<and>
           pc_nused pc' = pc_nused pc - 1 \<and> \<not> pc_ok pc'"
proof -
  let ?pc = "pc\<lparr>check_shelf := i, pc_nused := pc_nused pc - 1\<rparr>"
  have "tbx_ph_release (ph_shelf pc ! i) (int s) = ph_shelf pc ! i"
    using assms(3,4) pc_shelf_ok [OF assms(1,2)] by (simp add: tbx_ph_release_def used_holes_def)
  then have "tbx_pch_release pc pch = (0, no_pch, ?pc)"
    using assms(2,5-7) by (simp add: tbx_pch_release_def Let_def tbx_ph_used_def)
  moreover have u: "used_pairs ?pc = used_pairs pc" by (simp add: used_pairs_def)
  moreover have "\<not> pc_ok ?pc" using assms(1) unfolding pc_ok_def u by simp
  ultimately show ?thesis by simp
qed

lemma pc_double_release_witness:
  "\<exists>pc'. tbx_pch_release demo_pc \<lparr>pch_shelf = 0, pch_hole = 2, pch_data = None\<rparr> = (0, no_pch, pc') \<and>
     pc_nused pc' = 1 \<and> used_pairs pc' = {(0, 0), (0, 3)}"
proof -
  have "2 \<notin> used_holes (ph_shelf demo_pc ! 0)" "0 < nshelves demo_pc" "2 < shelf_size demo_pc"
    "nused (ph_shelf demo_pc ! 0) > 0" "pc_nused demo_pc = 2"
    by (simp_all add: demo_pc_def demo_ph_ok(2)) (simp add: demo_ph_def)
  then show ?thesis
    using pc_double_release [OF demo_pc_ok(1), of 0 2 "\<lparr>pch_shelf = 0, pch_hole = 2, pch_data = None\<rparr>"] demo_pc_ok(2)
    by auto
qed

definition demo_gap :: tbx_pc_t where
  "demo_gap = \<lparr>shelf_size = 1, item_size = 8, check_shelf = 0, pc_nused = 2,
     ph_shelf = [\<lparr>nholes = 1, nused = 1, next_slot = 0, hole = [True]\<rparr>,
                 \<lparr>nholes = 1, nused = 0, next_slot = 0, hole = [False]\<rparr>,
                 \<lparr>nholes = 1, nused = 1, next_slot = 0, hole = [True]\<rparr>],
     data_shelf = [1000, 2000, 3000], freed_data = []\<rparr>"

text \<open>
  With an empty shelf between two used ones, the iterator of a coop returns a handle that is not in use: it
  reports the hole of the last shelf under the number of the empty one, and then returns that hole a second time.
\<close>

lemma pc_next_wrong_shelf:
  "used_pairs demo_gap = {(0, 0), (2, 0)} \<and>
   pc_collect 10 demo_gap (tbx_pc_iter_init demo_gap) = [(0, 0), (1, 0), (2, 0)]"
proof -
  have "used_pairs demo_gap = {(0, 0), (2, 0)}"
    by (auto simp: used_pairs_def demo_gap_def used_holes_def lessThan_Suc numeral_eq_Suc)
  moreover have "pc_collect 10 demo_gap (tbx_pc_iter_init demo_gap) = [(0, 0), (1, 0), (2, 0)]" by code_simp
  ultimately show ?thesis by blast
qed

end
