(* ===== verification/Seg_Log.thy ===== *)
theory Seg_Log
  imports Prelude
begin

text \<open>
  The log structured segment of \<^verbatim>\<open>lio/segment/log.c\<close>: a base segment, a data segment to which every write appends,
  a table segment with one record per write, and an in-memory mapping from file ranges to the data segment.

  The mapping is kept by the code in an interval skip list.  Its intervals never overlap here, and the model holds
  them as the list in increasing order that the iterator of the skip list runs through.  The sub-segments are byte
  and record lists.  They are read the way linear segments are: a read past the end succeeds and leaves the buffer as it
  was.  In the contents of the file, a byte that is stored nowhere counts as zero.
\<close>

section \<open>Segments as lists\<close>

definition at_or :: "'a \<Rightarrow> 'a list \<Rightarrow> nat \<Rightarrow> 'a" where
  "at_or d xs i = (if i < length xs then xs ! i else d)"

definition seg_write :: "'a \<Rightarrow> 'a list \<Rightarrow> nat \<Rightarrow> 'a list \<Rightarrow> 'a list" where
  "seg_write d xs off ys =
     (let xs' = xs @ replicate (off - length xs) d in take off xs' @ ys @ drop (off + length ys) xs')"

section \<open>The code\<close>

record lio_slog_range_t =
  lo :: int
  hi :: int
  data_offset :: int

record lio_seglog_priv_t =
  table_seg :: "lio_slog_range_t list"
  data_seg :: "u8 list"
  base_seg :: "u8 list"
  mapping :: "lio_slog_range_t list"
  file_size :: int
  log_size :: int
  data_size :: int
  hard_errors :: nat

definition isl_search :: "lio_slog_range_t list \<Rightarrow> int \<Rightarrow> int \<Rightarrow> lio_slog_range_t list" where
  "isl_search m a b = filter (\<lambda>r. a \<le> hi r \<and> lo r \<le> b) m"

definition isl_remove :: "lio_slog_range_t \<Rightarrow> lio_slog_range_t list \<Rightarrow> lio_slog_range_t list" where
  "isl_remove r m = remove1 r m"

definition isl_insert :: "lio_slog_range_t \<Rightarrow> lio_slog_range_t list \<Rightarrow> lio_slog_range_t list" where
  "isl_insert r m = insort_key lo r m"

text \<open>
  The loop that drops the ranges past a truncation: \<open>it\<close> are the ranges that the iterator has left, \<open>tbl\<close> the table of
  at most 100 ranges collected for removal.
\<close>

partial_function (option) truncate_loop ::
  "int \<Rightarrow> int \<Rightarrow> lio_slog_range_t list \<Rightarrow> lio_slog_range_t list \<Rightarrow> lio_slog_range_t list \<Rightarrow> lio_slog_range_t list option" where
  "truncate_loop a b m it tbl =
     (case it of
        [] \<Rightarrow> Some (fold isl_remove tbl m)
      | r # it' \<Rightarrow>
          (let tbl' = tbl @ [r] in
           if length tbl' = 100
           then (let m' = fold isl_remove tbl' m in truncate_loop a b m' (isl_search m' a b) [])
           else truncate_loop a b m it' tbl'))"

definition slog_truncate_range :: "lio_slog_range_t \<Rightarrow> lio_seglog_priv_t \<Rightarrow> lio_seglog_priv_t option" where
  "slog_truncate_range r s =
     (let a = hi r + 1; b = file_size s in
      case isl_search (mapping s) a b of
        [] \<Rightarrow> Some (s\<lparr>file_size := hi r + 1\<rparr>)
      | ir # it \<Rightarrow> do {
          m \<leftarrow> (if lo ir \<le> hi r
                 then (let m = isl_insert (ir\<lparr>hi := hi r\<rparr>) (isl_remove ir (mapping s)) in
                       truncate_loop a b m (drop 1 (isl_search m a b)) [])
                 else truncate_loop a b (mapping s) it [ir]);
          Some (s\<lparr>mapping := m, file_size := hi r + 1\<rparr>)
        })"

lemma isl_search_insert:
  "\<not> (a \<le> hi r \<and> lo r \<le> b) \<Longrightarrow> isl_search (isl_insert r m) a b = isl_search m a b"
  by (induction m) (auto simp: isl_search_def isl_insert_def)

lemma isl_search_remove:
  "isl_search m a b = r # it \<Longrightarrow> isl_search (isl_remove r m) a b = it"
  by (simp add: isl_search_def isl_remove_def filter_remove1)

text \<open>The loop that makes room for the new range \<open>r\<close>.\<close>

function carve :: "lio_slog_range_t \<Rightarrow> lio_slog_range_t list \<Rightarrow> lio_slog_range_t list" where
  "carve r m =
     (case isl_search m (lo r) (hi r) of
        [] \<Rightarrow> m
      | ir # _ \<Rightarrow>
          if lo ir < lo r then
            (if hi ir > hi r
             then carve r (isl_insert (ir\<lparr>hi := lo r - 1\<rparr>)
                    (isl_insert (ir\<lparr>lo := hi r + 1, data_offset := data_offset ir + (hi r + 1 - lo ir)\<rparr>)
                      (isl_remove ir m)))
             else carve r (isl_insert (ir\<lparr>hi := lo r - 1\<rparr>) (isl_remove ir m)))
          else if hi ir \<le> hi r then carve r (isl_remove ir m)
          else carve r (isl_insert (ir\<lparr>lo := hi r + 1, data_offset := data_offset ir + (hi r + 1 - lo ir)\<rparr>)
                 (isl_remove ir m)))"
  by pat_completeness auto
termination
  by (relation "measure (\<lambda>(r, m). length (isl_search m (lo r) (hi r)))")
    (auto simp: isl_search_insert isl_search_remove)

declare carve.simps [simp del]

definition slog_insert_range :: "lio_slog_range_t \<Rightarrow> lio_seglog_priv_t \<Rightarrow> lio_seglog_priv_t option" where
  "slog_insert_range r s =
     (if lo r = -1 then slog_truncate_range r s
      else
        (let m = carve r (mapping s);
             (r, m) = (case isl_search m (lo r - 1) (hi r) of
                         ir # _ \<Rightarrow>
                           if data_offset ir + hi ir - lo ir + 1 = data_offset r
                           then (r\<lparr>lo := lo ir, data_offset := data_offset ir\<rparr>, isl_remove ir m)
                           else (r, m)
                       | [] \<Rightarrow> (r, m));
             s = s\<lparr>mapping := isl_insert r m\<rparr> in
         Some (if hi r \<ge> file_size s then s\<lparr>file_size := hi r + 1\<rparr> else s)))"

text \<open>
  A write has a section that reserves room in the data and table segments, its input and output, and a section that
  updates the mapping; the lock of the segment is free in between.  \<open>iov\<close> lists the offset and the length of each
  piece.  The records are built in their on-disk form, with the length in the field \<open>hi\<close>.
\<close>

fun write_records :: "int \<Rightarrow> (int \<times> int) list \<Rightarrow> lio_slog_range_t list" where
  "write_records off [] = []"
| "write_records off ((p, len) # iov) = \<lparr>lo = p, hi = len, data_offset = off\<rparr> # write_records (off + len) iov"

definition sizeof_range :: int where
  "sizeof_range = 24"

definition write_reserve ::
  "(int \<times> int) list \<Rightarrow> lio_seglog_priv_t \<Rightarrow> lio_slog_range_t list \<times> int \<times> int \<times> lio_seglog_priv_t" where
  "write_reserve iov s =
     (let nbytes = sum_list (map snd iov) in
      (write_records (data_size s) iov, log_size s, data_size s,
       s\<lparr>log_size := log_size s + int (length iov) * sizeof_range, data_size := data_size s + nbytes\<rparr>))"

definition blank_range :: lio_slog_range_t where
  "blank_range = \<lparr>lo = 0, hi = 0, data_offset = 0\<rparr>"

text \<open>What the two sub-segment writes leave; for a failed write, \<open>bytes\<close> are the bytes that it left in the data segment.\<close>

definition write_io ::
  "lio_slog_range_t list \<Rightarrow> int \<Rightarrow> u8 list \<Rightarrow> int \<Rightarrow> lio_seglog_priv_t \<Rightarrow> lio_seglog_priv_t" where
  "write_io recs table_offset bytes doff s =
     s\<lparr>data_seg := seg_write 0 (data_seg s) (nat doff) bytes,
       table_seg := seg_write blank_range (table_seg s) (nat (table_offset div sizeof_range)) recs\<rparr>"

fun insert_records :: "lio_slog_range_t list \<Rightarrow> lio_seglog_priv_t \<Rightarrow> lio_seglog_priv_t option" where
  "insert_records [] s = Some s"
| "insert_records (r # rs) s = slog_insert_range (r\<lparr>hi := lo r + hi r - 1\<rparr>) s \<bind> insert_records rs"

definition write_commit ::
  "bool \<Rightarrow> lio_slog_range_t list \<Rightarrow> lio_seglog_priv_t \<Rightarrow> (bool \<times> lio_seglog_priv_t) option" where
  "write_commit ok recs s =
     (if \<not> ok then Some (False, s\<lparr>hard_errors := hard_errors s + 1\<rparr>)
      else map_option (\<lambda>s. (True, s)) (insert_records recs s))"

definition seglog_write_func ::
  "bool \<Rightarrow> (int \<times> int) list \<Rightarrow> u8 list \<Rightarrow> lio_seglog_priv_t \<Rightarrow> (bool \<times> lio_seglog_priv_t) option" where
  "seglog_write_func ok iov bytes s =
     (let (recs, toff, doff, s) = write_reserve iov s in write_commit ok recs (write_io recs toff bytes doff s))"

text \<open>A read task: the sub-segment, the offset and the length to read there, and the position in the buffer.\<close>

datatype sub_seg = Base | Data

type_synonym read_task = "sub_seg \<times> int \<times> int \<times> int"

text \<open>The loop over the mapped ranges; \<open>pe\<close> is \<^verbatim>\<open>prev_end\<close>.\<close>

fun read_loop ::
  "int \<Rightarrow> int \<Rightarrow> lio_slog_range_t list \<Rightarrow> int \<Rightarrow> int \<Rightarrow> int \<Rightarrow> read_task list \<times> int \<times> int \<times> int" where
  "read_loop a b [] pos bpos pe = ([], pos, bpos, pe)"
| "read_loop a b (ir # irs) pos bpos pe =
     (let pe = (if pe = -1 then (if lo ir > a then a else lo ir - 1) else pe);
          (hole, pos, bpos) =
            (if pe \<noteq> lo ir - 1 then ([(Base, pos, lo ir - pos, bpos)], pos + (lo ir - pos), bpos + (lo ir - pos))
             else ([], pos, bpos));
          (off, len) =
            (if lo ir < a
             then (data_offset ir + (a - lo ir), if hi ir > b then b - pos + 1 else hi ir - pos + 1)
             else if hi ir \<le> b then (data_offset ir, hi ir - pos + 1)
             else (data_offset ir, b - pos + 1));
          (rest, pos', bpos', pe') = read_loop a b irs (pos + len) (bpos + len) (hi ir) in
      (hole @ (Data, off, len, bpos) # rest, pos', bpos', pe'))"

definition read_piece :: "lio_slog_range_t list \<Rightarrow> int \<Rightarrow> int \<Rightarrow> int \<Rightarrow> read_task list \<times> int" where
  "read_piece m off len bpos =
     (let a = off; b = off + len - 1;
          (tasks, pos, bpos, pe) = read_loop a b (isl_search m a b) a bpos (-1) in
      if pe = -1 then (tasks @ [(Base, a, b - a + 1, bpos)], bpos + (b - a + 1))
      else if pe < b then (tasks @ [(Base, pos, b - (pe + 1) + 1, bpos)], bpos + (b - (pe + 1) + 1))
      else (tasks, bpos))"

fun read_tasks :: "lio_slog_range_t list \<Rightarrow> (int \<times> int) list \<Rightarrow> int \<Rightarrow> read_task list" where
  "read_tasks m [] bpos = []"
| "read_tasks m ((off, len) # iov) bpos =
     (let (tasks, bpos) = read_piece m off len bpos in tasks @ read_tasks m iov bpos)"

text \<open>
  Running a task: the part of it that lies inside of the sub-segment is moved into the buffer, the rest of the buffer is
  left alone.
\<close>

definition seg_at :: "'a list \<Rightarrow> int \<Rightarrow> 'a option" where
  "seg_at xs i = (if 0 \<le> i \<and> i < int (length xs) then Some (xs ! nat i) else None)"

definition task_bytes :: "lio_seglog_priv_t \<Rightarrow> sub_seg \<Rightarrow> int \<Rightarrow> int \<Rightarrow> u8 option list" where
  "task_bytes s seg off len =
     map (\<lambda>k. seg_at (case seg of Base \<Rightarrow> base_seg s | Data \<Rightarrow> data_seg s) (off + int k)) [0..<nat len]"

definition fill :: "(int \<Rightarrow> u8) \<Rightarrow> int \<Rightarrow> u8 option list \<Rightarrow> int \<Rightarrow> u8" where
  "fill buf bpos vs p =
     (if bpos \<le> p \<and> p < bpos + int (length vs) then (case vs ! nat (p - bpos) of Some v \<Rightarrow> v | None \<Rightarrow> buf p) else buf p)"

fun run_task :: "lio_seglog_priv_t \<Rightarrow> read_task \<Rightarrow> (int \<Rightarrow> u8) \<Rightarrow> int \<Rightarrow> u8" where
  "run_task s (seg, off, len, bpos) buf = fill buf bpos (task_bytes s seg off len)"

text \<open>\<open>ok\<close> tells whether \<^verbatim>\<open>opque_waitall\<close> reports a success, \<open>eff\<close> which reads take effect.\<close>

definition seglog_read_func ::
  "bool \<Rightarrow> (read_task \<Rightarrow> bool) \<Rightarrow> (int \<times> int) list \<Rightarrow> int \<Rightarrow> (int \<Rightarrow> u8) \<Rightarrow> lio_seglog_priv_t \<Rightarrow> bool \<times> (int \<Rightarrow> u8) \<times> lio_seglog_priv_t" where
  "seglog_read_func ok eff iov boff buf s =
     (ok, fold (run_task s) (filter eff (read_tasks (mapping s) iov boff)) buf,
      if ok then s else s\<lparr>hard_errors := hard_errors s + 1\<rparr>)"

text \<open>Loading a log; \<open>rd k\<close> says whether record \<open>k\<close> of the table could be read.\<close>

definition bad_record :: "lio_slog_range_t \<Rightarrow> bool" where
  "bad_record r \<longleftrightarrow> (lo r = 0 \<and> hi r = 0 \<and> data_offset r = 0) \<or> (hi r = 0 \<and> lo r \<noteq> -1)"

fun load_records ::
  "(nat \<Rightarrow> bool) \<Rightarrow> nat \<Rightarrow> lio_slog_range_t list \<Rightarrow> bool \<times> nat \<Rightarrow> lio_seglog_priv_t \<Rightarrow> ((bool \<times> nat) \<times> lio_seglog_priv_t) option" where
  "load_records rd k [] e s = Some (e, s)"
| "load_records rd k (r # rs) (last_bad, err_count) s =
     (if rd k \<and> \<not> bad_record r
      then slog_insert_range (r\<lparr>hi := lo r + hi r - 1\<rparr>) s \<bind> load_records rd (Suc k) rs (False, err_count)
      else load_records rd (Suc k) rs (True, err_count + 1) s)"

definition slog_load :: "(nat \<Rightarrow> bool) \<Rightarrow> lio_seglog_priv_t \<Rightarrow> (int \<times> lio_seglog_priv_t) option" where
  "slog_load rd s = do {
     let s = s\<lparr>file_size := int (length (base_seg s)), log_size := int (length (table_seg s)) * sizeof_range,
               data_size := int (length (data_seg s))\<rparr>;
     ((last_bad, err_count), s) \<leftarrow> load_records rd 0 (table_seg s) (False, 0) s;
     Some (if err_count > 0 then (if err_count = 1 \<and> last_bad then 0 else 1) else 0, s)
   }"

text \<open>A truncation: the record it writes, the sizes it adds, and the update of the mapping after its input and output.\<close>

definition seglog_truncate_func :: "int \<Rightarrow> bool \<Rightarrow> lio_seglog_priv_t \<Rightarrow> (bool \<times> lio_seglog_priv_t) option" where
  "seglog_truncate_func new_size ok s =
     (let old = file_size s in
      if new_size = old then Some (True, s)
      else do {
        let r = (if new_size < old then \<lparr>lo = -1, hi = new_size - 1, data_offset = -1\<rparr>
                 else \<lparr>lo = old - 1, hi = new_size - old, data_offset = data_size s\<rparr>);
        let s = s\<lparr>table_seg := seg_write blank_range (table_seg s) (nat (log_size s div sizeof_range)) [r],
                  log_size := log_size s + sizeof_range\<rparr>;
        let s = (if new_size < old then s
                 else s\<lparr>data_seg := seg_write 0 (data_seg s) (nat (data_size s + hi r - 1)) [0],
                        data_size := data_size s + (new_size - old)\<rparr>);
        if \<not> ok then Some (False, s\<lparr>hard_errors := hard_errors s + 1\<rparr>)
        else do {
          let r = (if new_size < file_size s then r\<lparr>hi := lo r + hi r - 1\<rparr> else r);
          s \<leftarrow> slog_insert_range r s;
          Some (True, s)
        }
      })"

section \<open>What the log stands for\<close>

definition covers :: "lio_slog_range_t \<Rightarrow> int \<Rightarrow> bool" where
  "covers r p \<longleftrightarrow> lo r \<le> p \<and> p \<le> hi r"

definition view_in :: "u8 list \<Rightarrow> (int \<Rightarrow> u8) \<Rightarrow> lio_slog_range_t list \<Rightarrow> int \<Rightarrow> u8" where
  "view_in d base m p =
     (case find (\<lambda>r. covers r p) m of
        Some r \<Rightarrow> at_or 0 d (nat (data_offset r + (p - lo r)))
      | None \<Rightarrow> base p)"

text \<open>The byte of the file at an offset, as a reader of the log should see it.\<close>

definition view :: "lio_seglog_priv_t \<Rightarrow> int \<Rightarrow> u8" where
  "view s = view_in (data_seg s) (\<lambda>p. at_or 0 (base_seg s) (nat p)) (mapping s)"

text \<open>Non-empty ranges in increasing order without overlap, none of them reaching past the data segment.\<close>

fun map_ok :: "lio_slog_range_t list \<Rightarrow> bool" where
  "map_ok [] = True"
| "map_ok (r # rs) = (0 \<le> lo r \<and> lo r \<le> hi r \<and> (\<forall>q \<in> set rs. hi r < lo q) \<and> map_ok rs)"

definition data_ok :: "int \<Rightarrow> lio_slog_range_t list \<Rightarrow> bool" where
  "data_ok n m \<longleftrightarrow> (\<forall>r \<in> set m. 0 \<le> data_offset r \<and> data_offset r + (hi r - lo r) < n)"

definition slog_ok :: "lio_seglog_priv_t \<Rightarrow> bool" where
  "slog_ok s \<longleftrightarrow> map_ok (mapping s) \<and> data_ok (data_size s) (mapping s) \<and> 0 \<le> data_size s \<and>
     0 \<le> log_size s \<and> log_size s mod sizeof_range = 0"

section \<open>The mapping as a partial function\<close>

text \<open>The offset in the data segment that a file offset is mapped to.\<close>

definition pt :: "lio_slog_range_t list \<Rightarrow> int \<Rightarrow> int option" where
  "pt m p = map_option (\<lambda>r. data_offset r + (p - lo r)) (find (\<lambda>r. covers r p) m)"

definition free_of :: "lio_slog_range_t \<Rightarrow> lio_slog_range_t list \<Rightarrow> bool" where
  "free_of r m \<longleftrightarrow> (\<forall>q \<in> set m. hi q < lo r \<or> hi r < lo q)"

lemma view_in_pt: "view_in d base m p = (case pt m p of Some k \<Rightarrow> at_or 0 d (nat k) | None \<Rightarrow> base p)"
  by (simp add: view_in_def pt_def split: option.split)

lemma pt_Nil [simp]: "pt [] p = None"
  by (simp add: pt_def)

lemma pt_Cons [simp]: "pt (r # m) p = (if covers r p then Some (data_offset r + (p - lo r)) else pt m p)"
  by (simp add: pt_def)

lemma map_ok_ranges: "map_ok m \<Longrightarrow> r \<in> set m \<Longrightarrow> 0 \<le> lo r \<and> lo r \<le> hi r"
  by (induction m) auto

lemma pt_none_iff: "pt m p = None \<longleftrightarrow> (\<forall>r \<in> set m. \<not> covers r p)"
  by (induction m) auto

lemma pt_member:
  "map_ok m \<Longrightarrow> r \<in> set m \<Longrightarrow> covers r p \<Longrightarrow> pt m p = Some (data_offset r + (p - lo r))"
  by (induction m) (auto simp: covers_def)

lemma pt_SomeD: "pt m p = Some k \<Longrightarrow> \<exists>r \<in> set m. covers r p \<and> k = data_offset r + (p - lo r)"
  by (induction m) (auto split: if_splits)

lemma map_ok_overlap:
  "map_ok m \<Longrightarrow> r \<in> set m \<Longrightarrow> q \<in> set m \<Longrightarrow> r \<noteq> q \<Longrightarrow> hi r < lo q \<or> hi q < lo r"
  by (induction m) auto

lemma map_ok_distinct: "map_ok m \<Longrightarrow> distinct m"
  by (induction m) force+

lemma set_isl_insert [simp]: "set (isl_insert r m) = insert r (set m)"
  by (simp add: isl_insert_def set_insort_key)

lemma set_isl_remove [simp]: "map_ok m \<Longrightarrow> set (isl_remove r m) = set m - {r}"
  by (simp add: isl_remove_def map_ok_distinct)

lemma map_ok_remove [simp]: "map_ok m \<Longrightarrow> map_ok (isl_remove r m)"
  by (induction m) (auto simp: isl_remove_def dest: notin_set_remove1 [rotated])

lemma map_ok_insert:
  "map_ok m \<Longrightarrow> free_of r m \<Longrightarrow> 0 \<le> lo r \<Longrightarrow> lo r \<le> hi r \<Longrightarrow> map_ok (isl_insert r m)"
  by (induction m) (fastforce simp: isl_insert_def free_of_def set_insort_key)+

lemma pt_insert:
  assumes "map_ok m" "free_of r m" "0 \<le> lo r" "lo r \<le> hi r"
  shows "pt (isl_insert r m) p = (if covers r p then Some (data_offset r + (p - lo r)) else pt m p)"
proof (cases "covers r p")
  case True
  then show ?thesis using pt_member [OF map_ok_insert [OF assms], of r p] by simp
next
  case False
  show ?thesis
  proof (cases "pt m p")
    case None
    then have "pt (isl_insert r m) p = None" using False by (auto simp: pt_none_iff)
    with None False show ?thesis by simp
  next
    case (Some k)
    then obtain q where "q \<in> set m" "covers q p" "k = data_offset q + (p - lo q)" using pt_SomeD by blast
    then show ?thesis using False Some pt_member [OF map_ok_insert [OF assms], of q p] by simp
  qed
qed

lemma pt_remove:
  assumes "map_ok m" "r \<in> set m"
  shows "pt (isl_remove r m) p = (if covers r p then None else pt m p)"
proof (cases "pt (isl_remove r m) p")
  case None
  then have "pt m p = None" if "\<not> covers r p"
    using assms that by (auto simp: pt_none_iff)
  with None show ?thesis by simp
next
  case (Some k)
  then obtain q where q: "q \<in> set (isl_remove r m)" "covers q p" "k = data_offset q + (p - lo q)"
    using pt_SomeD by blast
  then have "q \<in> set m" "q \<noteq> r" using assms(1) by auto
  with assms q(2) have "\<not> covers r p" using map_ok_overlap [of m q r] by (auto simp: covers_def)
  with Some q pt_member [OF assms(1) \<open>q \<in> set m\<close> q(2)] show ?thesis by simp
qed

lemma free_of_piece:
  assumes "map_ok m" "ir \<in> set m" "lo ir \<le> lo q" "hi q \<le> hi ir"
  shows "free_of q (isl_remove ir m)"
proof -
  have "hi x < lo q \<or> hi q < lo x" if "x \<in> set m" "x \<noteq> ir" for x
    using map_ok_overlap [OF assms(1,2) that(1)] that(2) assms(3,4) by auto
  then show ?thesis using assms(1) by (simp add: free_of_def)
qed

text \<open>Cutting a range down to a piece of it.\<close>

definition piece_of :: "lio_slog_range_t \<Rightarrow> lio_slog_range_t \<Rightarrow> bool" where
  "piece_of q ir \<longleftrightarrow> lo ir \<le> lo q \<and> lo q \<le> hi q \<and> hi q \<le> hi ir \<and> data_offset q = data_offset ir + (lo q - lo ir)"

lemma cut_one:
  assumes "map_ok m" "ir \<in> set m" "piece_of q ir"
  shows "map_ok (isl_insert q (isl_remove ir m))"
    "pt (isl_insert q (isl_remove ir m)) p = (if covers ir p \<and> \<not> covers q p then None else pt m p)"
proof -
  have q: "lo ir \<le> lo q" "lo q \<le> hi q" "hi q \<le> hi ir" "data_offset q = data_offset ir + (lo q - lo ir)" "0 \<le> lo q"
    using assms map_ok_ranges [OF assms(1,2)] by (auto simp: piece_of_def)
  note ins = map_ok_remove [OF assms(1)] free_of_piece [OF assms(1,2) q(1,3)] q(5,2)
  show "map_ok (isl_insert q (isl_remove ir m))" by (rule map_ok_insert [OF ins])
  show "pt (isl_insert q (isl_remove ir m)) p = (if covers ir p \<and> \<not> covers q p then None else pt m p)"
    using pt_insert [OF ins] pt_remove [OF assms(1,2)] pt_member [OF assms(1,2), of p] q
    by (auto simp: covers_def)
qed

lemma cut_two:
  assumes "map_ok m" "ir \<in> set m" "piece_of q ir" "piece_of x ir" "hi x < lo q"
  shows "map_ok (isl_insert x (isl_insert q (isl_remove ir m)))"
    "pt (isl_insert x (isl_insert q (isl_remove ir m))) p =
       (if covers ir p \<and> \<not> covers q p \<and> \<not> covers x p then None else pt m p)"
proof -
  note one = cut_one [OF assms(1-3)]
  have x: "lo ir \<le> lo x" "lo x \<le> hi x" "hi x \<le> hi ir" "data_offset x = data_offset ir + (lo x - lo ir)" "0 \<le> lo x"
    using assms map_ok_ranges [OF assms(1,2)] by (auto simp: piece_of_def)
  have "free_of x (isl_insert q (isl_remove ir m))"
    using free_of_piece [OF assms(1,2) x(1,3)] assms(5) by (auto simp: free_of_def)
  note ins = one(1) this x(5,2)
  show "map_ok (isl_insert x (isl_insert q (isl_remove ir m)))" by (rule map_ok_insert [OF ins])
  show "pt (isl_insert x (isl_insert q (isl_remove ir m))) p =
       (if covers ir p \<and> \<not> covers q p \<and> \<not> covers x p then None else pt m p)"
    using pt_insert [OF ins] one(2) pt_member [OF assms(1,2), of p] x by (auto simp: covers_def)
qed

lemma isl_search_hd:
  "isl_search m a b = ir # it \<Longrightarrow> ir \<in> set m \<and> a \<le> hi ir \<and> lo ir \<le> b"
  by (auto simp: isl_search_def dest!: arg_cong [of _ _ set])

lemma isl_search_Nil: "isl_search m (lo r) (hi r) = [] \<Longrightarrow> free_of r m"
  by (auto simp: isl_search_def filter_empty_conv free_of_def)

lemma carve_pt:
  assumes "map_ok m" "0 \<le> lo r" "lo r \<le> hi r"
  shows "map_ok (carve r m) \<and> free_of r (carve r m) \<and> (\<forall>p. pt (carve r m) p = (if covers r p then None else pt m p))"
  using assms
proof (induction r m rule: carve.induct)
  case (1 r m)
  show ?case
  proof (cases "isl_search m (lo r) (hi r)")
    case Nil
    have "pt m p = None" if "covers r p" for p
      using isl_search_Nil [OF Nil] that by (auto simp: pt_none_iff free_of_def covers_def)
    with Nil isl_search_Nil [OF Nil] 1(5) show ?thesis by (simp add: carve.simps [of r m])
  next
    case (Cons ir it)
    note ir = isl_search_hd [OF Cons]
    define q where "q = ir\<lparr>lo := hi r + 1, data_offset := data_offset ir + (hi r + 1 - lo ir)\<rparr>"
    define x where "x = ir\<lparr>hi := lo r - 1\<rparr>"
    consider "lo ir < lo r" "hi ir > hi r" | "lo ir < lo r" "\<not> hi ir > hi r"
      | "\<not> lo ir < lo r" "hi ir \<le> hi r" | "\<not> lo ir < lo r" "\<not> hi ir \<le> hi r" by blast
    then show ?thesis
    proof cases
      case 1
      have pc: "piece_of q ir" "piece_of x ir" "hi x < lo q"
        using 1 ir "1.prems" by (auto simp: piece_of_def q_def x_def)
      note cut = cut_two [OF "1.prems"(1) conjunct1 [OF ir] pc]
      have "carve r m = carve r (isl_insert x (isl_insert q (isl_remove ir m)))"
        using Cons 1 by (simp add: carve.simps [of r m] q_def x_def)
      with "1.IH"(1) [OF Cons 1 cut(1) [unfolded q_def x_def] "1.prems"(2,3)] cut(2) ir 1 show ?thesis
        by (auto simp: q_def [symmetric] x_def [symmetric]) (auto simp: covers_def q_def x_def)
    next
      case 2
      have pc: "piece_of x ir" using 2 ir "1.prems" by (auto simp: piece_of_def x_def)
      note cut = cut_one [OF "1.prems"(1) conjunct1 [OF ir] pc]
      have "carve r m = carve r (isl_insert x (isl_remove ir m))"
        using Cons 2 by (simp add: carve.simps [of r m] x_def)
      with "1.IH"(2) [OF Cons 2 cut(1) [unfolded x_def] "1.prems"(2,3)] cut(2) ir 2 show ?thesis
        by (auto simp: x_def [symmetric]) (auto simp: covers_def x_def)
    next
      case 3
      have "carve r m = carve r (isl_remove ir m)"
        using Cons 3 by (simp add: carve.simps [of r m])
      with "1.IH"(3) [OF Cons 3 map_ok_remove [OF "1.prems"(1)] "1.prems"(2,3)]
        pt_remove [OF "1.prems"(1) conjunct1 [OF ir]] 3 show ?thesis
        by (auto simp: covers_def)
    next
      case 4
      have pc: "piece_of q ir" using 4 ir "1.prems" by (auto simp: piece_of_def q_def)
      note cut = cut_one [OF "1.prems"(1) conjunct1 [OF ir] pc]
      have "carve r m = carve r (isl_insert q (isl_remove ir m))"
        using Cons 4 by (simp add: carve.simps [of r m] q_def)
      with "1.IH"(4) [OF Cons 4 cut(1) [unfolded q_def] "1.prems"(2,3)] cut(2) ir 4 show ?thesis
        by (auto simp: q_def [symmetric]) (auto simp: covers_def q_def)
    qed
  qed
qed

section \<open>Inserting a range\<close>

definition data_bound :: "int \<Rightarrow> (int \<Rightarrow> int option) \<Rightarrow> bool" where
  "data_bound n f \<longleftrightarrow> (\<forall>p k. f p = Some k \<longrightarrow> 0 \<le> k \<and> k < n)"

lemma data_ok_bound:
  assumes "map_ok m"
  shows "data_ok n m \<longleftrightarrow> data_bound n (pt m)"
proof
  assume "data_ok n m"
  then show "data_bound n (pt m)"
    by (fastforce simp: data_bound_def data_ok_def covers_def dest!: pt_SomeD)
next
  assume b: "data_bound n (pt m)"
  have "0 \<le> data_offset r \<and> data_offset r + (hi r - lo r) < n" if "r \<in> set m" for r
  proof -
    have "covers r (lo r)" "covers r (hi r)" using map_ok_ranges [OF assms that] by (auto simp: covers_def)
    then have "pt m (lo r) = Some (data_offset r + (lo r - lo r))" "pt m (hi r) = Some (data_offset r + (hi r - lo r))"
      using pt_member [OF assms that] by blast+
    with b show ?thesis unfolding data_bound_def by fastforce
  qed
  then show "data_ok n m" by (simp add: data_ok_def)
qed

lemma combine_prev:
  assumes "map_ok m" "free_of r m" "isl_search m (lo r - 1) (hi r) = ir # it"
  shows "ir \<in> set m" "hi ir = lo r - 1"
  using isl_search_hd [OF assms(3)] assms(2) by (auto simp: free_of_def)

lemma insert_range_pt:
  assumes m: "map_ok (mapping s)" and r: "0 \<le> lo r" "lo r \<le> hi r"
  shows "\<exists>m'. slog_insert_range r s =
             Some (s\<lparr>mapping := m', file_size := (if hi r \<ge> file_size s then hi r + 1 else file_size s)\<rparr>) \<and>
           map_ok m' \<and> (\<forall>p. pt m' p = (if covers r p then Some (data_offset r + (p - lo r)) else pt (mapping s) p))"
proof -
  define c where "c = carve r (mapping s)"
  have c: "map_ok c" "free_of r c" "\<And>p. pt c p = (if covers r p then None else pt (mapping s) p)"
    using carve_pt [OF m r] by (auto simp: c_def)
  have fin: "s\<lparr>mapping := x, file_size := file_size s\<rparr> = s\<lparr>mapping := x\<rparr>" for x by simp
  show ?thesis
  proof (cases "\<exists>ir it. isl_search c (lo r - 1) (hi r) = ir # it \<and> data_offset ir + hi ir - lo ir + 1 = data_offset r")
    case True
    then obtain ir it where ir: "isl_search c (lo r - 1) (hi r) = ir # it"
      "data_offset ir + hi ir - lo ir + 1 = data_offset r" by blast
    note prev = combine_prev [OF c(1,2) ir(1)]
    define q where "q = r\<lparr>lo := lo ir, data_offset := data_offset ir\<rparr>"
    have ran: "0 \<le> lo ir" "lo ir \<le> hi ir" using map_ok_ranges [OF c(1) prev(1)] by auto
    have "hi x < lo q \<or> hi q < lo x" if "x \<in> set c" "x \<noteq> ir" for x
      using map_ok_overlap [OF c(1) prev(1) that(1)] that c(2) prev(2) map_ok_ranges [OF c(1) that(1)]
      by (auto simp: free_of_def q_def)
    then have free: "free_of q (isl_remove ir c)" using c(1) by (simp add: free_of_def)
    have q: "0 \<le> lo q" "lo q \<le> hi q" using ran r prev(2) by (auto simp: q_def)
    note ins = map_ok_remove [OF c(1)] free q
    have "pt (isl_insert q (isl_remove ir c)) p = (if covers r p then Some (data_offset r + (p - lo r)) else pt (mapping s) p)" for p
      using pt_insert [OF ins] pt_remove [OF c(1) prev(1)] pt_member [OF c(1) prev(1), of p] c(3) [of p] prev(2) ir(2) ran r(2)
      by (auto simp: covers_def q_def split: if_splits)
    moreover have "slog_insert_range r s = Some (s\<lparr>mapping := isl_insert q (isl_remove ir c),
        file_size := (if hi r \<ge> file_size s then hi r + 1 else file_size s)\<rparr>)"
      using ir r by (simp add: slog_insert_range_def Let_def c_def [symmetric] q_def)
    ultimately show ?thesis using map_ok_insert [OF ins] by blast
  next
    case False
    have "slog_insert_range r s = Some (s\<lparr>mapping := isl_insert r c,
        file_size := (if hi r \<ge> file_size s then hi r + 1 else file_size s)\<rparr>)"
      using False r by (auto simp: slog_insert_range_def Let_def c_def [symmetric] split: list.split)
    then show ?thesis using map_ok_insert [OF c(1,2) r] pt_insert [OF c(1,2) r] c(3) by auto
  qed
qed

section \<open>Writing\<close>

definition pieces_ok :: "(int \<times> int) list \<Rightarrow> bool" where
  "pieces_ok iov \<longleftrightarrow> (\<forall>(p, len) \<in> set iov. 0 \<le> p \<and> 0 < len)"

text \<open>The specification: the pieces are laid over the file one after the other.\<close>

fun overlay :: "(int \<times> int) list \<Rightarrow> u8 list \<Rightarrow> (int \<Rightarrow> u8) \<Rightarrow> int \<Rightarrow> u8" where
  "overlay [] bytes v = v"
| "overlay ((p, len) # iov) bytes v =
     overlay iov (drop (nat len) bytes) (\<lambda>q. if p \<le> q \<and> q < p + len then bytes ! nat (q - p) else v q)"

fun end_of :: "(int \<times> int) list \<Rightarrow> int \<Rightarrow> int" where
  "end_of [] n = n"
| "end_of ((p, len) # iov) n = end_of iov (max n (p + len))"

fun pt_overlay :: "lio_slog_range_t list \<Rightarrow> (int \<Rightarrow> int option) \<Rightarrow> int \<Rightarrow> int option" where
  "pt_overlay [] f = f"
| "pt_overlay (r # rs) f =
     pt_overlay rs (\<lambda>p. if lo r \<le> p \<and> p < lo r + hi r then Some (data_offset r + (p - lo r)) else f p)"

lemma insert_records_pt:
  assumes "map_ok (mapping s)" "\<forall>r \<in> set rs. 0 \<le> lo r \<and> 0 < hi r"
  shows "\<exists>m'. insert_records rs s = Some (s\<lparr>mapping := m', file_size := end_of (map (\<lambda>r. (lo r, hi r)) rs) (file_size s)\<rparr>) \<and>
           map_ok m' \<and> pt m' = pt_overlay rs (pt (mapping s))"
  using assms
proof (induction rs arbitrary: s)
  case Nil
  then show ?case by (intro exI [of _ "mapping s"]) simp
next
  case (Cons r rs)
  let ?r = "r\<lparr>hi := lo r + hi r - 1\<rparr>"
  have r: "0 \<le> lo ?r" "lo ?r \<le> hi ?r" using Cons.prems(2) by auto
  obtain m' where m': "slog_insert_range ?r s =
      Some (s\<lparr>mapping := m', file_size := (if hi ?r \<ge> file_size s then hi ?r + 1 else file_size s)\<rparr>)"
    "map_ok m'" "\<And>p. pt m' p = (if covers ?r p then Some (data_offset ?r + (p - lo ?r)) else pt (mapping s) p)"
    using insert_range_pt [OF Cons.prems(1) r] by blast
  have "pt m' = (\<lambda>p. if lo r \<le> p \<and> p < lo r + hi r then Some (data_offset r + (p - lo r)) else pt (mapping s) p)"
    using m'(3) by (auto simp: covers_def fun_eq_iff)
  moreover have "(if hi ?r \<ge> file_size s then hi ?r + 1 else file_size s) = max (file_size s) (lo r + hi r)" by auto
  ultimately show ?case
    using Cons.IH [of "s\<lparr>mapping := m', file_size := max (file_size s) (lo r + hi r)\<rparr>"] m' Cons.prems(2) by simp
qed

lemma at_or_write:
  "at_or d (seg_write d xs off ys) i = (if off \<le> i \<and> i < off + length ys then ys ! (i - off) else at_or d xs i)"
  by (auto simp: at_or_def seg_write_def Let_def nth_append min_def)

lemma sum_pieces: "pieces_ok iov \<Longrightarrow> 0 \<le> sum_list (map snd iov)"
  by (induction iov) (auto simp: pieces_ok_def)

lemma write_records_ok:
  "pieces_ok iov \<Longrightarrow> \<forall>r \<in> set (write_records off iov). 0 \<le> lo r \<and> 0 < hi r"
  by (induction off iov rule: write_records.induct) (auto simp: pieces_ok_def)

lemma write_records_pieces: "map (\<lambda>r. (lo r, hi r)) (write_records off iov) = iov"
  by (induction off iov rule: write_records.induct) auto

lemma length_write_records [simp]: "length (write_records off iov) = length iov"
  by (induction off iov rule: write_records.induct) auto

text \<open>Reading the data segment through the overlaid mapping gives the overlaid file.\<close>

lemma view_overlay:
  assumes "pieces_ok iov" "0 \<le> off" "length bytes = nat (sum_list (map snd iov))"
    and "\<And>k. k < length bytes \<Longrightarrow> at_or 0 d (nat off + k) = bytes ! k"
    and "\<And>p. v p = (case f p of Some k \<Rightarrow> at_or 0 d (nat k) | None \<Rightarrow> base p)"
  shows "(case pt_overlay (write_records off iov) f p of Some k \<Rightarrow> at_or 0 d (nat k) | None \<Rightarrow> base p) = overlay iov bytes v p"
  using assms
proof (induction iov arbitrary: off bytes f v)
  case Nil
  then show ?case by simp
next
  case (Cons pl iov)
  obtain q len where pl: "pl = (q, len)" by (cases pl)
  have len: "0 < len" "pieces_ok iov" using Cons.prems(1) pl by (auto simp: pieces_ok_def)
  then have nn: "0 \<le> sum_list (map snd iov)" by (simp add: sum_pieces)
  have lb: "length bytes = nat len + nat (sum_list (map snd iov))"
    using Cons.prems(3) pl len nn by (simp add: nat_add_distrib)
  let ?f = "\<lambda>p. if q \<le> p \<and> p < q + len then Some (off + (p - q)) else f p"
  let ?v = "\<lambda>p. if q \<le> p \<and> p < q + len then bytes ! nat (p - q) else v p"
  have "?v p = (case ?f p of Some k \<Rightarrow> at_or 0 d (nat k) | None \<Rightarrow> base p)" for p
    using Cons.prems(4) [of "nat (p - q)"] Cons.prems(2,5) lb nn by (auto simp: nat_add_distrib)
  moreover have "at_or 0 d (nat (off + len) + k) = drop (nat len) bytes ! k" if "k < length (drop (nat len) bytes)" for k
    using Cons.prems(4) [of "nat len + k"] that Cons.prems(2) len lb by (simp add: nat_add_distrib add.assoc)
  ultimately show ?case
    using Cons.IH [of "off + len" "drop (nat len) bytes" ?v ?f] Cons.prems(2) len lb pl by (simp cong: if_cong)
qed

lemma pt_overlay_bound:
  assumes "pieces_ok iov" "0 \<le> off" "data_bound off f"
  shows "data_bound (off + sum_list (map snd iov)) (pt_overlay (write_records off iov) f)"
  using assms
proof (induction iov arbitrary: off f)
  case (Cons pl iov)
  obtain q len where pl: "pl = (q, len)" by (cases pl)
  have len: "0 < len" "pieces_ok iov" using Cons.prems(1) pl by (auto simp: pieces_ok_def)
  have "data_bound (off + len) (\<lambda>p. if q \<le> p \<and> p < q + len then Some (off + (p - q)) else f p)"
    using Cons.prems(2,3) len(1) by (fastforce simp: data_bound_def)
  from Cons.IH [OF len(2) _ this] Cons.prems(2) len(1) show ?case
    by (simp add: pl add.assoc cong: if_cong)
qed simp

lemma slog_okD:
  assumes "slog_ok s"
  shows "map_ok (mapping s)" "data_bound (data_size s) (pt (mapping s))" "0 \<le> data_size s"
  using assms data_ok_bound by (auto simp: slog_ok_def)

lemma view_pt: "view s p = (case pt (mapping s) p of Some k \<Rightarrow> at_or 0 (data_seg s) (nat k) | None \<Rightarrow> at_or 0 (base_seg s) (nat p))"
  by (simp add: view_def view_in_pt)

text \<open>Input and output in the reserved room do not touch what the mapping refers to.\<close>

lemma write_io_view:
  assumes "slog_ok s"
  shows "view (write_io recs toff bytes (data_size s) s) = view s"
proof
  fix p
  have "k < data_size s" if "pt (mapping s) p = Some k" for k
    using slog_okD(2) [OF assms] that by (auto simp: data_bound_def)
  moreover have "0 \<le> k" if "pt (mapping s) p = Some k" for k
    using slog_okD(2) [OF assms] that by (auto simp: data_bound_def)
  ultimately show "view (write_io recs toff bytes (data_size s) s) p = view s p"
    by (auto simp: view_pt write_io_def at_or_write split: option.split)
qed

lemma write_func_view:
  assumes ok: "slog_ok s" and iov: "pieces_ok iov" "length bytes = nat (sum_list (map snd iov))"
  shows "\<exists>s'. seglog_write_func True iov bytes s = Some (True, s') \<and> slog_ok s' \<and>
           view s' = overlay iov bytes (view s) \<and> file_size s' = end_of iov (file_size s) \<and>
           hard_errors s' = hard_errors s \<and> base_seg s' = base_seg s"
proof -
  let ?recs = "write_records (data_size s) iov" and ?n = "sum_list (map snd iov)"
  define s1 where "s1 = write_io ?recs (log_size s) bytes (data_size s)
    (s\<lparr>log_size := log_size s + int (length iov) * sizeof_range, data_size := data_size s + ?n\<rparr>)"
  note old = slog_okD [OF ok]
  have s1: "mapping s1 = mapping s" "file_size s1 = file_size s" "base_seg s1 = base_seg s" "hard_errors s1 = hard_errors s"
    "data_size s1 = data_size s + ?n" "log_size s1 = log_size s + int (length iov) * sizeof_range"
    "data_seg s1 = seg_write 0 (data_seg s) (nat (data_size s)) bytes"
    by (simp_all add: s1_def write_io_def)
  obtain m' where m': "insert_records ?recs s1 = Some (s1\<lparr>mapping := m', file_size := end_of iov (file_size s)\<rparr>)"
    "map_ok m'" "pt m' = pt_overlay ?recs (pt (mapping s))"
    using insert_records_pt [of s1 ?recs] old(1) write_records_ok [OF iov(1)] s1 by (auto simp: write_records_pieces)
  let ?s = "s1\<lparr>mapping := m', file_size := end_of iov (file_size s)\<rparr>"
  have run: "seglog_write_func True iov bytes s = Some (True, ?s)"
    using m'(1) by (simp add: seglog_write_func_def write_reserve_def Let_def write_commit_def s1_def)
  have seg: "view s p = (case pt (mapping s) p of Some k \<Rightarrow> at_or 0 (data_seg s1) (nat k) | None \<Rightarrow> at_or 0 (base_seg s) (nat p))" for p
    using write_io_view [OF ok, of ?recs "log_size s" bytes] by (simp add: view_pt fun_eq_iff write_io_def s1 cong: option.case_cong)
  have "view ?s p = overlay iov bytes (view s) p" for p
    using view_overlay [OF iov(1) old(3) iov(2), where d = "data_seg s1" and v = "view s" and f = "pt (mapping s)"
        and base = "\<lambda>p. at_or 0 (base_seg s) (nat p)" and p = p] seg
    by (simp add: view_pt m'(3) s1 at_or_write cong: option.case_cong)
  moreover have "data_ok (data_size s + ?n) m'"
    using pt_overlay_bound [OF iov(1) old(3,2)] data_ok_bound [OF m'(2)] m'(3) by simp
  ultimately show ?thesis
    using run s1 m'(2) ok sum_pieces [OF iov(1)] by (auto simp: slog_ok_def sizeof_range_def)
qed

section \<open>Loading\<close>

text \<open>The mapping after an insertion, as a function of the mapping before.\<close>

definition ins_map :: "lio_slog_range_t \<Rightarrow> lio_slog_range_t list \<Rightarrow> lio_slog_range_t list" where
  "ins_map r m =
     (let m = carve r m in
      case isl_search m (lo r - 1) (hi r) of
        ir # _ \<Rightarrow>
          if data_offset ir + hi ir - lo ir + 1 = data_offset r
          then isl_insert (r\<lparr>lo := lo ir, data_offset := data_offset ir\<rparr>) (isl_remove ir m)
          else isl_insert r m
      | [] \<Rightarrow> isl_insert r m)"

lemma insert_range_eq:
  "lo r \<noteq> -1 \<Longrightarrow> slog_insert_range r s =
     Some (s\<lparr>mapping := ins_map r (mapping s), file_size := max (file_size s) (hi r + 1)\<rparr>)"
  by (auto simp: slog_insert_range_def ins_map_def Let_def max_def split: list.split)

definition load_map :: "lio_slog_range_t list \<Rightarrow> lio_slog_range_t list \<Rightarrow> lio_slog_range_t list" where
  "load_map rs m = fold (\<lambda>r. ins_map (r\<lparr>hi := lo r + hi r - 1\<rparr>)) rs m"

lemma load_map_append: "load_map (rs @ qs) m = load_map qs (load_map rs m)"
  by (simp add: load_map_def)

lemma end_of_append: "end_of (xs @ ys) n = end_of ys (end_of xs n)"
  by (induction xs n rule: end_of.induct) auto

definition records_ok :: "lio_slog_range_t list \<Rightarrow> bool" where
  "records_ok rs \<longleftrightarrow> (\<forall>r \<in> set rs. 0 \<le> lo r \<and> 0 < hi r)"

definition pieces :: "lio_slog_range_t list \<Rightarrow> (int \<times> int) list" where
  "pieces rs = map (\<lambda>r. (lo r, hi r)) rs"

lemma insert_records_eq:
  "records_ok rs \<Longrightarrow> insert_records rs s =
     Some (s\<lparr>mapping := load_map rs (mapping s), file_size := end_of (pieces rs) (file_size s)\<rparr>)"
proof (induction rs arbitrary: s)
  case (Cons r rs)
  then show ?case by (simp add: insert_range_eq records_ok_def load_map_def pieces_def max.commute)
qed (simp add: load_map_def pieces_def)

lemma load_records_eq:
  "records_ok rs \<Longrightarrow> (\<And>k. rd k) \<Longrightarrow> load_records rd k rs (False, 0) s =
     Some ((False, 0), s\<lparr>mapping := load_map rs (mapping s), file_size := end_of (pieces rs) (file_size s)\<rparr>)"
proof (induction rs arbitrary: s k)
  case (Cons r rs)
  then show ?case by (simp add: insert_range_eq records_ok_def load_map_def pieces_def bad_record_def max.commute)
qed (simp add: load_map_def pieces_def)

text \<open>The in-memory state agrees with what is on disk.\<close>

definition on_disk :: "lio_seglog_priv_t \<Rightarrow> bool" where
  "on_disk s \<longleftrightarrow> records_ok (table_seg s) \<and> log_size s = int (length (table_seg s)) * sizeof_range \<and>
     data_size s = int (length (data_seg s)) \<and> mapping s = load_map (table_seg s) [] \<and>
     file_size s = end_of (pieces (table_seg s)) (int (length (base_seg s)))"

definition fresh_log :: "u8 list \<Rightarrow> lio_seglog_priv_t" where
  "fresh_log base = \<lparr>table_seg = [], data_seg = [], base_seg = base, mapping = [], file_size = int (length base),
     log_size = 0, data_size = 0, hard_errors = 0\<rparr>"

fun run_writes :: "((int \<times> int) list \<times> u8 list) list \<Rightarrow> lio_seglog_priv_t \<Rightarrow> lio_seglog_priv_t option" where
  "run_writes [] s = Some s"
| "run_writes ((iov, bytes) # ws) s = seglog_write_func True iov bytes s \<bind> (\<lambda>(_, s). run_writes ws s)"

definition write_ok :: "(int \<times> int) list \<times> u8 list \<Rightarrow> bool" where
  "write_ok w \<longleftrightarrow> pieces_ok (fst w) \<and> length (snd w) = nat (sum_list (map snd (fst w)))"

lemma seg_write_end: "seg_write d xs (length xs) ys = xs @ ys"
  by (simp add: seg_write_def)

lemma write_on_disk:
  assumes "on_disk s" "write_ok (iov, bytes)" "seglog_write_func True iov bytes s = Some (b, s')"
  shows "on_disk s' \<and> base_seg s' = base_seg s \<and> hard_errors s' = hard_errors s"
proof -
  let ?recs = "write_records (data_size s) iov"
  have recs: "records_ok ?recs" "pieces ?recs = iov"
    using write_records_ok assms(2) by (auto simp: records_ok_def pieces_def write_ok_def write_records_pieces)
  have "nat (log_size s div sizeof_range) = length (table_seg s)" "nat (data_size s) = length (data_seg s)"
    using assms(1) by (simp_all add: on_disk_def sizeof_range_def)
  moreover have "int (length bytes) = sum_list (map snd iov)"
    using assms(2) sum_pieces by (simp add: write_ok_def)
  ultimately show ?thesis
    using assms(1,3) recs
    by (auto simp: on_disk_def seglog_write_func_def write_reserve_def Let_def write_io_def write_commit_def
        insert_records_eq seg_write_end records_ok_def load_map_append end_of_append pieces_def sizeof_range_def ring_distribs)
qed

lemma fresh_on_disk: "on_disk (fresh_log base)" "slog_ok (fresh_log base)"
  by (simp_all add: on_disk_def fresh_log_def records_ok_def load_map_def pieces_def slog_ok_def data_ok_def)

lemma run_writes_ok:
  assumes "on_disk s" "slog_ok s" "\<forall>w \<in> set ws. write_ok w"
  shows "\<exists>s'. run_writes ws s = Some s' \<and> on_disk s' \<and> slog_ok s' \<and> base_seg s' = base_seg s \<and>
           hard_errors s' = hard_errors s \<and> view s' = fold (\<lambda>(iov, bytes). overlay iov bytes) ws (view s)"
  using assms
proof (induction ws arbitrary: s)
  case (Cons w ws)
  obtain iov bytes where w: "w = (iov, bytes)" by (cases w)
  obtain s1 where s1: "seglog_write_func True iov bytes s = Some (True, s1)" "slog_ok s1" "view s1 = overlay iov bytes (view s)"
    using write_func_view [OF Cons.prems(2), of iov bytes] Cons.prems(3) w by (auto simp: write_ok_def)
  have "on_disk s1 \<and> base_seg s1 = base_seg s \<and> hard_errors s1 = hard_errors s"
    using write_on_disk [OF Cons.prems(1) _ s1(1)] Cons.prems(3) w by simp
  with Cons.IH [of s1] s1 Cons.prems(3) show ?case by (simp add: w)
qed simp

lemma load_on_disk:
  assumes "on_disk s" "hard_errors s = 0" "\<And>k. rd k"
  shows "slog_load rd \<lparr>table_seg = table_seg s, data_seg = data_seg s, base_seg = base_seg s, mapping = [],
           file_size = f, log_size = l, data_size = d, hard_errors = 0\<rparr> = Some (0, s)"
  using assms by (simp add: slog_load_def load_records_eq on_disk_def)

section \<open>Reading\<close>

text \<open>Tasks that fill a buffer from one position on without a gap.\<close>

fun tasks_at :: "int \<Rightarrow> read_task list \<Rightarrow> bool" where
  "tasks_at bpos [] = True"
| "tasks_at bpos ((seg, off, len, bp) # ts) = (bp = bpos \<and> 0 \<le> len \<and> tasks_at (bpos + len) ts)"

definition tasks_bytes :: "lio_seglog_priv_t \<Rightarrow> read_task list \<Rightarrow> u8 option list" where
  "tasks_bytes s ts = concat (map (\<lambda>(seg, off, len, bp). task_bytes s seg off len) ts)"

definition tasks_len :: "read_task list \<Rightarrow> int" where
  "tasks_len ts = sum_list (map (\<lambda>(seg, off, len, bp). len) ts)"

lemma tasks_at_append: "tasks_at bpos (ts @ us) \<longleftrightarrow> tasks_at bpos ts \<and> tasks_at (bpos + tasks_len ts) us"
  by (induction bpos ts rule: tasks_at.induct) (auto simp: tasks_len_def add.assoc)

lemma tasks_simps [simp]:
  "tasks_bytes s [] = []" "tasks_bytes s ((seg, off, len, bp) # ts) = task_bytes s seg off len @ tasks_bytes s ts"
  "tasks_bytes s (ts @ us) = tasks_bytes s ts @ tasks_bytes s us"
  "tasks_len [] = 0" "tasks_len ((seg, off, len, bp) # ts) = len + tasks_len ts" "tasks_len (ts @ us) = tasks_len ts + tasks_len us"
  by (simp_all add: tasks_bytes_def tasks_len_def)

lemma length_task_bytes [simp]: "length (task_bytes s seg off len) = nat len"
  by (simp add: task_bytes_def)

lemma fill_twice: "fill (fill buf bpos vs) (bpos + int (length vs)) ws = fill buf bpos (vs @ ws)"
proof
  fix p
  have "nat (p - (bpos + int (length vs))) = nat (p - bpos) - length vs" by simp
  moreover have "nat (p - bpos) < length vs" if "bpos \<le> p" "p < bpos + int (length vs)" using that by simp
  ultimately show "fill (fill buf bpos vs) (bpos + int (length vs)) ws p = fill buf bpos (vs @ ws) p"
    by (cases "bpos \<le> p \<and> p < bpos + int (length vs)") (auto simp: fill_def nth_append split: option.split)
qed

lemma fold_tasks:
  "tasks_at bpos ts \<Longrightarrow> fold (run_task s) ts buf = fill buf bpos (tasks_bytes s ts)"
proof (induction bpos ts arbitrary: buf rule: tasks_at.induct)
  case (1 bpos)
  then show ?case by (auto simp: fill_def fun_eq_iff)
next
  case (2 bpos seg off len bp ts)
  let ?t = "task_bytes s seg off len"
  have "bpos + len = bpos + int (length ?t)" using 2(2) by simp
  then show ?case using 2 fill_twice [of buf bpos ?t "tasks_bytes s ts"] by simp
qed

lemma upto_upt: "[a..a + int n - 1] = map (\<lambda>k. a + int k) [0..<n]"
proof (induction n)
  case (Suc n)
  have "[a..a + int (Suc n) - 1] = [a..a + int n - 1] @ [a + int n]"
    using upto_rec2 [of a "a + int n"] by simp
  with Suc show ?case by simp
qed simp

lemma task_is_view:
  assumes "\<And>k. 0 \<le> k \<Longrightarrow> k < len \<Longrightarrow> seg_at (case seg of Base \<Rightarrow> base_seg s | Data \<Rightarrow> data_seg s) (off + k) = V (pos + k)"
    and "0 \<le> len"
  shows "task_bytes s seg off len = map V [pos..pos + len - 1]"
proof -
  have "[pos..pos + len - 1] = map (\<lambda>k. pos + int k) [0..<nat len]" using upto_upt [of pos "nat len"] assms(2) by simp
  then show ?thesis using assms(1) by (auto simp: task_bytes_def)
qed

text \<open>The file as the ranges \<open>irs\<close> map it, where it is stored.\<close>

definition file_of :: "lio_seglog_priv_t \<Rightarrow> lio_slog_range_t list \<Rightarrow> int \<Rightarrow> u8 option" where
  "file_of s irs p = (case pt irs p of Some k \<Rightarrow> seg_at (data_seg s) k | None \<Rightarrow> seg_at (base_seg s) p)"

lemma base_task:
  assumes "\<And>p. pos \<le> p \<Longrightarrow> p < pos + len \<Longrightarrow> pt irs p = None" "0 \<le> len"
  shows "task_bytes s Base pos len = map (file_of s irs) [pos..pos + len - 1]"
  by (rule task_is_view) (use assms in \<open>auto simp: file_of_def\<close>)

lemma data_task:
  assumes "map_ok irs" "ir \<in> set irs" "lo ir \<le> pos" "pos + len - 1 \<le> hi ir" "0 \<le> len"
  shows "task_bytes s Data (data_offset ir + (pos - lo ir)) len = map (file_of s irs) [pos..pos + len - 1]"
proof (rule task_is_view)
  fix k assume k: "0 \<le> k" "k < len"
  have "covers ir (pos + k)" using k assms(3,4) by (auto simp: covers_def)
  then have "pt irs (pos + k) = Some (data_offset ir + (pos + k - lo ir))" by (rule pt_member [OF assms(1,2)])
  then show "seg_at (case Data of Base \<Rightarrow> base_seg s | Data \<Rightarrow> data_seg s) (data_offset ir + (pos - lo ir) + k) = file_of s irs (pos + k)"
    by (simp add: file_of_def algebra_simps)
qed (rule assms(5))

lemma map_upto_join:
  "a \<le> b \<Longrightarrow> b \<le> c + 1 \<Longrightarrow> map f [a..b - 1] @ map f [b..c] = map f [a..c]"
proof (cases "b \<le> c")
  case True
  assume "a \<le> b"
  then show ?thesis using upto_split1 [of a b c] True by simp
next
  case False
  assume "a \<le> b" "b \<le> c + 1"
  then have "b = c + 1" using False by simp
  then show ?thesis by simp
qed

text \<open>
  The state of the loop after some ranges: it stands right behind the previous range, and all the ranges left start
  at or after its position.
\<close>

lemma read_loop_rest:
  assumes "read_loop a b irs pos bpos pe = (ts, pos', bpos', pe')"
    and "map_ok irs" "\<forall>r \<in> set irs. pos \<le> lo r \<and> lo r \<le> b" "a < pos" "pe \<noteq> -1" "pos = min b pe + 1"
    and "irs \<noteq> [] \<longrightarrow> pe < b"
  shows "tasks_at bpos ts \<and> tasks_bytes s ts = map (file_of s irs) [pos..pos' - 1] \<and> tasks_len ts = pos' - pos \<and>
         bpos' = bpos + (pos' - pos) \<and> pos \<le> pos' \<and> pe' \<noteq> -1 \<and> pos' = min b pe' + 1 \<and>
         (\<forall>p. pos' \<le> p \<and> p \<le> b \<longrightarrow> pt irs p = None)"
  using assms
proof (induction irs arbitrary: pos bpos pe ts)
  case Nil
  then show ?case by auto
next
  case (Cons ir irs)
  have ir: "pos \<le> lo ir" "lo ir \<le> b" "lo ir \<le> hi ir" "0 \<le> lo ir" "\<forall>q \<in> set irs. hi ir < lo q" "map_ok irs" "pos = pe + 1"
    using Cons.prems by auto
  let ?hole = "if pe \<noteq> lo ir - 1 then [(Base, pos, lo ir - pos, bpos)] else []"
  let ?bp = "bpos + (lo ir - pos)" and ?e = "min b (hi ir)"
  have len: "(if hi ir \<le> b then hi ir - lo ir + 1 else b - lo ir + 1) = ?e - lo ir + 1" by auto
  have "read_loop a b (ir # irs) pos bpos pe =
      (case read_loop a b irs (lo ir + (?e - lo ir + 1)) (?bp + (?e - lo ir + 1)) (hi ir) of
        (rest, r) \<Rightarrow> (?hole @ (Data, data_offset ir, ?e - lo ir + 1, ?bp) # rest, r))"
    unfolding len [symmetric] using Cons.prems(4,5) ir(1,7) by (cases "pe = lo ir - 1") (simp_all add: Let_def split: prod.split)
  then obtain ts2 where rest: "read_loop a b irs (?e + 1) (?bp + (?e - lo ir + 1)) (hi ir) = (ts2, pos', bpos', pe')"
    and ts: "ts = ?hole @ (Data, data_offset ir, ?e - lo ir + 1, ?bp) # ts2"
    using Cons.prems(1) by (auto split: prod.splits)
  have "\<forall>r \<in> set irs. ?e + 1 \<le> lo r \<and> lo r \<le> b" "irs \<noteq> [] \<longrightarrow> hi ir < b"
    using Cons.prems(3) ir(5) by (fastforce simp: neq_Nil_conv)+
  with Cons.IH [OF rest ir(6)] ir Cons.prems(4) have
    r: "tasks_at (?bp + (?e - lo ir + 1)) ts2" "tasks_bytes s ts2 = map (file_of s irs) [?e + 1..pos' - 1]"
    "tasks_len ts2 = pos' - (?e + 1)" "bpos' = ?bp + (?e - lo ir + 1) + (pos' - (?e + 1))" "?e + 1 \<le> pos'" "pe' \<noteq> -1"
    "pos' = min b pe' + 1" "\<forall>p. pos' \<le> p \<and> p \<le> b \<longrightarrow> pt irs p = None"
    by auto
  let ?F = "file_of s (ir # irs)"
  have same: "map (file_of s irs) [?e + 1..pos' - 1] = map ?F [?e + 1..pos' - 1]"
    using r(7) by (auto simp: file_of_def covers_def min_def split: if_splits)
  have "pt (ir # irs) p = None" if "p < lo ir" for p
    using that ir(3,5) by (auto simp: covers_def pt_none_iff)
  then have hole: "tasks_at bpos ?hole" "tasks_bytes s ?hole = map ?F [pos..lo ir - 1]" "tasks_len ?hole = lo ir - pos"
    using base_task [of pos "lo ir - pos" "ir # irs" s] ir(1,7) by auto
  have data: "task_bytes s Data (data_offset ir) (?e - lo ir + 1) = map ?F [lo ir..?e]"
    using data_task [OF Cons.prems(2), of ir "lo ir" "?e - lo ir + 1" s] ir(2,3) by simp
  have le: "lo ir \<le> ?e + 1" "pos \<le> ?e + 1" using ir(1-3) by auto
  have "tasks_bytes s ts = (map ?F [pos..lo ir - 1] @ map ?F [lo ir..?e]) @ map ?F [?e + 1..pos' - 1]"
    using hole(2) data r(2) same unfolding ts by simp
  also have "\<dots> = map ?F [pos..pos' - 1]"
    using map_upto_join [OF ir(1) le(1), of ?F] map_upto_join [of pos "?e + 1" "pos' - 1" ?F] le(2) r(5) by simp
  finally have "tasks_bytes s ts = map ?F [pos..pos' - 1]" .
  moreover have "tasks_at bpos ts" "tasks_len ts = pos' - pos"
    using hole(1,3) r(1,3) ir(2,3) unfolding ts by (simp_all add: tasks_at_append)
  moreover have "\<forall>p. pos' \<le> p \<and> p \<le> b \<longrightarrow> pt (ir # irs) p = None"
    using r(5,8) by (auto simp: covers_def min_def split: if_splits)
  ultimately show ?case using r(4-7) ir(1-3) by auto
qed

lemma map_ok_search: "map_ok m \<Longrightarrow> map_ok (isl_search m a b)"
  by (induction m) (auto simp: isl_search_def)

lemma pt_search: "a \<le> p \<Longrightarrow> p \<le> b \<Longrightarrow> pt (isl_search m a b) p = pt m p"
  by (induction m) (auto simp: isl_search_def covers_def)

lemma file_of_search:
  "map (file_of s (isl_search m a b)) [a..b] = map (file_of s m) [a..b]"
  by (auto simp: file_of_def pt_search)

text \<open>The first range that a read meets.\<close>

lemma read_loop_first:
  assumes "map_ok (ir # irs)" "lo ir \<le> b" "a \<le> hi ir" "0 \<le> a" "lo ir \<noteq> a + 1"
  shows "read_loop a b (ir # irs) a bpos (-1) =
    (case read_loop a b irs (min b (hi ir) + 1) (bpos + (min b (hi ir) - a + 1)) (hi ir) of
       (rest, r) \<Rightarrow> ((if lo ir > a then [(Base, a, lo ir - a, bpos)] else []) @
          (Data, data_offset ir + (max a (lo ir) - lo ir), min b (hi ir) - max a (lo ir) + 1, bpos + (max a (lo ir) - a)) # rest, r))"
proof -
  have e: "min b (hi ir) = (if hi ir \<le> b then hi ir else b)" by auto
  consider "lo ir > a" | "lo ir = a" | "lo ir < a" by linarith
  then show ?thesis
  proof cases
    case 1
    then show ?thesis using assms unfolding e by (auto simp: Let_def max_def algebra_simps split: prod.split)
  next
    case 2
    then show ?thesis using assms unfolding e by (auto simp: Let_def max_def algebra_simps split: prod.split)
  next
    case 3
    then show ?thesis using assms unfolding e by (auto simp: Let_def max_def algebra_simps split: prod.split)
  qed
qed

lemma read_search:
  assumes irs: "isl_search m a b = ir # irs" and ok: "map_ok m" "0 \<le> a"
    and hole: "\<forall>r \<in> set m. lo r = a + 1 \<longrightarrow> pt m a \<noteq> None" and ab: "a \<le> b"
    and run: "read_loop a b (ir # irs) a bpos (-1) = (ts, pos, bpos', pe)"
  shows "tasks_at bpos ts \<and> tasks_bytes s ts = map (file_of s (ir # irs)) [a..pos - 1] \<and> tasks_len ts = pos - a \<and>
         bpos' = bpos + (pos - a) \<and> a \<le> pos \<and> pe \<noteq> -1 \<and> pos = min b pe + 1 \<and>
         (\<forall>p. pos \<le> p \<and> p \<le> b \<longrightarrow> pt (ir # irs) p = None)"
proof -
  let ?e = "min b (hi ir)" and ?st = "max a (lo ir)"
  let ?hole = "if lo ir > a then [(Base, a, lo ir - a, bpos)] else []"
  have okm: "map_ok (ir # irs)" using map_ok_search [OF ok(1), of a b] irs by simp
  have mem: "ir \<in> set m" "a \<le> hi ir" "lo ir \<le> b" using isl_search_hd [OF irs] by auto
  have above: "\<forall>q \<in> set irs. hi ir < lo q" "lo ir \<le> hi ir" using okm by auto
  have none: "pt (ir # irs) p = None" if "p < lo ir" for p
    using that above by (auto simp: covers_def pt_none_iff)
  have nshort: "lo ir \<noteq> a + 1"
  proof
    assume "lo ir = a + 1"
    with hole mem(1) none [of a] pt_search [of a a b m] irs ab show False by auto
  qed
  obtain ts2 where rest: "read_loop a b irs (?e + 1) (bpos + (?e - a + 1)) (hi ir) = (ts2, pos, bpos', pe)"
    and ts: "ts = ?hole @ (Data, data_offset ir + (?st - lo ir), ?e - ?st + 1, bpos + (?st - a)) # ts2"
    using run read_loop_first [OF okm mem(3,2) ok(2) nshort, of bpos] by (auto split: prod.splits)
  have "q \<in> set (isl_search m a b)" if "q \<in> set irs" for q using irs that by simp
  then have side: "\<forall>r \<in> set irs. ?e + 1 \<le> lo r \<and> lo r \<le> b" using above by (fastforce simp: isl_search_def)
  then have ne: "irs \<noteq> [] \<longrightarrow> hi ir < b" using above by (fastforce simp: neq_Nil_conv)
  have "hi ir \<noteq> -1" "a < ?e + 1" using mem ok(2) ab by auto
  with read_loop_rest [OF rest _ side _ _ refl ne, of s] okm have
    r: "tasks_at (bpos + (?e - a + 1)) ts2" "tasks_bytes s ts2 = map (file_of s irs) [?e + 1..pos - 1]"
    "tasks_len ts2 = pos - (?e + 1)" "bpos' = bpos + (?e - a + 1) + (pos - (?e + 1))" "?e + 1 \<le> pos" "pe \<noteq> -1"
    "pos = min b pe + 1" "\<forall>p. pos \<le> p \<and> p \<le> b \<longrightarrow> pt irs p = None"
    by auto
  let ?F = "file_of s (ir # irs)"
  have same: "map (file_of s irs) [?e + 1..pos - 1] = map ?F [?e + 1..pos - 1]"
    using r(7) by (auto simp: file_of_def covers_def min_def split: if_splits)
  have h: "tasks_at bpos ?hole" "tasks_bytes s ?hole = map ?F [a..?st - 1]" "tasks_len ?hole = ?st - a"
    using base_task [of a "lo ir - a" "ir # irs" s] none by auto
  have st: "?st \<le> ?e + 1" "a \<le> ?e + 1" "a \<le> ?st" "lo ir \<le> ?st" using mem ab above(2) by auto
  have data: "task_bytes s Data (data_offset ir + (?st - lo ir)) (?e - ?st + 1) = map ?F [?st..?e]"
    using data_task [OF okm, of ir ?st "?e - ?st + 1" s] st by simp
  have "tasks_bytes s ts = (map ?F [a..?st - 1] @ map ?F [?st..?e]) @ map ?F [?e + 1..pos - 1]"
    using h(2) data r(2) same unfolding ts by simp
  also have "\<dots> = map ?F [a..pos - 1]"
    using map_upto_join [OF st(3,1), of ?F] map_upto_join [of a "?e + 1" "pos - 1" ?F] st(2) r(5) by simp
  finally have "tasks_bytes s ts = map ?F [a..pos - 1]" .
  moreover have "tasks_at bpos ts" "tasks_len ts = pos - a"
    using h(1,3) r(1,3) st unfolding ts by (simp_all add: tasks_at_append algebra_simps)
  moreover have "\<forall>p. pos \<le> p \<and> p \<le> b \<longrightarrow> pt (ir # irs) p = None"
    using r(5,8) by (auto simp: covers_def min_def split: if_splits)
  ultimately show ?thesis using r(4-7) st by auto
qed

lemma read_piece_view:
  assumes ok: "map_ok m" "0 \<le> a" "0 < len" and hole: "\<forall>r \<in> set m. lo r = a + 1 \<longrightarrow> pt m a \<noteq> None"
    and run: "read_piece m a len bpos = (ts, bp)"
  shows "tasks_at bpos ts \<and> tasks_bytes s ts = map (file_of s m) [a..a + len - 1] \<and> tasks_len ts = len \<and> bp = bpos + len"
proof -
  define b where "b = a + len - 1"
  have ab: "a \<le> b" "len = b - a + 1" using ok(3) by (simp_all add: b_def)
  show ?thesis
  proof (cases "isl_search m a b")
    case Nil
    have "pt m p = None" if "a \<le> p" "p < a + len" for p
      using pt_search [of a p b m] that Nil by (simp add: b_def)
    then have "task_bytes s Base a len = map (file_of s m) [a..a + len - 1]" using base_task [of a len m s] ok(3) by simp
    moreover have "ts = [(Base, a, len, bpos)]" "bp = bpos + len"
      using run Nil by (simp_all add: read_piece_def Let_def b_def)
    ultimately show ?thesis using ok(3) by simp
  next
    case (Cons ir irs)
    obtain ts1 pos bpos1 pe where loop: "read_loop a b (ir # irs) a bpos (-1) = (ts1, pos, bpos1, pe)" by (rule prod_cases4)
    note r = read_search [OF Cons ok(1,2) hole ab(1) loop, of s]
    have F: "map (file_of s (ir # irs)) [a..b] = map (file_of s m) [a..b]" using file_of_search [of s m a b] Cons by simp
    show ?thesis
    proof (cases "pe < b")
      case True
      then have pos: "pos = pe + 1" using r by simp
      have "task_bytes s Base pos (b - pe) = map (file_of s (ir # irs)) [pos..pos + (b - pe) - 1]"
        by (rule base_task) (use r pos True in auto)
      then have "task_bytes s Base pos (b - pe) = map (file_of s (ir # irs)) [pos..b]" using pos by simp
      moreover have "ts = ts1 @ [(Base, pos, b - pe, bpos1)]" "bp = bpos1 + (b - pe)"
        using run loop Cons r True by (simp_all add: read_piece_def Let_def b_def [symmetric])
      ultimately have "tasks_bytes s ts = map (file_of s (ir # irs)) [a..b]"
        using r pos True map_upto_join [of a pos b "file_of s (ir # irs)"] by simp
      with \<open>ts = _\<close> \<open>bp = _\<close> r pos True F ab show ?thesis
        by (simp add: tasks_at_append b_def [symmetric])
    next
      case False
      then have "pos = b + 1" "ts = ts1" "bp = bpos1"
        using r run loop Cons by (simp_all add: read_piece_def Let_def b_def [symmetric])
      with r F ab show ?thesis by (simp add: b_def [symmetric])
    qed
  qed
qed

text \<open>All the pieces of a read.\<close>

definition no_short_hole :: "lio_slog_range_t list \<Rightarrow> (int \<times> int) list \<Rightarrow> bool" where
  "no_short_hole m iov \<longleftrightarrow> (\<forall>(a, len) \<in> set iov. \<forall>r \<in> set m. lo r = a + 1 \<longrightarrow> pt m a \<noteq> None)"

lemma read_tasks_view:
  assumes "map_ok m" "pieces_ok iov" "no_short_hole m iov"
  shows "tasks_at bpos (read_tasks m iov bpos) \<and>
         tasks_bytes s (read_tasks m iov bpos) = concat (map (\<lambda>(a, len). map (file_of s m) [a..a + len - 1]) iov)"
  using assms
proof (induction iov arbitrary: bpos)
  case (Cons pl iov)
  obtain a len where pl: "pl = (a, len)" by (cases pl)
  obtain ts bp where run: "read_piece m a len bpos = (ts, bp)" by fastforce
  have "tasks_at bpos ts \<and> tasks_bytes s ts = map (file_of s m) [a..a + len - 1] \<and> tasks_len ts = len \<and> bp = bpos + len"
    by (rule read_piece_view [OF Cons.prems(1) _ _ _ run])
      (use Cons.prems(2,3) pl in \<open>auto simp: pieces_ok_def no_short_hole_def\<close>)
  with Cons.IH [of "bpos + len"] Cons.prems pl run show ?case
    by (auto simp: tasks_at_append pieces_ok_def no_short_hole_def)
qed simp

text \<open>The bytes of the file that are stored: those of the mapped ranges in the data segment and those of the base.\<close>

definition stored :: "lio_seglog_priv_t \<Rightarrow> int \<Rightarrow> bool" where
  "stored s p \<longleftrightarrow> (case pt (mapping s) p of
     Some k \<Rightarrow> 0 \<le> k \<and> k < int (length (data_seg s)) | None \<Rightarrow> 0 \<le> p \<and> p < int (length (base_seg s)))"

lemma file_of_view: "file_of s (mapping s) = (\<lambda>p. if stored s p then Some (view s p) else None)"
  by (auto simp: fun_eq_iff file_of_def view_pt stored_def seg_at_def at_or_def split: option.splits)

section \<open>Truncation\<close>

lemma fold_remove:
  "distinct tbl \<Longrightarrow> set tbl \<subseteq> set m \<Longrightarrow> distinct m \<Longrightarrow>
   length (fold isl_remove tbl m) = length m - length tbl \<and> distinct (fold isl_remove tbl m)"
proof (induction tbl arbitrary: m)
  case (Cons r tbl)
  have "set tbl \<subseteq> set (isl_remove r m)" using Cons.prems by (auto simp: isl_remove_def)
  with Cons show ?case by (auto simp: isl_remove_def length_remove1)
qed simp

text \<open>The loop ends: it removes 100 ranges of the mapping each time it starts its search again.\<close>

lemma truncate_loop_total:
  "distinct m \<Longrightarrow> distinct (tbl @ it) \<Longrightarrow> set (tbl @ it) \<subseteq> set m \<Longrightarrow> length tbl < 100 \<Longrightarrow>
   \<exists>m'. truncate_loop a b m it tbl = Some m'"
proof (induction "length m" arbitrary: m it tbl rule: less_induct)
  case less
  note outer = less.hyps
  show ?case
    using less.prems
  proof (induction it arbitrary: tbl)
    case Nil
    then show ?case by (subst truncate_loop.simps) simp
  next
    case (Cons r it)
    let ?tbl = "tbl @ [r]"
    show ?case
    proof (cases "length ?tbl = 100")
      case True
      let ?m = "fold isl_remove ?tbl m"
      have f: "length ?m = length m - length ?tbl" "distinct ?m"
        using fold_remove [of ?tbl m] Cons.prems by auto
      have "length ?tbl \<le> length m"
        using Cons.prems card_mono [of "set m" "set ?tbl"] by (simp add: distinct_card flip: distinct_card)
      then have "length ?m < length m" using f(1) True by linarith
      moreover have "distinct (isl_search ?m a b)" "set (isl_search ?m a b) \<subseteq> set ?m"
        using f(2) by (auto simp: isl_search_def)
      ultimately have "\<exists>m'. truncate_loop a b ?m (isl_search ?m a b) [] = Some m'"
        using outer [of ?m "[]" "isl_search ?m a b"] f(2) by simp
      then show ?thesis using True by (subst truncate_loop.simps) (simp add: Let_def)
    next
      case False
      have "\<exists>m'. truncate_loop a b m it ?tbl = Some m'"
        by (rule Cons.IH) (use Cons.prems False in auto)
      then show ?thesis using False by (subst truncate_loop.simps) (simp add: Let_def)
    qed
  qed
qed

lemma truncate_range_total:
  assumes "map_ok (mapping s)"
  shows "\<exists>m'. slog_truncate_range r s = Some (s\<lparr>mapping := m', file_size := hi r + 1\<rparr>)"
proof (cases "isl_search (mapping s) (hi r + 1) (file_size s)")
  case Nil
  then show ?thesis by (auto simp: slog_truncate_range_def intro!: exI [of _ "mapping s"])
next
  case (Cons ir it)
  let ?m = "mapping s"
  have d: "distinct ?m" using assms by (rule map_ok_distinct)
  have di: "distinct (ir # it)" "set (ir # it) \<subseteq> set ?m"
    using d Cons by (metis isl_search_def distinct_filter, metis isl_search_def filter_is_subset)
  show ?thesis
  proof (cases "lo ir \<le> hi r")
    case False
    with truncate_loop_total [OF d, of "[ir]" it "hi r + 1" "file_size s"] di Cons show ?thesis
      by (auto simp: slog_truncate_range_def Let_def)
  next
    case True
    let ?q = "ir\<lparr>hi := hi r\<rparr>"
    let ?m1 = "isl_insert ?q (isl_remove ir ?m)"
    have ir: "ir \<in> set ?m" "hi r + 1 \<le> hi ir" using isl_search_hd [OF Cons] by auto
    then have "piece_of ?q ir" using True map_ok_ranges [OF assms] by (simp add: piece_of_def)
    then have d1: "distinct ?m1" using cut_one(1) [OF assms ir(1)] map_ok_distinct by blast
    have "distinct (drop 1 (isl_search ?m1 (hi r + 1) (file_size s)))"
      "set (drop 1 (isl_search ?m1 (hi r + 1) (file_size s))) \<subseteq> set ?m1"
      using d1 by (auto simp: isl_search_def dest!: in_set_dropD)
    with truncate_loop_total [OF d1, of "[]" "drop 1 (isl_search ?m1 (hi r + 1) (file_size s))" "hi r + 1" "file_size s"]
      Cons True show ?thesis
      by (auto simp: slog_truncate_range_def Let_def)
  qed
qed

text \<open>
  When the new end of the file cuts a range in two, the search is started again after the cut range has been
  shortened and its first result is skipped, although that is already the next range: that range stays mapped.
\<close>

lemma truncate_skips_range:
  "mapping s = [\<lparr>lo = 0, hi = 9, data_offset = 0\<rparr>, \<lparr>lo = 20, hi = 29, data_offset = 10\<rparr>] \<Longrightarrow> file_size s = 30 \<Longrightarrow>
   slog_truncate_range \<lparr>lo = -1, hi = 4, data_offset = -1\<rparr> s =
     Some (s\<lparr>mapping := [\<lparr>lo = 0, hi = 4, data_offset = 0\<rparr>, \<lparr>lo = 20, hi = 29, data_offset = 10\<rparr>], file_size := 5\<rparr>)"
  by (simp add: slog_truncate_range_def Let_def isl_search_def isl_insert_def isl_remove_def truncate_loop.simps)

lemma fresh_view: "view (fresh_log base) p = at_or 0 base (nat p)"
  by (simp add: view_pt fresh_log_def)

section \<open>Properties\<close>

text \<open>
  C5: a write of any list of pieces that succeeds changes the file exactly as laying the pieces over it one after the
  other would; it keeps the mapping sorted, disjoint and inside of the data segment, and never touches the base.
\<close>

theorem slog_write_overlay:
  assumes "slog_ok s" "pieces_ok iov" "length bytes = nat (sum_list (map snd iov))"
  shows "\<exists>s'. seglog_write_func True iov bytes s = Some (True, s') \<and> slog_ok s' \<and>
           view s' = overlay iov bytes (view s) \<and> file_size s' = end_of iov (file_size s) \<and> base_seg s' = base_seg s"
  using write_func_view [OF assms] by blast

theorem slog_write_overlay_witness:
  "\<exists>s'. seglog_write_func True [(1, 2), (2, 1)] [7, 8, 9] (fresh_log [1, 2, 3, 4]) = Some (True, s') \<and>
     map (view s') [0, 1, 2, 3] = [1, 7, 9, 4]"
proof -
  have "pieces_ok [(1, 2), (2, 1)]" by (simp add: pieces_ok_def)
  from slog_write_overlay [OF fresh_on_disk(2) this, of "[7, 8, 9]" "[1, 2, 3, 4]"]
  obtain s' where "seglog_write_func True [(1, 2), (2, 1)] [7, 8, 9] (fresh_log [1, 2, 3, 4]) = Some (True, s')"
    "view s' = overlay [(1, 2), (2, 1)] [7, 8, 9] (view (fresh_log [1, 2, 3, 4]))" by auto
  then show ?thesis by (simp add: fresh_view at_or_def)
qed

text \<open>
  C33: a write whose input or output fails leaves the file as it was, whatever bytes it left in the room that it had
  reserved in the data segment, also if its records are in the table, and reports the failure.
\<close>

theorem slog_failed_write:
  assumes "slog_ok s" "pieces_ok iov"
  shows "\<exists>s'. seglog_write_func False iov bytes s = Some (False, s') \<and> slog_ok s' \<and> view s' = view s \<and>
           file_size s' = file_size s \<and> mapping s' = mapping s \<and> hard_errors s' = hard_errors s + 1"
proof -
  let ?recs = "write_records (data_size s) iov" and ?n = "sum_list (map snd iov)"
  define s1 where "s1 = write_io ?recs (log_size s) bytes (data_size s) s"
  have "view s1 = view s" unfolding s1_def by (rule write_io_view [OF assms(1)])
  moreover have "data_ok (data_size s + ?n) (mapping s)"
    using assms sum_pieces [OF assms(2)] by (fastforce simp: slog_ok_def data_ok_def)
  ultimately show ?thesis
    using assms sum_pieces [OF assms(2)]
    by (auto simp: seglog_write_func_def write_reserve_def Let_def write_commit_def write_io_def s1_def
        slog_ok_def sizeof_range_def view_pt fun_eq_iff cong: option.case_cong)
qed

theorem slog_failed_write_witness:
  "\<exists>s'. seglog_write_func False [(1, 2)] [7, 8] (fresh_log [1, 2, 3]) = Some (False, s') \<and> view s' = view (fresh_log [1, 2, 3]) \<and>
     hard_errors s' = 1"
  using slog_failed_write [OF fresh_on_disk(2), of "[(1, 2)]" "[7, 8]" "[1, 2, 3]"]
  by (auto simp: pieces_ok_def fresh_log_def)

text \<open>
  C1: after any sequence of successful writes to a new log, the file is the base with the writes laid over it in
  order, and loading the log from its segments gives back the very state that the writes left in memory.
\<close>

theorem slog_recovery:
  assumes "\<forall>w \<in> set ws. write_ok w" "\<And>k. rd k"
  shows "\<exists>s. run_writes ws (fresh_log base) = Some s \<and>
           view s = fold (\<lambda>(iov, bytes). overlay iov bytes) ws (view (fresh_log base)) \<and>
           slog_load rd \<lparr>table_seg = table_seg s, data_seg = data_seg s, base_seg = base_seg s, mapping = [],
             file_size = f, log_size = l, data_size = d, hard_errors = 0\<rparr> = Some (0, s)"
proof -
  obtain s where s: "run_writes ws (fresh_log base) = Some s" "on_disk s" "hard_errors s = 0"
    "view s = fold (\<lambda>(iov, bytes). overlay iov bytes) ws (view (fresh_log base))"
    using run_writes_ok [OF fresh_on_disk assms(1)] by (auto simp: fresh_log_def)
  with load_on_disk [OF s(2,3), of rd f l d] assms(2) show ?thesis by auto
qed

theorem slog_recovery_witness:
  "\<exists>s. run_writes [([(0, 2)], [7, 8]), ([(1, 1)], [9])] (fresh_log []) = Some s \<and> map (view s) [0, 1] = [7, 9] \<and>
     slog_load (\<lambda>_. True) \<lparr>table_seg = table_seg s, data_seg = data_seg s, base_seg = base_seg s, mapping = [],
       file_size = 0, log_size = 0, data_size = 0, hard_errors = 0\<rparr> = Some (0, s)"
  using slog_recovery [of "[([(0, 2)], [7, 8]), ([(1, 1)], [9])]" "\<lambda>_. True" "[]" 0 0 0]
  by (auto simp: write_ok_def pieces_ok_def)

text \<open>
  C12: a read whose sub-segment reads all take effect, for any list of non-empty pieces none of which starts one byte
  before a mapped range on a byte that is not mapped itself.  For each of the pieces in turn, from the offset in the
  buffer on, every byte of the file that is stored in the data segment, as the mapping says, or in the base, is moved into
  the buffer.  A byte that is stored nowhere, in a hole behind the end of the base, is left in the buffer as it was, and
  so is everything before and behind the pieces.  The read is reported as a success.
\<close>

theorem slog_read_view:
  assumes "slog_ok s" "pieces_ok iov" "no_short_hole (mapping s) iov"
  shows "seglog_read_func True (\<lambda>_. True) iov boff buf s =
    (True, fill buf boff (concat (map (\<lambda>(a, len). map (\<lambda>p. if stored s p then Some (view s p) else None) [a..a + len - 1]) iov)), s)"
proof -
  have "map_ok (mapping s)" using assms(1) by (simp add: slog_ok_def)
  note r = read_tasks_view [OF this assms(2,3), of boff s]
  have "fold (run_task s) (read_tasks (mapping s) iov boff) buf = fill buf boff (tasks_bytes s (read_tasks (mapping s) iov boff))"
    by (rule fold_tasks) (use r in auto)
  with r show ?thesis by (simp add: seglog_read_func_def file_of_view)
qed

definition demo_log :: lio_seglog_priv_t where
  "demo_log = \<lparr>table_seg = [\<lparr>lo = 3, hi = 2, data_offset = 0\<rparr>], data_seg = [70, 80], base_seg = [1, 2, 3, 4, 5, 6],
     mapping = [\<lparr>lo = 3, hi = 4, data_offset = 0\<rparr>], file_size = 6, log_size = 24, data_size = 2, hard_errors = 0\<rparr>"

lemma demo_log_ok: "slog_ok demo_log"
  by (simp add: slog_ok_def demo_log_def data_ok_def sizeof_range_def)

theorem slog_read_view_witness:
  "\<exists>b. seglog_read_func True (\<lambda>_. True) [(1, 4), (5, 2)] 0 (\<lambda>_. 99) demo_log = (True, b, demo_log) \<and>
     map b [0, 1, 2, 3, 4, 5, 6] = [2, 3, 70, 80, 6, 99, 99]"
proof -
  have "[1..4] = [1, 2, 3, 4 :: int]" "[5..6] = [5, 6 :: int]" by (simp_all add: upto.simps)
  moreover have "pieces_ok [(1, 4), (5, 2)]" "no_short_hole (mapping demo_log) [(1, 4), (5, 2)]"
    by (simp_all add: pieces_ok_def no_short_hole_def demo_log_def)
  note slog_read_view [OF demo_log_ok this, of 0 "\<lambda>_. 99"]
  ultimately show ?thesis
    by (simp add: demo_log_def view_pt covers_def at_or_def stored_def fill_def nat_numeral)
qed

text \<open>
  The condition on short holes is needed: a read that starts one byte before a mapped range, on a byte that is
  not mapped, takes the first byte of that range for the unmapped byte and everything after it one byte too early.
\<close>

lemma slog_read_short_hole:
  assumes "mapping s = [r]" "lo r = a + 1" "a + len - 1 \<le> hi r" "1 < len" "0 \<le> a"
  shows "read_tasks (mapping s) [(a, len)] 0 = [(Data, data_offset r, len, 0)]"
  using assms by (auto simp: read_piece_def isl_search_def Let_def)

lemma slog_read_short_hole_witness:
  "\<exists>b. seglog_read_func True (\<lambda>_. True) [(2, 2)] 0 (\<lambda>_. 0) demo_log = (True, b, demo_log) \<and> map b [0, 1] = [70, 80] \<and>
     map (view demo_log) [2, 3] = [3, 70]"
  using slog_read_short_hole [of demo_log "\<lparr>lo = 3, hi = 4, data_offset = 0\<rparr>" 2 2]
  by (simp add: demo_log_def seglog_read_func_def task_bytes_def fill_def seg_at_def at_or_def view_pt covers_def numeral_2_eq_2)

text \<open>
  Shrinking a log segment to a new size leaves it two bytes shorter than asked for: the length correction that is
  meant for records of growing files is applied to the record of the truncation.
\<close>

lemma slog_shrink_size:
  assumes "slog_ok s" "new_size < file_size s"
  shows "\<exists>s'. seglog_truncate_func new_size True s = Some (True, s') \<and> file_size s' = new_size - 2"
proof -
  let ?r = "\<lparr>lo = -1, hi = new_size - 1, data_offset = -1\<rparr>"
  let ?s = "s\<lparr>table_seg := seg_write blank_range (table_seg s) (nat (log_size s div sizeof_range)) [?r],
              log_size := log_size s + sizeof_range\<rparr>"
  obtain m' where "slog_truncate_range \<lparr>lo = -1, hi = new_size - 3, data_offset = -1\<rparr> ?s =
      Some (?s\<lparr>mapping := m', file_size := new_size - 2\<rparr>)"
    using truncate_range_total [of ?s "\<lparr>lo = -1, hi = new_size - 3, data_offset = -1\<rparr>"] assms(1) by (auto simp: slog_ok_def)
  then show ?thesis
    using assms(2) by (simp add: seglog_truncate_func_def Let_def slog_insert_range_def)
qed

lemma slog_shrink_size_witness:
  "\<exists>s'. seglog_truncate_func 5 True demo_log = Some (True, s') \<and> file_size s' = 3"
  using slog_shrink_size [OF demo_log_ok, of 5] by (simp add: demo_log_def)

end
