(* ===== verification/C_String.thy ===== *)
theory C_String
  imports Prelude
begin

text \<open>
  The functions of the C library on strings that the components share.  A string is its list of characters, without
  the terminating zero byte.
\<close>

fun strncmp :: "nat \<Rightarrow> string \<Rightarrow> string \<Rightarrow> int" where
  "strncmp 0 a b = 0"
| "strncmp (Suc n) [] [] = 0"
| "strncmp (Suc n) [] (y # ys) = -1"
| "strncmp (Suc n) (x # xs) [] = 1"
| "strncmp (Suc n) (x # xs) (y # ys) =
     (if x = y then strncmp n xs ys
      else if (of_char x :: nat) < of_char y then -1 else 1)"

text \<open>\<^verbatim>\<open>strcmp (a, b) == 0\<close> is equality.\<close>

lemma strncmp_eq_0: "strncmp n a b = 0 \<longleftrightarrow> take n a = take n b"
  by (induction n a b rule: strncmp.induct) auto

lemma strncmp_refl [simp]: "strncmp n a a = 0"
  by (simp add: strncmp_eq_0)

section \<open>Decimal numbers\<close>

text \<open>The characters of a decimal number and its value.\<close>

definition digit_char :: "nat \<Rightarrow> char" where
  "digit_char d = char_of (48 + d)"

definition isdigit :: "char \<Rightarrow> bool" where
  "isdigit c \<longleftrightarrow> 48 \<le> (of_char c :: nat) \<and> (of_char c :: nat) \<le> 57"

definition isspace :: "char \<Rightarrow> bool" where
  "isspace c \<longleftrightarrow> (of_char c :: nat) = 32 \<or> 9 \<le> (of_char c :: nat) \<and> (of_char c :: nat) \<le> 13"

definition dec_value :: "string \<Rightarrow> nat" where
  "dec_value ds = foldl (\<lambda>a c. 10 * a + (of_char c - 48)) 0 ds"

fun fmt_u :: "nat \<Rightarrow> string" where
  "fmt_u n = (if n < 10 then [digit_char n] else fmt_u (n div 10) @ [digit_char (n mod 10)])"

declare fmt_u.simps [simp del]

text \<open>The conversions \<^verbatim>\<open>%d\<close>, \<^verbatim>\<open>%ld\<close> and \<^verbatim>\<open>%0wd\<close>.\<close>

definition fmt_d :: "int \<Rightarrow> string" where
  "fmt_d n = (if n < 0 then CHR ''-'' # fmt_u (nat (- n)) else fmt_u (nat n))"

definition pad_u :: "nat \<Rightarrow> nat \<Rightarrow> string" where
  "pad_u w n = replicate (w - length (fmt_u n)) (CHR ''0'') @ fmt_u n"

definition fmt_0d :: "nat \<Rightarrow> int \<Rightarrow> string" where
  "fmt_0d w n = (if n < 0 then CHR ''-'' # pad_u (w - 1) (nat (- n)) else pad_u w (nat n))"

text \<open>
  \<^verbatim>\<open>sscanf\<close> of one integer: \<open>None\<close> is a number outside of the type (\<open>ok\<close>), \<open>Some None\<close> is a matching failure.
\<close>

definition sscanf_d :: "(int \<Rightarrow> bool) \<Rightarrow> string \<Rightarrow> int option option" where
  "sscanf_d ok s =
     (let s = dropWhile isspace s;
          neg = (s \<noteq> [] \<and> hd s = CHR ''-'');
          s = (if s \<noteq> [] \<and> (hd s = CHR ''-'' \<or> hd s = CHR ''+'') then tl s else s);
          ds = takeWhile isdigit s;
          n = (if neg then - int (dec_value ds) else int (dec_value ds)) in
      if ds = [] then Some None else if ok n then Some (Some n) else None)"

definition int32_ok :: "int \<Rightarrow> bool" where
  "int32_ok x \<longleftrightarrow> - (2 ^ 31) \<le> x \<and> x < 2 ^ 31"

definition atoi :: "string \<Rightarrow> int option" where
  "atoi s = (case sscanf_d int32_ok s of None \<Rightarrow> None | Some None \<Rightarrow> Some 0 | Some (Some n) \<Rightarrow> Some n)"

lemma digit_char_code: "d < 10 \<Longrightarrow> of_char (digit_char d) = 48 + d"
  by (simp add: digit_char_def)

lemma digit_char_isdigit: "d < 10 \<Longrightarrow> isdigit (digit_char d)"
  by (simp add: isdigit_def digit_char_code)

lemma fmt_u_digits: "c \<in> set (fmt_u n) \<Longrightarrow> isdigit c"
proof (induction n rule: fmt_u.induct)
  case (1 n)
  then show ?case by (subst (asm) (2) fmt_u.simps) (auto simp: digit_char_isdigit split: if_splits)
qed

lemma fmt_u_not_Nil [simp]: "fmt_u n \<noteq> []"
  by (subst fmt_u.simps) simp

lemma dec_value_snoc: "dec_value (ds @ [c]) = 10 * dec_value ds + (of_char c - 48)"
  by (simp add: dec_value_def)

lemma dec_value_fmt_u [simp]: "dec_value (fmt_u n) = n"
proof (induction n rule: fmt_u.induct)
  case (1 n)
  show ?case
  proof (cases "n < 10")
    case True
    then have "fmt_u n = [digit_char n]" by (subst fmt_u.simps) simp
    then show ?thesis using True by (simp add: dec_value_def digit_char_code)
  next
    case False
    then have "fmt_u n = fmt_u (n div 10) @ [digit_char (n mod 10)]" by (subst fmt_u.simps) simp
    then show ?thesis using 1 False by (simp add: dec_value_snoc digit_char_code)
  qed
qed

lemma dec_value_zeros: "dec_value (replicate k (CHR ''0'') @ ds) = dec_value ds"
  by (induction k) (simp_all add: dec_value_def)

lemma dec_value_pad_u [simp]: "dec_value (pad_u w n) = n"
  by (simp add: pad_u_def dec_value_zeros)

lemma pad_u_digits: "c \<in> set (pad_u w n) \<Longrightarrow> isdigit c"
  by (auto simp: pad_u_def isdigit_def dest: fmt_u_digits)

lemma pad_u_not_Nil [simp]: "pad_u w n \<noteq> []"
  by (simp add: pad_u_def)

lemma digit_not_special:
  "isdigit c \<Longrightarrow> \<not> isspace c" "isdigit c \<Longrightarrow> c \<noteq> CHR ''-''" "isdigit c \<Longrightarrow> c \<noteq> CHR ''+''"
  by (auto simp: isdigit_def isspace_def)

lemma takeWhile_all: "(\<And>c. c \<in> set ds \<Longrightarrow> P c) \<Longrightarrow> rest = [] \<or> \<not> P (hd rest) \<Longrightarrow> takeWhile P (ds @ rest) = ds"
  by (induction ds) (cases rest; simp)+

text \<open>A string of digits is read back as its value.\<close>

lemma sscanf_digits:
  assumes "ds \<noteq> []" "\<And>c. c \<in> set ds \<Longrightarrow> isdigit c" "rest = [] \<or> \<not> isdigit (hd rest)" "ok (int (dec_value ds))"
  shows "sscanf_d ok (ds @ rest) = Some (Some (int (dec_value ds)))"
proof -
  obtain c cs where ds: "ds = c # cs" using assms(1) by (cases ds) auto
  then have "\<not> isspace c" "c \<noteq> CHR ''-''" "c \<noteq> CHR ''+''" using assms(2) [of c] digit_not_special [of c] by auto
  then have "dropWhile isspace (ds @ rest) = ds @ rest" "hd (ds @ rest) \<noteq> CHR ''-''" "hd (ds @ rest) \<noteq> CHR ''+''"
    using ds by auto
  moreover have "takeWhile isdigit (ds @ rest) = ds" by (rule takeWhile_all [where P = isdigit, OF assms(2,3)])
  ultimately show ?thesis using assms(1,4) by (simp add: sscanf_d_def Let_def)
qed

lemma sscanf_fmt_d:
  assumes "rest = [] \<or> \<not> isdigit (hd rest)" "ok n"
  shows "sscanf_d ok (fmt_d n @ rest) = Some (Some n)"
proof (cases "n < 0")
  case True
  have "takeWhile isdigit (fmt_u (nat (- n)) @ rest) = fmt_u (nat (- n))"
    by (rule takeWhile_all [where P = isdigit, OF fmt_u_digits assms(1)])
  moreover have "\<not> isspace (CHR ''-'')" by (simp add: isspace_def)
  ultimately show ?thesis using True assms(2) by (simp add: sscanf_d_def fmt_d_def Let_def)
next
  case False
  then show ?thesis using sscanf_digits [of "fmt_u (nat n)" rest ok, OF _ fmt_u_digits assms(1)] assms(2) by (simp add: fmt_d_def)
qed

lemma atoi_fmt_d [simp]: "int32_ok n \<Longrightarrow> atoi (fmt_d n) = Some n"
  using sscanf_fmt_d [of "[]" int32_ok n] by (simp add: atoi_def)

lemma atoi_Nil [simp]: "atoi [] = Some 0"
  by (simp add: atoi_def sscanf_d_def Let_def)

lemma fmt_d_not_Nil [simp]: "fmt_d n \<noteq> []"
  by (simp add: fmt_d_def)

lemma fmt_d_chars: "c \<in> set (fmt_d n) \<Longrightarrow> isdigit c \<or> c = CHR ''-''"
  by (auto simp: fmt_d_def dest: fmt_u_digits split: if_splits)

section \<open>Appending to a buffer of fixed size\<close>

text \<open>
  \<^verbatim>\<open>tbx_append_printf\<close> of \<^verbatim>\<open>toolbox/append_printf.c\<close>: the buffer holds the string \<open>buf\<close>, \<open>used\<close> counts the characters that
  would have been written, \<open>text\<close> is the formatted text.  The result is the return value with the new string and count.
\<close>

definition tbx_append_printf :: "string \<Rightarrow> nat \<Rightarrow> nat \<Rightarrow> string \<Rightarrow> int \<times> string \<times> nat" where
  "tbx_append_printf buf used nbytes text =
     (if nbytes \<le> used then (-1, buf, used)
      else (let n = int (length text); used' = used + length text in
            (if used' \<ge> nbytes then - n else n, take used buf @ take (nbytes - used - 1) text, used')))"

lemma append_printf_fits:
  "length buf + length text < nbytes \<Longrightarrow>
     tbx_append_printf buf (length buf) nbytes text = (int (length text), buf @ text, length (buf @ text))"
  by (simp add: tbx_append_printf_def Let_def)

end
