(* ===== verification/Rs_Simple.thy ===== *)
theory Rs_Simple
  imports C_String
begin

text \<open>
  Resource queries (\<^verbatim>\<open>lio/rs/query_base.c\<close>) and their use to select resources (\<^verbatim>\<open>lio/rs/simple.c\<close>).  A query is a
  list of elements in reverse Polish notation; a request scans the table of resources (RIDs) for each of the blocks
  to place, evaluating the query on the attributes of each resource.
\<close>

section \<open>Queries\<close>

definition RSQ_BASE_OP_KV :: int where "RSQ_BASE_OP_KV = 1"
definition RSQ_BASE_OP_NOT :: int where "RSQ_BASE_OP_NOT = 2"
definition RSQ_BASE_OP_AND :: int where "RSQ_BASE_OP_AND = 3"
definition RSQ_BASE_OP_OR :: int where "RSQ_BASE_OP_OR = 4"
definition RSQ_BASE_OP_MAX_VAL :: int where "RSQ_BASE_OP_MAX_VAL = 4"
definition RSQ_BASE_KV_EXACT :: int where "RSQ_BASE_KV_EXACT = 1"
definition RSQ_BASE_KV_PREFIX :: int where "RSQ_BASE_KV_PREFIX = 2"
definition RSQ_BASE_KV_ANY :: int where "RSQ_BASE_KV_ANY = 3"
definition RSQ_BASE_KV_MAX_VAL :: int where "RSQ_BASE_KV_MAX_VAL = 3"
definition RSQ_BASE_KV_OP_BITMASK :: int where "RSQ_BASE_KV_OP_BITMASK = 7"
definition RSQ_BASE_KV_UNIQUE :: int where "RSQ_BASE_KV_UNIQUE = 64"
definition RSQ_BASE_KV_PICKONE :: int where "RSQ_BASE_KV_PICKONE = 128"

lemmas rsq_consts = RSQ_BASE_OP_KV_def RSQ_BASE_OP_NOT_def RSQ_BASE_OP_AND_def RSQ_BASE_OP_OR_def
  RSQ_BASE_OP_MAX_VAL_def RSQ_BASE_KV_EXACT_def RSQ_BASE_KV_PREFIX_def RSQ_BASE_KV_ANY_def RSQ_BASE_KV_MAX_VAL_def
  RSQ_BASE_KV_OP_BITMASK_def RSQ_BASE_KV_UNIQUE_def RSQ_BASE_KV_PICKONE_def

record lio_rsq_base_ele_t =
  q_op :: int
  q_key :: "string option"
  q_val :: "string option"
  q_key_op :: int
  q_val_op :: int

text \<open>
  \<open>eles\<close> are the elements reached from \<^verbatim>\<open>head\<close>; \<open>tail\<close> is the null pointer, the position of the element that \<^verbatim>\<open>tail\<close>
  points to, or an element that cannot be reached from \<^verbatim>\<open>head\<close>.
\<close>

datatype tail_ptr = Null | At nat | Detached

record lio_rsq_base_t =
  eles :: "lio_rsq_base_ele_t list"
  tail :: tail_ptr

definition rs_query_base_new :: lio_rsq_base_t where
  "rs_query_base_new = \<lparr>eles = [], tail = Null\<rparr>"

definition is_unique :: "lio_rsq_base_ele_t \<Rightarrow> bool" where
  "is_unique q \<longleftrightarrow> q_key_op q AND RSQ_BASE_KV_UNIQUE \<noteq> 0 \<or> q_val_op q AND RSQ_BASE_KV_UNIQUE \<noteq> 0"

definition is_pickone :: "lio_rsq_base_ele_t \<Rightarrow> bool" where
  "is_pickone q \<longleftrightarrow> q_key_op q AND RSQ_BASE_KV_PICKONE \<noteq> 0 \<or> q_val_op q AND RSQ_BASE_KV_PICKONE \<noteq> 0"

definition rs_query_count :: "lio_rsq_base_t \<Rightarrow> nat \<times> nat \<times> nat" where
  "rs_query_count query =
     (length (eles query), length (filter is_unique (eles query)), length (filter is_pickone (eles query)))"

text \<open>Linking an element behind \<^verbatim>\<open>tail\<close> cuts off what followed it; a null \<^verbatim>\<open>tail\<close> is dereferenced.\<close>

definition rs_query_base_add ::
  "lio_rsq_base_t option \<Rightarrow> int \<Rightarrow> string option \<Rightarrow> int \<Rightarrow> string option \<Rightarrow> int \<Rightarrow> (int \<times> lio_rsq_base_t option) option" where
  "rs_query_base_add query op key key_op val val_op =
     (if op > RSQ_BASE_OP_MAX_VAL then Some (1, query)
      else if key_op > RSQ_BASE_KV_MAX_VAL then Some (2, query)
      else if val_op > RSQ_BASE_KV_MAX_VAL then Some (3, query)
      else if key_op AND RSQ_BASE_KV_UNIQUE \<noteq> 0 \<and> key_op AND RSQ_BASE_KV_UNIQUE \<noteq> 0 then Some (4, query)
      else if val_op AND RSQ_BASE_KV_UNIQUE \<noteq> 0 \<and> val_op AND RSQ_BASE_KV_UNIQUE \<noteq> 0 then Some (5, query)
      else
        (let q = \<lparr>q_op = op, q_key = key, q_val = val, q_key_op = key_op, q_val_op = key_op\<rparr> in
         case query of
           None \<Rightarrow> Some (0, Some \<lparr>eles = [q], tail = At 0\<rparr>)
         | Some qu \<Rightarrow>
             if eles qu = [] then Some (0, Some \<lparr>eles = [q], tail = At 0\<rparr>)
             else (case tail qu of
                 Null \<Rightarrow> None
               | At t \<Rightarrow> Some (0, Some \<lparr>eles = take (Suc t) (eles qu) @ [q], tail = At (Suc t)\<rparr>)
               | Detached \<Rightarrow> Some (0, Some qu))))"

definition rs_query_base_dup :: "lio_rsq_base_t option \<Rightarrow> lio_rsq_base_t option" where
  "rs_query_base_dup query =
     map_option (\<lambda>qu. \<lparr>eles = eles qu, tail = (if eles qu = [] then Null else At (length (eles qu) - 1))\<rparr>) query"

text \<open>The copies are linked behind \<^verbatim>\<open>tail\<close>, which then points to the last copy, or to nothing if there is none.\<close>

definition rs_query_base_append :: "lio_rsq_base_t \<Rightarrow> lio_rsq_base_t option \<Rightarrow> lio_rsq_base_t" where
  "rs_query_base_append query app =
     (case app of
        None \<Rightarrow> query
      | Some ap \<Rightarrow>
          (let n = length (eles ap) in
           if n = 0 then query\<lparr>tail := Null\<rparr>
           else if eles query = [] then \<lparr>eles = eles ap, tail = At (n - 1)\<rparr>
           else (case tail query of
               At t \<Rightarrow> \<lparr>eles = take (Suc t) (eles query) @ eles ap, tail = At (t + n)\<rparr>
             | _ \<Rightarrow> query\<lparr>tail := Detached\<rparr>)))"

section \<open>Testing a resource\<close>

record kvq_ele_t =
  kv_key :: "string option"
  kv_value :: "string option"

text \<open>The attributes are kept in a skip list in the order of their keys.\<close>

record lio_rss_rid_entry_t =
  rid_key :: string
  ds_key :: string
  attr :: "(string \<times> string) list"
  status :: int
  rid_slot :: nat
  too_full :: bool

definition no_kv :: kvq_ele_t where
  "no_kv = \<lparr>kv_key = None, kv_value = None\<rparr>"

definition str_or_empty :: "string option \<Rightarrow> string" where
  "str_or_empty s = (case s of None \<Rightarrow> [] | Some s \<Rightarrow> s)"

text \<open>A key that an earlier match left unset is dereferenced by the comparison; the values are checked for that.\<close>

fun key_seen :: "string \<Rightarrow> kvq_ele_t list \<Rightarrow> bool option" where
  "key_seen k [] = Some False"
| "key_seen k (u # us) = (case kv_key u of None \<Rightarrow> None | Some k' \<Rightarrow> if k = k' then Some True else key_seen k us)"

definition val_seen :: "string \<Rightarrow> kvq_ele_t list \<Rightarrow> bool" where
  "val_seen v us \<longleftrightarrow> (\<exists>u \<in> set us. kv_value u = Some v)"

definition key_matches :: "lio_rsq_base_ele_t \<Rightarrow> string \<Rightarrow> bool" where
  "key_matches q key =
     (let s = str_or_empty (q_key q); k_op = q_key_op q AND RSQ_BASE_KV_OP_BITMASK in
      if k_op = RSQ_BASE_KV_EXACT then key = s
      else if k_op = RSQ_BASE_KV_PREFIX then strncmp (length s) key s = 0
      else k_op = RSQ_BASE_KV_ANY)"

text \<open>The prefix test of the value uses the length of the key to match.\<close>

definition val_matches :: "lio_rsq_base_ele_t \<Rightarrow> string \<Rightarrow> bool" where
  "val_matches q val =
     (let s = str_or_empty (q_val q); v_op = q_val_op q AND RSQ_BASE_KV_OP_BITMASK;
          nlen = length (str_or_empty (q_key q)) in
      if v_op = RSQ_BASE_KV_EXACT then val = s
      else if v_op = RSQ_BASE_KV_PREFIX then strncmp nlen val s = 0
      else True)"

definition test_pair ::
  "lio_rsq_base_ele_t \<Rightarrow> nat \<Rightarrow> kvq_ele_t list \<Rightarrow> kvq_ele_t \<Rightarrow> string \<times> string \<Rightarrow> bool option" where
  "test_pair q n_match uniq pickone kv =
     (let (key, val) = kv;
          k_unique = q_key_op q AND RSQ_BASE_KV_UNIQUE; k_pickone = q_key_op q AND RSQ_BASE_KV_PICKONE;
          v_unique = q_val_op q AND RSQ_BASE_KV_UNIQUE; v_pickone = q_val_op q AND RSQ_BASE_KV_PICKONE in
      if \<not> key_matches q key then Some False
      else do {
        found \<leftarrow> (if n_match > 0 then
                     (if k_unique > 0 then map_option Not (key_seen key (take n_match uniq))
                      else if k_pickone > 0 then map_option (\<lambda>k. key = k) (kv_key pickone)
                      else Some True)
                   else Some True);
        let found = (found \<and> val_matches q val);
        if found \<and> n_match > 0 then
          (if v_unique > 0 then Some (\<not> val_seen val (take n_match uniq))
           else if v_pickone > 0 then Some (case kv_value pickone of None \<Rightarrow> True | Some v \<Rightarrow> val = v)
           else Some True)
        else Some found
      })"

fun first_match ::
  "lio_rsq_base_ele_t \<Rightarrow> nat \<Rightarrow> kvq_ele_t list \<Rightarrow> kvq_ele_t \<Rightarrow> (string \<times> string) list \<Rightarrow> (string \<times> string) option option" where
  "first_match q n uniq pickone [] = Some None"
| "first_match q n uniq pickone (kv # kvs) = do {
     found \<leftarrow> test_pair q n uniq pickone kv;
     if found then Some (Some kv) else first_match q n uniq pickone kvs
   }"

definition rss_test ::
  "lio_rsq_base_ele_t \<Rightarrow> lio_rss_rid_entry_t \<Rightarrow> nat \<Rightarrow> kvq_ele_t list \<Rightarrow> kvq_ele_t \<Rightarrow>
     (int \<times> kvq_ele_t list \<times> kvq_ele_t) option" where
  "rss_test q rse n_match uniq pickone =
     (let s = str_or_empty (q_key q) in do {
        r \<leftarrow> first_match q n_match uniq pickone (dropWhile (\<lambda>(k, _). strncmp (length s) k s < 0) (attr rse));
        (case r of
           None \<Rightarrow> Some (0, uniq, pickone)
         | Some (key, val) \<Rightarrow>
             if (q_key_op q AND RSQ_BASE_KV_UNIQUE > 0 \<or> q_val_op q AND RSQ_BASE_KV_UNIQUE > 0) \<and> n_match \<ge> length uniq
             then None
             else
               (let u = uniq ! n_match;
                    u = (if q_key_op q AND RSQ_BASE_KV_UNIQUE > 0 then u\<lparr>kv_key := Some key\<rparr> else u);
                    u = (if q_val_op q AND RSQ_BASE_KV_UNIQUE > 0 then u\<lparr>kv_value := Some val\<rparr> else u);
                    p = (if q_key_op q AND RSQ_BASE_KV_PICKONE > 0 then pickone\<lparr>kv_key := Some key\<rparr> else pickone);
                    p = (if q_val_op q AND RSQ_BASE_KV_PICKONE > 0 then p\<lparr>kv_value := Some val\<rparr> else p) in
                Some (1, uniq[n_match := u], p)))
      })"

section \<open>Evaluating a query on a resource\<close>

record kvq_table_t =
  uniques :: "kvq_ele_t list list"
  pickones :: "kvq_ele_t list"

text \<open>
  One element of the query on the stack of states.  A state popped from the empty stack is a null pointer: \<^verbatim>\<open>NOT\<close> and
  \<^verbatim>\<open>AND\<close> dereference it (\<^verbatim>\<open>AND\<close> only when the first state is not 0), \<^verbatim>\<open>OR\<close> is computed on the pointers themselves.
\<close>

definition eval_op :: "int \<Rightarrow> int list \<Rightarrow> (int \<times> int list) option" where
  "eval_op op st =
     (if op = RSQ_BASE_OP_NOT then
        (case st of [] \<Rightarrow> None | a # st \<Rightarrow> Some (if a = 0 then 1 else 0, st))
      else if op = RSQ_BASE_OP_AND then
        (case st of
           [] \<Rightarrow> None
         | [a] \<Rightarrow> if a = 0 then Some (0, []) else None
         | a # b # st \<Rightarrow> Some (if a \<noteq> 0 \<and> b \<noteq> 0 then 1 else 0, st))
      else if op = RSQ_BASE_OP_OR then
        (case st of
           [] \<Rightarrow> Some (0, [])
         | [a] \<Rightarrow> Some (1, [])
         | a # b # st \<Rightarrow> Some (1, st))
      else Some (-1, st))"

fun eval_query ::
  "lio_rsq_base_ele_t list \<Rightarrow> lio_rss_rid_entry_t \<Rightarrow> nat \<Rightarrow> nat \<Rightarrow> nat \<Rightarrow> kvq_table_t \<Rightarrow> int list \<Rightarrow>
     (kvq_table_t \<times> int list) option" where
  "eval_query [] rse i iu ip kvq st = Some (kvq, st)"
| "eval_query (q # qs) rse i iu ip kvq st =
     (if q_op q = RSQ_BASE_OP_KV then
        (if iu \<ge> length (uniques kvq) \<or> ip \<ge> length (pickones kvq) then None
         else do {
           (state, u, p) \<leftarrow> rss_test q rse i (uniques kvq ! iu) (pickones kvq ! ip);
           eval_query qs rse i (if is_unique q then iu + 1 else iu) (if is_pickone q then ip + 1 else ip)
             (kvq\<lparr>uniques := (uniques kvq)[iu := u], pickones := (pickones kvq)[ip := p]\<rparr>) (state # st)
         })
      else do {
        (state, st) \<leftarrow> eval_op (q_op q) st;
        eval_query qs rse i iu ip kvq (state # st)
      })"

section \<open>Requests\<close>

definition RS_STATUS_UP :: int where "RS_STATUS_UP = 0"
definition RS_ERROR_OK :: int where "RS_ERROR_OK = -100"
definition RS_ERROR_NOT_ENOUGH_RIDS :: int where "RS_ERROR_NOT_ENOUGH_RIDS = -101"
definition RS_ERROR_FIXED_MATCH_FAIL :: int where "RS_ERROR_FIXED_MATCH_FAIL = -102"
definition RS_ERROR_FIXED_NOT_FOUND :: int where "RS_ERROR_FIXED_NOT_FOUND = -103"
definition RS_ERROR_HINTS_INVALID_LOCAL :: int where "RS_ERROR_HINTS_INVALID_LOCAL = -104"
definition RS_ERROR_EMPTY_STACK :: int where "RS_ERROR_EMPTY_STACK = -105"

record lio_rid_change_entry_t =
  rc_state :: int
  rc_delta :: int
  rc_tolerance :: int

text \<open>\<open>pick_from\<close> is the number of the hash table that the hint points to.\<close>

record lio_rs_hints_t =
  fixed_rid_key :: string
  h_status :: int
  local_rsq :: "lio_rsq_base_t option"
  pick_from :: "nat option"

record lio_rs_request_t =
  rid_index :: nat
  req_size :: int
  req_rid :: "string option"

record rss_table =
  rid_table :: "string \<Rightarrow> lio_rss_rid_entry_t option"
  random_array :: "lio_rss_rid_entry_t list"

record req_state =
  kvq_global :: kvq_table_t
  kvq_local :: kvq_table_t
  hints :: "lio_rs_hints_t list option"
  picks :: "nat \<Rightarrow> string \<Rightarrow> lio_rid_change_entry_t option"
  reqs :: "lio_rs_request_t list"
  err_cnt :: nat
  error_code :: int

text \<open>The fixed arguments of a request.\<close>

record req_args =
  query_global :: lio_rsq_base_t
  fixed_size :: nat
  n_rid :: nat
  ignore_fixed_err :: int
  rss :: rss_table

definition set_hint_status :: "nat \<Rightarrow> int \<Rightarrow> req_state \<Rightarrow> req_state" where
  "set_hint_status i e s = s\<lparr>hints := map_option (\<lambda>hs. hs[i := (hs ! i)\<lparr>h_status := e\<rparr>]) (hints s)\<rparr>"

definition change_of :: "nat \<Rightarrow> lio_rs_request_t list \<Rightarrow> int" where
  "change_of i rs = sum_list (map req_size (filter (\<lambda>r. rid_index r = i) rs))"

text \<open>Both rounds of the evaluation: the global query, then the local one of the hint on the same stack.\<close>

definition eval_rid ::
  "req_args \<Rightarrow> nat \<Rightarrow> lio_rsq_base_t option \<Rightarrow> lio_rss_rid_entry_t \<Rightarrow> req_state \<Rightarrow> (int option \<times> req_state) option" where
  "eval_rid args i query_local rse s = do {
     (kg, st) \<leftarrow> eval_query (eles (query_global args)) rse i 0 0 (kvq_global s) [];
     (case query_local of
        None \<Rightarrow> Some (case st of [] \<Rightarrow> None | a # _ \<Rightarrow> Some a, s\<lparr>kvq_global := kg\<rparr>)
      | Some ql \<Rightarrow> do {
          (kl, st) \<leftarrow> eval_query (eles ql) rse i 0 0 (kvq_local s) st;
          Some (case st of [] \<Rightarrow> None | a # _ \<Rightarrow> Some a, s\<lparr>kvq_global := kg, kvq_local := kl\<rparr>)
        })
   }"

definition take_rid :: "nat \<Rightarrow> req_args \<Rightarrow> int \<Rightarrow> lio_rss_rid_entry_t \<Rightarrow> (nat \<times> lio_rid_change_entry_t) option \<Rightarrow> req_state \<Rightarrow> req_state" where
  "take_rid i args change rse rc s =
     (let s = (if i < fixed_size args \<and> hints s \<noteq> None then set_hint_status i RS_ERROR_OK s else s);
          s = s\<lparr>reqs := map (\<lambda>r. if rid_index r = i then r\<lparr>req_rid := Some (rid_key rse)\<rparr> else r) (reqs s)\<rparr> in
      case rc of
        None \<Rightarrow> s
      | Some (t, c) \<Rightarrow>
          (let d = rc_delta c - change in
           s\<lparr>picks := (picks s)(t := (picks s t)(rid_key rse \<mapsto>
               c\<lparr>rc_delta := d, rc_state := (if \<bar>d\<bar> \<le> rc_tolerance c \<or> rc_tolerance c = 0 then 1 else 0)\<rparr>))\<rparr>))"

text \<open>
  The scan of the resources for block \<open>i\<close>; \<open>js\<close> are the values of its counter that are left, \<open>retry\<close> is
  \<^verbatim>\<open>full_skip_retry\<close>.  The result is \<^verbatim>\<open>found\<close>, \<^verbatim>\<open>avg_full_skip\<close> and the state.
\<close>

fun scan_rids ::
  "req_args \<Rightarrow> nat \<Rightarrow> bool \<Rightarrow> lio_rsq_base_t option \<Rightarrow> nat option \<Rightarrow> int \<Rightarrow> nat \<Rightarrow> nat list \<Rightarrow> bool \<Rightarrow> req_state \<Rightarrow>
     (bool \<times> bool \<times> req_state) option" where
  "scan_rids args i retry ql pick change off [] skip s = Some (False, skip, s)"
| "scan_rids args i retry ql pick change off (j # js) skip s =
     (let n = length (random_array (rss args));
          rse = random_array (rss args) ! ((off + j) mod n);
          rc = (case pick of None \<Rightarrow> None | Some t \<Rightarrow> map_option (\<lambda>c. (t, c)) (picks s t (rid_key rse))) in
      if pick \<noteq> None \<and>
         (case rc of
            None \<Rightarrow> True
          | Some (_, c) \<Rightarrow> rc_state c = 1 \<or> rc_delta c \<le> 0 \<or> change - rc_delta c > rc_tolerance c)
      then scan_rids args i retry ql pick change off js skip s
      else if status rse \<noteq> RS_STATUS_UP \<and> i \<ge> fixed_size args
      then scan_rids args i retry ql pick change off js skip s
      else if i \<ge> fixed_size args \<and> \<not> retry \<and> too_full rse
      then scan_rids args i retry ql pick change off js True s
      else do {
        (state, s) \<leftarrow> eval_rid args i ql rse s;
        (case state of
           None \<Rightarrow> scan_rids args i retry ql pick change off js skip (s\<lparr>error_code := RS_ERROR_EMPTY_STACK\<rparr>)
         | Some a \<Rightarrow>
             if a = 1 then Some (True, skip, take_rid i args change rse rc s)
             else if i < fixed_size args then
               (let s = (if hints s \<noteq> None then set_hint_status i RS_ERROR_FIXED_MATCH_FAIL s else s) in
                Some (False, skip, if ignore_fixed_err args AND 1 = 0 then s\<lparr>err_cnt := err_cnt s + 1\<rparr> else s))
             else scan_rids args i retry ql pick change off js skip s)
      })"

text \<open>
  One attempt to place block \<open>i\<close> from a random offset; \<open>None\<close> in the first component is a jump to the next block that
  skips the checks at the end of the loop body.
\<close>

definition try_place ::
  "req_args \<Rightarrow> nat \<Rightarrow> bool \<Rightarrow> nat \<Rightarrow> req_state \<Rightarrow> ((bool \<times> bool) option \<times> req_state) option" where
  "try_place args i retry rnd_off s =
     (let n = length (random_array (rss args));
          scan = (\<lambda>ql pick off. map_option (\<lambda>(f, k, s). (Some (f, k), s))
                    (scan_rids args i retry ql pick (change_of i (reqs s)) off [0..<n] False s)) in
      case hints s of
        None \<Rightarrow> scan None None rnd_off
      | Some hs \<Rightarrow>
          if i \<ge> length hs then None
          else
            (let h = hs ! i; ql = local_rsq h in
             if (case ql of None \<Rightarrow> False
                 | Some q \<Rightarrow> fst (snd (rs_query_count q)) \<noteq> 0 \<and> snd (snd (rs_query_count q)) \<noteq> 0)
             then Some (None, (set_hint_status i RS_ERROR_HINTS_INVALID_LOCAL s)
                                \<lparr>error_code := RS_ERROR_EMPTY_STACK, err_cnt := err_cnt s + 1\<rparr>)
             else if i < fixed_size args then
               (case rid_table (rss args) (fixed_rid_key h) of
                  None \<Rightarrow> Some (None, set_hint_status i RS_ERROR_FIXED_NOT_FOUND s)
                | Some rse \<Rightarrow> scan ql (pick_from h) (rid_slot rse))
             else scan ql (pick_from h) rnd_off))"

text \<open>The loop over the blocks; \<open>rnd i k\<close> is the random offset of attempt \<open>k\<close> for block \<open>i\<close>.\<close>

fun place_all ::
  "req_args \<Rightarrow> (nat \<Rightarrow> nat \<Rightarrow> nat) \<Rightarrow> nat list \<Rightarrow> bool \<Rightarrow> req_state \<Rightarrow> (bool \<times> req_state) option" where
  "place_all args rnd [] found s = Some (found, s)"
| "place_all args rnd (i # is) found s = do {
     (r, s) \<leftarrow> try_place args i False (rnd i 0) s;
     (r, s) \<leftarrow> (case r of
                  Some (f, skip) \<Rightarrow>
                    if \<not> f \<and> i \<ge> fixed_size args \<and> skip then try_place args i True (rnd i 1) s else Some (r, s)
                | None \<Rightarrow> Some (r, s));
     (case r of
        None \<Rightarrow> place_all args rnd is False s
      | Some (f, _) \<Rightarrow>
          if ignore_fixed_err args AND 2 = 0 \<and> \<not> f \<and> i \<ge> fixed_size args then Some (False, s)
          else place_all args rnd is f s)
   }"

definition new_kvq :: "nat \<Rightarrow> nat \<Rightarrow> nat \<Rightarrow> kvq_table_t" where
  "new_kvq nu np n = \<lparr>uniques = replicate nu (replicate n no_kv), pickones = replicate np no_kv\<rparr>"

datatype rs_result = Failed int | Allocated "lio_rs_request_t list"

definition rs_simple_request ::
  "bool \<Rightarrow> req_args \<Rightarrow> (nat \<Rightarrow> nat \<Rightarrow> nat) \<Rightarrow> lio_rs_hints_t list option \<Rightarrow>
     (nat \<Rightarrow> string \<Rightarrow> lio_rid_change_entry_t option) \<Rightarrow> lio_rs_request_t list \<Rightarrow> (rs_result \<times> req_state) option" where
  "rs_simple_request refreshed args rnd hs pk rq =
     (let (_, nu, np) = rs_query_count (query_global args);
          s = \<lparr>kvq_global = new_kvq (nu + 1) (np + 1) (n_rid args), kvq_local = new_kvq 1 1 (n_rid args),
               hints = hs, picks = pk, reqs = map (\<lambda>r. r\<lparr>req_rid := None\<rparr>) rq, err_cnt = 0, error_code = 0\<rparr> in
      if \<not> refreshed then Some (Failed 0, s)
      else do {
        (found, s) \<leftarrow> place_all args rnd [0..<n_rid args] False s;
        let found = (found \<or> ignore_fixed_err args AND 2 = 2);
        Some (if \<not> found \<or> err_cnt s > 0
              then (Failed (if error_code s = 0 then RS_ERROR_NOT_ENOUGH_RIDS else error_code s),
                    s\<lparr>reqs := map (\<lambda>r. r\<lparr>req_rid := None\<rparr>) (reqs s)\<rparr>)
              else (Allocated (reqs s), s))
      })"

section \<open>Queries without unique and pickone\<close>

definition plain :: "lio_rsq_base_ele_t \<Rightarrow> bool" where
  "plain q \<longleftrightarrow> \<not> is_unique q \<and> \<not> is_pickone q"

text \<open>Boolean expressions over tests of key and value, and their translation to reverse Polish notation.\<close>

datatype bexp = Kv lio_rsq_base_ele_t | Neg bexp | Conj bexp bexp

definition op_ele :: "int \<Rightarrow> lio_rsq_base_ele_t" where
  "op_ele op = \<lparr>q_op = op, q_key = None, q_val = None, q_key_op = 0, q_val_op = 0\<rparr>"

fun rpn :: "bexp \<Rightarrow> lio_rsq_base_ele_t list" where
  "rpn (Kv q) = [q]"
| "rpn (Neg e) = rpn e @ [op_ele RSQ_BASE_OP_NOT]"
| "rpn (Conj a b) = rpn a @ rpn b @ [op_ele RSQ_BASE_OP_AND]"

fun tests :: "bexp \<Rightarrow> lio_rsq_base_ele_t set" where
  "tests (Kv q) = {q}"
| "tests (Neg e) = tests e"
| "tests (Conj a b) = tests a \<union> tests b"

definition attr_from :: "lio_rsq_base_ele_t \<Rightarrow> lio_rss_rid_entry_t \<Rightarrow> (string \<times> string) list" where
  "attr_from q rse = dropWhile (\<lambda>(k, _). strncmp (length (str_or_empty (q_key q))) k (str_or_empty (q_key q)) < 0) (attr rse)"

text \<open>A resource has an attribute that a test accepts.\<close>

definition accepts :: "lio_rsq_base_ele_t \<Rightarrow> lio_rss_rid_entry_t \<Rightarrow> bool" where
  "accepts q rse \<longleftrightarrow> (\<exists>(k, v) \<in> set (attr_from q rse). key_matches q k \<and> val_matches q v)"

fun truth :: "bexp \<Rightarrow> lio_rss_rid_entry_t \<Rightarrow> bool" where
  "truth (Kv q) rse = accepts q rse"
| "truth (Neg e) rse = (\<not> truth e rse)"
| "truth (Conj a b) rse = (truth a rse \<and> truth b rse)"

lemma first_match_plain:
  assumes "plain q"
  shows "\<exists>r. first_match q n u p kvs = Some r \<and> (r \<noteq> None \<longleftrightarrow> (\<exists>(k, v) \<in> set kvs. key_matches q k \<and> val_matches q v))"
proof (induction kvs)
  case (Cons kv kvs)
  obtain k v where kv: "kv = (k, v)" by (cases kv)
  have "test_pair q n u p kv = Some (key_matches q k \<and> val_matches q v)"
    using assms by (auto simp: test_pair_def kv plain_def is_unique_def is_pickone_def Let_def)
  with Cons show ?case by (auto simp: kv)
qed simp

lemma list_update_nth_self: "xs[i := xs ! i] = xs"
  by (cases "i < length xs") auto

lemma rss_test_plain:
  assumes "plain q"
  shows "rss_test q rse n u p = Some (if accepts q rse then 1 else 0, u, p)"
proof -
  obtain r where r: "first_match q n u p (attr_from q rse) = Some r" "r \<noteq> None \<longleftrightarrow> accepts q rse"
    using first_match_plain [OF assms, of n u p "attr_from q rse"] by (auto simp: accepts_def)
  have "q_key_op q AND RSQ_BASE_KV_UNIQUE = 0" "q_val_op q AND RSQ_BASE_KV_UNIQUE = 0"
    "q_key_op q AND RSQ_BASE_KV_PICKONE = 0" "q_val_op q AND RSQ_BASE_KV_PICKONE = 0"
    using assms by (auto simp: plain_def is_unique_def is_pickone_def)
  with r show ?thesis
    by (cases r) (auto simp: rss_test_def Let_def attr_from_def [symmetric] list_update_nth_self)
qed

lemma eval_rpn:
  assumes "\<forall>q \<in> tests e. plain q \<and> q_op q = RSQ_BASE_OP_KV" "iu < length (uniques kvq)" "ip < length (pickones kvq)"
  shows "eval_query (rpn e @ qs) rse i iu ip kvq st = eval_query qs rse i iu ip kvq ((if truth e rse then 1 else 0) # st)"
  using assms
proof (induction e arbitrary: qs st)
  case (Kv q)
  then have "\<not> is_unique q" "\<not> is_pickone q" by (auto simp: plain_def)
  with Kv show ?case by (simp add: rss_test_plain list_update_nth_self)
next
  case (Neg e)
  then show ?case by (simp add: op_ele_def eval_op_def rsq_consts)
next
  case (Conj a b)
  then show ?case by (simp add: op_ele_def eval_op_def rsq_consts)
qed

section \<open>Unique values\<close>

definition and_ele :: lio_rsq_base_ele_t where
  "and_ele = op_ele RSQ_BASE_OP_AND"

text \<open>The conjunction of a list of tests.\<close>

definition conj_tail :: "lio_rsq_base_ele_t list \<Rightarrow> lio_rsq_base_ele_t list" where
  "conj_tail ts = concat (map (\<lambda>t. [t, and_ele]) ts)"

fun conj_query :: "lio_rsq_base_ele_t list \<Rightarrow> lio_rsq_base_ele_t list" where
  "conj_query [] = []"
| "conj_query (t # ts) = t # conj_tail ts"

definition val_unique :: "lio_rsq_base_ele_t \<Rightarrow> bool" where
  "val_unique q \<longleftrightarrow> q_val_op q AND RSQ_BASE_KV_UNIQUE > 0"

text \<open>A test on block \<open>i\<close> has taken the value \<open>v\<close> and noted it in its row of values.\<close>

definition took_value :: "lio_rsq_base_ele_t \<Rightarrow> lio_rss_rid_entry_t \<Rightarrow> nat \<Rightarrow> kvq_ele_t list \<Rightarrow> kvq_ele_t list \<Rightarrow> string \<Rightarrow> bool" where
  "took_value t rse i row row' v \<longleftrightarrow>
     (\<exists>k. (k, v) \<in> set (attr rse) \<and> key_matches t k \<and> val_matches t v) \<and> \<not> val_seen v (take i row) \<and>
     i < length row' \<and> kv_value (row' ! i) = Some v"

lemma first_match_found:
  assumes "first_match q n u p kvs = Some (Some (k, v))"
  shows "(k, v) \<in> set kvs \<and> test_pair q n u p (k, v) = Some True"
  using assms
proof (induction kvs)
  case (Cons kv kvs)
  then show ?case by (auto simp: bind_Some_iff split: if_splits)
qed simp

lemma test_pair_found:
  assumes "test_pair q n u p (k, v) = Some True"
  shows "key_matches q k \<and> val_matches q v \<and> (val_unique q \<longrightarrow> \<not> val_seen v (take n u))"
  using assms
  by (auto simp: test_pair_def Let_def val_unique_def bind_Some_iff val_seen_def split: if_splits)

lemma rss_test_cases:
  assumes "rss_test q rse n u p = Some (r, u', p')"
  obtains "r = 0" "u' = u"
  | k v w where "r = 1" "first_match q n u p (attr_from q rse) = Some (Some (k, v))" "u' = u[n := w]"
      "\<not> is_unique q \<longrightarrow> w = u ! n" "val_unique q \<longrightarrow> kv_value w = Some v \<and> n < length u"
proof (cases "first_match q n u p (attr_from q rse)")
  case None
  then show ?thesis using assms by (simp add: rss_test_def attr_from_def)
next
  case (Some m)
  show ?thesis
  proof (cases m)
    case None
    with Some assms that(1) show ?thesis by (simp add: rss_test_def attr_from_def)
  next
    case m: (Some kv)
    obtain k v where kv: "kv = (k, v)" by (cases kv)
    define u1 where "u1 = (if q_key_op q AND RSQ_BASE_KV_UNIQUE > 0 then (u ! n)\<lparr>kv_key := Some k\<rparr> else u ! n)"
    define u2 where "u2 = (if q_val_op q AND RSQ_BASE_KV_UNIQUE > 0 then u1\<lparr>kv_value := Some v\<rparr> else u1)"
    have "r = 1 \<and> u' = u[n := u2] \<and> (val_unique q \<longrightarrow> n < length u)"
      using assms Some m kv
      by (simp add: rss_test_def attr_from_def [symmetric] Let_def u1_def [symmetric] u2_def [symmetric] val_unique_def
          split: if_splits) (auto simp: u2_def)
    moreover have "\<not> is_unique q \<longrightarrow> u2 = u ! n" by (simp add: u1_def u2_def is_unique_def)
    moreover have "val_unique q \<longrightarrow> kv_value u2 = Some v" by (simp add: u2_def val_unique_def)
    ultimately show ?thesis using that(2) Some m kv by blast
  qed
qed

lemma rss_test_frame:
  assumes "rss_test q rse n u p = Some (r, u', p')"
  shows "length u' = length u \<and> (\<forall>k. k \<noteq> n \<longrightarrow> u' ! k = u ! k) \<and> (\<not> is_unique q \<longrightarrow> u' = u) \<and> (r = 0 \<or> r = 1)"
  using assms by (cases rule: rss_test_cases) (auto simp: list_update_nth_self)

lemma rss_test_took:
  assumes "rss_test q rse n u p = Some (1, u', p')" "val_unique q"
  shows "\<exists>v. took_value q rse n u u' v"
  using assms(1)
proof (cases rule: rss_test_cases)
  case (2 k v w)
  have "(k, v) \<in> set (attr rse)"
    using first_match_found [OF 2(2)] by (auto simp: attr_from_def dest: set_dropWhileD)
  with test_pair_found [OF conjunct2 [OF first_match_found [OF 2(2)]]] assms(2) 2 show ?thesis
    by (auto simp: took_value_def)
qed simp

lemma val_unique_is: "val_unique q \<Longrightarrow> is_unique q"
  by (auto simp: val_unique_def is_unique_def)

text \<open>Only the entries of block \<open>i\<close> differ between two tables.\<close>

definition same_rows :: "nat \<Rightarrow> kvq_table_t \<Rightarrow> kvq_table_t \<Rightarrow> bool" where
  "same_rows i k k' \<longleftrightarrow> length (uniques k') = length (uniques k) \<and>
     (\<forall>r < length (uniques k). length (uniques k' ! r) = length (uniques k ! r) \<and>
        (\<forall>x. x \<noteq> i \<longrightarrow> uniques k' ! r ! x = uniques k ! r ! x))"

lemma same_rows_refl [simp]: "same_rows i k k"
  by (simp add: same_rows_def)

lemma same_rows_trans: "same_rows i k k' \<Longrightarrow> same_rows i k' k'' \<Longrightarrow> same_rows i k k''"
  by (auto simp: same_rows_def)

lemma same_rows_take: "same_rows i k k' \<Longrightarrow> r < length (uniques k) \<Longrightarrow> take i (uniques k' ! r) = take i (uniques k ! r)"
  by (rule nth_equalityI) (auto simp: same_rows_def)

lemma same_rows_step:
  assumes "rss_test q rse i (uniques k ! iu) p = Some (r, u, p')" "iu < length (uniques k)"
  shows "same_rows i k (k\<lparr>uniques := (uniques k)[iu := u], pickones := ps\<rparr>)"
  using rss_test_frame [OF assms(1)] assms(2) by (auto simp: same_rows_def nth_list_update)

lemma eval_KV:
  assumes "eval_query (q # qs) rse i iu ip k st = Some res" "q_op q = RSQ_BASE_OP_KV"
  obtains r u p where "rss_test q rse i (uniques k ! iu) (pickones k ! ip) = Some (r, u, p)"
    "iu < length (uniques k)" "ip < length (pickones k)"
    "eval_query qs rse i (if is_unique q then iu + 1 else iu) (if is_pickone q then ip + 1 else ip)
        (k\<lparr>uniques := (uniques k)[iu := u], pickones := (pickones k)[ip := p]\<rparr>) (r # st) = Some res"
proof (cases "iu \<ge> length (uniques k) \<or> ip \<ge> length (pickones k)")
  case True
  then show ?thesis using assms by simp
next
  case False
  show ?thesis
  proof (cases "rss_test q rse i (uniques k ! iu) (pickones k ! ip)")
    case None
    then show ?thesis using assms False by simp
  next
    case (Some x)
    obtain r u p where "x = (r, u, p)" by (cases x)
    with Some that [of r u p] assms False show ?thesis by simp
  qed
qed

lemma eval_query_frame:
  "eval_query qs rse i iu ip k st = Some (k', st') \<Longrightarrow>
   same_rows i k k' \<and> (\<forall>r < iu. uniques k' ! r = uniques k ! r)"
proof (induction qs arbitrary: iu ip k st)
  case (Cons q qs)
  show ?case
  proof (cases "q_op q = RSQ_BASE_OP_KV")
    case True
    obtain r u p where t: "rss_test q rse i (uniques k ! iu) (pickones k ! ip) = Some (r, u, p)" and iu: "iu < length (uniques k)"
      and rest: "eval_query qs rse i (if is_unique q then iu + 1 else iu) (if is_pickone q then ip + 1 else ip)
        (k\<lparr>uniques := (uniques k)[iu := u], pickones := (pickones k)[ip := p]\<rparr>) (r # st) = Some (k', st')"
      by (rule eval_KV [OF Cons.prems True])
    have "\<forall>r < iu. uniques k' ! r = uniques k ! r" using Cons.IH [OF rest] by simp
    then show ?thesis using Cons.IH [OF rest] same_rows_trans [OF same_rows_step [OF t iu]] by blast
  next
    case False
    then obtain x where x: "eval_op (q_op q) st = Some x" using Cons.prems by (cases "eval_op (q_op q) st") auto
    obtain state st1 where "x = (state, st1)" by (cases x)
    with x False Cons.prems have "eval_query qs rse i iu ip k (state # st1) = Some (k', st')" by simp
    then show ?thesis by (rule Cons.IH)
  qed
qed simp

definition cnt_unique :: "lio_rsq_base_ele_t list \<Rightarrow> nat" where
  "cnt_unique ts = length (filter is_unique ts)"

lemma eval_conj_tail:
  assumes "eval_query (conj_tail ts) rse i iu ip k (a # st) = Some (k', st')" "\<forall>t \<in> set ts. q_op t = RSQ_BASE_OP_KV"
  shows "\<exists>b. st' = b # st \<and> (b = 1 \<longrightarrow> a \<noteq> 0 \<and> (ts = [] \<longrightarrow> a = 1) \<and>
           (\<forall>ts1 t ts2. ts = ts1 @ t # ts2 \<longrightarrow> val_unique t \<longrightarrow>
              iu + cnt_unique ts1 < length (uniques k) \<and>
              (\<exists>v. took_value t rse i (uniques k ! (iu + cnt_unique ts1)) (uniques k' ! (iu + cnt_unique ts1)) v)))"
  using assms
proof (induction ts arbitrary: iu ip k a)
  case Nil
  then have "st' = a # st" by (simp add: conj_tail_def)
  then show ?case by simp
next
  case (Cons t ts)
  let ?iu = "if is_unique t then iu + 1 else iu" and ?ip = "if is_pickone t then ip + 1 else ip"
  have t: "q_op t = RSQ_BASE_OP_KV" using Cons.prems(2) by simp
  have tail: "conj_tail (t # ts) = t # and_ele # conj_tail ts" by (simp add: conj_tail_def)
  have and_op: "q_op and_ele = RSQ_BASE_OP_AND" "RSQ_BASE_OP_AND \<noteq> RSQ_BASE_OP_KV"
    by (simp_all add: and_ele_def op_ele_def rsq_consts)
  have and_eval: "eval_op RSQ_BASE_OP_AND (s # a # st) = Some (if s \<noteq> 0 \<and> a \<noteq> 0 then 1 else 0, st)" for s
    by (simp add: eval_op_def rsq_consts)
  obtain s u p where test: "rss_test t rse i (uniques k ! iu) (pickones k ! ip) = Some (s, u, p)" and iu: "iu < length (uniques k)"
    and "eval_query (and_ele # conj_tail ts) rse i ?iu ?ip (k\<lparr>uniques := (uniques k)[iu := u], pickones := (pickones k)[ip := p]\<rparr>)
        (s # a # st) = Some (k', st')"
    using eval_KV [OF Cons.prems(1) [unfolded tail] t] .
  then have rest: "eval_query (conj_tail ts) rse i ?iu ?ip (k\<lparr>uniques := (uniques k)[iu := u], pickones := (pickones k)[ip := p]\<rparr>)
        ((if s \<noteq> 0 \<and> a \<noteq> 0 then 1 else 0) # st) = Some (k', st')"
    by (simp only: eval_query.simps and_op if_False and_eval bind_Some_simp prod.case)
  let ?k = "k\<lparr>uniques := (uniques k)[iu := u], pickones := (pickones k)[ip := p]\<rparr>"
  obtain b where b: "st' = b # st" and ih: "b = 1 \<longrightarrow> (if s \<noteq> 0 \<and> a \<noteq> 0 then 1 else 0 :: int) \<noteq> 0 \<and>
      (\<forall>ts1 t' ts2. ts = ts1 @ t' # ts2 \<longrightarrow> val_unique t' \<longrightarrow> ?iu + cnt_unique ts1 < length (uniques ?k) \<and>
        (\<exists>v. took_value t' rse i (uniques ?k ! (?iu + cnt_unique ts1)) (uniques k' ! (?iu + cnt_unique ts1)) v))"
    using Cons.IH [OF rest] Cons.prems(2) by auto
  have "a \<noteq> 0 \<and> (\<forall>ts1 t' ts2. t # ts = ts1 @ t' # ts2 \<longrightarrow> val_unique t' \<longrightarrow> iu + cnt_unique ts1 < length (uniques k) \<and>
      (\<exists>v. took_value t' rse i (uniques k ! (iu + cnt_unique ts1)) (uniques k' ! (iu + cnt_unique ts1)) v))" if b1: "b = 1"
  proof -
    have s: "s = 1" "a \<noteq> 0" using ih b1 rss_test_frame [OF test] by (auto split: if_splits)
    have "iu + cnt_unique ts1 < length (uniques k) \<and>
        (\<exists>v. took_value t' rse i (uniques k ! (iu + cnt_unique ts1)) (uniques k' ! (iu + cnt_unique ts1)) v)"
      if dec: "t # ts = ts1 @ t' # ts2" "val_unique t'" for ts1 t' ts2
    proof (cases ts1)
      case Nil
      with dec have t': "t' = t" "is_unique t" by (auto dest: val_unique_is)
      have "uniques k' ! iu = u" using eval_query_frame [OF rest] t'(2) iu by simp
      then show ?thesis using rss_test_took [of t rse i "uniques k ! iu"] test s(1) dec(2) t' Nil iu by (auto simp: cnt_unique_def)
    next
      case (Cons x ts1')
      with dec have x: "x = t" "ts = ts1' @ t' # ts2" by auto
      define n where "n = ?iu + cnt_unique ts1'"
      have idx: "iu + cnt_unique ts1 = n" using Cons x by (simp add: cnt_unique_def n_def)
      have eq: "uniques ?k ! n = uniques k ! n"
        using rss_test_frame [OF test] by (cases "is_unique t"; cases "n = iu") (auto simp: n_def nth_list_update list_update_nth_self)
      have "n < length (uniques ?k) \<and> (\<exists>v. took_value t' rse i (uniques ?k ! n) (uniques k' ! n) v)"
        using ih b1 x(2) dec(2) unfolding n_def by blast
      then show ?thesis unfolding idx eq by simp
    qed
    with s(2) show ?thesis by blast
  qed
  with b show ?case by auto
qed

lemma eval_conj:
  assumes "eval_query (conj_query ts) rse i 0 0 k [] = Some (k', st)" "\<forall>t \<in> set ts. q_op t = RSQ_BASE_OP_KV"
    and "ts = ts1 @ t # ts2" "val_unique t" "st = a # st'" "a = 1"
  shows "cnt_unique ts1 < length (uniques k) \<and> (\<exists>v. took_value t rse i (uniques k ! cnt_unique ts1) (uniques k' ! cnt_unique ts1) v)"
proof -
  have "ts \<noteq> []" using assms(3) by simp
  then obtain t0 ts0 where ts: "ts = t0 # ts0" by (meson neq_Nil_conv)
  have op: "q_op t0 = RSQ_BASE_OP_KV" "\<forall>t \<in> set ts0. q_op t = RSQ_BASE_OP_KV" using assms(2) ts by auto
  let ?iu = "if is_unique t0 then 0 + 1 else 0" and ?ip = "if is_pickone t0 then 0 + 1 else 0"
  obtain s u p where test: "rss_test t0 rse i (uniques k ! 0) (pickones k ! 0) = Some (s, u, p)" and k: "0 < length (uniques k)"
    and rest: "eval_query (conj_tail ts0) rse i ?iu ?ip
        (k\<lparr>uniques := (uniques k)[0 := u], pickones := (pickones k)[0 := p]\<rparr>) [s] = Some (k', st)"
    using eval_KV [OF assms(1) [unfolded ts conj_query.simps] op(1)] .
  let ?k = "k\<lparr>uniques := (uniques k)[0 := u], pickones := (pickones k)[0 := p]\<rparr>"
  have s: "s \<noteq> 0" and ih: "\<And>ts1 t' ts2. ts0 = ts1 @ t' # ts2 \<Longrightarrow> val_unique t' \<Longrightarrow> ?iu + cnt_unique ts1 < length (uniques ?k) \<and>
        (\<exists>v. took_value t' rse i (uniques ?k ! (?iu + cnt_unique ts1)) (uniques k' ! (?iu + cnt_unique ts1)) v)"
    using eval_conj_tail [OF rest op(2)] assms(5,6) by auto
  show ?thesis
  proof (cases ts1)
    case Nil
    with assms(3,4) ts have t: "t = t0" "is_unique t0" by (auto dest: val_unique_is)
    have "uniques k' ! 0 = u" using eval_query_frame [OF rest] t(2) k by simp
    moreover have "s = 1" using rss_test_frame [OF test] s by auto
    ultimately show ?thesis using rss_test_took [of t0 rse i "uniques k ! 0"] test assms(4) t k Nil by (auto simp: cnt_unique_def)
  next
    case (Cons x ts1')
    with assms(3) ts have x: "x = t0" "ts0 = ts1' @ t # ts2" by auto
    define n where "n = ?iu + cnt_unique ts1'"
    have idx: "cnt_unique ts1 = n" using Cons x by (simp add: cnt_unique_def n_def)
    have eq: "uniques ?k ! n = uniques k ! n"
      using rss_test_frame [OF test] by (cases "is_unique t0"; cases "n = 0") (auto simp: n_def nth_list_update list_update_nth_self)
    have "n < length (uniques ?k) \<and> (\<exists>v. took_value t rse i (uniques ?k ! n) (uniques k' ! n) v)"
      using ih [OF x(2) assms(4)] unfolding n_def by blast
    then show ?thesis unfolding idx eq by simp
  qed
qed

text \<open>
  A request whose query is a conjunction of tests with the unique test \<open>t\<close> in it.  The hints have no local queries; they
  may have a fixed list and may restrict the resources to choose from.
\<close>

definition no_local :: "lio_rs_hints_t list option \<Rightarrow> bool" where
  "no_local hs \<longleftrightarrow> (case hs of None \<Rightarrow> True | Some l \<Rightarrow> \<forall>h \<in> set l. local_rsq h = None)"

definition unique_request :: "req_args \<Rightarrow> lio_rsq_base_ele_t list \<Rightarrow> lio_rsq_base_ele_t \<Rightarrow> lio_rsq_base_ele_t list \<Rightarrow> bool" where
  "unique_request args ts1 t ts2 \<longleftrightarrow>
     eles (query_global args) = conj_query (ts1 @ t # ts2) \<and> (\<forall>q \<in> set (ts1 @ t # ts2). q_op q = RSQ_BASE_OP_KV) \<and> val_unique t"

text \<open>What the resource \<open>rse\<close> that is chosen for block \<open>i\<close> with the value \<open>v\<close> satisfies.\<close>

definition has_value :: "req_args \<Rightarrow> lio_rsq_base_ele_t \<Rightarrow> nat \<Rightarrow> lio_rss_rid_entry_t \<Rightarrow> string \<Rightarrow> bool" where
  "has_value args t i rse v \<longleftrightarrow> rse \<in> set (random_array (rss args)) \<and> (status rse = RS_STATUS_UP \<or> i < fixed_size args) \<and>
     (\<exists>k. (k, v) \<in> set (attr rse) \<and> key_matches t k \<and> val_matches t v)"

definition set_rid :: "nat \<Rightarrow> string \<Rightarrow> lio_rs_request_t list \<Rightarrow> lio_rs_request_t list" where
  "set_rid i key rs = map (\<lambda>r. if rid_index r = i then r\<lparr>req_rid := Some key\<rparr> else r) rs"

lemma no_local_status [simp]:
  assumes "no_local (hints s)"
  shows "no_local (hints (set_hint_status i e s))"
proof (cases "hints s")
  case (Some l)
  have "local_rsq h = None" if "h \<in> set (l[i := (l ! i)\<lparr>h_status := e\<rparr>])" for h
  proof (cases "i < length l")
    case True
    then have "local_rsq ((l ! i)\<lparr>h_status := e\<rparr>) = None" using assms Some by (simp add: no_local_def)
    then show ?thesis using set_mp [OF set_update_subset_insert that] assms Some by (auto simp: no_local_def)
  next
    case False
    then have "l[i := (l ! i)\<lparr>h_status := e\<rparr>] = l" by (intro list_update_beyond) simp
    then show ?thesis using that assms Some by (simp add: no_local_def)
  qed
  then show ?thesis using Some by (simp add: no_local_def set_hint_status_def)
qed (simp add: no_local_def set_hint_status_def)

lemma set_hint_status_keeps [simp]:
  "kvq_global (set_hint_status i e s) = kvq_global s" "reqs (set_hint_status i e s) = reqs s"
  by (simp_all add: set_hint_status_def)

lemma take_rid_keeps [simp]:
  "kvq_global (take_rid i args c rse rc s) = kvq_global s" "reqs (take_rid i args c rse rc s) = set_rid i (rid_key rse) (reqs s)"
  "no_local (hints s) \<Longrightarrow> no_local (hints (take_rid i args c rse rc s))"
  by (auto simp: take_rid_def set_rid_def Let_def split: option.splits)

text \<open>What a scan for block \<open>i\<close> leaves.\<close>

definition scanned :: "req_args \<Rightarrow> lio_rsq_base_ele_t \<Rightarrow> nat \<Rightarrow> nat \<Rightarrow> req_state \<Rightarrow> bool \<Rightarrow> req_state \<Rightarrow> bool" where
  "scanned args t u i s found s' \<longleftrightarrow>
     same_rows i (kvq_global s) (kvq_global s') \<and> no_local (hints s') \<and>
     (if found then
        \<exists>rse v. has_value args t i rse v \<and> \<not> val_seen v (take i (uniques (kvq_global s) ! u)) \<and> u < length (uniques (kvq_global s)) \<and>
          i < length (uniques (kvq_global s) ! u) \<and> kv_value (uniques (kvq_global s') ! u ! i) = Some v \<and>
          reqs s' = set_rid i (rid_key rse) (reqs s)
      else reqs s' = reqs s)"

lemma scanned_trans:
  assumes "same_rows i (kvq_global s) (kvq_global s1)" "reqs s1 = reqs s" "scanned args t u i s1 f s2"
  shows "scanned args t u i s f s2"
proof -
  have "length (uniques (kvq_global s1)) = length (uniques (kvq_global s))" using assms(1) by (simp add: same_rows_def)
  moreover have "u < length (uniques (kvq_global s)) \<Longrightarrow> take i (uniques (kvq_global s1) ! u) = take i (uniques (kvq_global s) ! u)"
    by (rule same_rows_take [OF assms(1)])
  moreover have "u < length (uniques (kvq_global s)) \<Longrightarrow> length (uniques (kvq_global s1) ! u) = length (uniques (kvq_global s) ! u)"
    using assms(1) by (simp add: same_rows_def)
  moreover have "same_rows i (kvq_global s) (kvq_global s2)"
    using assms(1,3) same_rows_trans unfolding scanned_def by blast
  ultimately show ?thesis using assms(2,3) by (auto simp: scanned_def split: if_splits)
qed

lemma eval_rid_scanned:
  assumes req: "unique_request args ts1 t ts2" and "no_local (hints s)" "rse \<in> set (random_array (rss args))"
    "status rse = RS_STATUS_UP \<or> i < fixed_size args" and run: "eval_rid args i None rse s = Some (st, s1)"
  shows "same_rows i (kvq_global s) (kvq_global s1) \<and> no_local (hints s1) \<and> reqs s1 = reqs s \<and>
         (st = Some 1 \<longrightarrow> scanned args t (cnt_unique ts1) i s True (take_rid i args c rse rc s1))"
proof -
  obtain kg stk where ev: "eval_query (conj_query (ts1 @ t # ts2)) rse i 0 0 (kvq_global s) [] = Some (kg, stk)"
    and s1: "s1 = s\<lparr>kvq_global := kg\<rparr>" and st: "st = (case stk of [] \<Rightarrow> None | a # _ \<Rightarrow> Some a)"
    using run req by (auto simp: eval_rid_def bind_Some_iff unique_request_def)
  have fr: "same_rows i (kvq_global s) kg" using eval_query_frame [OF ev] by simp
  have "scanned args t (cnt_unique ts1) i s True (take_rid i args c rse rc s1)" if one: "st = Some 1"
  proof -
    obtain a stk' where stk: "stk = a # stk'" "a = 1" using one st by (cases stk) auto
    obtain v where u: "cnt_unique ts1 < length (uniques (kvq_global s))"
      and v: "took_value t rse i (uniques (kvq_global s) ! cnt_unique ts1) (uniques kg ! cnt_unique ts1) v"
      using eval_conj [OF ev _ refl _ stk] req by (auto simp: unique_request_def)
    have "length (uniques kg ! cnt_unique ts1) = length (uniques (kvq_global s) ! cnt_unique ts1)"
      using fr u by (simp add: same_rows_def)
    with v u fr assms(2-4) show ?thesis by (auto simp: scanned_def took_value_def has_value_def s1)
  qed
  with fr s1 assms(2) show ?thesis by simp
qed

lemma scan_rids_scanned:
  assumes req: "unique_request args ts1 t ts2" and "no_local (hints s)" "set js \<subseteq> {..<length (random_array (rss args))}"
    and run: "scan_rids args i retry None pick c off js skip s = Some (f, skip', s')"
  shows "scanned args t (cnt_unique ts1) i s f s'"
  using assms
proof (induction js arbitrary: skip s)
  case Nil
  then show ?case by (auto simp: scanned_def)
next
  case (Cons j js)
  let ?n = "length (random_array (rss args))"
  let ?rse = "random_array (rss args) ! ((off + j) mod ?n)"
  define rc where "rc = (case pick of None \<Rightarrow> None | Some t \<Rightarrow> map_option (\<lambda>c. (t, c)) (picks s t (rid_key ?rse)))"
  have n: "0 < ?n" using Cons.prems(3) by (cases ?n) auto
  note run = Cons.prems(4) [unfolded scan_rids.simps Let_def, folded rc_def]
  show ?case
  proof (cases "\<exists>sk. scan_rids args i retry None pick c off js sk s = Some (f, skip', s')")
    case True
    then show ?thesis using Cons.IH [OF req Cons.prems(2)] Cons.prems(3) by auto
  next
    case False
    have up: "status ?rse = RS_STATUS_UP \<or> i < fixed_size args" using run False by (auto split: if_splits)
    have r2: "Option.bind (eval_rid args i None ?rse s) (\<lambda>(state, s).
        case state of
          None \<Rightarrow> scan_rids args i retry None pick c off js skip (s\<lparr>error_code := RS_ERROR_EMPTY_STACK\<rparr>)
        | Some a \<Rightarrow>
            if a = 1 then Some (True, skip, take_rid i args c ?rse rc s)
            else if i < fixed_size args then
              Some (False, skip, if ignore_fixed_err args AND 1 = 0
                then (if hints s \<noteq> None then set_hint_status i RS_ERROR_FIXED_MATCH_FAIL s else s)
                  \<lparr>err_cnt := err_cnt (if hints s \<noteq> None then set_hint_status i RS_ERROR_FIXED_MATCH_FAIL s else s) + 1\<rparr>
                else (if hints s \<noteq> None then set_hint_status i RS_ERROR_FIXED_MATCH_FAIL s else s))
            else scan_rids args i retry None pick c off js skip s) = Some (f, skip', s')"
      using run False by (auto split: if_splits)
    obtain st s1 where ev: "eval_rid args i None ?rse s = Some (st, s1)" using r2 by (cases "eval_rid args i None ?rse s") auto
    have "?rse \<in> set (random_array (rss args))" using n by auto
    note e = eval_rid_scanned [OF req Cons.prems(2) this up ev, of c rc]
    note r3 = r2 [unfolded ev bind_Some_simp prod.case]
    consider (got) "st = Some 1" | (more) s2 where "scan_rids args i retry None pick c off js skip s2 = Some (f, skip', s')"
        "kvq_global s2 = kvq_global s1" "hints s2 = hints s1" "reqs s2 = reqs s1"
      | (failed) "\<not> f" "kvq_global s' = kvq_global s1" "no_local (hints s')" "reqs s' = reqs s1"
      using r3 e by (cases st) (force split: if_splits)+
    then show ?thesis
    proof cases
      case got
      then show ?thesis using r3 e by auto
    next
      case more
      have "scanned args t (cnt_unique ts1) i s2 f s'"
        by (rule Cons.IH [OF req _ _ more(1)]) (use more e Cons.prems(3) in auto)
      then show ?thesis using scanned_trans [of i s s2] more e by auto
    next
      case failed
      then show ?thesis using e by (simp add: scanned_def)
    qed
  qed
qed

text \<open>
  The choices for the blocks looked at so far: for each block that is placed, the resource and the value of its unique
  attribute.
\<close>

definition placed :: "req_args \<Rightarrow> lio_rsq_base_ele_t \<Rightarrow> nat \<Rightarrow> (lio_rss_rid_entry_t \<times> string) option list \<Rightarrow> req_state \<Rightarrow> bool" where
  "placed args t u cs s \<longleftrightarrow>
     no_local (hints s) \<and>
     (\<forall>k < length cs. case cs ! k of
        None \<Rightarrow> k < fixed_size args \<or> ignore_fixed_err args AND 2 \<noteq> 0
      | Some (rse, v) \<Rightarrow> has_value args t k rse v \<and> u < length (uniques (kvq_global s)) \<and> k < length (uniques (kvq_global s) ! u) \<and>
          kv_value (uniques (kvq_global s) ! u ! k) = Some v) \<and>
     (\<forall>j k rse rse' v v'. j < k \<and> k < length cs \<and> cs ! j = Some (rse, v) \<and> cs ! k = Some (rse', v') \<longrightarrow> v \<noteq> v') \<and>
     (\<forall>r \<in> set (reqs s). req_rid r = (if rid_index r < length cs then map_option (\<lambda>(rse, v). rid_key rse) (cs ! rid_index r) else None))"

lemma placed_none:
  assumes p: "placed args t u cs s" and sc: "same_rows (length cs) (kvq_global s) (kvq_global s1)" "no_local (hints s1)" "reqs s1 = reqs s"
    and "length cs < fixed_size args \<or> ignore_fixed_err args AND 2 \<noteq> 0"
  shows "placed args t u (cs @ [None]) s1"
proof -
  have "case (cs @ [None]) ! k of
        None \<Rightarrow> k < fixed_size args \<or> ignore_fixed_err args AND 2 \<noteq> 0
      | Some (rse, v) \<Rightarrow> has_value args t k rse v \<and> u < length (uniques (kvq_global s1)) \<and> k < length (uniques (kvq_global s1) ! u) \<and>
          kv_value (uniques (kvq_global s1) ! u ! k) = Some v" if "k < length (cs @ [None])" for k
  proof (cases "k = length cs")
    case False
    then have k: "k < length cs" using that by simp
    then show ?thesis using p sc(1) False by (auto simp: placed_def same_rows_def nth_append split: option.splits)
  qed (use assms(5) in auto)
  moreover have "v \<noteq> v'" if "j < k" "k < length (cs @ [None])" "(cs @ [None]) ! j = Some (rse, v)" "(cs @ [None]) ! k = Some (rse', v')" for j k rse rse' v v'
    using that p by (auto simp: placed_def nth_append split: if_splits)
  moreover have "req_rid r = (if rid_index r < length (cs @ [None]) then map_option (\<lambda>(rse, v). rid_key rse) ((cs @ [None]) ! rid_index r) else None)"
    if "r \<in> set (reqs s1)" for r
    using that p sc(3) by (auto simp: placed_def nth_append)
  ultimately show ?thesis unfolding placed_def using sc(2) by blast
qed

lemma placed_same:
  assumes "placed args t u cs s" "same_rows (length cs) (kvq_global s) (kvq_global s1)" "no_local (hints s1)" "reqs s1 = reqs s"
  shows "placed args t u cs s1"
  using assms by (fastforce simp: placed_def same_rows_def split: option.splits)

lemma placed_some:
  assumes p: "placed args t u cs s" and sc: "scanned args t u (length cs) s True s1"
  shows "\<exists>c. placed args t u (cs @ [Some c]) s1"
proof -
  let ?row = "uniques (kvq_global s) ! u" and ?row1 = "uniques (kvq_global s1) ! u"
  obtain rse v where c: "has_value args t (length cs) rse v" "\<not> val_seen v (take (length cs) ?row)" "u < length (uniques (kvq_global s))"
    "length cs < length ?row" "kv_value (?row1 ! length cs) = Some v" "reqs s1 = set_rid (length cs) (rid_key rse) (reqs s)"
    "same_rows (length cs) (kvq_global s) (kvq_global s1)" "no_local (hints s1)"
    using sc by (auto simp: scanned_def)
  let ?cs = "cs @ [Some (rse, v)]"
  have new: "w \<noteq> v" if "k < length cs" "cs ! k = Some (r, w)" for k r w
  proof
    assume "w = v"
    then have "kv_value (?row ! k) = Some v" using p that by (auto simp: placed_def split: option.splits)
    moreover have "?row ! k \<in> set (take (length cs) ?row)" using that(1) c(4) by (auto simp: in_set_conv_nth)
    ultimately show False using c(2) by (auto simp: val_seen_def)
  qed
  have u1: "u < length (uniques (kvq_global s1))" "length ?row1 = length ?row" using c(3,7) by (auto simp: same_rows_def)
  have "case ?cs ! k of
        None \<Rightarrow> k < fixed_size args \<or> ignore_fixed_err args AND 2 \<noteq> 0
      | Some (rse, v) \<Rightarrow> has_value args t k rse v \<and> u < length (uniques (kvq_global s1)) \<and> k < length ?row1 \<and> kv_value (?row1 ! k) = Some v"
    if "k < length ?cs" for k
  proof (cases "k = length cs")
    case True
    then show ?thesis using c u1 by simp
  next
    case False
    then have k: "k < length cs" using that by simp
    then show ?thesis using p c(3,7) False u1 by (auto simp: placed_def same_rows_def nth_append split: option.splits)
  qed
  moreover have "x \<noteq> y" if "j < k" "k < length ?cs" "?cs ! j = Some (a, x)" "?cs ! k = Some (b, y)" for j k a b x y
  proof (cases "k = length cs")
    case True
    then show ?thesis using that new [of j a x] by (simp add: nth_append)
  next
    case False
    then have "k < length cs" "cs ! j = Some (a, x)" "cs ! k = Some (b, y)" using that by (simp_all add: nth_append)
    then show ?thesis using that(1) p unfolding placed_def by blast
  qed
  moreover have "req_rid r = (if rid_index r < length ?cs then map_option (\<lambda>(rse, v). rid_key rse) (?cs ! rid_index r) else None)"
    if "r \<in> set (reqs s1)" for r
    using that p c(6) by (auto simp: placed_def set_rid_def nth_append less_Suc_eq split: if_splits)
  ultimately have "placed args t u ?cs s1" unfolding placed_def using c(8) by blast
  then show ?thesis by blast
qed

lemma try_place_scanned:
  assumes "unique_request args ts1 t ts2" "no_local (hints s)" "try_place args i retry off s = Some (r, s')"
  shows "case r of None \<Rightarrow> i < fixed_size args \<and> scanned args t (cnt_unique ts1) i s False s'
         | Some (f, skip) \<Rightarrow> scanned args t (cnt_unique ts1) i s f s'"
proof -
  have sub: "set [0..<length (random_array (rss args))] \<subseteq> {..<length (random_array (rss args))}" by auto
  note sc = scan_rids_scanned [OF assms(1,2) sub]
  show ?thesis
  proof (cases "hints s")
    case None
    then show ?thesis using assms(3) sc by (auto simp: try_place_def)
  next
    case (Some hs)
    have i: "i < length hs" using assms(3) Some by (cases "i < length hs") (simp_all add: try_place_def Let_def)
    then have "local_rsq (hs ! i) = None" using assms(2) Some by (simp add: no_local_def)
    then show ?thesis using assms(2,3) Some i sc
      by (auto simp: try_place_def Let_def scanned_def split: if_splits option.splits)
  qed
qed

text \<open>One turn of the loop: it stops without enough resources, or the block is placed or left out.\<close>

lemma place_one:
  assumes req: "unique_request args ts1 t ts2" and p: "placed args t (cnt_unique ts1) cs s"
    and run: "place_all args rnd (length cs # is) found s = Some (f, s')"
  shows "(\<not> f \<and> ignore_fixed_err args AND 2 = 0) \<or>
    (\<exists>c f1 s1. placed args t (cnt_unique ts1) (cs @ [c]) s1 \<and> place_all args rnd is f1 s1 = Some (f, s'))"
proof -
  let ?i = "length cs"
  have attempt: "case r of
      None \<Rightarrow> placed args t (cnt_unique ts1) (cs @ [None]) s2
    | Some (f, skip) \<Rightarrow> if f then \<exists>c. placed args t (cnt_unique ts1) (cs @ [Some c]) s2 else placed args t (cnt_unique ts1) cs s2"
    if "placed args t (cnt_unique ts1) cs s1" "try_place args ?i retry off s1 = Some (r, s2)" for s1 retry off r s2
  proof -
    have "no_local (hints s1)" using that(1) by (simp add: placed_def)
    from try_place_scanned [OF req this that(2)] show ?thesis
      using placed_some [OF that(1)] placed_none [OF that(1)] placed_same [OF that(1)] by (auto simp: scanned_def split: option.splits)
  qed
  obtain r1 s1 where t1: "try_place args ?i False (rnd ?i 0) s = Some (r1, s1)"
    using run by (cases "try_place args ?i False (rnd ?i 0) s") auto
  note a1 = attempt [OF p t1]
  obtain r s2 where r: "(case r1 of Some (f, skip) \<Rightarrow> if \<not> f \<and> ?i \<ge> fixed_size args \<and> skip then try_place args ?i True (rnd ?i 1) s1 else Some (r1, s1)
      | None \<Rightarrow> Some (r1, s1)) = Some (r, s2)" using run t1 by (fastforce simp: bind_Some_iff)
  have a2: "case r of
      None \<Rightarrow> placed args t (cnt_unique ts1) (cs @ [None]) s2
    | Some (f, skip) \<Rightarrow> if f then \<exists>c. placed args t (cnt_unique ts1) (cs @ [Some c]) s2 else placed args t (cnt_unique ts1) cs s2"
    using r a1 attempt [of s1 True "rnd ?i 1" r s2] by (auto split: option.splits if_splits prod.splits)
  have rest: "(case r of None \<Rightarrow> place_all args rnd is False s2
      | Some (f', _) \<Rightarrow> if ignore_fixed_err args AND 2 = 0 \<and> \<not> f' \<and> ?i \<ge> fixed_size args then Some (False, s2)
          else place_all args rnd is f' s2) = Some (f, s')" using run t1 r by simp
  show ?thesis
  proof (cases r)
    case None
    then show ?thesis using a2 rest by auto
  next
    case (Some x)
    obtain f' skip where x: "x = (f', skip)" by fastforce
    have "placed args t (cnt_unique ts1) (cs @ [None]) s2" if "\<not> f'" "?i < fixed_size args \<or> ignore_fixed_err args AND 2 \<noteq> 0"
      using a2 Some x that placed_none [of args t "cnt_unique ts1" cs s2 s2] by (auto simp: placed_def)
    then show ?thesis using a2 rest Some x by (cases f') (auto split: if_splits)
  qed
qed

lemma place_rest:
  assumes "unique_request args ts1 t ts2" "placed args t (cnt_unique ts1) cs s"
    and "place_all args rnd [length cs..<n] found s = Some (f, s')" "length cs \<le> n"
  shows "(\<not> f \<and> ignore_fixed_err args AND 2 = 0) \<or> (\<exists>cs'. length cs' = n \<and> placed args t (cnt_unique ts1) cs' s')"
  using assms(2-4)
proof (induction "n - length cs" arbitrary: cs s found)
  case 0
  then show ?case by auto
next
  case (Suc d)
  then have "[length cs..<n] = length cs # [Suc (length cs)..<n]" by (simp add: upt_conv_Cons)
  then consider "\<not> f \<and> ignore_fixed_err args AND 2 = 0"
    | c f1 s1 where "placed args t (cnt_unique ts1) (cs @ [c]) s1" "place_all args rnd [length (cs @ [c])..<n] f1 s1 = Some (f, s')"
    using place_one [OF assms(1) Suc.prems(1), of rnd "[Suc (length cs)..<n]" found f s'] Suc.prems(2) by auto
  then show ?case using Suc.hyps(1) [of "cs @ [c]" s1 f1 for c s1 f1] Suc.hyps(2) by cases auto
qed

section \<open>Properties\<close>

text \<open>
  C10: a request whose query is a conjunction of tests, one of which asks for unique values, with any fixed list and any
  restriction of the resources but without local queries of the hints.  When the request succeeds, it has a choice for
  each block: the blocks that are placed lie on resources of the table with pairwise different values of an attribute that
  the unique test accepts, a block behind the fixed list on a resource that is up.  Only a block of the fixed list, or any
  block if a partial result was asked for, may be left out.  Every allocation names the resource chosen for its block, or
  none if the block is left out.
\<close>

theorem rs_request_unique:
  assumes "unique_request args ts1 t ts2" "no_local hs"
    and "rs_simple_request True args rnd hs pk rq = Some (Allocated rs, s)"
  shows "\<exists>cs. length cs = n_rid args \<and>
           (\<forall>k < n_rid args. case cs ! k of
              None \<Rightarrow> k < fixed_size args \<or> ignore_fixed_err args AND 2 \<noteq> 0
            | Some (rse, v) \<Rightarrow> has_value args t k rse v) \<and>
           (\<forall>j k rse rse' v v'. j < k \<and> k < n_rid args \<and> cs ! j = Some (rse, v) \<and> cs ! k = Some (rse', v') \<longrightarrow> v \<noteq> v') \<and>
           (\<forall>r \<in> set rs. rid_index r < n_rid args \<longrightarrow> req_rid r = map_option (\<lambda>(rse, v). rid_key rse) (cs ! rid_index r))"
proof -
  obtain nu np where cnt: "rs_query_count (query_global args) = (length (eles (query_global args)), nu, np)"
    by (simp add: rs_query_count_def)
  define s0 where "s0 = \<lparr>kvq_global = new_kvq (nu + 1) (np + 1) (n_rid args), kvq_local = new_kvq 1 1 (n_rid args),
    hints = hs, picks = pk, reqs = map (\<lambda>r. r\<lparr>req_rid := None\<rparr>) rq, err_cnt = 0, error_code = 0\<rparr>"
  have run: "rs_simple_request True args rnd hs pk rq =
      Option.bind (place_all args rnd [0..<n_rid args] False s0) (\<lambda>(found, s).
        Some (if \<not> (found \<or> ignore_fixed_err args AND 2 = 2) \<or> err_cnt s > 0
        then (Failed (if error_code s = 0 then RS_ERROR_NOT_ENOUGH_RIDS else error_code s),
              s\<lparr>reqs := map (\<lambda>r. r\<lparr>req_rid := None\<rparr>) (reqs s)\<rparr>)
        else (Allocated (reqs s), s)))"
    unfolding s0_def rs_simple_request_def cnt Let_def by (simp add: split_def)
  then obtain f s' where pl: "place_all args rnd [0..<n_rid args] False s0 = Some (f, s')"
    using assms(3) by (cases "place_all args rnd [0..<n_rid args] False s0") auto
  have f: "f \<or> ignore_fixed_err args AND 2 = 2" "rs = reqs s'" using assms(3) run pl by (auto split: if_splits)
  have "placed args t (cnt_unique ts1) [] s0" using assms(2) by (simp add: placed_def s0_def)
  from place_rest [OF assms(1) this, of rnd "n_rid args" False f s'] pl f(1)
  obtain cs where cs: "length cs = n_rid args" "placed args t (cnt_unique ts1) cs s'" by auto
  then show ?thesis using f(2) by (intro exI [of _ cs] conjI) (auto simp: placed_def split: option.splits)
qed

definition demo_rid :: "string \<Rightarrow> string \<Rightarrow> lio_rss_rid_entry_t" where
  "demo_rid key host = \<lparr>rid_key = key, ds_key = [], attr = [(''host'', host)], status = 0, rid_slot = 0, too_full = False\<rparr>"

definition demo_down :: lio_rss_rid_entry_t where
  "demo_down = (demo_rid ''2'' ''a'')\<lparr>status := 1, rid_slot := 1\<rparr>"

definition demo_unique :: lio_rsq_base_ele_t where
  "demo_unique = \<lparr>q_op = 1, q_key = Some ''host'', q_val = None, q_key_op = 1, q_val_op = 67\<rparr>"

text \<open>Two blocks, the first one fixed to a resource that is down.\<close>

definition demo_args :: req_args where
  "demo_args = \<lparr>query_global = \<lparr>eles = [demo_unique], tail = At 0\<rparr>, fixed_size = 1, n_rid = 2, ignore_fixed_err = 0,
     rss = \<lparr>rid_table = (\<lambda>k. if k = ''2'' then Some demo_down else None),
            random_array = [demo_rid ''1'' ''a'', demo_down, demo_rid ''3'' ''b'']\<rparr>\<rparr>"

definition demo_hints :: "lio_rs_hints_t list option" where
  "demo_hints = Some [\<lparr>fixed_rid_key = ''2'', h_status = 0, local_rsq = None, pick_from = None\<rparr>,
     \<lparr>fixed_rid_key = [], h_status = 0, local_rsq = None, pick_from = None\<rparr>]"

definition demo_reqs :: "lio_rs_request_t list" where
  "demo_reqs = [\<lparr>rid_index = 0, req_size = 10, req_rid = None\<rparr>, \<lparr>rid_index = 1, req_size = 10, req_rid = None\<rparr>]"

lemma demo_request:
  "map_option fst (rs_simple_request True demo_args (\<lambda>_ _. 0) demo_hints (\<lambda>_ _. None) demo_reqs) =
     Some (Allocated [\<lparr>rid_index = 0, req_size = 10, req_rid = Some ''2''\<rparr>, \<lparr>rid_index = 1, req_size = 10, req_rid = Some ''3''\<rparr>])"
  by code_simp

theorem rs_request_unique_witness:
  "\<exists>cs. length cs = 2 \<and>
     (\<forall>k < 2. case cs ! k of None \<Rightarrow> k < fixed_size demo_args \<or> ignore_fixed_err demo_args AND 2 \<noteq> 0
        | Some (rse, v) \<Rightarrow> has_value demo_args demo_unique k rse v) \<and>
     (\<forall>rse rse' v v'. cs ! 0 = Some (rse, v) \<and> cs ! 1 = Some (rse', v') \<longrightarrow> v \<noteq> v') \<and>
     map_option (\<lambda>(rse, v). rid_key rse) (cs ! 0) = Some ''2'' \<and> map_option (\<lambda>(rse, v). rid_key rse) (cs ! 1) = Some ''3''"
proof -
  obtain s where run: "rs_simple_request True demo_args (\<lambda>_ _. 0) demo_hints (\<lambda>_ _. None) demo_reqs =
     Some (Allocated [\<lparr>rid_index = 0, req_size = 10, req_rid = Some ''2''\<rparr>, \<lparr>rid_index = 1, req_size = 10, req_rid = Some ''3''\<rparr>], s)"
    using demo_request by auto
  have "unique_request demo_args [] demo_unique []" "no_local demo_hints"
    by (simp_all add: unique_request_def demo_args_def demo_unique_def conj_tail_def val_unique_def rsq_consts no_local_def demo_hints_def)
  moreover have n: "n_rid demo_args = 2" by (simp add: demo_args_def)
  ultimately obtain cs where cs: "length cs = 2"
    "\<forall>k < 2. case cs ! k of None \<Rightarrow> k < fixed_size demo_args \<or> ignore_fixed_err demo_args AND 2 \<noteq> 0
        | Some (rse, v) \<Rightarrow> has_value demo_args demo_unique k rse v"
    "\<forall>j k rse rse' v v'. j < k \<and> k < 2 \<and> cs ! j = Some (rse, v) \<and> cs ! k = Some (rse', v') \<longrightarrow> v \<noteq> v'"
    "\<forall>r \<in> {\<lparr>rid_index = 0, req_size = 10, req_rid = Some ''2''\<rparr>, \<lparr>rid_index = 1, req_size = 10, req_rid = Some ''3''\<rparr>}.
       rid_index r < 2 \<longrightarrow> req_rid r = map_option (\<lambda>(rse, v). rid_key rse) (cs ! rid_index r)"
    using rs_request_unique [OF _ _ run, of "[]" demo_unique "[]"] unfolding n by auto
  have "\<forall>rse rse' v v'. cs ! 0 = Some (rse, v) \<and> cs ! 1 = Some (rse', v') \<longrightarrow> v \<noteq> v'"
    using cs(3) by (metis less_numeral_extra(1) one_less_numeral_iff semiring_norm(76))
  moreover have "map_option (\<lambda>(rse, v). rid_key rse) (cs ! 0) = Some ''2''" "map_option (\<lambda>(rse, v). rid_key rse) (cs ! 1) = Some ''3''"
    using bspec [OF cs(4), of "\<lparr>rid_index = 0, req_size = 10, req_rid = Some ''2''\<rparr>"]
      bspec [OF cs(4), of "\<lparr>rid_index = 1, req_size = 10, req_rid = Some ''3''\<rparr>"] by simp_all
  ultimately show ?thesis using cs(1,2) by blast
qed

text \<open>
  C25: the stack machine computes the truth value of every query that is built from tests without unique and pickone,
  negations and conjunctions, in every context: its code leaves exactly this value on top of the stack.  A test is true
  when an attribute of the resource matches its key and its value in the sense of \<^verbatim>\<open>rss_test\<close> itself.
\<close>

theorem rs_query_evaluates:
  assumes "\<forall>q \<in> tests e. plain q \<and> q_op q = RSQ_BASE_OP_KV" "uniques kvq \<noteq> []" "pickones kvq \<noteq> []"
  shows "eval_query (rpn e) rse i 0 0 kvq st = Some (kvq, (if truth e rse then 1 else 0) # st)"
  using eval_rpn [OF assms(1), of 0 kvq 0 "[]" rse i st] assms(2,3) by simp

definition demo_host :: "string \<Rightarrow> lio_rsq_base_ele_t" where
  "demo_host h = \<lparr>q_op = 1, q_key = Some ''host'', q_val = Some h, q_key_op = 1, q_val_op = 1\<rparr>"

lemma demo_host_plain: "plain (demo_host h)" "q_op (demo_host h) = RSQ_BASE_OP_KV"
  by (simp_all add: demo_host_def plain_def is_unique_def is_pickone_def rsq_consts)

theorem rs_query_evaluates_witness:
  "eval_query (rpn (Conj (Kv (demo_host ''a'')) (Neg (Kv (demo_host ''b''))))) (demo_rid ''1'' ''a'') 0 0 0 (new_kvq 1 1 1) [] =
     Some (new_kvq 1 1 1, [1])"
proof -
  have "truth (Conj (Kv (demo_host ''a'')) (Neg (Kv (demo_host ''b'')))) (demo_rid ''1'' ''a'')"
    by (simp add: accepts_def attr_from_def demo_host_def demo_rid_def key_matches_def val_matches_def str_or_empty_def rsq_consts)
  then show ?thesis
    using rs_query_evaluates [of "Conj (Kv (demo_host ''a'')) (Neg (Kv (demo_host ''b'')))" "new_kvq 1 1 1" "demo_rid ''1'' ''a''" 0 "[]"]
    by (simp add: demo_host_plain new_kvq_def)
qed

text \<open>
  A disjunction does not look at its operands: the code of any two queries followed by \<^verbatim>\<open>RSQ_BASE_OP_OR\<close> leaves 1
  on the stack, also when both are false for the resource.
\<close>

lemma rs_query_or_true:
  assumes "\<forall>q \<in> tests a \<union> tests b. plain q \<and> q_op q = RSQ_BASE_OP_KV" "uniques kvq \<noteq> []" "pickones kvq \<noteq> []"
  shows "eval_query (rpn a @ rpn b @ [op_ele RSQ_BASE_OP_OR]) rse i 0 0 kvq st = Some (kvq, 1 # st)"
proof -
  have "eval_query (rpn a @ rpn b @ [op_ele RSQ_BASE_OP_OR]) rse i 0 0 kvq st =
      eval_query [op_ele RSQ_BASE_OP_OR] rse i 0 0 kvq ((if truth b rse then 1 else 0) # (if truth a rse then 1 else 0) # st)"
    using assms by (simp add: eval_rpn)
  then show ?thesis by (simp add: op_ele_def eval_op_def rsq_consts)
qed

lemma rs_query_or_true_witness:
  "eval_query (rpn (Kv (demo_host ''b'')) @ rpn (Kv (demo_host ''c'')) @ [op_ele RSQ_BASE_OP_OR]) (demo_rid ''1'' ''a'') 0 0 0 (new_kvq 1 1 1) [] =
     Some (new_kvq 1 1 1, [1]) \<and> \<not> accepts (demo_host ''b'') (demo_rid ''1'' ''a'') \<and> \<not> accepts (demo_host ''c'') (demo_rid ''1'' ''a'')"
  using rs_query_or_true [of "Kv (demo_host ''b'')" "Kv (demo_host ''c'')" "new_kvq 1 1 1" "demo_rid ''1'' ''a''" 0 "[]"]
  by (simp add: demo_host_plain new_kvq_def accepts_def attr_from_def)
    (simp add: demo_host_def demo_rid_def key_matches_def val_matches_def str_or_empty_def rsq_consts)

end
