(* ===== verification/String_Token.thy ===== *)
theory String_Token
  imports C_String "HOL-Library.Signed_Division"
begin

text \<open>
  The string routines of \<^verbatim>\<open>toolbox/string_token.c\<close>: tokens with escaped delimiters, escaping and unescaping, numbers
  with a scale unit, time intervals and trimming.  A string is its list of characters; the tokenizer's \<^verbatim>\<open>last\<close> pointer
  is the rest of the string that it points to, or \<open>None\<close> for NULL.  \<open>None\<close> as a result is an access outside of the
  string, a signed overflow or the use of a variable that was never set.
\<close>

section \<open>The code\<close>

subsection \<open>Tokens\<close>

text \<open>\<^verbatim>\<open>strtok_r\<close> of the C library: the token and what the saved pointer points to.\<close>

definition strtok_r :: "string \<Rightarrow> string \<Rightarrow> string option \<times> string" where
  "strtok_r s sep =
     (let s = dropWhile (\<lambda>c. c \<in> set sep) s in
      if s = [] then (None, []) else (Some (takeWhile (\<lambda>c. c \<notin> set sep) s), tl (dropWhile (\<lambda>c. c \<notin> set sep) s)))"

definition tbx_stk_string_token :: "string option \<Rightarrow> string \<Rightarrow> string \<Rightarrow> string \<times> string \<times> bool" where
  "tbx_stk_string_token str sep lst =
     (case strtok_r (case str of Some s \<Rightarrow> s | None \<Rightarrow> lst) sep of
        (None, l) \<Rightarrow> ([], l, True)
      | (Some t, l) \<Rightarrow> (t, l, False))"

text \<open>The final \<open>n\<close> of the scanning loop: one past the terminator if the last character is the escape character.\<close>

fun token_len :: "string \<Rightarrow> char \<Rightarrow> string \<Rightarrow> nat" where
  "token_len delims esc [] = 0"
| "token_len delims esc (c # cs) =
     (if c \<in> set delims then 0
      else if c = esc then (case cs of [] \<Rightarrow> 2 | d # ds \<Rightarrow> 2 + token_len delims esc ds)
      else 1 + token_len delims esc cs)"

text \<open>The token, the new \<^verbatim>\<open>last\<close> and \<^verbatim>\<open>finished\<close>.\<close>

definition tbx_stk_escape_string_token ::
  "string option \<Rightarrow> string \<Rightarrow> char \<Rightarrow> bool \<Rightarrow> string option \<Rightarrow> (string \<times> string option \<times> bool) option" where
  "tbx_stk_escape_string_token str delims esc compress lst =
     (case (case str of None \<Rightarrow> lst | Some s \<Rightarrow> Some s) of
        None \<Rightarrow> Some ([], None, True)
      | Some ptr \<Rightarrow>
          (let skip = (if compress then length (takeWhile (\<lambda>c. c \<in> set delims) ptr) else 0);
               n = skip + token_len delims esc (drop skip ptr) in
           if n > length ptr then None
           else Some (take (n - skip) (drop skip ptr),
                      if n \<ge> length ptr - 1 then (None, True) else (Some (drop (n + 1) ptr), False))))"

definition tbx_stk_escape_strchr :: "char \<Rightarrow> string \<Rightarrow> char \<Rightarrow> nat" where
  "tbx_stk_escape_strchr esc data m = token_len [m] esc data"

subsection \<open>Escaping\<close>

definition escape_count :: "string \<Rightarrow> char \<Rightarrow> string \<Rightarrow> nat" where
  "escape_count special esc data = length (filter (\<lambda>c. c = esc \<or> c \<in> set special) data)"

text \<open>The copy loop; \<open>out\<close> is what has been written and \<open>size\<close> the allocation, a failing \<^verbatim>\<open>FATAL_UNLESS\<close> is \<open>None\<close>.\<close>

fun escape_loop :: "string \<Rightarrow> char \<Rightarrow> nat \<Rightarrow> string \<Rightarrow> string \<Rightarrow> string option" where
  "escape_loop special esc n [] out = (if length out < n then Some out else None)"
| "escape_loop special esc n (c # cs) out =
     (let special_c = (c = esc \<or> c \<in> set special) in
      if special_c \<and> \<not> length out < n then None
      else (let out = (if special_c then out @ [esc] else out) in
            if length out < n then escape_loop special esc n cs (out @ [c]) else None))"

definition tbx_stk_escape_text :: "string \<Rightarrow> char \<Rightarrow> string \<Rightarrow> string option" where
  "tbx_stk_escape_text special esc data =
     escape_loop special esc (length data + escape_count special esc data + 1) data []"

fun tbx_stk_unescape_text :: "char \<Rightarrow> string \<Rightarrow> string" where
  "tbx_stk_unescape_text esc [] = []"
| "tbx_stk_unescape_text esc (c # cs) =
     (if c = esc then (case cs of [] \<Rightarrow> [] | d # ds \<Rightarrow> d # tbx_stk_unescape_text esc ds)
      else c # tbx_stk_unescape_text esc cs)"

text \<open>The substitution of \<^verbatim>\<open>argv2format\<close>: the text written by the loop and the final value of \<^verbatim>\<open>sub\<close>.\<close>

definition fmt_special :: "char \<Rightarrow> char option" where
  "fmt_special c = map_of [(CHR ''a'', CHR 0x07), (CHR ''b'', CHR 0x08), (CHR ''f'', CHR 0x0C), (CHR ''n'', CHR 0x0A),
     (CHR ''r'', CHR 0x0D), (CHR ''t'', CHR 0x09), (CHR ''v'', CHR 0x0B), (CHR 0x5C, CHR 0x5C)] c"

fun format_loop :: "string \<Rightarrow> bool \<Rightarrow> string \<times> bool" where
  "format_loop (c # d # cs) sub =
     (case (if c = CHR 0x5C then fmt_special d else None) of
        Some r \<Rightarrow> (let (out, sub) = format_loop cs True in (r # out, sub))
      | None \<Rightarrow> (let (out, sub) = format_loop (d # cs) False in (c # out, sub)))"
| "format_loop xs sub = ([], sub)"

definition tbx_stk_argv2format :: "string \<Rightarrow> string" where
  "tbx_stk_argv2format arg =
     (if length arg < 2 then arg
      else (let (out, sub) = format_loop arg False in if \<not> sub then out @ [last arg] else out))"

subsection \<open>Numbers with a scale\<close>

definition split_token_into_number_and_scale :: "string \<Rightarrow> string \<times> int" where
  "split_token_into_number_and_scale token =
     (if token = [] then (token, 1)
      else
        (let i = (last token = CHR ''I'' \<or> last token = CHR ''i'');
             base = (if i then 1024 else 1000);
             token = (if i then butlast token else token) in
         if token = [] then (token, base)
         else if last token = CHR ''b'' then (butlast token, 1)
         else if last token \<in> {CHR ''K'', CHR ''k''} then (butlast token, base)
         else if last token \<in> {CHR ''M'', CHR ''m''} then (butlast token, base * base)
         else if last token \<in> {CHR ''G'', CHR ''g''} then (butlast token, base * base * base)
         else if last token \<in> {CHR ''T'', CHR ''t''} then (butlast token, base * base * base * base)
         else (token, 1)))"

text \<open>\<^verbatim>\<open>strncpy\<close> into 100 bytes leaves no terminator for longer strings.\<close>

definition tbx_stk_string_get_integer :: "string \<Rightarrow> int option" where
  "tbx_stk_string_get_integer v =
     (if length v \<ge> 100 then None
      else
        (let (string, scale) = split_token_into_number_and_scale v in
         case sscanf_d int64_ok string of
           Some (Some n) \<Rightarrow> if int64_ok (scale * n) then Some (scale * n) else None
         | _ \<Rightarrow> None))"

text \<open>The scaling loop \<^verbatim>\<open>for (i=0; i<7; i++)\<close>; the division is exact.\<close>

function scale_loop :: "int \<Rightarrow> int \<Rightarrow> nat \<Rightarrow> int \<times> nat" where
  "scale_loop base n i = (if i < 7 then (if \<bar>n\<bar> mod base \<noteq> 0 then (n, i) else scale_loop base (n div base) (i + 1)) else (n, i))"
  by pat_completeness auto
termination by (relation "measure (\<lambda>(_, _, i). 7 - i)") auto

declare scale_loop.simps [simp del]

text \<open>The character \<^verbatim>\<open>unit[i]\<close>; the zero bytes at both ends of the array end the printed string.\<close>

definition unit_char :: "nat \<Rightarrow> char option" where
  "unit_char i = (if 1 \<le> i \<and> i \<le> 6 then Some (''KMGTPE'' ! (i - 1)) else None)"

definition tbx_stk_pretty_print_int_with_scale :: "int \<Rightarrow> string option" where
  "tbx_stk_pretty_print_int_with_scale v =
     (let base = (if v smod 1000 = 0 then 1000 else if v smod 1024 = 0 then 1024 else 1) in
      if base = 1 then Some (fmt_d v)
      else if v = - (2 ^ 63) then None
      else (let (n, i) = scale_loop base v 0 in
            Some (case unit_char i of
                    None \<Rightarrow> fmt_d n
                  | Some u \<Rightarrow> fmt_d n @ [u] @ (if base = 1024 \<and> i \<noteq> 0 then ''i'' else '' ''))))"

subsection \<open>Time intervals\<close>

text \<open>The factor of a unit of time, \<open>None\<close> for an unknown unit.\<close>

definition time_unit :: "char \<Rightarrow> int option" where
  "time_unit c =
     (if c \<in> {CHR ''D'', CHR ''d''} then Some (apr_time_from_sec (24 * 3600))
      else if c \<in> {CHR ''H'', CHR ''h''} then Some (apr_time_from_sec 3600)
      else if c \<in> {CHR ''M'', CHR ''m''} then Some (apr_time_from_sec 60)
      else if c \<in> {CHR ''S'', CHR ''s''} then Some (apr_time_from_sec 1)
      else if c \<in> {CHR ''U'', CHR ''u''} then Some 1
      else None)"

text \<open>\<^verbatim>\<open>sscanf (string+j, "%d", &t)\<close>: a failure to match leaves \<open>t\<close> as it was, unset at first.\<close>

definition scan_t :: "string \<Rightarrow> int option \<Rightarrow> int option option" where
  "scan_t s t = (case sscanf_d int32_ok s of None \<Rightarrow> None | Some None \<Rightarrow> Some t | Some (Some n) \<Rightarrow> Some (Some n))"

definition add_time :: "int \<Rightarrow> int option \<Rightarrow> int \<Rightarrow> int option" where
  "add_time dt t k =
     (case t of None \<Rightarrow> None | Some t \<Rightarrow> if int64_ok (t * k) \<and> int64_ok (dt + t * k) then Some (dt + t * k) else None)"

text \<open>The loop; \<open>cur\<close> are the characters from \<open>j\<close> to \<open>i\<close>.\<close>

fun time_loop :: "string \<Rightarrow> string \<Rightarrow> int option \<Rightarrow> int \<Rightarrow> int option" where
  "time_loop [] cur t dt = (if cur = [] then Some dt else do { t \<leftarrow> scan_t cur t; add_time dt t 1 })"
| "time_loop (c # cs) cur t dt =
     (if isdigit c then time_loop cs (cur @ [c]) t dt
      else do {
        t \<leftarrow> scan_t cur t;
        (case time_unit c of
           None \<Rightarrow> Some 0
         | Some k \<Rightarrow> do { dt \<leftarrow> add_time dt t k; time_loop cs [] t dt })
      })"

definition tbx_stk_string_get_time :: "string \<Rightarrow> int option" where
  "tbx_stk_string_get_time v = (if length v \<ge> 100 then None else time_loop v [] None 0)"

definition tbx_stk_pretty_print_time :: "int \<Rightarrow> bool \<Rightarrow> string" where
  "tbx_stk_pretty_print_time dt use_days =
     (let secs = dt sdiv 1000000;
          hours = to_int (secs sdiv 3600);
          min = to_int ((secs sdiv 60) smod 60);
          sec = to_int (secs smod 60);
          usec = to_int (dt smod apr_time_from_sec 1) in
      (if use_days then fmt_d (hours sdiv 24) @ ''d'' @ fmt_0d 2 (hours smod 24) else fmt_d hours) @ ''h'' @
      fmt_0d 2 min @ ''m'' @ fmt_0d 2 sec @ ''s'' @ fmt_0d 6 usec @ ''u'')"

subsection \<open>Trimming\<close>

text \<open>A string without a character other than a blank makes the backward loop leave the string.\<close>

definition tbx_stk_string_trim :: "string \<Rightarrow> string option" where
  "tbx_stk_string_trim str =
     (let start = dropWhile (\<lambda>c. c = CHR '' '') str in
      if start = [] then None else Some (rev (dropWhile (\<lambda>c. c = CHR '' '') (rev start))))"

section \<open>Escaping and tokens\<close>

text \<open>The text with every special character escaped.\<close>

definition escaped :: "string \<Rightarrow> char \<Rightarrow> string \<Rightarrow> string" where
  "escaped special esc data = concat (map (\<lambda>c. if c = esc \<or> c \<in> set special then [esc, c] else [c]) data)"

lemma escaped_simps [simp]:
  "escaped special esc [] = []"
  "escaped special esc (c # cs) = (if c = esc \<or> c \<in> set special then [esc, c] else [c]) @ escaped special esc cs"
  by (simp_all add: escaped_def)

lemma escape_loop_fits:
  "length out + length data + escape_count special esc data < n \<Longrightarrow>
     escape_loop special esc n data out = Some (out @ escaped special esc data)"
  by (induction data arbitrary: out) (auto simp: escape_count_def Let_def)

lemma escape_text_escaped [simp]: "tbx_stk_escape_text special esc data = Some (escaped special esc data)"
  unfolding tbx_stk_escape_text_def by (subst escape_loop_fits) simp_all

lemma unescape_escaped [simp]: "tbx_stk_unescape_text esc (escaped special esc data) = data"
  by (induction data) auto

lemma token_len_escaped:
  "set delims \<subseteq> set special \<Longrightarrow> esc \<notin> set delims \<Longrightarrow>
     token_len delims esc (escaped special esc w @ rest) = length (escaped special esc w) + token_len delims esc rest"
  by (induction w) auto

text \<open>The first token of a string that starts with an escaped field.\<close>

lemma token_field:
  assumes "set delims \<subseteq> set special" "esc \<notin> set delims" "d \<in> set delims" "rest \<noteq> []"
  shows "tbx_stk_escape_string_token (Some (escaped special esc w @ d # rest)) delims esc False lst =
           Some (escaped special esc w, Some rest, False)"
  using assms by (cases rest) (auto simp: tbx_stk_escape_string_token_def token_len_escaped Let_def)

lemma token_last:
  assumes "set delims \<subseteq> set special" "esc \<notin> set delims"
  shows "tbx_stk_escape_string_token (Some (escaped special esc w)) delims esc False lst =
           Some (escaped special esc w, None, True)"
  using assms token_len_escaped [of delims special esc w "[]"]
  by (auto simp: tbx_stk_escape_string_token_def Let_def)

lemma escaped_plain: "esc \<notin> set w \<Longrightarrow> set w \<inter> set special = {} \<Longrightarrow> escaped special esc w = w"
  by (induction w) auto

text \<open>The scan for a delimiter passes over a string, whatever follows it.\<close>

definition skips :: "string \<Rightarrow> char \<Rightarrow> string \<Rightarrow> bool" where
  "skips delims esc s \<longleftrightarrow> (\<forall>rest. token_len delims esc (s @ rest) = length s + token_len delims esc rest)"

lemma skips_append: "skips delims esc a \<Longrightarrow> skips delims esc b \<Longrightarrow> skips delims esc (a @ b)"
  by (simp add: skips_def)

lemma skips_plain: "esc \<notin> set s \<Longrightarrow> set s \<inter> set delims = {} \<Longrightarrow> skips delims esc s"
  unfolding skips_def by (induction s) auto

lemma skips_escaped: "set delims \<inter> set w \<subseteq> set special \<Longrightarrow> esc \<notin> set delims \<Longrightarrow> skips delims esc (escaped special esc w)"
  unfolding skips_def by (induction w) auto

lemma skips_number:
  assumes "\<not> isdigit d" "d \<noteq> CHR ''-''"
  shows "skips [d] (CHR 0x5C) (fmt_d n)"
proof (rule skips_plain)
  have "\<not> isdigit (CHR 0x5C)" by (simp add: isdigit_def)
  then show "CHR 0x5C \<notin> set (fmt_d n)" "set (fmt_d n) \<inter> set [d] = {}" using fmt_d_chars assms by auto
qed

lemma skips_token:
  assumes "skips delims esc s"
  shows "d \<in> set delims \<Longrightarrow> rest \<noteq> [] \<Longrightarrow>
           tbx_stk_escape_string_token None delims esc False (Some (s @ d # rest)) = Some (s, Some rest, False)"
    and "tbx_stk_escape_string_token None delims esc False (Some s) = Some (s, None, True)"
proof -
  have "token_len delims esc (s @ d # rest) = length s" if "d \<in> set delims" using assms that by (simp add: skips_def)
  then show "d \<in> set delims \<Longrightarrow> rest \<noteq> [] \<Longrightarrow>
      tbx_stk_escape_string_token None delims esc False (Some (s @ d # rest)) = Some (s, Some rest, False)"
    by (cases rest) (auto simp: tbx_stk_escape_string_token_def Let_def)
  have "token_len delims esc (s @ []) = length s" using assms unfolding skips_def by (metis add_0_right token_len.simps(1))
  then show "tbx_stk_escape_string_token None delims esc False (Some s) = Some (s, None, True)"
    by (simp add: tbx_stk_escape_string_token_def Let_def)
qed

section \<open>Format strings\<close>

fun fmt_spec :: "string \<Rightarrow> string" where
  "fmt_spec (c # d # cs) =
     (case (if c = CHR 0x5C then fmt_special d else None) of
        Some r \<Rightarrow> r # fmt_spec cs
      | None \<Rightarrow> c # fmt_spec (d # cs))"
| "fmt_spec xs = xs"

lemma format_loop_spec:
  assumes "format_loop xs sub = (out, sub')" "xs \<noteq> []"
  shows "(\<not> sub' \<longrightarrow> out @ [last xs] = fmt_spec xs) \<and>
         (sub' \<longrightarrow> out = fmt_spec xs \<or> (\<exists>w d x. xs = w @ [CHR 0x5C, d, x]) \<or> sub \<and> length xs = 1)"
  using assms
proof (induction xs sub arbitrary: out sub' rule: format_loop.induct)
  case (1 c d cs sub)
  show ?case
  proof (cases "if c = CHR 0x5C then fmt_special d else None")
    case None
    obtain o1 where o1: "format_loop (d # cs) False = (o1, sub')" "out = c # o1"
      using 1(3) None by (auto split: prod.splits)
    show ?thesis using 1(1) [OF None o1(1)] o1(2) None by (auto simp: Cons_eq_append_conv split: if_splits)
  next
    case (Some r)
    then have c: "c = CHR 0x5C" by (simp split: if_splits)
    obtain o1 where o1: "format_loop cs True = (o1, sub')" "out = r # o1"
      using 1(3) Some by (auto split: prod.splits)
    show ?thesis
    proof (cases cs)
      case Nil
      then show ?thesis using o1 Some by auto
    next
      case (Cons e es)
      then show ?thesis using 1(2) [OF Some o1(1)] o1(2) Some c
        by (auto simp: Cons_eq_append_conv split: if_splits)
    qed
  qed
qed auto

lemma format_loop_plain:
  assumes "fmt_special d = Some r"
  shows "CHR 0x5C \<notin> set w \<Longrightarrow> format_loop (w @ [CHR 0x5C, d, x]) sub = (w @ [r], True)"
proof (induction w arbitrary: sub)
  case (Cons c w)
  then show ?case using assms by (cases w) auto
qed (use assms in auto)

section \<open>Numbers\<close>

lemma fmt_u_length: "n < 10 ^ k \<Longrightarrow> 0 < k \<Longrightarrow> length (fmt_u n) \<le> k"
proof (induction n arbitrary: k rule: fmt_u.induct)
  case (1 n)
  show ?case
  proof (cases "n < 10")
    case True
    then show ?thesis using 1(3) by (subst fmt_u.simps) simp
  next
    case False
    then obtain j where k: "k = Suc j" "0 < j" using 1(2) by (cases k; cases "k - 1") auto
    then have "n div 10 < 10 ^ j" using 1(2) by (simp add: less_mult_imp_div_less mult.commute)
    then have "length (fmt_u (n div 10)) \<le> j" using 1(1) [OF False] k(2) by blast
    then show ?thesis using False k(1) by (subst fmt_u.simps) simp
  qed
qed

lemma fmt_d_length:
  assumes "int64_ok n"
  shows "length (fmt_d n) \<le> 20"
proof -
  have "nat \<bar>n\<bar> < 10 ^ 19" using assms by (simp add: int64_ok_def abs_le_iff) linarith
  then have "length (fmt_u (nat \<bar>n\<bar>)) \<le> 19" by (rule fmt_u_length) simp
  then show ?thesis by (auto simp: fmt_d_def)
qed

lemma last_fmt_d: "isdigit (last (fmt_d n))"
  using fmt_u_digits [of "last (fmt_u (nat n))" "nat n"] fmt_u_digits [of "last (fmt_u (nat (- n)))" "nat (- n)"]
  by (auto simp: fmt_d_def)

lemma scale_loop_value:
  assumes "scale_loop base v i = (n, j)" "i \<le> 7" "0 < base"
  shows "i \<le> j \<and> j \<le> 7 \<and> v = n * base ^ (j - i) \<and> (j < 7 \<longrightarrow> \<bar>n\<bar> mod base \<noteq> 0)"
  using assms
proof (induction base v i rule: scale_loop.induct)
  case (1 base v i)
  show ?case
  proof (cases "i < 7 \<and> \<bar>v\<bar> mod base = 0")
    case True
    then have "scale_loop base (v div base) (i + 1) = (n, j)" using 1(2) by (simp add: scale_loop.simps [of base v i])
    then have ih: "i + 1 \<le> j \<and> j \<le> 7 \<and> v div base = n * base ^ (j - (i + 1)) \<and> (j < 7 \<longrightarrow> \<bar>n\<bar> mod base \<noteq> 0)"
      using 1(1) True 1(4) by simp
    have "base dvd v" using True by (simp add: dvd_eq_mod_eq_0 [symmetric])
    then have "v = (v div base) * base" by simp
    also have "\<dots> = n * (base ^ (j - (i + 1)) * base)" using ih by simp
    also have "base ^ (j - (i + 1)) * base = base ^ (j - i)"
      using ih by (metis Suc_diff_Suc Suc_eq_plus1 less_eq_Suc_le power_Suc2)
    finally show ?thesis using ih by linarith
  next
    case False
    then have "n = v \<and> j = i" using 1(2) by (auto simp: scale_loop.simps [of base v i] split: if_splits)
    then show ?thesis using False 1(3) by auto
  qed
qed

lemma smod_eq_0_iff: "(a::int) smod b = 0 \<longleftrightarrow> b dvd a"
  by (auto simp: smod_int_alt_def sgn_eq_0_iff dvd_eq_mod_eq_0 [symmetric])

lemma get_number:
  assumes "split_token_into_number_and_scale s = (fmt_d n @ rest, k)" "length s < 100" "rest = [] \<or> \<not> isdigit (hd rest)"
    and "int64_ok n" "int64_ok (k * n)"
  shows "tbx_stk_string_get_integer s = Some (k * n)"
  using assms by (simp add: tbx_stk_string_get_integer_def sscanf_fmt_d)

lemma scale_not_digit: "isdigit c \<Longrightarrow> c \<notin> set ''Iib KkMmGgTtPE''"
  by (auto simp: isdigit_def)

lemma get_plain:
  assumes "int64_ok n"
  shows "tbx_stk_string_get_integer (fmt_d n) = Some n"
proof -
  have "split_token_into_number_and_scale (fmt_d n) = (fmt_d n @ [], 1)"
    using scale_not_digit [OF last_fmt_d [of n]] by (simp add: split_token_into_number_and_scale_def Let_def)
  then show ?thesis using get_number [of "fmt_d n" n "[]" 1] fmt_d_length [OF assms] assms by simp
qed

lemma unit_chars: "unit_char j = Some u \<Longrightarrow> \<not> isdigit u \<and> 1 \<le> j \<and> j \<le> 6 \<and> u = ''KMGTPE'' ! (j - 1)"
proof (cases "1 \<le> j \<and> j \<le> 6")
  case True
  then consider "j = 1" | "j = 2" | "j = 3" | "j = 4" | "j = 5" | "j = 6" by linarith
  then show "unit_char j = Some u \<Longrightarrow> \<not> isdigit u \<and> 1 \<le> j \<and> j \<le> 6 \<and> u = ''KMGTPE'' ! (j - 1)"
    by cases (auto simp: unit_char_def isdigit_def)
qed (auto simp: unit_char_def)

lemma unit_not_digit: "unit_char j = Some u \<Longrightarrow> \<not> isdigit u"
  using unit_chars by blast

lemma get_blank:
  assumes "int64_ok n" "unit_char j = Some u"
  shows "tbx_stk_string_get_integer (fmt_d n @ [u] @ '' '') = Some n"
proof -
  have "split_token_into_number_and_scale (fmt_d n @ [u] @ '' '') = (fmt_d n @ [u] @ '' '', 1)"
    by (simp add: split_token_into_number_and_scale_def Let_def)
  then show ?thesis
    using get_number [of "fmt_d n @ [u] @ '' ''" n "[u] @ '' ''" 1] fmt_d_length [OF assms(1)] assms(1) unit_not_digit [OF assms(2)] by simp
qed

lemma split_binary:
  assumes "unit_char j = Some u"
  shows "split_token_into_number_and_scale (fmt_d n @ [u] @ ''i'') = (if j \<le> 4 then (fmt_d n, 1024 ^ j) else (fmt_d n @ [u], 1))"
proof -
  have u: "u = ''KMGTPE'' ! (j - 1)" and "1 \<le> j" "j \<le> 6" using unit_chars [OF assms] by blast+
  then have "j = 1 \<or> j = 2 \<or> j = 3 \<or> j = 4 \<or> j = 5 \<or> j = 6" by linarith
  then show ?thesis unfolding u
    by (elim disjE) (simp_all add: split_token_into_number_and_scale_def Let_def butlast_append eval_nat_numeral)
qed

lemma get_binary:
  assumes "int64_ok n" "unit_char j = Some u" "int64_ok (1024 ^ j * n)"
  shows "tbx_stk_string_get_integer (fmt_d n @ [u] @ ''i'') = Some (if j \<le> 4 then 1024 ^ j * n else n)"
proof (cases "j \<le> 4")
  case True
  then show ?thesis
    using get_number [of "fmt_d n @ [u] @ ''i''" n "[]" "1024 ^ j"] fmt_d_length [OF assms(1)] assms split_binary [OF assms(2), of n] by simp
next
  case False
  then show ?thesis
    using get_number [of "fmt_d n @ [u] @ ''i''" n "[u]" 1] fmt_d_length [OF assms(1)] assms(1) split_binary [OF assms(2), of n]
      unit_not_digit [OF assms(2)] by simp
qed

text \<open>The scaling of a number: the quotient fits and the unit exists.\<close>

lemma scaled:
  assumes "int64_ok v" "v \<noteq> 0" "base dvd v" "base = 1000 \<or> base = 1024"
  obtains n j u where "scale_loop base v 0 = (n, j)" "unit_char j = Some u" "v = n * base ^ j" "int64_ok n" "\<not> base dvd n" "n \<noteq> v"
proof -
  obtain n j where nj: "scale_loop base v 0 = (n, j)" by fastforce
  have b: "1000 \<le> base" using assms(4) by auto
  have v: "j \<le> 7" "v = n * base ^ j" "j < 7 \<longrightarrow> \<bar>n\<bar> mod base \<noteq> 0"
    using scale_loop_value [OF nj] b by auto
  have n0: "1 \<le> \<bar>n\<bar>" using v(2) assms(2) by auto
  have pos: "1 \<le> base ^ j" using b by simp
  have "\<bar>v\<bar> = \<bar>n\<bar> * base ^ j" using v(2) b by (simp add: abs_mult)
  then have le: "base ^ j \<le> \<bar>v\<bar>" using mult_right_mono [OF n0, of "base ^ j"] pos by simp
  have "j < 7"
  proof (rule ccontr)
    assume "\<not> j < 7"
    then have "j = 7" using v(1) by simp
    moreover have "(1000::int) ^ 7 \<le> base ^ 7" using b by (intro power_mono) auto
    ultimately show False using le assms(1) by (simp add: int64_ok_def abs_le_iff) linarith
  qed
  then have nd: "\<not> base dvd n" using v(3) by (simp add: dvd_eq_mod_eq_0 [symmetric])
  then have j: "j \<noteq> 0" using v(2) assms(3) by (cases j) auto
  have bj: "base ^ 1 \<le> base ^ j" using b j by (intro power_increasing) auto
  then have "\<bar>n\<bar> * 1000 \<le> \<bar>n\<bar> * base ^ j" using b by (intro mult_left_mono) auto
  then have "int64_ok n" using v(2) b assms(1) by (auto simp: int64_ok_def abs_mult)
  moreover have "n \<noteq> v" using v(2) n0 b bj by auto
  ultimately show thesis using that [OF nj _ v(2) _ nd] \<open>j < 7\<close> j by (auto simp: unit_char_def)
qed

section \<open>Time intervals\<close>

lemma time_loop_digits:
  "(\<And>c. c \<in> set ds \<Longrightarrow> isdigit c) \<Longrightarrow> time_loop (ds @ rest) cur t dt = time_loop rest (cur @ ds) t dt"
  by (induction ds arbitrary: cur) auto

lemma digit_not_unit: "isdigit u \<Longrightarrow> u \<notin> set ''DdHhMmSsUu''"
  by (auto simp: isdigit_def)

lemma unit_not_digit_time: "time_unit u = Some k \<Longrightarrow> \<not> isdigit u"
  using digit_not_unit [of u] by (cases "isdigit u") (simp_all add: time_unit_def)

text \<open>A number with its unit adds its value.\<close>

lemma time_loop_field:
  assumes "ds \<noteq> []" "\<And>c. c \<in> set ds \<Longrightarrow> isdigit c" "int (dec_value ds) < 2 ^ 31" "time_unit u = Some k"
    and "0 \<le> dt" "0 < k" "dt + int (dec_value ds) * k < 2 ^ 63"
  shows "time_loop (ds @ u # rest) [] t dt = time_loop rest [] (Some (int (dec_value ds))) (dt + int (dec_value ds) * k)"
proof -
  have "\<not> isdigit u" using unit_not_digit_time [OF assms(4)] .
  moreover have "scan_t ds t = Some (Some (int (dec_value ds)))"
    using sscanf_digits [of ds "[]" int32_ok, OF assms(1,2)] assms(3) by (simp add: scan_t_def int32_ok_def)
  moreover have "0 \<le> int (dec_value ds) * k" using assms(6) by simp
  then have "add_time dt (Some (int (dec_value ds))) k = Some (dt + int (dec_value ds) * k)"
    using assms(5,7) by (simp add: add_time_def int64_ok_def)
  moreover have "time_loop (ds @ u # rest) [] t dt = time_loop (u # rest) ds t dt"
    using time_loop_digits [of ds "u # rest" "[]" t dt] assms(2) by simp
  ultimately show ?thesis using assms(4) by simp
qed

lemma time_field_d:
  assumes "0 \<le> n" "n < 2 ^ 31" "time_unit u = Some k" "0 \<le> dt" "0 < k" "dt + n * k < 2 ^ 63"
  shows "time_loop (fmt_d n @ u # rest) [] t dt = time_loop rest [] (Some n) (dt + n * k)"
  using time_loop_field [of "fmt_u (nat n)" u k dt rest t] fmt_u_digits assms by (simp add: fmt_d_def)

lemma time_field_0d:
  assumes "0 \<le> n" "n < 2 ^ 31" "time_unit u = Some k" "0 \<le> dt" "0 < k" "dt + n * k < 2 ^ 63"
  shows "time_loop (fmt_0d w n @ u # rest) [] t dt = time_loop rest [] (Some n) (dt + n * k)"
  using time_loop_field [of "pad_u w (nat n)" u k dt rest t] pad_u_digits assms by (simp add: fmt_0d_def)

lemma pad_u_length: "n < 10 ^ w \<Longrightarrow> 0 < w \<Longrightarrow> length (pad_u w n) = w"
  using fmt_u_length [of n w] by (simp add: pad_u_def)

text \<open>The fields of a printed time for a time that is not negative.\<close>

lemma sdiv_smod_nonneg: "0 \<le> (a::int) \<Longrightarrow> 0 < b \<Longrightarrow> a sdiv b = a div b \<and> a smod b = a mod b"
  by (cases "a = 0") (simp_all add: signed_divide_int_def smod_int_alt_def)

lemma time_units [simp]:
  "time_unit (CHR ''d'') = Some 86400000000" "time_unit (CHR ''h'') = Some 3600000000" "time_unit (CHR ''m'') = Some 60000000"
  "time_unit (CHR ''s'') = Some 1000000" "time_unit (CHR ''u'') = Some 1"
  by (simp_all add: time_unit_def apr_time_from_sec_def)

lemma time_split:
  fixes dt :: int
  assumes "0 \<le> dt" "dt div 3600000000 < 2 ^ 31"
  obtains h m s u where "0 \<le> h" "h < 2 ^ 31" "0 \<le> m" "m < 60" "0 \<le> s" "s < 60" "0 \<le> u" "u < 1000000"
    "h * 3600000000 + m * 60000000 + s * 1000000 + u = dt"
    "tbx_stk_pretty_print_time dt d =
      (if d then fmt_d (h div 24) @ ''d'' @ fmt_0d 2 (h mod 24) else fmt_d h) @ ''h'' @ fmt_0d 2 m @ ''m'' @ fmt_0d 2 s @ ''s'' @ fmt_0d 6 u @ ''u''"
proof -
  define q where "q = dt div 1000000"
  have h: "q div 3600 < 2 ^ 31" using assms(2) by (simp add: q_def zdiv_zmult2_eq [symmetric])
  have q: "0 \<le> q" using assms(1) by (simp add: q_def)
  have "q div 3600 = q div 60 div 60" by (simp add: zdiv_zmult2_eq [symmetric])
  then have "q div 3600 * 3600 + q div 60 mod 60 * 60 + q mod 60 = q"
    using div_mult_mod_eq [of "q div 60" 60] div_mult_mod_eq [of q 60] by linarith
  moreover have "q * 1000000 + dt mod 1000000 = dt" unfolding q_def by (rule div_mult_mod_eq)
  ultimately have sum: "q div 3600 * 3600000000 + q div 60 mod 60 * 60000000 + q mod 60 * 1000000 + dt mod 1000000 = dt" by linarith
  have printed: "tbx_stk_pretty_print_time dt d =
      (if d then fmt_d (q div 3600 div 24) @ ''d'' @ fmt_0d 2 (q div 3600 mod 24) else fmt_d (q div 3600)) @ ''h'' @
      fmt_0d 2 (q div 60 mod 60) @ ''m'' @ fmt_0d 2 (q mod 60) @ ''s'' @ fmt_0d 6 (dt mod 1000000) @ ''u''"
  proof -
    have "to_int (q div 3600) = q div 3600" "to_int (q div 60 mod 60) = q div 60 mod 60" "to_int (q mod 60) = q mod 60"
      "to_int (dt mod 1000000) = dt mod 1000000"
      using h q pos_mod_bound [of 60 "q div 60"] pos_mod_bound [of 60 q] pos_mod_bound [of 1000000 dt] by (auto intro!: to_int_id)
    moreover have "dt sdiv 1000000 = q" "q sdiv 3600 = q div 3600" "(q sdiv 60) smod 60 = q div 60 mod 60" "q smod 60 = q mod 60"
      "dt smod 1000000 = dt mod 1000000" "(q div 3600) sdiv 24 = q div 3600 div 24" "(q div 3600) smod 24 = q div 3600 mod 24"
      using q assms(1) by (simp_all add: sdiv_smod_nonneg q_def)
    ultimately show ?thesis by (simp add: tbx_stk_pretty_print_time_def Let_def apr_time_from_sec_def)
  qed
  have h0: "0 \<le> q div 3600" using q by (simp add: pos_imp_zdiv_nonneg_iff)
  show thesis by (rule that [OF h0 h _ _ _ _ _ _ sum printed]) (simp_all only: pos_mod_bound pos_mod_sign zero_less_numeral)
qed

lemma fmt_d_short: "0 \<le> n \<Longrightarrow> n < 2 ^ 31 \<Longrightarrow> length (fmt_d n) \<le> 20"
  by (rule fmt_d_length) (simp add: int64_ok_def)

lemma fmt_0d_length: "0 \<le> n \<Longrightarrow> n < 10 ^ w \<Longrightarrow> 0 < w \<Longrightarrow> length (fmt_0d w n) = w"
  using pad_u_length [of "nat n" w] by (simp add: fmt_0d_def nat_less_iff)

lemma binary_unit_dvd:
  assumes "\<not> 1024 dvd (n::int)"
  shows "2 ^ 50 dvd n * 1024 ^ j \<longleftrightarrow> \<not> j \<le> 4"
proof (cases "j \<le> 4")
  case True
  have "(2::int) ^ 50 = 1024 ^ (5 - j) * 1024 ^ j" using True by (simp flip: power_add)
  then have "2 ^ 50 dvd n * 1024 ^ j \<longleftrightarrow> 1024 ^ (5 - j) dvd n" by (simp only: dvd_mult_cancel_right) simp
  moreover have "(1024::int) dvd 1024 ^ (5 - j)" using True by simp
  ultimately show ?thesis using assms True dvd_trans by blast
next
  case False
  then have "(1024::int) ^ 5 dvd 1024 ^ j" by (intro le_imp_power_dvd) simp
  then show ?thesis using False by simp
qed

section \<open>Properties\<close>

text \<open>
  C28: escaping a text never runs out of its buffer, and unescaping gives the text back.  When the delimiters are among
  the special characters, a string that starts with an escaped field followed by a delimiter gives exactly this field
  as its first token and the rest of the string as what remains, and an escaped field alone is a single token.
\<close>

theorem escape_token_roundtrip:
  assumes "set delims \<subseteq> set special" "esc \<notin> set delims" "d \<in> set delims" "rest \<noteq> []"
  shows "\<exists>e. tbx_stk_escape_text special esc w = Some e \<and> tbx_stk_unescape_text esc e = w \<and>
           tbx_stk_escape_string_token (Some (e @ d # rest)) delims esc False lst = Some (e, Some rest, False) \<and>
           tbx_stk_escape_string_token (Some e) delims esc False lst = Some (e, None, True)"
  using token_field [OF assms] token_last [OF assms(1,2)] by simp

theorem escape_token_roundtrip_witness:
  "\<exists>e. tbx_stk_escape_text '':'' (CHR ''!'') ''a:b'' = Some e \<and> tbx_stk_unescape_text (CHR ''!'') e = ''a:b'' \<and>
     tbx_stk_escape_string_token (Some (e @ '':c'')) '':'' (CHR ''!'') False None = Some (e, Some ''c'', False) \<and>
     tbx_stk_escape_string_token (Some e) '':'' (CHR ''!'') False None = Some (e, None, True)"
  using escape_token_roundtrip [of "'':''" "'':''" "CHR ''!''" "CHR '':''" "''c''" "''a:b''" None] by simp

text \<open>
  A format string is translated as the C escape sequences say, unless a backslash is its third character from the
  end.
\<close>

lemma argv2format_correct:
  assumes "\<nexists>w d x. arg = w @ [CHR 0x5C, d, x]"
  shows "tbx_stk_argv2format arg = fmt_spec arg"
proof (cases "length arg < 2")
  case True
  then show ?thesis by (cases arg) (auto simp: tbx_stk_argv2format_def less_Suc_eq)
next
  case False
  then have "arg \<noteq> []" by auto
  obtain out sub where "format_loop arg False = (out, sub)" by fastforce
  with format_loop_spec [OF this \<open>arg \<noteq> []\<close>] False assms show ?thesis by (cases sub) (auto simp: tbx_stk_argv2format_def)
qed

lemma argv2format_correct_witness:
  "tbx_stk_argv2format [CHR ''a'', CHR 0x5C, CHR ''n''] = [CHR ''a'', CHR 0x0A]"
proof -
  have "\<nexists>w d x. [CHR ''a'', CHR 0x5C, CHR ''n''] = w @ [CHR 0x5C, d, x]"
    by (auto simp: Cons_eq_append_conv)
  from argv2format_correct [OF this] show ?thesis by (simp add: fmt_special_def)
qed

text \<open>
  An escape sequence just before the last character makes \<^verbatim>\<open>argv2format\<close> drop the last character.
\<close>

lemma argv2format_drops_last:
  assumes "CHR 0x5C \<notin> set w" "fmt_special d = Some r"
  shows "tbx_stk_argv2format (w @ [CHR 0x5C, d, x]) = w @ [r]"
  using format_loop_plain [OF assms(2,1)] by (simp add: tbx_stk_argv2format_def)

text \<open>
  An integer that is printed with its scale is read back exactly if it is zero, or neither a multiple of 1000 nor
  of \<open>2^50\<close>.  (The printer ends the decimal units with a blank that the reader takes for no unit, and the reader does
  not know the units P and E.)
\<close>

lemma pretty_int_roundtrip:
  assumes "int64_ok v" "v \<noteq> - (2 ^ 63)"
  shows "\<exists>s. tbx_stk_pretty_print_int_with_scale v = Some s \<and>
           (tbx_stk_string_get_integer s = Some v \<longleftrightarrow> v = 0 \<or> \<not> 1000 dvd v \<and> \<not> 2 ^ 50 dvd v)"
proof -
  consider "v = 0" | "v \<noteq> 0" "1000 dvd v" | "\<not> 1000 dvd v" "1024 dvd v" | "\<not> 1000 dvd v" "\<not> 1024 dvd v" by blast
  then show ?thesis
  proof cases
    case 1
    have "tbx_stk_pretty_print_int_with_scale 0 = Some (fmt_d 0)"
      by (simp add: tbx_stk_pretty_print_int_with_scale_def scale_loop.simps unit_char_def)
    then show ?thesis using 1 get_plain [of 0] by (simp add: int64_ok_def)
  next
    case 2
    then obtain n j u where n: "scale_loop 1000 v 0 = (n, j)" "unit_char j = Some u" "int64_ok n" "n \<noteq> v"
      using scaled [OF assms(1), of 1000] by metis
    then have "tbx_stk_pretty_print_int_with_scale v = Some (fmt_d n @ [u] @ '' '')"
      using 2 assms(2) by (simp add: tbx_stk_pretty_print_int_with_scale_def smod_eq_0_iff)
    then show ?thesis using get_blank [OF n(3,2)] 2 n(4) by simp
  next
    case 3
    then obtain n j u where n: "scale_loop 1024 v 0 = (n, j)" "unit_char j = Some u" "v = n * 1024 ^ j" "int64_ok n" "\<not> 1024 dvd n" "n \<noteq> v"
      using scaled [OF assms(1), of 1024] by (metis dvd_0_right)
    have j: "j \<noteq> 0" using unit_chars [OF n(2)] by auto
    then have "tbx_stk_pretty_print_int_with_scale v = Some (fmt_d n @ [u] @ ''i'')"
      using 3 n assms(2) by (simp add: tbx_stk_pretty_print_int_with_scale_def smod_eq_0_iff)
    moreover have "2 ^ 50 dvd v \<longleftrightarrow> \<not> j \<le> 4" using binary_unit_dvd [OF n(5), of j] n(3) by simp
    ultimately show ?thesis using get_binary [OF n(4,2)] 3 n(3,6) assms(1) by (auto simp: mult.commute)
  next
    case 4
    then have "tbx_stk_pretty_print_int_with_scale v = Some (fmt_d v)"
      by (simp add: tbx_stk_pretty_print_int_with_scale_def smod_eq_0_iff)
    moreover have "\<not> 2 ^ 50 dvd v" using 4(2) by (auto elim!: dvd_trans [rotated])
    ultimately show ?thesis using get_plain [OF assms(1)] 4 by simp
  qed
qed

lemma pretty_int_roundtrip_witness:
  "(\<exists>s. tbx_stk_pretty_print_int_with_scale 5242880 = Some s \<and> tbx_stk_string_get_integer s = Some 5242880) \<and>
   (\<exists>s. tbx_stk_pretty_print_int_with_scale 5000 = Some s \<and> tbx_stk_string_get_integer s \<noteq> Some 5000)"
  using pretty_int_roundtrip [of 5242880] pretty_int_roundtrip [of 5000] by (simp add: int64_ok_def)

text \<open>
  A time interval of at most \<open>2^31 - 1\<close> hours that is printed, with or without days, is read back exactly.
\<close>

lemma pretty_time_roundtrip:
  assumes "0 \<le> dt" "dt div 3600000000 < 2 ^ 31"
  shows "tbx_stk_string_get_time (tbx_stk_pretty_print_time dt d) = Some dt"
proof -
  obtain h m s u where r: "0 \<le> h" "h < 2 ^ 31" "0 \<le> m" "m < 60" "0 \<le> s" "s < 60" "0 \<le> u" "u < 1000000"
    and sum: "h * 3600000000 + m * 60000000 + s * 1000000 + u = dt"
    and p: "tbx_stk_pretty_print_time dt d =
      (if d then fmt_d (h div 24) @ ''d'' @ fmt_0d 2 (h mod 24) else fmt_d h) @ ''h'' @ fmt_0d 2 m @ ''m'' @ fmt_0d 2 s @ ''s'' @ fmt_0d 6 u @ ''u''"
    using time_split [OF assms] by metis
  have dh: "0 \<le> h div 24" "h div 24 < 2 ^ 31" "0 \<le> h mod 24" "h mod 24 < 100" using r(1,2) by auto
  have days: "h div 24 * 86400000000 + h mod 24 * 3600000000 = h * 3600000000" using div_mult_mod_eq [of h 24] by linarith
  have "time_loop (tbx_stk_pretty_print_time dt d) [] None 0 = Some dt"
    unfolding p using r dh days sum by (cases d) (simp_all add: time_field_d time_field_0d)
  moreover have "length (tbx_stk_pretty_print_time dt d) < 100"
    unfolding p using fmt_d_short [OF r(1,2)] fmt_d_short [OF dh(1,2)] r dh by (simp add: fmt_0d_length)
  ultimately show ?thesis by (simp add: tbx_stk_string_get_time_def)
qed

lemma pretty_time_roundtrip_witness:
  "tbx_stk_string_get_time (tbx_stk_pretty_print_time 98765432109876 True) = Some 98765432109876"
  by (rule pretty_time_roundtrip) simp_all

text \<open>
  Trimming removes exactly the blanks at both ends of a string that has another character; on a string of blanks,
  and on the empty string, the backward scan leaves the string.
\<close>

lemma string_trim_correct:
  assumes "s = replicate a (CHR '' '') @ t @ replicate b (CHR '' '')" "t \<noteq> []" "hd t \<noteq> CHR '' ''" "last t \<noteq> CHR '' ''"
  shows "tbx_stk_string_trim s = Some t \<and> tbx_stk_string_trim (replicate a (CHR '' '')) = None"
proof -
  have blank: "dropWhile (\<lambda>c. c = CHR '' '') (replicate k (CHR '' '') @ xs) = xs" if "xs = [] \<or> hd xs \<noteq> CHR '' ''" for k xs
    using that by (induction k) (cases xs; simp)+
  have "dropWhile (\<lambda>c. c = CHR '' '') s = t @ replicate b (CHR '' '')" using assms blank [of "t @ _" a] by simp
  moreover have "dropWhile (\<lambda>c. c = CHR '' '') (rev (t @ replicate b (CHR '' ''))) = rev t"
    using blank [of "rev t" b] assms(2,4) by (simp add: hd_rev)
  ultimately show ?thesis using assms(2) blank [of "[]" a] by (simp add: tbx_stk_string_trim_def)
qed

end
