(* ===== verification/Rs_Query.thy ===== *)
theory Rs_Query
  imports Rs_Simple String_Token
begin

text \<open>
  The textual form of a resource query: \<^verbatim>\<open>rs_query_base_print\<close> and \<^verbatim>\<open>rs_query_base_parse\<close> of \<^verbatim>\<open>lio/rs/query_base.c\<close>.
  A query is printed as the type of the resource service and then its elements, separated by semicolons, each with
  its five fields separated by colons.
\<close>

section \<open>The code\<close>

definition query_bufsize :: nat where
  "query_bufsize = 10 * 1024"

definition print_ele :: "lio_rsq_base_ele_t \<Rightarrow> string option" where
  "print_ele q = do {
     ekey \<leftarrow> tbx_stk_escape_text '':'' (CHR 0x5C) (str_or_empty (q_key q));
     eval \<leftarrow> tbx_stk_escape_text '':'' (CHR 0x5C) (str_or_empty (q_val q));
     Some (fmt_d (q_op q) @ '':'' @ ekey @ '':'' @ fmt_d (q_key_op q) @ '':'' @ eval @ '':'' @ fmt_d (q_val_op q))
   }"

fun print_loop :: "lio_rsq_base_ele_t list \<Rightarrow> string \<Rightarrow> nat \<Rightarrow> (string \<times> nat) option" where
  "print_loop [] buffer used = Some (buffer, used)"
| "print_loop (q # qs) buffer used = do {
     text \<leftarrow> print_ele q;
     let (_, buffer, used) = tbx_append_printf buffer used query_bufsize text;
     let (buffer, used) = (if qs \<noteq> [] then snd (tbx_append_printf buffer used query_bufsize '';'') else (buffer, used));
     print_loop qs buffer used
   }"

text \<open>\<open>Some None\<close> is NULL.\<close>

definition rs_query_base_print :: "string \<Rightarrow> lio_rsq_base_t option \<Rightarrow> string option option" where
  "rs_query_base_print rs_type query =
     (case query of
        None \<Rightarrow> Some None
      | Some query \<Rightarrow>
          (let (_, buffer, used) = tbx_append_printf [] 0 query_bufsize (rs_type @ '':'') in
           map_option (Some \<circ> fst) (print_loop (eles query) buffer used)))"

text \<open>One field: \<^verbatim>\<open>escape_string_token (NULL, ":", '\', 0, &tstate, &fin)\<close>.\<close>

definition next_field :: "string option \<Rightarrow> (string \<times> string option) option" where
  "next_field tstate = map_option (\<lambda>(t, l, _). (t, l)) (tbx_stk_escape_string_token None '':'' (CHR 0x5C) False tstate)"

definition parse_ele :: "string option \<Rightarrow> lio_rsq_base_ele_t option" where
  "parse_ele tstate = do {
     (t1, tstate) \<leftarrow> next_field tstate; q_op \<leftarrow> atoi t1;
     (t2, tstate) \<leftarrow> next_field tstate;
     (t3, tstate) \<leftarrow> next_field tstate; key_op \<leftarrow> atoi t3;
     (t4, tstate) \<leftarrow> next_field tstate;
     (t5, tstate) \<leftarrow> next_field tstate; val_op \<leftarrow> atoi t5;
     Some \<lparr>q_op = q_op, q_key = Some (tbx_stk_unescape_text (CHR 0x5C) t2), q_val = Some (tbx_stk_unescape_text (CHR 0x5C) t4),
           q_key_op = key_op, q_val_op = val_op\<rparr>
   }"

definition next_ele :: "string option \<Rightarrow> (string \<times> string option) option" where
  "next_ele bstate = map_option (\<lambda>(t, l, _). (t, l)) (tbx_stk_escape_string_token None '';'' (CHR 0x5C) False bstate)"

definition left :: "string option \<Rightarrow> nat" where
  "left bstate = (case bstate of None \<Rightarrow> 0 | Some s \<Rightarrow> Suc (length s))"

lemma next_ele_left: "next_ele bstate = Some (t, l) \<Longrightarrow> t \<noteq> [] \<Longrightarrow> left l < left bstate"
  by (auto simp: next_ele_def tbx_stk_escape_string_token_def left_def Let_def split: option.splits if_splits)

text \<open>The \<^verbatim>\<open>do ... while\<close> loop over the elements.\<close>

function parse_loop :: "string option \<Rightarrow> string option \<Rightarrow> lio_rsq_base_ele_t list option" where
  "parse_loop tstate bstate = do {
     q \<leftarrow> parse_ele tstate;
     (token, bstate) \<leftarrow> next_ele bstate;
     (if token = [] then Some [q] else map_option (\<lambda>qs. q # qs) (parse_loop (Some token) bstate))
   }"
  by pat_completeness auto
termination
  by (relation "measure (\<lambda>(_, b). left b)") (auto dest: next_ele_left)

declare parse_loop.simps [simp del]

definition rs_query_base_parse :: "string \<Rightarrow> lio_rsq_base_t option" where
  "rs_query_base_parse qstring = do {
     (token, bstate) \<leftarrow> next_ele (Some qstring);
     (_, tstate) \<leftarrow> next_field (Some token);
     qs \<leftarrow> parse_loop tstate bstate;
     Some \<lparr>eles = qs, tail = At (length qs - 1)\<rparr>
   }"

section \<open>Round trip\<close>

text \<open>The text of an element, and what can be recovered of it: a missing key or value becomes an empty one.\<close>

abbreviation esc_field :: "string option \<Rightarrow> string" where
  "esc_field s \<equiv> escaped '':'' (CHR 0x5C) (str_or_empty s)"

definition ele_text :: "lio_rsq_base_ele_t \<Rightarrow> string" where
  "ele_text q = fmt_d (q_op q) @ '':'' @ esc_field (q_key q) @ '':'' @ fmt_d (q_key_op q) @ '':'' @ esc_field (q_val q) @ '':'' @ fmt_d (q_val_op q)"

definition normalised :: "lio_rsq_base_ele_t \<Rightarrow> lio_rsq_base_ele_t" where
  "normalised q = q\<lparr>q_key := Some (str_or_empty (q_key q)), q_val := Some (str_or_empty (q_val q))\<rparr>"

definition printable_ele :: "lio_rsq_base_ele_t \<Rightarrow> bool" where
  "printable_ele q \<longleftrightarrow> int32_ok (q_op q) \<and> int32_ok (q_key_op q) \<and> int32_ok (q_val_op q) \<and>
     CHR '';'' \<notin> set (str_or_empty (q_key q)) \<and> CHR '';'' \<notin> set (str_or_empty (q_val q))"

fun eles_text :: "lio_rsq_base_ele_t list \<Rightarrow> string" where
  "eles_text [] = []"
| "eles_text [q] = ele_text q"
| "eles_text (q # qs) = ele_text q @ '';'' @ eles_text qs"

lemma print_ele_text: "print_ele q = Some (ele_text q)"
  by (simp add: print_ele_def ele_text_def)

lemma print_loop_text:
  "length buf + length (eles_text qs) < query_bufsize \<Longrightarrow>
     print_loop qs buf (length buf) = Some (buf @ eles_text qs, length (buf @ eles_text qs))"
proof (induction qs arbitrary: buf rule: eles_text.induct)
  case (2 q)
  then show ?case by (simp add: print_ele_text append_printf_fits)
next
  case (3 q q' qs)
  have fits: "length buf + length (ele_text q) < query_bufsize" "length (buf @ ele_text q) + length '';'' < query_bufsize"
    "length (buf @ ele_text q @ '';'') + length (eles_text (q' # qs)) < query_bufsize"
    using 3(2) by simp_all
  have "tbx_append_printf buf (length buf) query_bufsize (ele_text q) =
      (int (length (ele_text q)), buf @ ele_text q, length (buf @ ele_text q))"
    by (rule append_printf_fits [OF fits(1)])
  moreover have "tbx_append_printf (buf @ ele_text q) (length (buf @ ele_text q)) query_bufsize '';'' =
      (int (length '';''), (buf @ ele_text q) @ '';'', length ((buf @ ele_text q) @ '';''))"
    by (rule append_printf_fits [OF fits(2)])
  ultimately have "print_loop (q # q' # qs) buf (length buf) =
      print_loop (q' # qs) (buf @ ele_text q @ '';'') (length (buf @ ele_text q @ '';''))"
    by (subst print_loop.simps) (simp add: print_ele_text)
  then show ?case using 3(1) [OF fits(3)] by simp
qed simp

lemma next_field_simps:
  "skips '':'' (CHR 0x5C) s \<Longrightarrow> rest \<noteq> [] \<Longrightarrow> next_field (Some (s @ CHR '':'' # rest)) = Some (s, Some rest)"
  "skips '':'' (CHR 0x5C) s \<Longrightarrow> next_field (Some s) = Some (s, None)"
  by (simp_all add: next_field_def skips_token)

lemma next_ele_simps:
  "skips '';'' (CHR 0x5C) s \<Longrightarrow> rest \<noteq> [] \<Longrightarrow> next_ele (Some (s @ CHR '';'' # rest)) = Some (s, Some rest)"
  "skips '';'' (CHR 0x5C) s \<Longrightarrow> next_ele (Some s) = Some (s, None)"
  by (simp_all add: next_ele_def skips_token)

lemma next_None: "next_ele None = Some ([], None)" "next_field None = Some ([], None)"
  by (simp_all add: next_ele_def next_field_def tbx_stk_escape_string_token_def)

lemma parse_ele_text:
  assumes "printable_ele q"
  shows "parse_ele (Some (ele_text q)) = Some (normalised q)"
proof -
  have n: "skips '':'' (CHR 0x5C) (fmt_d n)" for n by (rule skips_number) (simp_all add: isdigit_def)
  have f: "skips '':'' (CHR 0x5C) (esc_field s)" for s by (rule skips_escaped) auto
  show ?thesis
    using assms by (simp add: parse_ele_def ele_text_def next_field_simps n f printable_ele_def normalised_def)
qed

lemma skips_ele_text:
  assumes "printable_ele q"
  shows "skips '';'' (CHR 0x5C) (ele_text q)"
proof -
  have n: "skips '';'' (CHR 0x5C) (fmt_d n)" for n by (rule skips_number) (simp_all add: isdigit_def)
  have c: "skips '';'' (CHR 0x5C) '':''" by (rule skips_plain) auto
  have "skips '';'' (CHR 0x5C) (esc_field (q_key q))" "skips '';'' (CHR 0x5C) (esc_field (q_val q))"
    using assms by (auto intro!: skips_escaped simp: printable_ele_def)
  then show ?thesis unfolding ele_text_def by (intro skips_append n c)
qed

lemma ele_text_not_Nil: "ele_text q \<noteq> []"
  by (simp add: ele_text_def)

lemma eles_text_not_Nil: "qs \<noteq> [] \<Longrightarrow> eles_text qs \<noteq> []"
  by (induction qs rule: eles_text.induct) (auto simp: ele_text_not_Nil)

text \<open>The loop over the elements; the first element has already been cut off.\<close>

lemma parse_loop_text:
  "(\<And>p. p \<in> set (q # qs) \<Longrightarrow> printable_ele p) \<Longrightarrow>
     parse_loop (Some (ele_text q)) (if qs = [] then None else Some (eles_text qs)) = Some (map normalised (q # qs))"
proof (induction qs arbitrary: q)
  case Nil
  then show ?case by (simp add: parse_loop.simps [of "Some (ele_text q)"] parse_ele_text next_None)
next
  case (Cons p qs)
  have "next_ele (Some (eles_text (p # qs))) = Some (ele_text p, if qs = [] then None else Some (eles_text qs))"
    using Cons.prems skips_ele_text [of p] by (cases qs) (simp_all add: next_ele_simps eles_text_not_Nil)
  then show ?case
    using Cons.prems Cons.IH [of p]
    by (simp add: parse_loop.simps [of "Some (ele_text q)"] parse_ele_text ele_text_not_Nil)
qed

section \<open>Properties\<close>

text \<open>
  C21: a query with at least one element whose keys and values have no semicolon, and whose text fits into the buffer,
  is printed and parsed back to the same query, with an empty string for each missing key or value.
\<close>

theorem query_print_parse:
  assumes "eles query \<noteq> []" "\<forall>q \<in> set (eles query). printable_ele q"
    and "set rs_type \<inter> set [CHR '':'', CHR '';'', CHR 0x5C] = {}"
    and "length rs_type + 1 + length (eles_text (eles query)) < query_bufsize"
  shows "\<exists>s. rs_query_base_print rs_type (Some query) = Some (Some s) \<and>
           rs_query_base_parse s = Some \<lparr>eles = map normalised (eles query), tail = At (length (eles query) - 1)\<rparr>"
proof -
  obtain q qs where q: "eles query = q # qs" using assms(1) by (cases "eles query") auto
  have "tbx_append_printf [] 0 query_bufsize (rs_type @ '':'') =
      (int (length (rs_type @ '':'')), rs_type @ '':'', length (rs_type @ '':''))"
    using append_printf_fits [of "[]" "rs_type @ '':''" query_bufsize] assms(4) by simp
  then have p: "rs_query_base_print rs_type (Some query) = Some (Some (rs_type @ '':'' @ eles_text (eles query)))"
    using print_loop_text [of "rs_type @ '':''" "eles query"] assms(4) by (simp add: rs_query_base_print_def)
  have t: "skips '':'' (CHR 0x5C) rs_type" "skips '';'' (CHR 0x5C) rs_type" "skips '';'' (CHR 0x5C) '':''"
    using assms(3) by (auto intro!: skips_plain)
  have "skips '';'' (CHR 0x5C) (rs_type @ '':'' @ ele_text q)"
    using assms(2) q by (intro skips_append t skips_ele_text) simp
  then have "next_ele (Some (rs_type @ '':'' @ eles_text (q # qs))) =
      Some (rs_type @ '':'' @ ele_text q, if qs = [] then None else Some (eles_text qs))"
    using next_ele_simps(1) [of "rs_type @ '':'' @ ele_text q" "eles_text qs"] next_ele_simps(2)
    by (cases qs) (simp_all add: eles_text_not_Nil)
  moreover have "next_field (Some (rs_type @ '':'' @ ele_text q)) = Some (rs_type, Some (ele_text q))"
    using next_field_simps(1) [OF t(1) ele_text_not_Nil] by simp
  moreover have "parse_loop (Some (ele_text q)) (if qs = [] then None else Some (eles_text qs)) = Some (map normalised (q # qs))"
    using assms(2) q by (intro parse_loop_text) auto
  ultimately have "rs_query_base_parse (rs_type @ '':'' @ eles_text (q # qs)) =
      Some \<lparr>eles = map normalised (q # qs), tail = At (length (q # qs) - 1)\<rparr>"
    by (simp add: rs_query_base_parse_def)
  then show ?thesis using p q by auto
qed

theorem query_print_parse_witness:
  "\<exists>s. rs_query_base_print ''simple'' (Some \<lparr>eles = [demo_unique, and_ele], tail = At 1\<rparr>) = Some (Some s) \<and>
     rs_query_base_parse s = Some \<lparr>eles = map normalised [demo_unique, and_ele], tail = At 1\<rparr>"
proof -
  have e: "length (eles_text [demo_unique, and_ele]) < 100" by code_simp
  have ok: "printable_ele demo_unique" "printable_ele and_ele" by code_simp+
  show ?thesis
    using query_print_parse [of "\<lparr>eles = [demo_unique, and_ele], tail = At 1\<rparr>" "''simple''"] e ok
    by (simp add: query_bufsize_def)
qed

text \<open>
  The text of the empty query is parsed to a query with one element, of the unknown operation 0.
\<close>

lemma query_empty_not_parsed:
  assumes "set rs_type \<inter> set [CHR '':'', CHR '';'', CHR 0x5C] = {}" "length rs_type + 1 < query_bufsize"
  shows "\<exists>s. rs_query_base_print rs_type (Some rs_query_base_new) = Some (Some s) \<and>
           rs_query_base_parse s =
             Some \<lparr>eles = [\<lparr>q_op = 0, q_key = Some [], q_val = Some [], q_key_op = 0, q_val_op = 0\<rparr>], tail = At 0\<rparr>"
proof -
  have "tbx_append_printf [] 0 query_bufsize (rs_type @ '':'') =
      (int (length (rs_type @ '':'')), rs_type @ '':'', length (rs_type @ '':''))"
    using append_printf_fits [of "[]" "rs_type @ '':''" query_bufsize] assms(2) by simp
  then have p: "rs_query_base_print rs_type (Some rs_query_base_new) = Some (Some (rs_type @ '':''))"
    by (simp add: rs_query_base_print_def rs_query_base_new_def)
  have "skips '';'' (CHR 0x5C) (rs_type @ '':'')" "skips '':'' (CHR 0x5C) rs_type"
    using assms(1) by (auto intro!: skips_plain)
  then have "next_ele (Some (rs_type @ '':'')) = Some (rs_type @ '':'', None)"
    "token_len '':'' (CHR 0x5C) (rs_type @ '':'') = length rs_type"
    by (simp_all add: next_ele_simps skips_def)
  moreover have "next_field (Some (rs_type @ '':'')) = Some (rs_type, None)"
    using calculation(2) by (simp add: next_field_def tbx_stk_escape_string_token_def)
  ultimately have "rs_query_base_parse (rs_type @ '':'') =
      Some \<lparr>eles = [\<lparr>q_op = 0, q_key = Some [], q_val = Some [], q_key_op = 0, q_val_op = 0\<rparr>], tail = At 0\<rparr>"
    by (simp add: rs_query_base_parse_def parse_loop.simps next_None parse_ele_def)
  then show ?thesis using p by blast
qed

lemma query_empty_not_parsed_witness:
  "\<exists>s. rs_query_base_print ''simple'' (Some rs_query_base_new) = Some (Some s) \<and>
     rs_query_base_parse s = Some \<lparr>eles = [\<lparr>q_op = 0, q_key = Some [], q_val = Some [], q_key_op = 0, q_val_op = 0\<rparr>], tail = At 0\<rparr>"
  by (rule query_empty_not_parsed) (simp_all add: query_bufsize_def)

end
