(* ===== verification/Range_String.thy ===== *)
theory Range_String
  imports Range_Stack String_Token
begin

text \<open>
  The textual form of a list of byte ranges: \<^verbatim>\<open>tbx_range_stack_range2string\<close> and \<^verbatim>\<open>tbx_range_stack_string2range\<close> of
  \<^verbatim>\<open>toolbox/range_stack.c\<close>.  Each range is printed as its two bounds with a colon between them and the delimiter after
  them.
\<close>

section \<open>The code\<close>

function print_ranges :: "rmem \<Rightarrow> string \<Rightarrow> nat \<Rightarrow> nat cstack \<Rightarrow> string \<Rightarrow> nat \<Rightarrow> string" where
  "print_ranges m delim bufsize st buf used =
     (case cs_data st of
        None \<Rightarrow> buf
      | Some r \<Rightarrow>
          (let (_, buf, used) = tbx_append_printf buf used bufsize (fmt_d (fst (m r)) @ '':'' @ fmt_d (snd (m r)) @ delim) in
           print_ranges m delim bufsize (snd (cs_down st)) buf used))"
  by pat_completeness auto
termination
  by (relation "measure (\<lambda>(m, delim, n, st, buf, used). cursor_left st)") auto

declare print_ranges.simps [simp del]

text \<open>
  \<open>Some None\<close> is NULL; an empty list gives a buffer of no bytes, into which a terminator is written.  The cursor is put
  back in the end.
\<close>

definition tbx_range_stack_range2string :: "rmem \<Rightarrow> nat cstack option \<Rightarrow> string \<Rightarrow> string option option" where
  "tbx_range_stack_range2string m st delim =
     (case st of
        None \<Rightarrow> Some None
      | Some st \<Rightarrow>
          (let bufsize = length (items st) * (2 * 20 + 2) in
           if bufsize = 0 then None else Some (Some (print_ranges m delim bufsize (cs_first st) [] 0))))"

abbreviation range_token :: "string \<Rightarrow> string option \<Rightarrow> (string \<times> string option \<times> bool) option" where
  "range_token delims lst \<equiv> tbx_stk_escape_string_token None delims (CHR 0x5C) False lst"

lemma range_token_left:
  "range_token delims (Some s) = Some (t, Some s', f) \<Longrightarrow> length s' < length s"
  by (auto simp: tbx_stk_escape_string_token_def Let_def split: if_splits)

text \<open>
  The \<^verbatim>\<open>do ... while (fin == 0)\<close> loop; \<open>s\<close> is what the next token is cut from, \<open>n\<close> the next free address for an array.
\<close>

function parse_ranges :: "string \<Rightarrow> rmem \<Rightarrow> nat cstack option \<Rightarrow> nat \<Rightarrow> string \<Rightarrow> (rmem \<times> nat cstack option) option" where
  "parse_ranges delim m st n s =
     (case range_token '':'' (Some s) of
        None \<Rightarrow> None
      | Some (t1, lst, _) \<Rightarrow>
          (case sscanf_d int64_ok t1 of
             None \<Rightarrow> None
           | Some None \<Rightarrow> Some (m, st)
           | Some (Some lo) \<Rightarrow>
               (case lst of
                  None \<Rightarrow> Some (m, st)
                | Some s1 \<Rightarrow>
                    (case range_token delim (Some s1) of
                       None \<Rightarrow> None
                     | Some (t2, lst, fin) \<Rightarrow>
                         (case sscanf_d int64_ok t2 of
                            None \<Rightarrow> None
                          | Some None \<Rightarrow> Some (m, st)
                          | Some (Some hi) \<Rightarrow>
                              (case tbx_range_stack_merge2 m st n lo hi of
                                 None \<Rightarrow> None
                               | Some (m, st) \<Rightarrow>
                                   (case lst of
                                      None \<Rightarrow> Some (m, Some st)
                                    | Some s2 \<Rightarrow> if fin then Some (m, Some st) else parse_ranges delim m (Some st) (Suc n) s2)))))))"
  by pat_completeness auto
termination
  by (relation "measure (\<lambda>(_, _, _, _, s). length s)") (auto dest!: range_token_left)

declare parse_ranges.simps [simp del]

definition tbx_range_stack_string2range :: "rmem \<Rightarrow> nat \<Rightarrow> string option \<Rightarrow> string \<Rightarrow> (rmem \<times> nat cstack option) option" where
  "tbx_range_stack_string2range m n string delim =
     (case string of None \<Rightarrow> Some (m, None) | Some s \<Rightarrow> parse_ranges delim m None n s)"

section \<open>Round trip\<close>

definition range_text :: "char \<Rightarrow> int \<times> int \<Rightarrow> string" where
  "range_text d r = fmt_d (fst r) @ '':'' @ fmt_d (snd r) @ [d]"

definition ranges_text :: "char \<Rightarrow> (int \<times> int) list \<Rightarrow> string" where
  "ranges_text d rs = concat (map (range_text d) rs)"

definition good_delim :: "char \<Rightarrow> bool" where
  "good_delim d \<longleftrightarrow> \<not> isdigit d \<and> d \<notin> set ''-:'' \<and> d \<noteq> CHR 0x5C"

lemma print_ranges_text:
  assumes "at_split xs ys st" "length buf + length (ranges_text d (map m ys)) < bufsize"
  shows "print_ranges m [d] bufsize st buf (length buf) = buf @ ranges_text d (map m ys)"
  using assms
proof (induction ys arbitrary: xs st buf)
  case Nil
  then show ?case by (simp add: print_ranges.simps at_split_data ranges_text_def)
next
  case (Cons y ys)
  have "print_ranges m [d] bufsize st buf (length buf) =
      print_ranges m [d] bufsize (snd (cs_down st)) (buf @ range_text d (m y)) (length (buf @ range_text d (m y)))"
    using Cons.prems append_printf_fits [of buf "range_text d (m y)" bufsize]
    by (simp add: print_ranges.simps [of m "[d]" bufsize st] at_split_data ranges_text_def range_text_def)
  also have "\<dots> = (buf @ range_text d (m y)) @ ranges_text d (map m ys)"
    by (rule Cons.IH [OF at_split_down [OF Cons.prems(1)]]) (use Cons.prems(2) in \<open>simp add: ranges_text_def\<close>)
  finally show ?case by (simp add: ranges_text_def)
qed

lemma range_text_length:
  assumes "0 \<le> fst r" "fst r \<le> snd r" "small_rng r"
  shows "length (range_text d r) < 42"
proof -
  have "length (fmt_d n) \<le> 19" if "0 \<le> n" "n < 2 ^ 63" for n
  proof -
    have "nat n < 10 ^ 19" using that by (simp add: nat_less_iff)
    then have "length (fmt_u (nat n)) \<le> 19" by (rule fmt_u_length) simp
    then show ?thesis using that by (simp add: fmt_d_def)
  qed
  from this [of "fst r"] this [of "snd r"] show ?thesis using assms by (simp add: range_text_def small_rng_def)
qed

lemma ranges_text_length:
  "rs \<noteq> [] \<Longrightarrow> \<forall>r \<in> set rs. 0 \<le> fst r \<and> fst r \<le> snd r \<and> small_rng r \<Longrightarrow> length (ranges_text d rs) < length rs * 42"
proof (induction rs)
  case (Cons r rs)
  have "length (range_text d r) < 42" using Cons.prems by (intro range_text_length) auto
  then show ?case using Cons by (cases "rs = []") (auto simp: ranges_text_def)
qed simp

text \<open>One round of the parser.\<close>

lemma parse_range_step:
  assumes "good_delim d" "int64_ok lo" "int64_ok hi" "tbx_range_stack_merge2 m st n lo hi = Some (m1, st1)"
  shows "parse_ranges [d] m st n (range_text d (lo, hi) @ rest) =
           (if rest = [] then Some (m1, Some st1) else parse_ranges [d] m1 (Some st1) (Suc n) rest)"
proof -
  have d: "\<not> isdigit d" "d \<noteq> CHR ''-''" "d \<noteq> CHR 0x5C" using assms(1) by (auto simp: good_delim_def)
  have s: "skips '':'' (CHR 0x5C) (fmt_d lo)" "skips [d] (CHR 0x5C) (fmt_d hi)"
    using d by (auto intro!: skips_number simp: isdigit_def)
  have n: "sscanf_d int64_ok (fmt_d k) = Some (Some k)" if "int64_ok k" for k
    using sscanf_fmt_d [of "[]" int64_ok k] that by simp
  have t1: "range_token '':'' (Some (fmt_d lo @ CHR '':'' # (fmt_d hi @ d # rest))) = Some (fmt_d lo, Some (fmt_d hi @ d # rest), False)"
    by (rule skips_token(1) [OF s(1)]) simp_all
  have t2: "range_token [d] (Some (fmt_d hi @ d # rest)) = Some (fmt_d hi, if rest = [] then None else Some rest, rest = [])"
  proof (cases "rest = []")
    case True
    have "token_len [d] (CHR 0x5C) (fmt_d hi @ [d]) = length (fmt_d hi)" using s(2) by (simp add: skips_def)
    then show ?thesis using True by (simp add: tbx_stk_escape_string_token_def)
  next
    case False
    then show ?thesis using skips_token(1) [OF s(2), of d rest] by simp
  qed
  show ?thesis
    by (subst parse_ranges.simps) (simp add: range_text_def t1 t2 n assms(2-4))
qed

text \<open>Parsing the text of a list of ranges merges them one after the other.\<close>

lemma parse_ranges_text:
  assumes "good_delim d" "rs \<noteq> []" "\<forall>r \<in> set rs. int64_ok (fst r) \<and> int64_ok (snd r)" "merge_all rs n (m, st) = Some (m1, st1)"
  shows "parse_ranges [d] m (Some st) n (ranges_text d rs) = Some (m1, Some st1)"
  using assms(2-4)
proof (induction rs arbitrary: n m st)
  case (Cons r rs)
  obtain m2 st2 where s: "tbx_range_stack_merge2 m (Some st) n (fst r) (snd r) = Some (m2, st2)" "merge_all rs (Suc n) (m2, st2) = Some (m1, st1)"
    using Cons.prems(3) by (auto simp: bind_Some_iff)
  have "parse_ranges [d] m (Some st) n (ranges_text d (r # rs)) =
      (if ranges_text d rs = [] then Some (m2, Some st2) else parse_ranges [d] m2 (Some st2) (Suc n) (ranges_text d rs))"
    using parse_range_step [OF assms(1) _ _ s(1), of "ranges_text d rs"] Cons.prems(2) by (simp add: ranges_text_def)
  moreover have "ranges_text d rs = [] \<longleftrightarrow> rs = []" by (cases rs) (auto simp: ranges_text_def range_text_def)
  ultimately show ?case using Cons.IH [of "Suc n" m2 st2] Cons.prems(2) s by (cases "rs = []") auto
qed simp

lemma parse_ranges_text_NULL:
  assumes "good_delim d" "rs \<noteq> []" "\<forall>r \<in> set rs. int64_ok (fst r) \<and> int64_ok (snd r)"
    and "merge_all rs n (m, \<lparr>items = [], cursor = None, released = []\<rparr>) = Some (m1, st1)"
  shows "parse_ranges [d] m None n (ranges_text d rs) = Some (m1, Some st1)"
proof -
  obtain r rs' where r: "rs = r # rs'" using assms(2) by (cases rs) auto
  then obtain m2 st2 where s: "tbx_range_stack_merge2 m None n (fst r) (snd r) = Some (m2, st2)" "merge_all rs' (Suc n) (m2, st2) = Some (m1, st1)"
    using assms(4) by (auto simp: bind_Some_iff merge2_NULL)
  have "parse_ranges [d] m None n (ranges_text d (r # rs')) =
      (if ranges_text d rs' = [] then Some (m2, Some st2) else parse_ranges [d] m2 (Some st2) (Suc n) (ranges_text d rs'))"
    using parse_range_step [OF assms(1) _ _ s(1), of "ranges_text d rs'"] assms(3) r by (simp add: ranges_text_def)
  moreover have "ranges_text d rs' = [] \<longleftrightarrow> rs' = []" by (cases rs') (auto simp: ranges_text_def range_text_def)
  ultimately show ?thesis using parse_ranges_text [OF assms(1) _ _ s(2)] assms(3) r s(2) by (cases "rs' = []") auto
qed

section \<open>Properties\<close>

text \<open>
  C26: a well formed list of byte ranges that start at 0 or later, printed with a delimiter of one character that is no
  digit, sign, colon or backslash.  For the empty list printing is undefined, since the buffer has no room for the
  terminator.  For every other list the text fits into its buffer, and parsing it with the same delimiter builds a well
  formed list of the same ranges.
\<close>

theorem range_string_roundtrip:
  assumes "range_stack_ok m st" "\<forall>r \<in> set (ranges m st). 0 \<le> fst r \<and> small_rng r" "good_delim d"
  shows "if items st = [] then tbx_range_stack_range2string m (Some st) [d] = None
         else \<exists>s m' st'. tbx_range_stack_range2string m (Some st) [d] = Some (Some s) \<and> length s < length (items st) * (2 * 20 + 2) \<and>
           tbx_range_stack_string2range m n (Some s) [d] = Some (m', Some st') \<and>
           range_stack_ok m' st' \<and> ranges m' st' = ranges m st"
proof (cases "items st = []")
  case True
  then show ?thesis by (simp add: tbx_range_stack_range2string_def)
next
  case ne: False
  let ?st0 = "\<lparr>items = [], cursor = None, released = []\<rparr>" and ?rs = "ranges m st"
  have some: "items st = map Some (ptrs st)" and ok: "ranges_ok ?rs"
    using range_stack_okD [OF assms(1)] by (simp_all add: ranges_def)
  have rs: "\<forall>r \<in> set ?rs. 0 \<le> fst r \<and> fst r \<le> snd r \<and> small_rng r" "?rs \<noteq> []" "length ?rs = length (items st)"
    using ne assms(2) ranges_ok_member [OF ok] some by (auto simp: ranges_def)
  have "at_split [] (ptrs st) (cs_first st)" using some ne by (auto simp: at_split_def cs_first_def)
  then have p: "tbx_range_stack_range2string m (Some st) [d] = Some (Some (ranges_text d ?rs))"
    using print_ranges_text [of "[]" "ptrs st" "cs_first st" "[]" d m "length (items st) * 42"] ranges_text_length [of ?rs d] rs ne
    by (simp add: tbx_range_stack_range2string_def ranges_def)
  have e: "range_small m ?st0" "\<forall>p \<in> set (ptrs ?st0). p < n" "covered (ranges m ?st0) = {}"
    by (simp_all add: range_small_def range_stack_ok_def ptrs_def ranges_def)
  obtain m1 st1 where 1: "merge_all ?rs n (m, ?st0) = Some (m1, st1)" "range_small m1 st1" "covered (ranges m1 st1) = covered ?rs"
    using merge_all_covers [OF e(1,2), of ?rs] e(3) rs(1) by auto
  have "\<forall>r \<in> set ?rs. int64_ok (fst r) \<and> int64_ok (snd r)" using rs(1) by (auto simp: int64_ok_def small_rng_def)
  then have "tbx_range_stack_string2range m n (Some (ranges_text d ?rs)) [d] = Some (m1, Some st1)"
    using parse_ranges_text_NULL [OF assms(3) rs(2) _ 1(1)] by (simp add: tbx_range_stack_string2range_def)
  moreover have "ranges m1 st1 = ?rs"
    using 1(2,3) ok by (auto simp: range_small_def range_stack_ok_def intro: ranges_ok_unique)
  moreover have "length (ranges_text d ?rs) < length (items st) * (2 * 20 + 2)" using ranges_text_length [OF rs(2,1), of d] rs(3) by simp
  ultimately show ?thesis using p 1(2) ne by (auto simp: range_small_def)
qed

theorem range_string_roundtrip_witness:
  "\<exists>s m' st'. tbx_range_stack_range2string demo_ranges (Some demo_range_stack) '';'' = Some (Some s) \<and>
     tbx_range_stack_string2range demo_ranges 20 (Some s) '';'' = Some (m', Some st') \<and> ranges m' st' = [(100, 200), (300, 400)]"
proof -
  have r: "ranges demo_ranges demo_range_stack = [(100, 200), (300, 400)]" "items demo_range_stack \<noteq> []"
    by (simp_all add: ranges_def ptrs_def demo_ranges_def demo_range_stack_def)
  have "range_stack_ok demo_ranges demo_range_stack" "\<forall>r \<in> set (ranges demo_ranges demo_range_stack). 0 \<le> fst r \<and> small_rng r" "good_delim (CHR '';'')"
    using r by (auto simp: range_stack_ok_def ptrs_def demo_range_stack_def small_rng_def good_delim_def isdigit_def)
  from range_string_roundtrip [OF this, of 20] show ?thesis unfolding r(1) using r(2) by auto
qed

end
