(* ===== verification/Segment.thy ===== *)
theory Segment
  imports Prelude "HOL-Library.Signed_Division"
begin

text \<open>
  The generic operations on segments of \<^verbatim>\<open>lio/segment.c\<close>: copying from a segment to another, from a segment to a file and
  from a file to a segment, with two buffers that take turns.  They use a segment only through its table of functions.
  A segment has a state of its own and may share a world (the allocations of the data service) with other segments.  The
  reads and writes of files are those of \<^verbatim>\<open>toolbox/direct_io.c\<close> at the current position.  \<open>None\<close> is undefined behaviour or
  a loop that does not end.
\<close>

section \<open>The code\<close>

definition OP_STATE_SUCCESS :: int where "OP_STATE_SUCCESS = 10"
definition OP_STATE_FAILURE :: int where "OP_STATE_FAILURE = 20"

type_synonym buffer = "int \<Rightarrow> u8"

text \<open>
  The table of functions of a segment.  A read and a write are on one piece, given by its offset and length, and use the
  start of the buffer; the first component of the results is the state of the operation.
\<close>

record ('s, 'w) lio_segment_vtable_t =
  read_fn :: "'s \<Rightarrow> 'w \<Rightarrow> int \<Rightarrow> int \<Rightarrow> buffer \<Rightarrow> int \<times> 's \<times> buffer"
  write_fn :: "'s \<Rightarrow> 'w \<Rightarrow> int \<Rightarrow> int \<Rightarrow> buffer \<Rightarrow> (int \<times> 's \<times> 'w) option"
  truncate_fn :: "'s \<Rightarrow> 'w \<Rightarrow> int \<Rightarrow> (int \<times> 's \<times> 'w) option"
  block_size_fn :: "'s \<Rightarrow> int"
  size_fn :: "'s \<Rightarrow> int"

record lio_segment_copy_gop_t =
  src_offset :: int
  dest_offset :: int
  copy_len :: int
  bufsize :: int
  do_truncate :: int

definition gop_failure_status :: "int \<times> int" where
  "gop_failure_status = (OP_STATE_FAILURE, 0)"

definition gop_success_status :: "int \<times> int" where
  "gop_success_status = (OP_STATE_SUCCESS, 0)"

function math_gcd :: "int \<Rightarrow> int \<Rightarrow> int" where
  "math_gcd a b = (if a = 0 then b else math_gcd (b smod a) a)"
  by pat_completeness auto
termination
  by (relation "measure (\<lambda>(a, b). nat \<bar>a\<bar>)") (auto simp: signed_modulo_int_def abs_mult sgn_if abs_mod_less)

declare math_gcd.simps [simp del]

definition math_lcm :: "int \<Rightarrow> int \<Rightarrow> int option" where
  "math_lcm a b = (if \<not> int64_ok (a * b) \<or> math_gcd a b = 0 then None else Some ((a * b) sdiv math_gcd a b))"

text \<open>The length of the next piece.\<close>

definition next_len :: "int \<Rightarrow> int \<Rightarrow> int" where
  "next_len nbytes bsize = (if nbytes < 0 then bsize else if nbytes > bsize then bsize else nbytes)"

subsection \<open>From segment to segment\<close>

definition copy_bufsize :: "int \<Rightarrow> int \<Rightarrow> lio_segment_copy_gop_t \<Rightarrow> int option" where
  "copy_bufsize src_block dest_block sc = do {
     block_size \<leftarrow> math_lcm src_block dest_block;
     let tlen = bufsize sc sdiv 2;
     if block_size > tlen \<or> src_offset sc \<noteq> 0 \<or> dest_offset sc \<noteq> 0 then Some tlen
     else if block_size = 0 then None
     else Some (tlen sdiv block_size * block_size)
   }"

text \<open>The write and, if there is more to read, the read that the queue holds; \<open>wfirst\<close> tells which is executed first.\<close>

definition copy_round ::
  "('s, 'w) lio_segment_vtable_t \<Rightarrow> ('d, 'w) lio_segment_vtable_t \<Rightarrow> bool \<Rightarrow> 's \<Rightarrow> 'd \<Rightarrow> 'w \<Rightarrow> int \<Rightarrow> int \<Rightarrow> buffer \<Rightarrow> int \<Rightarrow> int \<Rightarrow> buffer \<Rightarrow>
     (bool \<times> 's \<times> 'd \<times> 'w \<times> buffer) option" where
  "copy_round S D wfirst s d w rpos rlen rbuf wpos wlen wbuf =
     (let rd = (\<lambda>w. if rlen > 0 then read_fn S s w rpos rlen rbuf else (OP_STATE_SUCCESS, s, rbuf)) in
      Option.bind (write_fn D d w wpos wlen wbuf) (\<lambda>(we, d, w').
      case rd (if wfirst then w' else w) of (re, s, rbuf) \<Rightarrow>
        Some (we = OP_STATE_SUCCESS \<and> re = OP_STATE_SUCCESS, s, d, w', rbuf)))"

text \<open>
  The loop.  \<open>rbuf\<close> holds the \<open>rlen\<close> bytes that were read last; the buffers and lengths are swapped first.  \<open>sched\<close> gives the
  order of the operations of each round.  The result has the state of the last round, \<^verbatim>\<open>rpos\<close> and \<^verbatim>\<open>wpos\<close>.
\<close>

partial_function (option) copy_blocks ::
  "('s, 'w) lio_segment_vtable_t \<Rightarrow> ('d, 'w) lio_segment_vtable_t \<Rightarrow> (nat \<Rightarrow> bool) \<Rightarrow> int \<Rightarrow> nat \<Rightarrow> 's \<Rightarrow> 'd \<Rightarrow> 'w \<Rightarrow> buffer \<Rightarrow> buffer \<Rightarrow> int \<Rightarrow> int \<Rightarrow> int \<Rightarrow> int \<Rightarrow>
     ((bool \<times> int \<times> int) \<times> 's \<times> 'd \<times> 'w) option" where
  "copy_blocks S D sched bsize i s d w rbuf wbuf rlen rpos wpos nbytes =
     (let (rbuf, wbuf) = (wbuf, rbuf); wlen = rlen; rlen = next_len nbytes bsize in
      Option.bind (copy_round S D (sched i) s d w rpos rlen rbuf wpos wlen wbuf) (\<lambda>(ok, s, d, w, rbuf).
      let wpos = wpos + wlen; (rpos, nbytes) = (if rlen > 0 then (rpos + rlen, nbytes - rlen) else (rpos, nbytes)) in
      if \<not> ok then Some ((False, rpos, wpos), s, d, w)
      else if rlen > 0 then copy_blocks S D sched bsize (Suc i) s d w rbuf wbuf rlen rpos wpos nbytes
      else Some ((True, rpos, wpos), s, d, w)))"

definition lio_segment_copy_gop_func ::
  "('s, 'w) lio_segment_vtable_t \<Rightarrow> ('d, 'w) lio_segment_vtable_t \<Rightarrow> (nat \<Rightarrow> bool) \<Rightarrow> lio_segment_copy_gop_t \<Rightarrow> 's \<Rightarrow> 'd \<Rightarrow> 'w \<Rightarrow> buffer \<Rightarrow> buffer \<Rightarrow>
     ((int \<times> int) \<times> 's \<times> 'd \<times> 'w) option" where
  "lio_segment_copy_gop_func S D sched sc s d w buf1 buf2 = do {
     bsize \<leftarrow> copy_bufsize (block_size_fn S s) (block_size_fn D d) sc;
     let nbytes = size_fn S s - src_offset sc;
     let rlen = next_len nbytes bsize;
     let nbytes = (if copy_len sc \<noteq> -1 \<and> copy_len sc < nbytes then copy_len sc else nbytes);
     let dend = dest_offset sc + nbytes;
     (_, d, w) \<leftarrow> truncate_fn D d w (- dend);
     let (err, s, rbuf) = read_fn S s w (src_offset sc) rlen buf1;
     if err \<noteq> OP_STATE_SUCCESS then Some (gop_failure_status, s, d, w)
     else do {
       ((ok, rpos, wpos), s, d, w) \<leftarrow>
         copy_blocks S D sched bsize 0 s d w rbuf buf2 rlen (src_offset sc + rlen) (dest_offset sc) (nbytes - rlen);
       if \<not> ok then Some (gop_failure_status, s, d, w)
       else do {
         (d, w) \<leftarrow> (if do_truncate sc = 1 then map_option snd (truncate_fn D d w wpos) else Some (d, w));
         Some ((OP_STATE_SUCCESS, to_int rpos), s, d, w)
       }
     }
   }"

subsection \<open>Files\<close>

text \<open>
  An open file: what the next system calls for reading will have, where \<open>None\<close> is an error and the end of the list is the
  end of the file, the bytes written, and the results of the next system calls for writing, which are complete at the end
  of the list.
\<close>

record file_t =
  fd_in :: "u8 list option list"
  fd_out :: "u8 list"
  fd_results :: "int list"

definition sys_read :: "file_t \<Rightarrow> nat \<Rightarrow> u8 list option \<times> file_t" where
  "sys_read fd n =
     (case fd_in fd of
        [] \<Rightarrow> (Some [], fd)
      | None # cs \<Rightarrow> (None, fd\<lparr>fd_in := cs\<rparr>)
      | Some c # cs \<Rightarrow>
          if length c \<le> n then (Some c, fd\<lparr>fd_in := cs\<rparr>) else (Some (take n c), fd\<lparr>fd_in := Some (drop n c) # cs\<rparr>))"

definition sys_write :: "file_t \<Rightarrow> u8 list \<Rightarrow> int \<times> file_t" where
  "sys_write fd bs =
     (case fd_results fd of
        [] \<Rightarrow> (int (length bs), fd\<lparr>fd_out := fd_out fd @ bs\<rparr>)
      | g # gs \<Rightarrow> (g, fd\<lparr>fd_out := fd_out fd @ take (nat g) bs, fd_results := gs\<rparr>))"

definition tbx_dio_read :: "file_t \<Rightarrow> nat \<Rightarrow> u8 list option \<times> file_t" where
  "tbx_dio_read fd n = (case sys_read fd n of (None, fd) \<Rightarrow> sys_read fd n | (Some c, fd) \<Rightarrow> (Some c, fd))"

definition tbx_dio_write :: "file_t \<Rightarrow> u8 list \<Rightarrow> int \<times> file_t" where
  "tbx_dio_write fd bs = (case sys_write fd bs of (n, fd) \<Rightarrow> if n = -1 then sys_write fd bs else (n, fd))"

definition buf_bytes :: "buffer \<Rightarrow> int \<Rightarrow> u8 list" where
  "buf_bytes b n = map (\<lambda>i. b (int i)) [0..<nat n]"

definition buf_load :: "u8 list \<Rightarrow> buffer \<Rightarrow> buffer" where
  "buf_load c b = (\<lambda>p. if 0 \<le> p \<and> p < int (length c) then c ! nat p else b p)"

text \<open>The lengths of the first and of the other pieces of a transfer to or from a file.\<close>

definition piece_lengths :: "int \<Rightarrow> int \<Rightarrow> int \<Rightarrow> (int \<times> int) option" where
  "piece_lengths block_size off bsize =
     (if block_size = 0 then None
      else
        (let tlen = bsize sdiv 2 sdiv block_size - 1; pplen = block_size - off smod block_size in
         if tlen \<le> 0 then Some (bsize sdiv 2, bsize sdiv 2) else Some (tlen * block_size, tlen * block_size + pplen)))"

subsection \<open>From segment to file\<close>

text \<open>A failed write waits for the read; in the last round this is a read that was waited for and freed before.\<close>

partial_function (option) get_blocks ::
  "('s, 'w) lio_segment_vtable_t \<Rightarrow> int \<Rightarrow> 's \<Rightarrow> 'w \<Rightarrow> file_t \<Rightarrow> buffer \<Rightarrow> buffer \<Rightarrow> int \<Rightarrow> int \<Rightarrow> int \<Rightarrow> ((int \<times> int) \<times> 's \<times> file_t) option" where
  "get_blocks S bsize s w fd rbuf wbuf rlen rpos nbytes =
     (let (rbuf, wbuf) = (wbuf, rbuf); wlen = rlen; rlen = next_len nbytes bsize;
          (err, s, rbuf) = (if rlen > 0 then read_fn S s w rpos rlen rbuf else (OP_STATE_SUCCESS, s, rbuf));
          (rpos, nbytes) = (if rlen > 0 then (rpos + rlen, nbytes - rlen) else (rpos, nbytes));
          (got, fd) = tbx_dio_write fd (buf_bytes wbuf wlen) in
      if wlen \<noteq> got then (if rlen > 0 then Some (gop_failure_status, s, fd) else None)
      else if rlen > 0 \<and> err \<noteq> OP_STATE_SUCCESS then Some (gop_failure_status, s, fd)
      else if rlen > 0 then get_blocks S bsize s w fd rbuf wbuf rlen rpos nbytes
      else Some (gop_success_status, s, fd))"

definition segment_get_gop_func ::
  "('s, 'w) lio_segment_vtable_t \<Rightarrow> lio_segment_copy_gop_t \<Rightarrow> 's \<Rightarrow> 'w \<Rightarrow> file_t \<Rightarrow> buffer \<Rightarrow> buffer \<Rightarrow> ((int \<times> int) \<times> 's \<times> file_t) option" where
  "segment_get_gop_func S sc s w fd buf1 buf2 = do {
     (base_len, initial_len) \<leftarrow> piece_lengths (block_size_fn S s) (src_offset sc) (bufsize sc);
     let nbytes = size_fn S s - src_offset sc;
     let nbytes = (if copy_len sc > 0 \<and> nbytes > copy_len sc then copy_len sc else nbytes);
     let rlen = next_len nbytes initial_len;
     let (err, s, rbuf) = read_fn S s w (src_offset sc) rlen buf1;
     if err \<noteq> OP_STATE_SUCCESS then Some (gop_failure_status, s, fd)
     else get_blocks S base_len s w fd rbuf buf2 rlen (src_offset sc + rlen) (nbytes - rlen)
   }"

subsection \<open>From file to segment\<close>

partial_function (option) put_blocks ::
  "('d, 'w) lio_segment_vtable_t \<Rightarrow> int \<Rightarrow> 'd \<Rightarrow> 'w \<Rightarrow> file_t \<Rightarrow> buffer \<Rightarrow> buffer \<Rightarrow> int \<Rightarrow> int \<Rightarrow> int \<Rightarrow> ((bool \<times> int) \<times> 'd \<times> 'w \<times> file_t) option" where
  "put_blocks D bsize d w fd rbuf wbuf rlen wpos nbytes =
     (let (rbuf, wbuf) = (wbuf, rbuf); wlen = rlen; rlen = next_len nbytes bsize in
      Option.bind (write_fn D d w wpos wlen wbuf) (\<lambda>(err, d, w).
      let wpos = wpos + wlen in
      case (if rlen > 0 then tbx_dio_read fd (nat rlen) else (Some [], fd)) of
        (None, fd) \<Rightarrow> Some ((False, wpos), d, w, fd)
      | (Some c, fd) \<Rightarrow>
          let got = int (length c); nbytes = (if rlen > 0 \<and> nbytes > 0 then nbytes - got else nbytes) in
          if err \<noteq> OP_STATE_SUCCESS then Some ((False, wpos), d, w, fd)
          else if got > 0 \<and> nbytes \<noteq> 0 then put_blocks D bsize d w fd (buf_load c rbuf) wbuf got wpos nbytes
          else Some ((True, wpos), d, w, fd)))"

definition segment_put_gop_func ::
  "('d, 'w) lio_segment_vtable_t \<Rightarrow> lio_segment_copy_gop_t \<Rightarrow> 'd \<Rightarrow> 'w \<Rightarrow> file_t \<Rightarrow> buffer \<Rightarrow> buffer \<Rightarrow> ((int \<times> int) \<times> 'd \<times> 'w \<times> file_t) option" where
  "segment_put_gop_func D sc d w fd buf1 buf2 = do {
     (base_len, initial_len) \<leftarrow> piece_lengths (block_size_fn D d) (dest_offset sc) (bufsize sc);
     let nbytes = copy_len sc;
     (d, w) \<leftarrow> (if nbytes > 0 \<and> do_truncate sc = 1
                then map_option snd (truncate_fn D d w (- (dest_offset sc + nbytes))) else Some (d, w));
     let rlen = next_len nbytes initial_len;
     let nbytes = (if nbytes > 0 then nbytes - rlen else nbytes);
     case tbx_dio_read fd (nat rlen) of
       (None, fd) \<Rightarrow> Some (gop_failure_status, d, w, fd)
     | (Some c, fd) \<Rightarrow> do {
         ((ok, wpos), d, w, fd) \<leftarrow> put_blocks D base_len d w fd (buf_load c buf1) buf2 (int (length c)) (dest_offset sc) nbytes;
         if \<not> ok then Some (gop_failure_status, d, w, fd)
         else do {
           (d, w) \<leftarrow> (if do_truncate sc = 1 then map_option snd (truncate_fn D d w wpos) else Some (d, w));
           Some (gop_success_status, d, w, fd)
         }
       }
   }"

section \<open>Lengths\<close>

lemma sdiv_pos: "0 \<le> (a::int) \<Longrightarrow> 0 < b \<Longrightarrow> a sdiv b = a div b"
  by (cases "a = 0") (simp_all add: signed_divide_int_def sgn_if)

lemma smod_pos: "0 \<le> (a::int) \<Longrightarrow> 0 < b \<Longrightarrow> a smod b = a mod b"
  by (cases "a = 0") (simp_all add: signed_modulo_int_def sgn_if)

lemma math_gcd_gcd: "0 \<le> a \<Longrightarrow> 0 \<le> b \<Longrightarrow> math_gcd a b = gcd a b"
proof (induction a b rule: math_gcd.induct)
  case (1 a b)
  show ?case
  proof (cases "a = 0")
    case True
    then show ?thesis using "1.prems" by (subst math_gcd.simps) simp
  next
    case False
    then have "math_gcd a b = gcd (b mod a) a" using "1.IH" "1.prems" by (subst math_gcd.simps) (simp add: smod_pos)
    then show ?thesis by (metis gcd.commute gcd_red_int)
  qed
qed

lemma math_lcm_lcm: "0 < a \<Longrightarrow> 0 < b \<Longrightarrow> a * b < 2 ^ 63 \<Longrightarrow> math_lcm a b = Some (lcm a b)"
proof -
  assume ab: "0 < a" "0 < b" "a * b < 2 ^ 63"
  have "0 < a * b" using ab by simp
  then have "int64_ok (a * b)" using ab(3) unfolding int64_ok_def by linarith
  moreover have "(a * b) sdiv gcd a b = lcm a b" using ab by (simp add: lcm_altdef_int sdiv_pos)
  moreover have "gcd a b \<noteq> 0" using ab by simp
  ultimately show ?thesis using ab by (simp add: math_lcm_def math_gcd_gcd)
qed

text \<open>The buffers of a copy hold at least one byte and fit into the memory that the caller gave.\<close>

lemma copy_bufsize_ok:
  assumes "0 < sb" "0 < db" "sb * db < 2 ^ 63" "2 \<le> bufsize sc"
  obtains n where "copy_bufsize sb db sc = Some n" "0 < n" "2 * n \<le> bufsize sc"
proof -
  have l: "0 < lcm sb db" using assms by (intro lcm_pos_int) simp_all
  have t: "bufsize sc sdiv 2 = bufsize sc div 2" "0 < bufsize sc div 2" using assms(4) by (simp_all add: sdiv_pos)
  define t where "t = bufsize sc div 2"
  show ?thesis
  proof (cases "lcm sb db > t \<or> src_offset sc \<noteq> 0 \<or> dest_offset sc \<noteq> 0")
    case True
    then show ?thesis using that [of t] t assms by (auto simp: copy_bufsize_def math_lcm_lcm t_def)
  next
    case False
    then have "0 < t div lcm sb db" using pos_imp_zdiv_pos_iff [OF l, of t] by simp
    moreover have "t div lcm sb db * lcm sb db \<le> t" using l by (simp add: div_times_less_eq_dividend minus_mod_eq_div_mult [symmetric])
    ultimately have n: "0 < t div lcm sb db * lcm sb db" "2 * (t div lcm sb db * lcm sb db) \<le> bufsize sc" using l by (simp_all add: t_def)
    show ?thesis using that [OF _ n] False l t assms by (simp add: copy_bufsize_def math_lcm_lcm sdiv_pos t_def [symmetric])
  qed
qed

lemma piece_lengths_ok:
  assumes "0 < bs" "0 \<le> off" "2 \<le> n"
  obtains base initial where "piece_lengths bs off n = Some (base, initial)" "0 < base" "base \<le> initial" "2 * initial \<le> n"
proof -
  define t where "t = n div 2"
  have t: "n sdiv 2 = t" "0 < t" "2 * t \<le> n" "t sdiv bs = t div bs" using assms by (simp_all add: t_def sdiv_pos)
  define k where "k = t div bs - 1"
  define pp where "pp = bs - off smod bs"
  have pp: "0 \<le> pp" "pp \<le> bs" using assms by (simp_all add: pp_def smod_pos less_imp_le)
  have le: "k * bs + bs \<le> t" using assms(1) by (simp add: k_def left_diff_distrib minus_mod_eq_div_mult [symmetric])
  show ?thesis
  proof (cases "k \<le> 0")
    case True
    then show ?thesis using that [of t t] t assms(1) by (simp add: piece_lengths_def Let_def k_def)
  next
    case False
    then have "0 < k * bs" using assms(1) by simp
    then show ?thesis using that [of "k * bs" "k * bs + pp"] False le pp t assms(1)
      by (simp add: piece_lengths_def Let_def flip: pp_def) (simp add: k_def)
  qed
qed

section \<open>Segments as rows of bytes\<close>

text \<open>The bytes of a buffer are those at an offset of a segment, given by its bytes \<open>v\<close>.\<close>

definition holds :: "(int \<Rightarrow> u8 option) \<Rightarrow> int \<Rightarrow> int \<Rightarrow> buffer \<Rightarrow> bool" where
  "holds v off n b \<longleftrightarrow> (\<forall>p. 0 \<le> p \<and> p < n \<longrightarrow> v (off + p) = Some (b p))"

text \<open>The bytes \<open>v'\<close> are \<open>v\<close> with the bytes \<open>f\<close> at \<open>n\<close> offsets from \<open>off\<close> on; others count up to the size only.\<close>

definition overlaid :: "(int \<Rightarrow> u8 option) \<Rightarrow> int \<Rightarrow> int \<Rightarrow> int \<Rightarrow> (int \<Rightarrow> u8 option) \<Rightarrow> (int \<Rightarrow> u8 option) \<Rightarrow> bool" where
  "overlaid v size_v off n f v' \<longleftrightarrow>
     (\<forall>p. 0 \<le> p \<and> p < n \<longrightarrow> v' (off + p) = f p) \<and> (\<forall>x. 0 \<le> x \<and> x < size_v \<and> \<not> (off \<le> x \<and> x < off + n) \<longrightarrow> v' x = v x)"

lemma overlaid_append:
  assumes "overlaid v z off n h v1" "overlaid v1 (max z (off + n)) (off + n) k (\<lambda>p. h (n + p)) v2" "0 \<le> n" "0 \<le> k" "0 \<le> off"
  shows "overlaid v z off (n + k) h v2"
  unfolding overlaid_def
proof (intro conjI allI impI)
  fix p assume p: "0 \<le> p \<and> p < n + k"
  show "v2 (off + p) = h p"
  proof (cases "p < n")
    case True
    then show ?thesis using assms(1,2,5) p by (simp add: overlaid_def)
  next
    case False
    then have "v2 (off + n + (p - n)) = h (n + (p - n))"
      using assms(2) [unfolded overlaid_def, THEN conjunct1, THEN spec, of "p - n"] p by simp
    then show ?thesis by simp
  qed
next
  fix x assume "0 \<le> x \<and> x < z \<and> \<not> (off \<le> x \<and> x < off + (n + k))"
  then show "v2 x = v x" using assms(3,4) assms(1) [unfolded overlaid_def, THEN conjunct2, THEN spec, of x]
    assms(2) [unfolded overlaid_def, THEN conjunct2, THEN spec, of x] by auto
qed

text \<open>
  What a copy relies on.  A source returns its bytes; a destination takes bytes, reserves room and cuts itself off at a
  size up to its own.  \<open>reservable\<close> are the sizes for which a reservation is defined; a reservation may change the byte
  before its end, which the caller is about to write.
\<close>

locale seg_source =
  fixes S :: "('s, 'w) lio_segment_vtable_t"
    and ok_s :: "'s \<Rightarrow> 'w \<Rightarrow> bool"
    and view_s :: "'s \<Rightarrow> 'w \<Rightarrow> int \<Rightarrow> u8 option"
  assumes source_block: "ok_s s w \<Longrightarrow> 0 < block_size_fn S s \<and> block_size_fn S s < 2 ^ 31"
    and reads: "ok_s s w \<Longrightarrow> 0 \<le> off \<Longrightarrow> 0 < n \<Longrightarrow> off + n \<le> size_fn S s \<Longrightarrow>
      \<exists>s' b'. read_fn S s w off n b = (OP_STATE_SUCCESS, s', b') \<and> ok_s s' w \<and> view_s s' = view_s s \<and>
        size_fn S s' = size_fn S s \<and> holds (view_s s w) off n b'"

locale seg_dest =
  fixes D :: "('d, 'w) lio_segment_vtable_t"
    and ok_d :: "'d \<Rightarrow> 'w \<Rightarrow> bool"
    and view_d :: "'d \<Rightarrow> 'w \<Rightarrow> int \<Rightarrow> u8 option"
    and reservable :: "'d \<Rightarrow> int \<Rightarrow> bool"
  assumes dest_block: "ok_d d w \<Longrightarrow> 0 < block_size_fn D d \<and> block_size_fn D d < 2 ^ 31"
    and writes: "ok_d d w \<Longrightarrow> 0 \<le> off \<Longrightarrow> 0 < n \<Longrightarrow>
      \<exists>d' w'. write_fn D d w off n b = Some (OP_STATE_SUCCESS, d', w') \<and> ok_d d' w' \<and> size_fn D d' = max (size_fn D d) (off + n) \<and>
        overlaid (view_d d w) (size_fn D d) off n (\<lambda>p. Some (b p)) (view_d d' w')"
    and reserves: "ok_d d w \<Longrightarrow> 0 < n \<Longrightarrow> reservable d n \<Longrightarrow>
      \<exists>r d' w'. truncate_fn D d w (- n) = Some (r, d', w') \<and> ok_d d' w' \<and> size_fn D d' = size_fn D d \<and>
        (\<forall>x. 0 \<le> x \<and> x < size_fn D d \<and> x \<noteq> n - 1 \<longrightarrow> view_d d' w' x = view_d d w x)"
    and truncates: "ok_d d w \<Longrightarrow> 0 \<le> n \<Longrightarrow> n \<le> size_fn D d \<Longrightarrow>
      \<exists>r d' w'. truncate_fn D d w n = Some (r, d', w') \<and> ok_d d' w' \<and> size_fn D d' = n \<and>
        (\<forall>x. 0 \<le> x \<and> x < n \<longrightarrow> view_d d' w' x = view_d d w x)"

text \<open>A source and a destination in one world that do not share bytes.\<close>

locale seg_pair = seg_source S ok_s view_s + seg_dest D ok_d view_d reservable
  for S :: "('s, 'w) lio_segment_vtable_t" and ok_s view_s
    and D :: "('d, 'w) lio_segment_vtable_t" and ok_d view_d reservable +
  fixes sep :: "'s \<Rightarrow> 'd \<Rightarrow> 'w \<Rightarrow> bool"
  assumes sep_read: "sep s d w \<Longrightarrow> read_fn S s w' off n b = (e, s', b') \<Longrightarrow> sep s' d w"
    and sep_write: "ok_s s w \<Longrightarrow> sep s d w \<Longrightarrow> write_fn D d w off n b = Some (e, d', w') \<Longrightarrow>
      ok_s s w' \<and> sep s d' w' \<and> view_s s w' = view_s s w"
    and sep_truncate: "ok_s s w \<Longrightarrow> sep s d w \<Longrightarrow> truncate_fn D d w n = Some (e, d', w') \<Longrightarrow>
      ok_s s w' \<and> sep s d' w' \<and> view_s s w' = view_s s w"
begin

lemma round_moves:
  assumes "ok_s s w" "ok_d d w" "sep s d w" "0 \<le> rpos" "rlen \<le> 0 \<or> rpos + rlen \<le> size_fn S s" "0 \<le> wpos" "0 < wlen"
  shows "\<exists>s' d' w' rbuf'. copy_round S D wfirst s d w rpos rlen rbuf wpos wlen wbuf = Some (True, s', d', w', rbuf') \<and>
    ok_s s' w' \<and> ok_d d' w' \<and> sep s' d' w' \<and> view_s s' w' = view_s s w \<and> size_fn S s' = size_fn S s \<and>
    (0 < rlen \<longrightarrow> holds (view_s s w) rpos rlen rbuf') \<and> size_fn D d' = max (size_fn D d) (wpos + wlen) \<and>
    overlaid (view_d d w) (size_fn D d) wpos wlen (\<lambda>p. Some (wbuf p)) (view_d d' w')"
proof -
  obtain d' w' where wr: "write_fn D d w wpos wlen wbuf = Some (OP_STATE_SUCCESS, d', w')" "ok_d d' w'" "size_fn D d' = max (size_fn D d) (wpos + wlen)"
    "overlaid (view_d d w) (size_fn D d) wpos wlen (\<lambda>p. Some (wbuf p)) (view_d d' w')"
    using writes [OF assms(2,6,7)] by blast
  have fr: "ok_s s w'" "sep s d' w'" "view_s s w' = view_s s w" using sep_write [OF assms(1,3) wr(1)] by auto
  show ?thesis
  proof (cases "0 < rlen")
    case False
    then show ?thesis using wr fr by (auto simp: copy_round_def Let_def)
  next
    case True
    note r = True
    have fit: "rpos + rlen \<le> size_fn S s" using assms(5) r by simp
    show ?thesis
    proof (cases wfirst)
      case True
      obtain s' b' where rd: "read_fn S s w' rpos rlen rbuf = (OP_STATE_SUCCESS, s', b')" "ok_s s' w'" "view_s s' = view_s s"
        "size_fn S s' = size_fn S s" "holds (view_s s w') rpos rlen b'" using reads [OF fr(1) assms(4) r fit] by blast
      show ?thesis using True r wr rd fr sep_read [OF fr(2) rd(1)] by (auto simp: copy_round_def Let_def)
    next
      case False
      obtain s' b' where rd: "read_fn S s w rpos rlen rbuf = (OP_STATE_SUCCESS, s', b')" "ok_s s' w" "view_s s' = view_s s"
        "size_fn S s' = size_fn S s" "holds (view_s s w) rpos rlen b'" using reads [OF assms(1,4) r fit] by blast
      have "ok_s s' w'" "sep s' d' w'" using sep_write [OF rd(2) sep_read [OF assms(3) rd(1)] wr(1)] by auto
      then show ?thesis using False r wr rd fr by (auto simp: copy_round_def Let_def)
    qed
  qed
qed

lemma blocks_move:
  assumes "ok_s s w" "ok_d d w" "sep s d w" "0 < bsize" "0 < rlen" "0 \<le> nbytes" "0 \<le> rpos" "rpos + nbytes \<le> size_fn S s" "0 \<le> wpos"
    "holds (view_s s w) (rpos - rlen) rlen rbuf"
  shows "\<exists>s' d' w'. copy_blocks S D sched bsize i s d w rbuf wbuf rlen rpos wpos nbytes = Some ((True, rpos + nbytes, wpos + (rlen + nbytes)), s', d', w') \<and>
    ok_s s' w' \<and> ok_d d' w' \<and> sep s' d' w' \<and> view_s s' w' = view_s s w \<and> size_fn D d' = max (size_fn D d) (wpos + (rlen + nbytes)) \<and>
    overlaid (view_d d w) (size_fn D d) wpos (rlen + nbytes) (\<lambda>p. view_s s w (rpos - rlen + p)) (view_d d' w')"
  using assms
proof (induction "nat nbytes" arbitrary: i s d w rbuf wbuf rlen rpos wpos nbytes rule: less_induct)
  case less
  note prems = less.prems
  define rl where "rl = next_len nbytes bsize"
  have rl: "0 \<le> rl" "rl \<le> nbytes" "rl = 0 \<longleftrightarrow> nbytes = 0" using prems(4,6) by (auto simp: rl_def next_len_def)
  obtain s1 d1 w1 b1 where r: "copy_round S D (sched i) s d w rpos rl wbuf wpos rlen rbuf = Some (True, s1, d1, w1, b1)"
    and ok1: "ok_s s1 w1" "ok_d d1 w1" "sep s1 d1 w1" "view_s s1 w1 = view_s s w" "size_fn S s1 = size_fn S s"
    and b1: "0 < rl \<longrightarrow> holds (view_s s w) rpos rl b1" and sz: "size_fn D d1 = max (size_fn D d) (wpos + rlen)"
    and ov: "overlaid (view_d d w) (size_fn D d) wpos rlen (\<lambda>p. Some (rbuf p)) (view_d d1 w1)"
    using round_moves [OF prems(1-3,7) _ prems(9,5), of rl "sched i" wbuf rbuf] prems(8) rl by auto
  have ov1: "overlaid (view_d d w) (size_fn D d) wpos rlen (\<lambda>p. view_s s w (rpos - rlen + p)) (view_d d1 w1)"
    using ov prems(10) by (simp add: overlaid_def holds_def)
  show ?case
  proof (cases "nbytes = 0")
    case True
    then have "rl = 0" using rl(3) by simp
    with r have "copy_blocks S D sched bsize i s d w rbuf wbuf rlen rpos wpos nbytes = Some ((True, rpos, wpos + rlen), s1, d1, w1)"
      by (subst copy_blocks.simps) (simp add: Let_def flip: rl_def)
    then show ?thesis using True ok1 sz ov1 by simp
  next
    case False
    then have pos: "0 < rl" using rl by auto
    have step: "copy_blocks S D sched bsize i s d w rbuf wbuf rlen rpos wpos nbytes =
        copy_blocks S D sched bsize (Suc i) s1 d1 w1 b1 rbuf rl (rpos + rl) (wpos + rlen) (nbytes - rl)"
      using r pos by (subst copy_blocks.simps) (simp add: Let_def flip: rl_def)
    have h: "holds (view_s s1 w1) (rpos + rl - rl) rl b1" using b1 pos ok1(4) by simp
    have "nat (nbytes - rl) < nat nbytes" "0 \<le> nbytes - rl" "0 \<le> rpos + rl" "rpos + rl + (nbytes - rl) \<le> size_fn S s1" "0 \<le> wpos + rlen"
      using pos rl prems(5-9) ok1(5) by simp_all
    from less.hyps [OF this(1) ok1(1-3) prems(4) pos this(2-5) h, of "Suc i" rbuf]
    obtain s' d' w' where c: "copy_blocks S D sched bsize (Suc i) s1 d1 w1 b1 rbuf rl (rpos + rl) (wpos + rlen) (nbytes - rl) =
          Some ((True, rpos + nbytes, wpos + (rlen + nbytes)), s', d', w')"
      and ok': "ok_s s' w'" "ok_d d' w'" "sep s' d' w'" "view_s s' w' = view_s s w" "size_fn D d' = max (size_fn D d1) (wpos + (rlen + nbytes))"
      and ov': "overlaid (view_d d1 w1) (size_fn D d1) (wpos + rlen) nbytes (\<lambda>p. view_s s w (rpos + p)) (view_d d' w')"
      by (auto simp: ok1(4) add.assoc)
    have "overlaid (view_d d w) (size_fn D d) wpos (rlen + nbytes) (\<lambda>p. view_s s w (rpos - rlen + p)) (view_d d' w')"
      using overlaid_append [OF ov1, of nbytes "view_d d' w'"] ov' prems(5,6,9) by (simp add: sz)
    moreover have "size_fn D d' = max (size_fn D d) (wpos + (rlen + nbytes))" using ok'(5) sz prems(6) by simp
    ultimately show ?thesis unfolding step using c ok' by blast
  qed
qed

text \<open>A copy whose reservation is undefined is undefined.\<close>

lemma copy_undefined:
  assumes "n = size_fn S s - src_offset sc" "k = (if copy_len sc \<noteq> -1 \<and> copy_len sc < n then copy_len sc else n)"
    "truncate_fn D d w (- (dest_offset sc + k)) = None"
  shows "lio_segment_copy_gop_func S D sched sc s d w buf1 buf2 = None"
  unfolding lio_segment_copy_gop_func_def Let_def assms(1) [symmetric] assms(2) [symmetric] assms(3)
  by (cases "copy_bufsize (block_size_fn S s) (block_size_fn D d) sc") simp_all

text \<open>The whole copy: \<open>n\<close> is the number of bytes behind the offset of the source and \<open>k\<close> the number of bytes to copy.\<close>

lemma copy_moves:
  assumes ok: "ok_s s w" "ok_d d w" "sep s d w" and off: "0 \<le> src_offset sc" "0 \<le> dest_offset sc" "2 \<le> bufsize sc"
    and n: "n = size_fn S s - src_offset sc" "0 < n" and len: "copy_len sc = -1 \<or> min n (bufsize sc div 2) \<le> copy_len sc"
    and k: "k = (if copy_len sc \<noteq> -1 \<and> copy_len sc < n then copy_len sc else n)" and res: "reservable d (dest_offset sc + k)"
  shows "\<exists>s' d' w'. lio_segment_copy_gop_func S D sched sc s d w buf1 buf2 = Some ((OP_STATE_SUCCESS, to_int (src_offset sc + k)), s', d', w') \<and>
    ok_s s' w' \<and> ok_d d' w' \<and> view_s s' w' = view_s s w \<and>
    size_fn D d' = (if do_truncate sc = 1 then dest_offset sc + k else max (size_fn D d) (dest_offset sc + k)) \<and>
    (\<forall>p. 0 \<le> p \<and> p < k \<longrightarrow> view_d d' w' (dest_offset sc + p) = view_s s w (src_offset sc + p)) \<and>
    (\<forall>x. 0 \<le> x \<and> x < min (size_fn D d) (size_fn D d') \<and> \<not> (dest_offset sc \<le> x \<and> x < dest_offset sc + k) \<longrightarrow> view_d d' w' x = view_d d w x)"
proof -
  have "block_size_fn S s * block_size_fn D d < 2 ^ 31 * 2 ^ 31"
    using source_block [OF ok(1)] dest_block [OF ok(2)] by (intro mult_strict_mono) auto
  then obtain bs where bs: "copy_bufsize (block_size_fn S s) (block_size_fn D d) sc = Some bs" "0 < bs" "2 * bs \<le> bufsize sc"
    using copy_bufsize_ok [of "block_size_fn S s" "block_size_fn D d" sc] source_block [OF ok(1)] dest_block [OF ok(2)] off(3) by auto
  define rl where "rl = next_len n bs"
  have rl: "0 < rl" "rl \<le> k" "rl \<le> n" "k \<le> n" using n(2) bs len off(3) by (auto simp: rl_def next_len_def k)
  obtain r d1 w1 where t: "truncate_fn D d w (- (dest_offset sc + k)) = Some (r, d1, w1)" "ok_d d1 w1" "size_fn D d1 = size_fn D d"
    "\<forall>x. 0 \<le> x \<and> x < size_fn D d \<and> x \<noteq> dest_offset sc + k - 1 \<longrightarrow> view_d d1 w1 x = view_d d w x" using reserves [OF ok(2) _ res] rl off(2) by auto
  have s1: "ok_s s w1" "sep s d1 w1" "view_s s w1 = view_s s w" using sep_truncate [OF ok(1,3) t(1)] by auto
  obtain s2 b2 where rd: "read_fn S s w1 (src_offset sc) rl buf1 = (OP_STATE_SUCCESS, s2, b2)" "ok_s s2 w1" "view_s s2 = view_s s"
    "size_fn S s2 = size_fn S s" "holds (view_s s w1) (src_offset sc) rl b2"
    using reads [OF s1(1) off(1) rl(1), of buf1] rl(3) n(1) by auto
  obtain s3 d3 w3 where c: "copy_blocks S D sched bs 0 s2 d1 w1 b2 buf2 rl (src_offset sc + rl) (dest_offset sc) (k - rl) =
      Some ((True, src_offset sc + k, dest_offset sc + k), s3, d3, w3)"
    and ok3: "ok_s s3 w3" "ok_d d3 w3" "sep s3 d3 w3" "view_s s3 w3 = view_s s w" "size_fn D d3 = max (size_fn D d) (dest_offset sc + k)"
    and ov: "overlaid (view_d d1 w1) (size_fn D d) (dest_offset sc) k (\<lambda>p. view_s s w (src_offset sc + p)) (view_d d3 w3)"
    using blocks_move [OF rd(2) t(2) sep_read [OF s1(2) rd(1)] bs(2) rl(1), of "k - rl" "src_offset sc + rl" "dest_offset sc" b2 sched 0 buf2]
      rd(3-5) s1(3) t(3) rl off n(1) by auto
  have other: "view_d d3 w3 x = view_d d w x" if "0 \<le> x" "x < size_fn D d" "\<not> (dest_offset sc \<le> x \<and> x < dest_offset sc + k)" for x
    using ov [unfolded overlaid_def, THEN conjunct2, THEN spec, of x] t(4) that rl by auto
  have moved: "view_d d3 w3 (dest_offset sc + p) = view_s s w (src_offset sc + p)" if "0 \<le> p" "p < k" for p
    using ov that by (simp add: overlaid_def)
  have run: "lio_segment_copy_gop_func S D sched sc s d w buf1 buf2 =
    Option.bind (if do_truncate sc = 1 then map_option snd (truncate_fn D d3 w3 (dest_offset sc + k)) else Some (d3, w3))
      (\<lambda>(d, w). Some ((OP_STATE_SUCCESS, to_int (src_offset sc + k)), s3, d, w))"
    unfolding lio_segment_copy_gop_func_def bs(1) using t(1) rd(1) c by (simp add: Let_def flip: n(1) k rl_def)
  show ?thesis
  proof (cases "do_truncate sc = 1")
    case False
    then show ?thesis using run ok3 moved other by auto
  next
    case True
    obtain r' d4 w4 where tr: "truncate_fn D d3 w3 (dest_offset sc + k) = Some (r', d4, w4)" "ok_d d4 w4" "size_fn D d4 = dest_offset sc + k"
      "\<forall>x. 0 \<le> x \<and> x < dest_offset sc + k \<longrightarrow> view_d d4 w4 x = view_d d3 w3 x" using truncates [OF ok3(2), of "dest_offset sc + k"] ok3(5) off(2) rl by auto
    have "ok_s s3 w4" "view_s s3 w4 = view_s s w" using sep_truncate [OF ok3(1,3) tr(1)] ok3(4) by auto
    then show ?thesis using True run tr moved other off(2) by auto
  qed
qed

end

section \<open>Transfers to and from a file\<close>

definition view_bytes :: "(int \<Rightarrow> u8 option) \<Rightarrow> int \<Rightarrow> int \<Rightarrow> u8 list" where
  "view_bytes v off n = map (\<lambda>i. the (v (off + int i))) [0..<nat n]"

lemma holds_bytes: "holds v off n b \<Longrightarrow> buf_bytes b n = view_bytes v off n"
  by (auto simp: holds_def buf_bytes_def view_bytes_def)

lemma view_bytes_append: "0 \<le> n \<Longrightarrow> 0 \<le> k \<Longrightarrow> view_bytes v off (n + k) = view_bytes v off n @ view_bytes v (off + n) k"
  by (rule nth_equalityI) (auto simp: view_bytes_def nth_append nat_add_distrib of_nat_diff algebra_simps)

lemma dio_write_full: "fd_results fd = [] \<Longrightarrow> tbx_dio_write fd bs = (int (length bs), fd\<lparr>fd_out := fd_out fd @ bs\<rparr>)"
  by (simp add: tbx_dio_write_def sys_write_def)

context seg_source
begin

lemma get_blocks_move:
  assumes "ok_s s w" "0 < bsize" "0 < rlen" "0 \<le> nbytes" "0 \<le> rpos" "rpos + nbytes \<le> size_fn S s" "fd_results fd = []"
    "holds (view_s s w) (rpos - rlen) rlen rbuf"
  shows "\<exists>s'. get_blocks S bsize s w fd rbuf wbuf rlen rpos nbytes =
    Some (gop_success_status, s', fd\<lparr>fd_out := fd_out fd @ view_bytes (view_s s w) (rpos - rlen) (rlen + nbytes)\<rparr>) \<and>
    ok_s s' w \<and> view_s s' = view_s s"
  using assms
proof (induction "nat nbytes" arbitrary: s fd rbuf wbuf rlen rpos nbytes rule: less_induct)
  case less
  note prems = less.prems
  define rl where "rl = next_len nbytes bsize"
  have rl: "0 \<le> rl" "rl \<le> nbytes" "rl = 0 \<longleftrightarrow> nbytes = 0" using prems(2,4) by (auto simp: rl_def next_len_def)
  define fd1 where "fd1 = fd\<lparr>fd_out := fd_out fd @ view_bytes (view_s s w) (rpos - rlen) rlen\<rparr>"
  have wr: "tbx_dio_write fd (buf_bytes rbuf rlen) = (rlen, fd1)"
    using dio_write_full [OF prems(7)] holds_bytes [OF prems(8)] prems(3) by (simp add: fd1_def view_bytes_def)
  show ?case
  proof (cases "nbytes = 0")
    case True
    then have "rl = 0" using rl(3) by simp
    then have "get_blocks S bsize s w fd rbuf wbuf rlen rpos nbytes = Some (gop_success_status, s, fd1)"
      using wr by (subst get_blocks.simps) (simp add: Let_def flip: rl_def)
    then show ?thesis using True prems(1) by (simp add: fd1_def)
  next
    case False
    then have pos: "0 < rl" using rl by auto
    obtain s1 b1 where rd: "read_fn S s w rpos rl wbuf = (OP_STATE_SUCCESS, s1, b1)" "ok_s s1 w" "view_s s1 = view_s s"
      "size_fn S s1 = size_fn S s" "holds (view_s s w) rpos rl b1" using reads [OF prems(1,5) pos, of wbuf] prems(6) rl(2) by auto
    have step: "get_blocks S bsize s w fd rbuf wbuf rlen rpos nbytes = get_blocks S bsize s1 w fd1 b1 rbuf rl (rpos + rl) (nbytes - rl)"
      using rd(1) wr pos by (subst get_blocks.simps) (simp add: Let_def flip: rl_def)
    have h: "holds (view_s s1 w) (rpos + rl - rl) rl b1" using rd(3,5) by simp
    have "nat (nbytes - rl) < nat nbytes" "0 \<le> nbytes - rl" "0 \<le> rpos + rl" "rpos + rl + (nbytes - rl) \<le> size_fn S s1" "fd_results fd1 = []"
      using pos rl prems(4-7) rd(4) by (simp_all add: fd1_def)
    from less.hyps [OF this(1) rd(2) prems(2) pos this(2-5) h, of rbuf]
    show ?thesis using view_bytes_append [of rlen nbytes "view_s s w" "rpos - rlen"] prems(3,4) rd(3) unfolding step
      by (simp add: fd1_def)
  qed
qed

lemma get_moves:
  assumes ok: "ok_s s w" and off: "0 \<le> src_offset sc" "2 \<le> bufsize sc" and fd: "fd_results fd = []"
    and n: "n = size_fn S s - src_offset sc" "0 < n" and k: "k = (if copy_len sc > 0 \<and> n > copy_len sc then copy_len sc else n)"
  shows "\<exists>s'. segment_get_gop_func S sc s w fd buf1 buf2 =
    Some (gop_success_status, s', fd\<lparr>fd_out := fd_out fd @ view_bytes (view_s s w) (src_offset sc) k\<rparr>) \<and> ok_s s' w \<and> view_s s' = view_s s"
proof -
  obtain base initial where l: "piece_lengths (block_size_fn S s) (src_offset sc) (bufsize sc) = Some (base, initial)" "0 < base" "base \<le> initial"
    using piece_lengths_ok [OF conjunct1 [OF source_block [OF ok]] off] by metis
  define rl where "rl = next_len k initial"
  have rl: "0 < rl" "rl \<le> k" "k \<le> n" using n(2) l by (auto simp: rl_def next_len_def k)
  obtain s1 b1 where rd: "read_fn S s w (src_offset sc) rl buf1 = (OP_STATE_SUCCESS, s1, b1)" "ok_s s1 w" "view_s s1 = view_s s"
    "size_fn S s1 = size_fn S s" "holds (view_s s w) (src_offset sc) rl b1" using reads [OF ok off(1) rl(1), of buf1] rl(2,3) n(1) by auto
  have "\<exists>s'. get_blocks S base s1 w fd b1 buf2 rl (src_offset sc + rl) (k - rl) =
      Some (gop_success_status, s', fd\<lparr>fd_out := fd_out fd @ view_bytes (view_s s w) (src_offset sc) k\<rparr>) \<and> ok_s s' w \<and> view_s s' = view_s s"
    using get_blocks_move [OF rd(2) l(2) rl(1), of "k - rl" "src_offset sc + rl" fd b1 buf2] rl off(1) n(1) rd(3-5) fd by simp
  moreover have "segment_get_gop_func S sc s w fd buf1 buf2 = get_blocks S base s1 w fd b1 buf2 rl (src_offset sc + rl) (k - rl)"
    unfolding segment_get_gop_func_def l(1) using rd(1) by (simp add: Let_def flip: n(1) k rl_def)
  ultimately show ?thesis by simp
qed

end

text \<open>A file whose reads all succeed, each with at least one byte, and the bytes that are left in it.\<close>

definition reads_ok :: "file_t \<Rightarrow> bool" where
  "reads_ok fd \<longleftrightarrow> (\<forall>c \<in> set (fd_in fd). \<exists>bs. c = Some bs \<and> bs \<noteq> [])"

definition file_left :: "file_t \<Rightarrow> u8 list" where
  "file_left fd = concat (map the (fd_in fd))"

lemma dio_read_ok:
  assumes "reads_ok fd" "0 < n"
  shows "\<exists>c fd'. tbx_dio_read fd n = (Some c, fd') \<and> reads_ok fd' \<and> file_left fd = c @ file_left fd' \<and> length c \<le> n \<and>
    (c = [] \<longleftrightarrow> file_left fd = [])"
proof (cases "fd_in fd")
  case Nil
  then show ?thesis using assms(1) by (simp add: tbx_dio_read_def sys_read_def file_left_def)
next
  case (Cons c0 cs)
  then obtain c where "c0 = Some c" "c \<noteq> []" "\<forall>c \<in> set cs. \<exists>bs. c = Some bs \<and> bs \<noteq> []" using assms(1) by (auto simp: reads_ok_def)
  then show ?thesis using Cons assms(2) by (auto simp: tbx_dio_read_def sys_read_def file_left_def reads_ok_def)
qed

lemma holds_load: "0 \<le> p \<Longrightarrow> p < int (length c) \<Longrightarrow> buf_load c b p = c ! nat p"
  by (simp add: buf_load_def)

context seg_dest
begin

text \<open>Without a given length, the loop writes until the end of the file.\<close>

lemma put_blocks_move:
  assumes "ok_d d w" "0 < bsize" "c \<noteq> []" "0 \<le> wpos" "reads_ok fd"
  shows "\<exists>d' w' fd'. put_blocks D bsize d w fd (buf_load c b) wbuf (int (length c)) wpos (-1) =
      Some ((True, wpos + int (length (c @ file_left fd))), d', w', fd') \<and> file_left fd' = [] \<and> ok_d d' w' \<and>
    size_fn D d' = max (size_fn D d) (wpos + int (length (c @ file_left fd))) \<and>
    overlaid (view_d d w) (size_fn D d) wpos (int (length (c @ file_left fd))) (\<lambda>p. Some ((c @ file_left fd) ! nat p)) (view_d d' w')"
  using assms
proof (induction "length (file_left fd)" arbitrary: d w fd c b wbuf wpos rule: less_induct)
  case less
  note prems = less.prems
  let ?n = "int (length c)"
  have n: "0 < ?n" using prems(3) by simp
  obtain d1 w1 where wr: "write_fn D d w wpos ?n (buf_load c b) = Some (OP_STATE_SUCCESS, d1, w1)" "ok_d d1 w1" "size_fn D d1 = max (size_fn D d) (wpos + ?n)"
    and ov: "overlaid (view_d d w) (size_fn D d) wpos ?n (\<lambda>p. Some (buf_load c b p)) (view_d d1 w1)"
    using writes [OF prems(1,4) n] by blast
  obtain c1 fd1 where rd: "tbx_dio_read fd (nat bsize) = (Some c1, fd1)" "reads_ok fd1" "file_left fd = c1 @ file_left fd1" "c1 = [] \<longleftrightarrow> file_left fd = []"
    using dio_read_ok [OF prems(5), of "nat bsize"] prems(2) by auto
  have ov1: "overlaid (view_d d w) (size_fn D d) wpos ?n (\<lambda>p. Some ((c @ file_left fd) ! nat p)) (view_d d1 w1)"
    using ov by (auto simp: overlaid_def holds_load nth_append)
  show ?case
  proof (cases "c1 = []")
    case True
    then have "put_blocks D bsize d w fd (buf_load c b) wbuf ?n wpos (-1) = Some ((True, wpos + ?n), d1, w1, fd1)"
      using wr(1) rd(1) prems(2) by (subst put_blocks.simps) (simp add: next_len_def)
    moreover have "file_left fd = []" using True rd(4) by blast
    moreover have "file_left fd1 = []" using calculation(2) rd(3) by simp
    ultimately show ?thesis using wr(2,3) ov1 by simp
  next
    case False
    have step: "put_blocks D bsize d w fd (buf_load c b) wbuf ?n wpos (-1) =
        put_blocks D bsize d1 w1 fd1 (buf_load c1 wbuf) (buf_load c b) (int (length c1)) (wpos + ?n) (-1)"
      using wr(1) rd(1) prems(2) False by (subst put_blocks.simps) (simp add: next_len_def)
    have "length (file_left fd1) < length (file_left fd)" "0 \<le> wpos + ?n" using rd(3) False prems(4) by simp_all
    from less.hyps [OF this(1) wr(2) prems(2) False this(2) rd(2), of wbuf "buf_load c b"]
    obtain d' w' fd' where i: "put_blocks D bsize d1 w1 fd1 (buf_load c1 wbuf) (buf_load c b) (int (length c1)) (wpos + ?n) (-1) =
        Some ((True, wpos + ?n + int (length (file_left fd))), d', w', fd')" "file_left fd' = []" "ok_d d' w'"
      "size_fn D d' = max (size_fn D d1) (wpos + ?n + int (length (file_left fd)))"
      "overlaid (view_d d1 w1) (size_fn D d1) (wpos + ?n) (int (length (file_left fd))) (\<lambda>p. Some (file_left fd ! nat p)) (view_d d' w')"
      unfolding rd(3) [symmetric] by blast
    have "overlaid (view_d d1 w1) (max (size_fn D d) (wpos + ?n)) (wpos + ?n) (int (length (file_left fd)))
        (\<lambda>p. Some ((c @ file_left fd) ! nat (?n + p))) (view_d d' w')"
      using i(5) unfolding wr(3) by (auto simp: overlaid_def nth_append nat_add_distrib)
    then have "overlaid (view_d d w) (size_fn D d) wpos (?n + int (length (file_left fd))) (\<lambda>p. Some ((c @ file_left fd) ! nat p)) (view_d d' w')"
      using overlaid_append [OF ov1] prems(4) by simp
    then show ?thesis unfolding step using i wr(3) by (simp add: add.assoc)
  qed
qed

lemma put_moves:
  assumes ok: "ok_d d w" and off: "0 \<le> dest_offset sc" "2 \<le> bufsize sc" and len: "copy_len sc = -1"
    and fd: "reads_ok fd" "file_left fd \<noteq> []" and bs: "bs = file_left fd"
  shows "\<exists>d' w' fd'. segment_put_gop_func D sc d w fd buf1 buf2 = Some (gop_success_status, d', w', fd') \<and> file_left fd' = [] \<and> ok_d d' w' \<and>
    size_fn D d' = (if do_truncate sc = 1 then dest_offset sc + int (length bs) else max (size_fn D d) (dest_offset sc + int (length bs))) \<and>
    (\<forall>p < length bs. view_d d' w' (dest_offset sc + int p) = Some (bs ! p)) \<and>
    (\<forall>x. 0 \<le> x \<and> x < min (size_fn D d) (size_fn D d') \<and> \<not> (dest_offset sc \<le> x \<and> x < dest_offset sc + int (length bs)) \<longrightarrow> view_d d' w' x = view_d d w x)"
proof -
  obtain base initial where l: "piece_lengths (block_size_fn D d) (dest_offset sc) (bufsize sc) = Some (base, initial)" "0 < base" "base \<le> initial"
    using piece_lengths_ok [OF conjunct1 [OF dest_block [OF ok]] off] by metis
  obtain c fd1 where rd: "tbx_dio_read fd (nat initial) = (Some c, fd1)" "reads_ok fd1" "file_left fd = c @ file_left fd1" "c \<noteq> []"
    using dio_read_ok [OF fd(1), of "nat initial"] l(2,3) fd(2) by auto
  let ?e = "dest_offset sc + int (length bs)"
  obtain d3 w3 fd' where p: "put_blocks D base d w fd1 (buf_load c buf1) buf2 (int (length c)) (dest_offset sc) (-1) = Some ((True, ?e), d3, w3, fd')"
    and p': "file_left fd' = []" "ok_d d3 w3" "size_fn D d3 = max (size_fn D d) ?e"
      "overlaid (view_d d w) (size_fn D d) (dest_offset sc) (int (length bs)) (\<lambda>p. Some (bs ! nat p)) (view_d d3 w3)"
    using put_blocks_move [OF ok l(2) rd(4) off(1) rd(2), of buf1 buf2] unfolding bs rd(3) by blast
  have moved: "view_d d3 w3 (dest_offset sc + int p) = Some (bs ! p)" if "p < length bs" for p
    using p'(4) [unfolded overlaid_def, THEN conjunct1, THEN spec, of "int p"] that by simp
  have other: "view_d d3 w3 x = view_d d w x" if "0 \<le> x" "x < size_fn D d" "\<not> (dest_offset sc \<le> x \<and> x < ?e)" for x
    using p'(4) [unfolded overlaid_def, THEN conjunct2, THEN spec, of x] that by simp
  have run: "segment_put_gop_func D sc d w fd buf1 buf2 =
      Option.bind (if do_truncate sc = 1 then map_option snd (truncate_fn D d3 w3 ?e) else Some (d3, w3)) (\<lambda>(d, w). Some (gop_success_status, d, w, fd'))"
    unfolding segment_put_gop_func_def l(1) using len rd(1) p by (simp add: next_len_def)
  show ?thesis
  proof (cases "do_truncate sc = 1")
    case False
    then show ?thesis using run p' moved other by auto
  next
    case True
    obtain r' d4 w4 where tr: "truncate_fn D d3 w3 ?e = Some (r', d4, w4)" "ok_d d4 w4" "size_fn D d4 = ?e"
      "\<forall>x. 0 \<le> x \<and> x < ?e \<longrightarrow> view_d d4 w4 x = view_d d3 w3 x" using truncates [OF p'(2), of ?e] p'(3) off(1) by auto
    then show ?thesis using True run p'(1) moved other off(1) by auto
  qed
qed

text \<open>With a given length, the piece that is read last is never written.\<close>

lemma put_blocks_lose:
  assumes "ok_d d w" "0 < bsize" "0 < rlen" "0 < nbytes" "0 \<le> wpos" "reads_ok fd" "nbytes \<le> int (length (file_left fd))"
  shows "\<exists>n d' w' fd'. put_blocks D bsize d w fd rbuf wbuf rlen wpos nbytes = Some ((True, n), d', w', fd') \<and> n < wpos + rlen + nbytes \<and> wpos + rlen \<le> n \<and>
    ok_d d' w' \<and> size_fn D d' = max (size_fn D d) n"
  using assms
proof (induction "nat nbytes" arbitrary: d w fd rbuf wbuf rlen wpos nbytes rule: less_induct)
  case less
  note prems = less.prems
  obtain d1 w1 where wr: "write_fn D d w wpos rlen rbuf = Some (OP_STATE_SUCCESS, d1, w1)" "ok_d d1 w1" "size_fn D d1 = max (size_fn D d) (wpos + rlen)"
    using writes [OF prems(1,5,3), of rbuf] by blast
  define rl where "rl = next_len nbytes bsize"
  have rl: "0 < rl" "rl \<le> nbytes" using prems(2,4) by (auto simp: rl_def next_len_def)
  obtain c fd1 where rd: "tbx_dio_read fd (nat rl) = (Some c, fd1)" "reads_ok fd1" "file_left fd = c @ file_left fd1" "length c \<le> nat rl"
    "c = [] \<longleftrightarrow> file_left fd = []" using dio_read_ok [OF prems(6), of "nat rl"] rl(1) by auto
  have c: "c \<noteq> []" "int (length c) \<le> nbytes" using rd(4,5) prems(4,7) rl by auto
  show ?case
  proof (cases "int (length c) = nbytes")
    case True
    then have "put_blocks D bsize d w fd rbuf wbuf rlen wpos nbytes = Some ((True, wpos + rlen), d1, w1, fd1)"
      using wr(1) rd(1) rl(1) prems(4) by (subst put_blocks.simps) (simp add: Let_def flip: rl_def)
    then show ?thesis using wr(2,3) prems(3-5) by auto
  next
    case False
    have step: "put_blocks D bsize d w fd rbuf wbuf rlen wpos nbytes =
        put_blocks D bsize d1 w1 fd1 (buf_load c wbuf) rbuf (int (length c)) (wpos + rlen) (nbytes - int (length c))"
      using wr(1) rd(1) rl(1) prems(4) c False by (subst put_blocks.simps) (simp add: Let_def flip: rl_def)
    have "nat (nbytes - int (length c)) < nat nbytes" "0 < int (length c)" "0 < nbytes - int (length c)" "0 \<le> wpos + rlen"
      "nbytes - int (length c) \<le> int (length (file_left fd1))" using c False rd(3) prems(3-5,7) by auto
    from less.hyps [OF this(1) wr(2) prems(2) this(2-4) rd(2) this(5), of "buf_load c wbuf" rbuf]
    obtain n d' w' fd' where i: "put_blocks D bsize d1 w1 fd1 (buf_load c wbuf) rbuf (int (length c)) (wpos + rlen) (nbytes - int (length c)) = Some ((True, n), d', w', fd')"
      "n < wpos + rlen + int (length c) + (nbytes - int (length c))" "wpos + rlen + int (length c) \<le> n" "ok_d d' w'" "size_fn D d' = max (size_fn D d1) n" by blast
    then show ?thesis unfolding step using wr(3) by auto
  qed
qed

end

text \<open>A copy whose number of bytes has become negative reads on without end.\<close>

lemma copy_blocks_negative:
  assumes "copy_blocks S D sched bsize i s d w rbuf wbuf rlen rpos wpos nbytes = Some r" "nbytes < 0" "0 < bsize"
  shows "\<not> fst (fst r)"
proof -
  have "nbytes < 0 \<and> 0 < bsize \<longrightarrow> \<not> fst (fst r)"
    using assms(1)
  proof (rule copy_blocks.raw_induct [rotated], goal_cases)
    case (1 f S D sched bsize i s d w rbuf wbuf rlen rpos wpos nbytes r)
    show ?case
    proof (intro impI)
      assume n: "nbytes < 0 \<and> 0 < bsize"
      then obtain ok s' d' w' b' where c: "copy_round S D (sched i) s d w rpos bsize wbuf wpos rlen rbuf = Some (ok, s', d', w', b')"
        using 1(2) by (auto simp: next_len_def bind_Some_iff)
      show "\<not> fst (fst r)"
      proof (cases ok)
        case True
        then have "f S D sched bsize (Suc i) s' d' w' b' rbuf bsize (rpos + bsize) (wpos + rlen) (nbytes - bsize) = Some r"
          using 1(2) n c by (simp add: next_len_def)
        from 1(1) [OF this] show ?thesis using n by simp
      next
        case False
        then show ?thesis using 1(2) n c by (auto simp: next_len_def)
      qed
    qed
  qed
  then show ?thesis using assms(2,3) by simp
qed

end
