(* ===== verification/Data_Service.thy ===== *)
theory Data_Service
  imports Prelude
begin

text \<open>
  The allocations of the data service, as the segments see them: an allocation is a number and \<open>store\<close> gives the bytes of each; the
  numbers from \<open>next_cap\<close> on are not in use.
\<close>

record ds_state =
  store :: "nat \<Rightarrow> int \<Rightarrow> u8"
  next_cap :: nat

definition ds_write :: "nat \<Rightarrow> int \<Rightarrow> u8 list \<Rightarrow> (nat \<Rightarrow> int \<Rightarrow> u8) \<Rightarrow> nat \<Rightarrow> int \<Rightarrow> u8" where
  "ds_write cap start bytes st =
     st(cap := (\<lambda>o'. if start \<le> o' \<and> o' < start + int (length bytes) then bytes ! nat (o' - start) else st cap o'))"

text \<open>
  Vector operations move bytes between places in memory and places in one allocation, given as pairs.  Using \<^verbatim>\<open>NULL\<close> is
  undefined.
\<close>

fun ds_get :: "(nat option \<times> int) list \<Rightarrow> (int \<Rightarrow> u8) \<Rightarrow> (nat \<Rightarrow> u8) \<Rightarrow> (nat \<Rightarrow> u8) option" where
  "ds_get [] al m = Some m"
| "ds_get ((None, off) # qs) al m = None"
| "ds_get ((Some a, off) # qs) al m = ds_get qs al (m(a := al off))"

fun ds_put :: "(nat option \<times> int) list \<Rightarrow> (nat \<Rightarrow> u8) \<Rightarrow> (int \<Rightarrow> u8) \<Rightarrow> (int \<Rightarrow> u8) option" where
  "ds_put [] m al = Some al"
| "ds_put ((None, off) # qs) m al = None"
| "ds_put ((Some a, off) # qs) m al = ds_put qs m (al(off := m a))"

lemma ds_get_other: "ds_get qs al m = Some m' \<Longrightarrow> Some a \<notin> fst ` set qs \<Longrightarrow> m' a = m a"
  by (induction qs al m rule: ds_get.induct) auto

lemma ds_get_total: "None \<notin> fst ` set qs \<Longrightarrow> \<exists>m'. ds_get qs al m = Some m'"
  by (induction qs al m rule: ds_get.induct) force+

lemma ds_get_moves:
  assumes "ds_get qs al m = Some m'" "distinct (map fst qs)" "(Some a, off) \<in> set qs"
  shows "m' a = al off"
  using assms
proof (induction qs al m rule: ds_get.induct)
  case (3 b off' qs al m)
  then have e: "ds_get qs al (m(b := al off')) = Some m'" "distinct (map fst qs)" by simp_all
  show ?case
  proof (cases "(Some a, off) \<in> set qs")
    case True
    show ?thesis by (rule 3(1) [OF e True])
  next
    case False
    then show ?thesis using 3(2-) e ds_get_other [of qs al "m(b := al off')" m' a] by (auto simp: image_iff)
  qed
qed auto

lemma ds_put_result:
  assumes "None \<notin> fst ` set qs"
  shows "\<exists>al'. ds_put qs m al = Some al' \<and>
    (\<forall>x. al' x = (case map_of (rev (map (\<lambda>q. (snd q, fst q)) qs)) x of None \<Rightarrow> al x | Some p \<Rightarrow> m (the p)))"
  using assms
proof (induction qs m al rule: ds_put.induct)
  case (3 a off qs m al)
  then obtain al' where "ds_put qs m (al(off := m a)) = Some al'"
    "\<forall>x. al' x = (case map_of (rev (map (\<lambda>q. (snd q, fst q)) qs)) x of None \<Rightarrow> (al(off := m a)) x | Some p \<Rightarrow> m (the p))"
    by (auto simp del: fun_upd_apply)
  then show ?case by (auto simp: map_add_def split: option.splits)
qed auto

end
