(* ===== verification/Seg_Linear.thy ===== *)
theory Seg_Linear
  imports Segment Data_Service
begin

text \<open>
  The linear segment of \<^verbatim>\<open>lio/segment/linear.c\<close>: a file laid out over a row of allocations of at most
  \<^verbatim>\<open>max_block_size\<close> bytes each.  The interval skip list of the slots is the list of its slots in the order of their
  offsets.  The allocations are those of \<open>Data_Service\<close>.
  What the data service and the resource service do with a request is an argument of the operations: whether the
  queue of operations succeeded and which reads and writes took effect.  \<open>None\<close> is undefined behaviour.
\<close>

section \<open>The code\<close>

record seglin_slot_t =
  data :: nat
  d_size :: int
  d_max_size :: int
  rid_key :: string
  cap_offset :: int
  seg_offset :: int
  seg_end :: int
  len :: int

record seglin_priv_t =
  used_size :: int
  total_size :: int
  max_block_size :: int
  excess_block_size :: int
  n_rid_default :: nat
  hard_errors :: nat
  isl :: "seglin_slot_t list"

subsection \<open>The slots and the allocations\<close>

definition slots_insert :: "seglin_slot_t \<Rightarrow> seglin_slot_t list \<Rightarrow> seglin_slot_t list" where
  "slots_insert b bs = insort_key seg_offset b bs"

definition slots_search :: "int \<Rightarrow> int \<Rightarrow> seglin_slot_t list \<Rightarrow> seglin_slot_t list" where
  "slots_search lo hi bs = filter (\<lambda>b. seg_offset b \<le> hi \<and> lo \<le> seg_end b) bs"

subsection \<open>Growing and shrinking\<close>

text \<open>The loop that lays out the new blocks; \<open>c\<close> is the number of the next allocation.\<close>

function new_blocks :: "int \<Rightarrow> int \<Rightarrow> (nat \<Rightarrow> string) \<Rightarrow> nat \<Rightarrow> nat \<Rightarrow> int \<Rightarrow> seglin_slot_t list" where
  "new_blocks max_size new_size rid c n off =
     (if off < new_size \<and> 0 < max_size then
        (let l = (if off + max_size > new_size then new_size - off else max_size) in
         \<lparr>data = c + n, d_size = l, d_max_size = l, rid_key = rid n, cap_offset = 0, seg_offset = off,
          seg_end = off + l - 1, len = l\<rparr> # new_blocks max_size new_size rid c (Suc n) (off + max_size))
      else [])"
  by pat_completeness auto
termination
  by (relation "measure (\<lambda>(mx, new_size, rid, c, n, off). nat (new_size - off))") auto

declare new_blocks.simps [simp del]

definition end_write :: "seglin_slot_t \<Rightarrow> (nat \<Rightarrow> int \<Rightarrow> u8) \<Rightarrow> nat \<Rightarrow> int \<Rightarrow> u8" where
  "end_write b = ds_write (data b) (cap_offset b + d_max_size b - 1) [0]"

text \<open>
  \<open>rid\<close> are the resources that the request gets; \<open>ok1\<close> is the outcome of the allocations, \<open>ok2\<close> that of the writes of the
  last bytes.
\<close>

definition sl_grow ::
  "seglin_priv_t \<Rightarrow> ds_state \<Rightarrow> (nat \<Rightarrow> string) \<Rightarrow> bool \<Rightarrow> bool \<Rightarrow> int \<Rightarrow> (bool \<times> seglin_priv_t \<times> ds_state) option" where
  "sl_grow s w rid ok1 ok2 new_size_arg =
     (let new_size = (if new_size_arg < 0 then - new_size_arg else new_size_arg) in
      if new_size_arg < 0 \<and> new_size < total_size s then Some (True, s, w)
      else if max_block_size s \<le> 0 then None
      else do {
        last_b \<leftarrow> (if total_size s > 0
                  then (case slots_search (total_size s - 1) (total_size s) (isl s) of [] \<Rightarrow> None | b # _ \<Rightarrow> Some (Some b))
                  else Some None);
        let (bexpand, lo) =
          (case last_b of
             None \<Rightarrow> (None, total_size s)
           | Some b \<Rightarrow>
               if len b < max_block_size s
               then (let dsize = min (new_size - seg_offset b) (max_block_size s) in
                     (Some (b, dsize), seg_offset b + dsize - 1 + 1))
               else (None, seg_end b + 1));
        let blocks = new_blocks (max_block_size s) new_size rid (next_cap w) 0 lo;
        if int (length blocks) > (new_size - total_size s) div max_block_size s + 1 then None
        else if blocks \<noteq> [] \<and> n_rid_default s = 0 then None
        else if bexpand = None \<and> blocks = [] then None
        else if \<not> ok1 then Some (False, s, w\<lparr>next_cap := next_cap w + length blocks\<rparr>)
        else do {
          let (isl1, st1) =
            (case bexpand of
               None \<Rightarrow> (isl s, store w)
             | Some (b, dsize) \<Rightarrow>
                 (let b' = b\<lparr>len := dsize, seg_end := seg_offset b + dsize - 1, d_size := dsize, d_max_size := dsize\<rparr> in
                  (slots_insert b' (remove1 b (isl s)), end_write b' (store w))));
          Some (ok2, s\<lparr>isl := fold slots_insert blocks isl1, total_size := new_size\<rparr>,
                w\<lparr>store := fold end_write blocks st1, next_cap := next_cap w + length blocks\<rparr>)
        }
      })"

text \<open>\<open>ok\<close> is the outcome of the removals and of the truncation of the first block.\<close>

definition sl_shrink :: "seglin_priv_t \<Rightarrow> bool \<Rightarrow> int \<Rightarrow> (bool \<times> seglin_priv_t) option" where
  "sl_shrink s ok new_size =
     (case slots_search new_size (total_size s) (isl s) of
        [] \<Rightarrow> None
      | b # bs \<Rightarrow>
          (let dsize = new_size - seg_offset b;
               isl1 = fold remove1 (if dsize = 0 then b # bs else bs) (isl s);
               isl2 = (if dsize = 0 then isl1
                       else slots_insert (b\<lparr>seg_end := seg_offset b + dsize - 1, len := dsize\<rparr>) (remove1 b isl1)) in
           Some (ok, s\<lparr>isl := isl2, total_size := new_size, used_size := new_size\<rparr>)))"

definition sl_truncate ::
  "seglin_priv_t \<Rightarrow> ds_state \<Rightarrow> (nat \<Rightarrow> string) \<Rightarrow> bool \<Rightarrow> bool \<Rightarrow> int \<Rightarrow> (bool \<times> seglin_priv_t \<times> ds_state) option" where
  "sl_truncate s w rid ok1 ok2 new_size =
     (if new_size < 0 then sl_grow s w rid ok1 ok2 new_size
      else if total_size s > new_size then map_option (\<lambda>(r, s). (r, s, w)) (sl_shrink s ok1 new_size)
      else if total_size s < new_size then sl_grow s w rid ok1 ok2 new_size
      else Some (True, s, w))"

subsection \<open>Reading and writing\<close>

text \<open>An operation on one allocation: the allocation, the start in it, the position in the buffer and the length.\<close>

type_synonym task = "nat \<times> int \<times> int \<times> int"

fun slot_tasks :: "int \<Rightarrow> int \<Rightarrow> int \<Rightarrow> seglin_slot_t list \<Rightarrow> task list \<times> int" where
  "slot_tasks lo hi bpos [] = ([], bpos)"
| "slot_tasks lo hi bpos (b # bs) =
     (let start = (if lo \<le> seg_offset b then 0 else lo - seg_offset b);
          end' = (if hi \<ge> seg_end b then len b - 1 else hi - seg_offset b);
          blen = end' - start + 1;
          (ts, bpos') = slot_tasks lo hi (bpos + blen) bs in
      ((data b, start + cap_offset b, bpos, blen) # ts, bpos'))"

text \<open>
  The operations of one piece of the request go to \<^verbatim>\<open>gop\<close> and, once there is a queue, also to the queue \<^verbatim>\<open>q\<close>.
\<close>

fun queue_tasks :: "task list \<Rightarrow> task option \<Rightarrow> task list option \<Rightarrow> task option \<times> task list option" where
  "queue_tasks [] gop q = (gop, q)"
| "queue_tasks (t # ts) gop q =
     (let q = (if ts \<noteq> [] \<and> q = None then Some [] else q) in
      queue_tasks ts (Some t) (map_option (\<lambda>q. q @ [t]) q))"

fun queue_iovs :: "seglin_slot_t list \<Rightarrow> (int \<times> int) list \<Rightarrow> int \<Rightarrow> task option \<Rightarrow> task list option \<Rightarrow> task option \<times> task list option" where
  "queue_iovs bs [] bpos gop q = (gop, q)"
| "queue_iovs bs ((off, l) # iovs) bpos gop q =
     (let lo = off; hi = lo + l - 1;
          (ts, bpos) = slot_tasks lo hi bpos (slots_search lo hi bs);
          (gop, q) = queue_tasks ts gop q in
      queue_iovs bs iovs bpos gop q)"

text \<open>What is executed; nothing at all is a dummy operation that fails.\<close>

definition executed :: "seglin_priv_t \<Rightarrow> (int \<times> int) list \<Rightarrow> int \<Rightarrow> task list" where
  "executed s iovs boff =
     (case queue_iovs (isl s) iovs boff None None of
        (gop, Some q) \<Rightarrow> q
      | (Some gop, None) \<Rightarrow> [gop]
      | (None, None) \<Rightarrow> [])"

definition read_block :: "ds_state \<Rightarrow> task \<Rightarrow> (int \<Rightarrow> u8) \<Rightarrow> int \<Rightarrow> u8" where
  "read_block w t buf = (case t of (cap, start, bpos, blen) \<Rightarrow>
     (\<lambda>p. if bpos \<le> p \<and> p < bpos + blen then store w cap (start + (p - bpos)) else buf p))"

definition write_block :: "(int \<Rightarrow> u8) \<Rightarrow> task \<Rightarrow> ds_state \<Rightarrow> ds_state" where
  "write_block buf t w = (case t of (cap, start, bpos, blen) \<Rightarrow>
     w\<lparr>store := ds_write cap start (map (\<lambda>i. buf (bpos + int i)) [0..<nat blen]) (store w)\<rparr>)"

text \<open>\<open>state\<close> is what \<^verbatim>\<open>gop_waitall\<close> returns when there is something to do, \<open>eff\<close> the operations that take effect.\<close>

definition seglin_read_func ::
  "seglin_priv_t \<Rightarrow> ds_state \<Rightarrow> int \<Rightarrow> (task \<Rightarrow> bool) \<Rightarrow> (int \<times> int) list \<Rightarrow> int \<Rightarrow> (int \<Rightarrow> u8) \<Rightarrow> int \<times> seglin_priv_t \<times> (int \<Rightarrow> u8)" where
  "seglin_read_func s w state eff iovs boff buf =
     (let ts = executed s iovs boff;
          i = (if ts = [] then OP_STATE_FAILURE else state);
          buf' = fold (read_block w) (filter eff ts) buf in
      if i = 0 then (OP_STATE_SUCCESS, s, buf') else (OP_STATE_SUCCESS, s\<lparr>hard_errors := hard_errors s + 1\<rparr>, buf'))"

definition seglin_write_op ::
  "seglin_priv_t \<Rightarrow> ds_state \<Rightarrow> int \<Rightarrow> (task \<Rightarrow> bool) \<Rightarrow> (int \<times> int) list \<Rightarrow> int \<Rightarrow> (int \<Rightarrow> u8) \<Rightarrow> int \<times> ds_state" where
  "seglin_write_op s w state eff iovs boff buf =
     (let ts = executed s iovs boff in
      (if ts = [] then OP_STATE_FAILURE else state, fold (write_block buf) (filter eff ts) w))"

definition seglin_write_func ::
  "seglin_priv_t \<Rightarrow> ds_state \<Rightarrow> (nat \<Rightarrow> string) \<Rightarrow> bool \<Rightarrow> bool \<Rightarrow> int \<Rightarrow> (task \<Rightarrow> bool) \<Rightarrow> (int \<times> int) list \<Rightarrow> int \<Rightarrow> (int \<Rightarrow> u8) \<Rightarrow>
     (int \<times> seglin_priv_t \<times> ds_state) option" where
  "seglin_write_func s w rid ok1 ok2 state eff iovs boff buf =
     (let maxpos = foldl (\<lambda>m (off, l). if off + l - 1 > m then off + l - 1 else m) 0 iovs;
          new_size = maxpos + excess_block_size s in
      do {
        (s, w) \<leftarrow> (if maxpos \<ge> total_size s \<and> total_size s < new_size
                   then map_option snd (sl_truncate s w rid ok1 ok2 new_size) else Some (s, w));
        let (err, w) = seglin_write_op s w state eff iovs boff buf;
        let s = (if used_size s \<le> maxpos then s\<lparr>used_size := maxpos + 1\<rparr> else s);
        Some (if err = OP_STATE_SUCCESS then (OP_STATE_SUCCESS, s, w)
              else (OP_STATE_FAILURE, s\<lparr>hard_errors := hard_errors s + 1\<rparr>, w))
      })"

definition seglin_size :: "seglin_priv_t \<Rightarrow> int" where
  "seglin_size s = used_size s"

subsection \<open>Creating, cloning and inspecting\<close>

definition segment_linear_create :: seglin_priv_t where
  "segment_linear_create =
     \<lparr>used_size = 0, total_size = 0, max_block_size = 10 * 1024 * 1024, excess_block_size = 1 * 1024 * 1024,
      n_rid_default = 1, hard_errors = 0, isl = []\<rparr>"

definition lio_segment_linear_make_gop ::
  "seglin_priv_t \<Rightarrow> ds_state \<Rightarrow> (nat \<Rightarrow> string) \<Rightarrow> bool \<Rightarrow> bool \<Rightarrow> nat \<Rightarrow> int \<Rightarrow> int \<Rightarrow> (bool \<times> seglin_priv_t \<times> ds_state) option" where
  "lio_segment_linear_make_gop s w rid ok1 ok2 n_rid block_size tsize =
     sl_truncate (s\<lparr>n_rid_default := n_rid, max_block_size := block_size, excess_block_size := block_size div 4\<rparr>) w rid ok1 ok2 tsize"

definition clone_slot :: "nat \<Rightarrow> seglin_slot_t \<Rightarrow> seglin_slot_t" where
  "clone_slot c bs = \<lparr>data = c, d_size = len bs, d_max_size = len bs, rid_key = [], cap_offset = 0, seg_offset = seg_offset bs,
     seg_end = seg_end bs, len = len bs\<rparr>"

text \<open>\<^verbatim>\<open>ds_copy\<close> of a whole slot.\<close>

definition copy_slot :: "seglin_slot_t \<Rightarrow> seglin_slot_t \<Rightarrow> (nat \<Rightarrow> int \<Rightarrow> u8) \<Rightarrow> nat \<Rightarrow> int \<Rightarrow> u8" where
  "copy_slot bs bd st = ds_write (data bd) (cap_offset bd) (map (\<lambda>i. st (data bs) (cap_offset bs + int i)) [0..<nat (len bs)]) st"

text \<open>
  \<open>ok_t\<close> is the outcome of the truncation of an existing clone, which is ignored, \<open>ok1\<close> that of the allocations and \<open>ok2\<close>
  that of the copies; \<open>eff\<close> tells which copies take effect.
\<close>

definition seglin_clone_func ::
  "bool \<Rightarrow> seglin_priv_t \<Rightarrow> seglin_priv_t \<Rightarrow> ds_state \<Rightarrow> bool \<Rightarrow> bool \<Rightarrow> bool \<Rightarrow> (seglin_slot_t \<Rightarrow> bool) \<Rightarrow> (bool \<times> seglin_priv_t \<times> ds_state) option" where
  "seglin_clone_func trunc ss sd w ok_t ok1 ok2 eff = do {
     (sd, w) \<leftarrow> (if trunc then map_option snd (sl_truncate sd w (\<lambda>_. []) ok_t ok_t 0) else Some (sd, w));
     let n = length (isl ss);
     if n > 0 \<and> n_rid_default sd = 0 then None
     else if n = 0 then None
     else do {
       let blocks = map (\<lambda>i. clone_slot (next_cap w + i) (isl ss ! i)) [0..<n];
       let w = w\<lparr>next_cap := next_cap w + n\<rparr>;
       if \<not> ok1 then Some (False, sd, w)
       else Some (ok2, sd\<lparr>isl := fold slots_insert blocks (isl sd), total_size := total_size ss, used_size := used_size ss\<rparr>,
                  w\<lparr>store := fold (\<lambda>(bs, bd). copy_slot bs bd) (filter (\<lambda>(bs, bd). eff bs) (zip (isl ss) blocks)) (store w)\<rparr>)
     }
   }"

text \<open>The two inspection commands that look at the error counter.\<close>

definition seglin_inspect_errors :: "seglin_priv_t \<Rightarrow> int \<times> nat" where
  "seglin_inspect_errors s = (if hard_errors s = 0 then OP_STATE_SUCCESS else OP_STATE_FAILURE, hard_errors s)"

section \<open>The layout\<close>

text \<open>The slots cover the offsets from \<open>a\<close> to \<open>c - 1\<close> without gaps and in order.\<close>

fun tiled :: "int \<Rightarrow> seglin_slot_t list \<Rightarrow> int \<Rightarrow> bool" where
  "tiled a [] c \<longleftrightarrow> a = c"
| "tiled a (b # bs) c \<longleftrightarrow> seg_offset b = a \<and> 0 < len b \<and> seg_end b = a + len b - 1 \<and> tiled (a + len b) bs c"

text \<open>The byte at an offset of the segment.\<close>

fun byte_at :: "(nat \<Rightarrow> int \<Rightarrow> u8) \<Rightarrow> seglin_slot_t list \<Rightarrow> int \<Rightarrow> u8 option" where
  "byte_at st [] x = None"
| "byte_at st (b # bs) x =
     (if seg_offset b \<le> x \<and> x \<le> seg_end b then Some (st (data b) (cap_offset b + (x - seg_offset b))) else byte_at st bs x)"

definition seglin_view :: "seglin_priv_t \<Rightarrow> ds_state \<Rightarrow> int \<Rightarrow> u8 option" where
  "seglin_view s w x = byte_at (store w) (isl s) x"

definition seglin_ok :: "seglin_priv_t \<Rightarrow> ds_state \<Rightarrow> bool" where
  "seglin_ok s w \<longleftrightarrow> 0 < max_block_size s \<and> 0 < n_rid_default s \<and> 0 \<le> total_size s \<and> tiled 0 (isl s) (total_size s) \<and>
     (\<forall>b \<in> set (isl s). len b \<le> max_block_size s \<and> data b < next_cap w) \<and> distinct (map data (isl s))"

lemma tiled_append: "tiled a (xs @ ys) c \<longleftrightarrow> (\<exists>m. tiled a xs m \<and> tiled m ys c)"
  by (induction xs arbitrary: a) auto

lemma tiled_le: "tiled a bs c \<Longrightarrow> a \<le> c"
  by (induction bs arbitrary: a) fastforce+

lemma tiled_member:
  "tiled a bs c \<Longrightarrow> b \<in> set bs \<Longrightarrow> a \<le> seg_offset b \<and> seg_offset b \<le> seg_end b \<and> seg_end b < c \<and> seg_end b = seg_offset b + len b - 1"
proof (induction bs arbitrary: a)
  case (Cons b' bs)
  then show ?case using tiled_le [of "a + len b'" bs c] by force
qed simp

lemma tiled_split:
  "tiled a bs c \<Longrightarrow> a \<le> x \<Longrightarrow> x < c \<Longrightarrow>
     \<exists>xs b ys. bs = xs @ b # ys \<and> seg_offset b \<le> x \<and> x \<le> seg_end b \<and> tiled a xs (seg_offset b) \<and> tiled (seg_end b + 1) ys c"
proof (induction bs arbitrary: a)
  case (Cons b bs)
  show ?case
  proof (cases "x \<le> seg_end b")
    case True
    then show ?thesis using Cons.prems by (intro exI [of _ "[]"] exI [of _ b] exI [of _ bs]) auto
  next
    case False
    then obtain xs b' ys where "bs = xs @ b' # ys" "seg_offset b' \<le> x" "x \<le> seg_end b'" "tiled (a + len b) xs (seg_offset b')" "tiled (seg_end b' + 1) ys c"
      using Cons.IH [of "a + len b"] Cons.prems by auto
    then show ?thesis using Cons.prems by (intro exI [of _ "b # xs"] exI [of _ b'] exI [of _ ys]) auto
  qed
qed simp

lemma byte_at_outside: "tiled a bs c \<Longrightarrow> x < a \<or> c \<le> x \<Longrightarrow> byte_at st bs x = None"
proof (induction bs arbitrary: a)
  case (Cons b bs)
  then show ?case using tiled_le [of "a + len b" bs c] by auto
qed simp

lemma byte_at_append:
  "tiled a xs m \<Longrightarrow> byte_at st (xs @ ys) x = (if a \<le> x \<and> x < m then byte_at st xs x else byte_at st ys x)"
proof (induction xs arbitrary: a)
  case (Cons b xs)
  then show ?case using tiled_le [of "a + len b" xs m] byte_at_outside [of "a + len b" xs m x st] by auto
qed auto

lemma byte_at_cong: "(\<And>b o'. b \<in> set bs \<Longrightarrow> st' (data b) o' = st (data b) o') \<Longrightarrow> byte_at st' bs x = byte_at st bs x"
  by (induction bs) auto

section \<open>Growing and shrinking\<close>

lemma slots_insert_end: "tiled a xs m \<Longrightarrow> m \<le> seg_offset b \<Longrightarrow> slots_insert b xs = xs @ [b]"
  unfolding slots_insert_def by (rule insort_end) (use tiled_member in fastforce)

lemma slots_insert_blocks: "tiled a xs m \<Longrightarrow> tiled m bs c \<Longrightarrow> fold slots_insert bs xs = xs @ bs"
proof (induction bs arbitrary: xs m)
  case (Cons b bs)
  have "slots_insert b xs = xs @ [b]" using slots_insert_end [OF Cons.prems(1)] Cons.prems(2) by simp
  moreover have "tiled a (xs @ [b]) (m + len b)" using Cons.prems by (auto simp: tiled_append)
  ultimately show ?case using Cons.IH [of "xs @ [b]" "m + len b"] Cons.prems(2) by simp
qed simp

lemma new_blocks_tiled:
  assumes "0 < mx" "off \<le> n"
  shows "tiled off (new_blocks mx n rid c k off) n"
  using assms
proof (induction mx n rid c k off rule: new_blocks.induct)
  case (1 mx n rid c k off)
  show ?case
  proof (cases "off < n")
    case True
    show ?thesis
    proof (cases "off + mx > n")
      case True
      have "new_blocks mx n rid c (Suc k) (off + mx) = []" using True by (simp add: new_blocks.simps)
      then show ?thesis using True \<open>off < n\<close> 1(2) by (simp add: new_blocks.simps [of mx n rid c k off] Let_def)
    next
      case False
      then have "tiled (off + mx) (new_blocks mx n rid c (Suc k) (off + mx)) n" using 1 True by (simp add: Let_def)
      then show ?thesis using True False 1(2) by (simp add: new_blocks.simps [of mx n rid c k off] Let_def)
    qed
  next
    case False
    then show ?thesis using 1(3) by (simp add: new_blocks.simps)
  qed
qed

lemma new_blocks_caps:
  assumes "0 < mx"
  shows "(\<forall>b \<in> set (new_blocks mx n rid c k off). len b \<le> mx \<and> d_max_size b = len b) \<and>
    map data (new_blocks mx n rid c k off) = [c + k..<c + k + length (new_blocks mx n rid c k off)]"
  using assms
proof (induction mx n rid c k off rule: new_blocks.induct)
  case (1 mx n rid c k off)
  show ?case
  proof (cases "off < n")
    case True
    then have ih: "(\<forall>b \<in> set (new_blocks mx n rid c (Suc k) (off + mx)). len b \<le> mx \<and> d_max_size b = len b) \<and>
      map data (new_blocks mx n rid c (Suc k) (off + mx)) = [c + Suc k..<c + Suc k + length (new_blocks mx n rid c (Suc k) (off + mx))]"
      using 1 by (simp add: Let_def)
    obtain b where b: "new_blocks mx n rid c k off = b # new_blocks mx n rid c (Suc k) (off + mx)" "data b = c + k" "len b \<le> mx" "d_max_size b = len b"
      using True 1(2) by (auto simp: new_blocks.simps [of mx n rid c k off] Let_def)
    have "c + k < c + k + length (b # new_blocks mx n rid c (Suc k) (off + mx))" by simp
    from upt_conv_Cons [OF this] show ?thesis unfolding b(1) using ih b(2-4) by (simp del: upt_Suc)
  next
    case False
    then show ?thesis by (simp add: new_blocks.simps)
  qed
qed

text \<open>The array of new blocks is long enough.\<close>

lemma new_blocks_count:
  assumes "0 < mx"
  shows "int (length (new_blocks mx n rid c k off)) \<le> (if off < n then (n - 1 - off) div mx + 1 else 0)"
  using assms
proof (induction mx n rid c k off rule: new_blocks.induct)
  case (1 mx n rid c k off)
  show ?case
  proof (cases "off < n")
    case True
    have ih: "int (length (new_blocks mx n rid c (Suc k) (off + mx))) \<le> (if off + mx < n then (n - 1 - (off + mx)) div mx + 1 else 0)"
      using 1 True by (simp add: Let_def)
    have "((n - 1 - (off + mx)) + mx) div mx = (n - 1 - (off + mx)) div mx + 1" using 1(2) by (intro div_add_self2) simp
    moreover have "(n - 1 - (off + mx)) + mx = n - 1 - off" by simp
    ultimately have "(n - 1 - off) div mx = (n - 1 - (off + mx)) div mx + 1" by (simp only:)
    moreover have "0 \<le> (n - 1 - off) div mx" using True 1(2) by (simp add: pos_imp_zdiv_nonneg_iff)
    ultimately show ?thesis using ih True 1(2) by (simp add: new_blocks.simps [of mx n rid c k off] Let_def split: if_splits)
  next
    case False
    then show ?thesis by (simp add: new_blocks.simps)
  qed
qed

lemma last_slot:
  assumes "tiled 0 bs t" "0 < t"
  obtains xs b where "bs = xs @ [b]" "tiled 0 xs (seg_offset b)" "seg_offset b + len b = t" "0 < len b" "seg_end b = t - 1"
    "slots_search (t - 1) t bs = [b]"
proof -
  obtain xs b ys where s: "bs = xs @ b # ys" "seg_offset b \<le> t - 1" "t - 1 \<le> seg_end b" "tiled 0 xs (seg_offset b)" "tiled (seg_end b + 1) ys t"
    using tiled_split [OF assms(1), of "t - 1"] assms(2) by auto
  have e: "seg_end b = t - 1" using s(3) tiled_le [OF s(5)] by simp
  then have ys: "ys = []" using s(5) tiled_member [OF s(5)] by (cases ys) fastforce+
  have b: "seg_offset b \<le> seg_end b" "seg_end b = seg_offset b + len b - 1" using tiled_member [OF assms(1), of b] s(1) by auto
  have "filter (\<lambda>b. seg_offset b \<le> t \<and> t - 1 \<le> seg_end b) xs = []"
    using tiled_member [OF s(4)] s(2) by (fastforce simp: filter_empty_conv)
  then have "slots_search (t - 1) t bs = [b]" using s(1,2) e ys by (simp add: slots_search_def)
  then show thesis using that [of xs b] s(1,4) b e ys by simp
qed

lemma end_write_other: "cap \<noteq> data b \<Longrightarrow> end_write b st cap = st cap"
  by (simp add: end_write_def ds_write_def)

lemma end_writes_other: "cap \<notin> data ` set bs \<Longrightarrow> fold end_write bs st cap = st cap"
  by (induction bs arbitrary: st) (auto simp: end_write_other)

text \<open>The slots before the new blocks: the old ones, with the last one possibly longer.\<close>

definition extended :: "seglin_priv_t \<Rightarrow> ds_state \<Rightarrow> int \<Rightarrow> seglin_slot_t list \<Rightarrow> (nat \<Rightarrow> int \<Rightarrow> u8) \<Rightarrow> int \<Rightarrow> bool" where
  "extended s w n bs st m \<longleftrightarrow> tiled 0 bs m \<and> total_size s \<le> m \<and> m \<le> n \<and> map data bs = map data (isl s) \<and>
     (\<forall>b \<in> set bs. len b \<le> max_block_size s) \<and> (\<forall>x. 0 \<le> x \<and> x < total_size s \<longrightarrow> byte_at st bs x = seglin_view s w x)"

lemma extend_last:
  assumes "seglin_ok s w" "isl s = xs @ [b]" "tiled 0 xs (seg_offset b)" "seg_offset b + len b = total_size s" "len b < max_block_size s"
    and "total_size s < n" "dsize = min (n - seg_offset b) (max_block_size s)"
    and "b' = b\<lparr>len := dsize, seg_end := seg_offset b + dsize - 1, d_size := dsize, d_max_size := dsize\<rparr>"
  shows "extended s w n (xs @ [b']) (end_write b' (store w)) (seg_offset b + dsize)"
proof -
  have b: "0 < len b" "seg_end b = seg_offset b + len b - 1" "data b \<notin> data ` set xs" "0 \<le> seg_offset b"
    using assms(1-3) tiled_le [OF assms(3)] by (auto simp: seglin_ok_def tiled_append)
  have d: "len b < dsize" "dsize \<le> max_block_size s" "seg_offset b + dsize \<le> n" using assms(4-7) by auto
  have same: "byte_at (end_write b' (store w)) xs x = byte_at (store w) xs x" for x
  proof (rule byte_at_cong)
    fix c o'
    assume "c \<in> set xs"
    then have "data c \<in> data ` set xs" by (rule imageI)
    moreover have "data b' = data b" using assms(8) by simp
    ultimately have "data c \<noteq> data b'" using b(3) by metis
    then show "end_write b' (store w) (data c) o' = store w (data c) o'" by (simp add: end_write_other)
  qed
  have "byte_at (end_write b' (store w)) (xs @ [b']) x = seglin_view s w x" if x: "0 \<le> x" "x < total_size s" for x
  proof (cases "x < seg_offset b")
    case True
    then show ?thesis using x same assms(2,3) by (simp add: seglin_view_def byte_at_append [OF assms(3)])
  next
    case False
    then have "end_write b' (store w) (data b) (cap_offset b + (x - seg_offset b)) = store w (data b) (cap_offset b + (x - seg_offset b))"
      using x d(1) assms(4,8) by (simp add: end_write_def ds_write_def)
    then show ?thesis using False x d(1) b(2) assms(2,4,8) by (simp add: seglin_view_def byte_at_append [OF assms(3)])
  qed
  moreover have "tiled 0 (xs @ [b']) (seg_offset b + dsize)" using assms(3,8) d(1) b(1) by (auto simp: tiled_append)
  ultimately show ?thesis using assms(1,2,4,8) d by (auto simp: extended_def seglin_ok_def)
qed

text \<open>Adding the new blocks.\<close>

lemma extended_blocks:
  assumes "seglin_ok s w" "extended s w n bs st m" "blocks = new_blocks (max_block_size s) n rid (next_cap w) 0 m"
    and "s' = s\<lparr>isl := fold slots_insert blocks bs, total_size := n\<rparr>"
    and "w' = w\<lparr>store := fold end_write blocks st, next_cap := next_cap w + length blocks\<rparr>"
  shows "seglin_ok s' w' \<and> (\<forall>x. 0 \<le> x \<and> x < total_size s \<longrightarrow> seglin_view s' w' x = seglin_view s w x)"
proof -
  have mx: "0 < max_block_size s" using assms(1) by (simp add: seglin_ok_def)
  have e: "tiled 0 bs m" "total_size s \<le> m" "m \<le> n" "map data bs = map data (isl s)" "\<forall>b \<in> set bs. len b \<le> max_block_size s"
    "\<And>x. 0 \<le> x \<Longrightarrow> x < total_size s \<Longrightarrow> byte_at st bs x = seglin_view s w x"
    using assms(2) by (auto simp: extended_def)
  have t: "tiled m blocks n" unfolding assms(3) by (rule new_blocks_tiled [OF mx e(3)])
  have c: "\<forall>b \<in> set blocks. len b \<le> max_block_size s" "map data blocks = [next_cap w..<next_cap w + length blocks]"
    using new_blocks_caps [OF mx, of n rid "next_cap w" 0 m] by (auto simp: assms(3))
  have caps: "data ` set blocks = {next_cap w..<next_cap w + length blocks}" using arg_cong [OF c(2), of set] by simp
  have old: "data b < next_cap w" if "b \<in> set bs" for b
  proof -
    have "data b \<in> set (map data (isl s))" using that e(4) by (metis image_eqI list.set_map)
    then show ?thesis using assms(1) by (auto simp: seglin_ok_def)
  qed
  have isl: "isl s' = bs @ blocks" unfolding assms(4) using slots_insert_blocks [OF e(1) t] by simp
  have "seglin_view s' w' x = seglin_view s w x" if x: "0 \<le> x" "x < total_size s" for x
  proof -
    have "byte_at (fold end_write blocks st) bs x = byte_at st bs x"
    proof (rule byte_at_cong)
      fix c o'
      assume "c \<in> set bs"
      then have "data c \<notin> data ` set blocks" using old [of c] caps by auto
      then show "fold end_write blocks st (data c) o' = st (data c) o'" by (simp add: end_writes_other)
    qed
    then show ?thesis using e(2,6) x isl assms(5) by (simp add: seglin_view_def byte_at_append [OF e(1)])
  qed
  moreover have "distinct (map data (bs @ blocks))"
    using assms(1) e(4) c(2) old caps by (fastforce simp: seglin_ok_def distinct_map)
  moreover have "\<forall>b \<in> set (bs @ blocks). len b \<le> max_block_size s \<and> data b < next_cap w'"
    using e(5) c(1) old caps assms(5) by fastforce
  moreover have "tiled 0 (bs @ blocks) n" using e(1) t by (auto simp: tiled_append)
  ultimately show ?thesis
    using isl mx e(2,3) assms(1) by (auto simp: seglin_ok_def assms(4))
qed

lemma array_fits:
  assumes "0 < mx" "t \<le> m" "t < n"
  shows "int (length (new_blocks mx n rid c 0 m)) \<le> (n - t) div mx + 1"
proof (cases "m < n")
  case True
  have "(n - 1 - m) div mx \<le> (n - t) div mx" using assms by (intro zdiv_mono1) auto
  then show ?thesis using new_blocks_count [OF assms(1), of n rid c 0 m] True by simp
next
  case False
  then have "length (new_blocks mx n rid c 0 m) = 0" by (simp add: new_blocks.simps)
  moreover have "0 \<le> (n - t) div mx" using assms by (simp add: pos_imp_zdiv_nonneg_iff)
  ultimately show ?thesis by simp
qed

text \<open>What growing gives.\<close>

definition grown :: "seglin_priv_t \<Rightarrow> ds_state \<Rightarrow> int \<Rightarrow> seglin_priv_t \<Rightarrow> ds_state \<Rightarrow> bool" where
  "grown s w n s' w' \<longleftrightarrow> seglin_ok s' w' \<and> total_size s' = n \<and> used_size s' = used_size s \<and> hard_errors s' = hard_errors s \<and>
     max_block_size s' = max_block_size s \<and> excess_block_size s' = excess_block_size s \<and>
     (\<forall>x. 0 \<le> x \<and> x < total_size s \<longrightarrow> seglin_view s' w' x = seglin_view s w x)"

lemma sl_grow_correct:
  assumes ok: "seglin_ok s w" and n: "total_size s < n"
  shows "\<exists>s' w'. sl_grow s w rid True ok2 n = Some (ok2, s', w') \<and> grown s w n s' w'"
proof -
  have mx: "0 < max_block_size s" "0 < n_rid_default s" and t: "0 \<le> total_size s" "tiled 0 (isl s) (total_size s)" using ok by (auto simp: seglin_ok_def)
  have grow: "grown s w n (s\<lparr>isl := fold slots_insert (new_blocks (max_block_size s) n rid (next_cap w) 0 m) bs, total_size := n\<rparr>)
      (w\<lparr>store := fold end_write (new_blocks (max_block_size s) n rid (next_cap w) 0 m) st,
         next_cap := next_cap w + length (new_blocks (max_block_size s) n rid (next_cap w) 0 m)\<rparr>)"
    if "extended s w n bs st m" for bs st m
    using extended_blocks [OF ok that refl refl refl] by (simp add: grown_def)
  have fits: "\<not> int (length (new_blocks (max_block_size s) n rid (next_cap w) 0 m)) > (n - total_size s) div max_block_size s + 1"
    if "total_size s \<le> m" for m
    using array_fits [OF mx(1) that n, of rid "next_cap w"] by simp
  have same: "extended s w n (isl s) (store w) (total_size s)"
    using ok n by (auto simp: extended_def seglin_ok_def seglin_view_def)
  have ne: "new_blocks (max_block_size s) n rid (next_cap w) 0 (total_size s) \<noteq> []" using n mx by (simp add: new_blocks.simps Let_def)
  show ?thesis
  proof (cases "0 < total_size s")
    case False
    then have "total_size s = 0" using t(1) by simp
    then show ?thesis using grow [OF same] fits [of "total_size s"] ne mx n by (simp add: sl_grow_def Let_def)
  next
    case True
    obtain xs b where b: "isl s = xs @ [b]" "tiled 0 xs (seg_offset b)" "seg_offset b + len b = total_size s" "0 < len b"
      "seg_end b = total_size s - 1" "slots_search (total_size s - 1) (total_size s) (isl s) = [b]"
      using last_slot [OF t(2) True] by metis
    show ?thesis
    proof (cases "len b < max_block_size s")
      case False
      then show ?thesis using grow [OF same] fits [of "total_size s"] ne mx n True b(5,6) by (simp add: sl_grow_def Let_def)
    next
      case small: True
      define dsize where "dsize = min (n - seg_offset b) (max_block_size s)"
      define b' where "b' = b\<lparr>len := dsize, seg_end := seg_offset b + dsize - 1, d_size := dsize, d_max_size := dsize\<rparr>"
      have ext: "extended s w n (xs @ [b']) (end_write b' (store w)) (seg_offset b + dsize)"
        by (rule extend_last [OF ok b(1-3) small n dsize_def b'_def])
      have "b \<notin> set xs" using ok b(1) by (auto simp: seglin_ok_def)
      then have "remove1 b (isl s) = xs" using b(1) by (simp add: remove1_append)
      moreover have "slots_insert b' xs = xs @ [b']" using slots_insert_end [OF b(2), of b'] by (simp add: b'_def)
      ultimately have upd: "slots_insert b' (remove1 b (isl s)) = xs @ [b']" by simp
      have "total_size s \<le> seg_offset b + dsize" using ext by (simp add: extended_def)
      then show ?thesis
        using grow [OF ext] fits [of "seg_offset b + dsize"] mx n t(1) True b(6) small upd
        by (simp add: sl_grow_def Let_def dsize_def [symmetric] b'_def [symmetric])
    qed
  qed
qed

text \<open>
  Growing to the current size, which only a reservation asks for: with a last block that could be longer, its last byte is
  overwritten with zero; with a full one there is nothing to wait for, and \<^verbatim>\<open>gop_waitall\<close> is called with \<^verbatim>\<open>NULL\<close>.
\<close>

lemma sl_grow_same:
  assumes ok: "seglin_ok s w" and n: "0 < total_size s" and small: "len (last (isl s)) < max_block_size s"
  shows "\<exists>s' w'. sl_grow s w rid True ok2 (total_size s) = Some (ok2, s', w') \<and> seglin_ok s' w' \<and> total_size s' = total_size s \<and>
    used_size s' = used_size s \<and> excess_block_size s' = excess_block_size s \<and>
    (\<forall>x. 0 \<le> x \<and> x < total_size s - 1 \<longrightarrow> seglin_view s' w' x = seglin_view s w x)"
proof -
  have t: "tiled 0 (isl s) (total_size s)" "0 < max_block_size s" using ok by (simp_all add: seglin_ok_def)
  obtain xs b where b: "isl s = xs @ [b]" "tiled 0 xs (seg_offset b)" "seg_offset b + len b = total_size s" "0 < len b"
    "seg_end b = total_size s - 1" "slots_search (total_size s - 1) (total_size s) (isl s) = [b]"
    using last_slot [OF t(1) n] by metis
  define dsize where "dsize = min (total_size s - seg_offset b) (max_block_size s)"
  define b' where "b' = b\<lparr>len := dsize, seg_end := seg_offset b + dsize - 1, d_size := dsize, d_max_size := dsize\<rparr>"
  have d: "dsize = len b" "len b < max_block_size s" "\<not> seg_offset b + dsize < total_size s" using b(1,3) small by (simp_all add: dsize_def)
  have "data b \<notin> data ` set xs" "b \<notin> set xs" using ok b(1) by (auto simp: seglin_ok_def)
  note fresh = this
  have "slots_insert b' xs = xs @ [b']" using slots_insert_end [OF b(2), of b'] by (simp add: b'_def)
  then have upd: "slots_insert b' (remove1 b (isl s)) = xs @ [b']" using b(1) fresh(2) by (simp add: remove1_append)
  let ?s = "s\<lparr>isl := xs @ [b'], total_size := total_size s\<rparr>" let ?w = "w\<lparr>store := end_write b' (store w)\<rparr>"
  have run: "sl_grow s w rid True ok2 (total_size s) = Some (ok2, ?s, ?w)"
    using n t(2) b(6) d(2,3) upd by (simp add: sl_grow_def Let_def new_blocks.simps dsize_def [symmetric] b'_def [symmetric])
  have ok': "seglin_ok ?s ?w"
    using ok b(1-5) unfolding b'_def d(1) by (auto simp: seglin_ok_def tiled_append)
  have "seglin_view ?s ?w x = seglin_view s w x" if x: "0 \<le> x" "x < total_size s - 1" for x
  proof -
    have "data b' = data b" by (simp add: b'_def)
    then have "data c \<noteq> data b'" if "c \<in> set xs" for c using fresh(1) imageI [OF that, of data] by metis
    then have "byte_at (end_write b' (store w)) xs x = byte_at (store w) xs x"
      by (intro byte_at_cong) (simp add: end_write_other)
    moreover have "end_write b' (store w) (data b) (cap_offset b + (x - seg_offset b)) = store w (data b) (cap_offset b + (x - seg_offset b))"
      using x b(3) by (auto simp: b'_def d(1) end_write_def ds_write_def)
    ultimately show ?thesis using x b(1,3,5) by (simp add: seglin_view_def byte_at_append [OF b(2)] b'_def d(1))
  qed
  then show ?thesis using run ok' by auto
qed

lemma sl_grow_same_full:
  assumes ok: "seglin_ok s w" and n: "0 < total_size s" and full: "\<not> len (last (isl s)) < max_block_size s"
  shows "sl_grow s w rid ok1 ok2 (total_size s) = None"
proof -
  have t: "tiled 0 (isl s) (total_size s)" using ok by (simp add: seglin_ok_def)
  obtain xs b where "isl s = xs @ [b]" "seg_end b = total_size s - 1" "slots_search (total_size s - 1) (total_size s) (isl s) = [b]"
    using last_slot [OF t n] by metis
  then show ?thesis using n full ok by (auto simp: sl_grow_def Let_def new_blocks.simps seglin_ok_def)
qed

text \<open>A failed allocation leaves the segment as it was.\<close>

lemma sl_grow_fails:
  assumes ok: "seglin_ok s w" and n: "total_size s < n"
  shows "\<exists>w'. sl_grow s w rid False ok2 n = Some (False, s, w') \<and> store w' = store w"
proof -
  have mx: "0 < max_block_size s" "0 < n_rid_default s" and t: "0 \<le> total_size s" "tiled 0 (isl s) (total_size s)" using ok by (auto simp: seglin_ok_def)
  have fits: "\<not> int (length (new_blocks (max_block_size s) n rid (next_cap w) 0 m)) > (n - total_size s) div max_block_size s + 1"
    if "total_size s \<le> m" for m
    using array_fits [OF mx(1) that n, of rid "next_cap w"] by simp
  have ne: "new_blocks (max_block_size s) n rid (next_cap w) 0 (total_size s) \<noteq> []" using n mx by (simp add: new_blocks.simps Let_def)
  show ?thesis
  proof (cases "0 < total_size s")
    case False
    then have "total_size s = 0" using t(1) by simp
    then show ?thesis using fits [of "total_size s"] ne mx n by (simp add: sl_grow_def Let_def)
  next
    case True
    obtain xs b where b: "seg_offset b + len b = total_size s" "seg_end b = total_size s - 1" "slots_search (total_size s - 1) (total_size s) (isl s) = [b]"
      using last_slot [OF t(2) True] by metis
    have "total_size s \<le> seg_offset b + min (n - seg_offset b) (max_block_size s)" if "len b < max_block_size s" using that b(1) n by simp
    then show ?thesis
      using fits [of "total_size s"] fits [of "seg_offset b + min (n - seg_offset b) (max_block_size s)"] ne mx n True b
      by (cases "len b < max_block_size s") (simp_all add: sl_grow_def Let_def)
  qed
qed

lemma remove_suffix: "distinct (xs @ ys) \<Longrightarrow> fold remove1 ys (xs @ ys) = xs"
proof (induction ys arbitrary: xs)
  case (Cons y ys)
  then have "remove1 y (xs @ y # ys) = xs @ ys" by (simp add: remove1_append)
  then show ?case using Cons by simp
qed simp

lemma sl_shrink_correct:
  assumes ok: "seglin_ok s w" and n: "0 \<le> n" "n < total_size s"
  shows "\<exists>s'. sl_shrink s r n = Some (r, s') \<and> seglin_ok s' w \<and> total_size s' = n \<and> used_size s' = n \<and>
           (\<forall>x. 0 \<le> x \<and> x < n \<longrightarrow> seglin_view s' w x = seglin_view s w x)"
proof -
  have t: "tiled 0 (isl s) (total_size s)" "distinct (isl s)" using ok by (auto simp: seglin_ok_def distinct_map)
  obtain xs b ys where s: "isl s = xs @ b # ys" "seg_offset b \<le> n" "n \<le> seg_end b" "tiled 0 xs (seg_offset b)" "tiled (seg_end b + 1) ys (total_size s)"
    using tiled_split [OF t(1) n] by metis
  have b: "seg_end b = seg_offset b + len b - 1" using tiled_member [OF t(1), of b] s(1) by auto
  have "slots_search n (total_size s) xs = []" using tiled_member [OF s(4)] s(2) by (fastforce simp: slots_search_def filter_empty_conv)
  moreover have "slots_search n (total_size s) ys = ys" using tiled_member [OF s(5)] s(3) by (fastforce simp: slots_search_def filter_id_conv)
  ultimately have search: "slots_search n (total_size s) (isl s) = b # ys" using s(1-3) n(2) by (simp add: slots_search_def)
  show ?thesis
  proof (cases "n = seg_offset b")
    case True
    have "fold remove1 (b # ys) (isl s) = xs" using remove_suffix [of xs "b # ys"] t(2) s(1) by simp
    then have "sl_shrink s r n = Some (r, s\<lparr>isl := xs, total_size := n, used_size := n\<rparr>)"
      using True search by (simp add: sl_shrink_def)
    then show ?thesis using ok s(1,4) n True by (auto simp: seglin_ok_def seglin_view_def byte_at_append [OF s(4)])
  next
    case False
    let ?b = "b\<lparr>seg_end := seg_offset b + (n - seg_offset b) - 1, len := n - seg_offset b\<rparr>"
    have "fold remove1 ys (isl s) = xs @ [b]" using remove_suffix [of "xs @ [b]" ys] t(2) s(1) by simp
    moreover have "remove1 b (xs @ [b]) = xs" using t(2) s(1) by (simp add: remove1_append)
    moreover have "slots_insert ?b xs = xs @ [?b]" using slots_insert_end [OF s(4), of ?b] by simp
    ultimately have "sl_shrink s r n = Some (r, s\<lparr>isl := xs @ [?b], total_size := n, used_size := n\<rparr>)"
      using False search by (simp add: sl_shrink_def Let_def)
    moreover have "tiled 0 (xs @ [?b]) n" using s(2,4) False by (auto simp: tiled_append)
    ultimately show ?thesis using ok s(1-3) b n False by (auto simp: seglin_ok_def seglin_view_def byte_at_append [OF s(4)])
  qed
qed

section \<open>Reading and writing\<close>

text \<open>The operation on the first slot of a request.\<close>

lemma first_task:
  assumes "tiled a (b # bs) c" "a \<le> hi" "lo \<le> seg_end b" "lo \<le> hi"
  defines "m \<equiv> max lo a" and "l \<equiv> min (hi + 1) (a + len b) - max lo a"
  shows "fst (slot_tasks lo hi bpos (slots_search lo hi (b # bs))) =
           (data b, cap_offset b + (m - a), bpos, l) # fst (slot_tasks lo hi (bpos + l) (slots_search lo hi bs))" "0 < l"
proof -
  have b: "seg_offset b = a" "seg_end b = a + len b - 1" "0 < len b" using assms(1) by auto
  define st where "st = (if lo \<le> seg_offset b then 0 else lo - seg_offset b)"
  define en where "en = (if hi \<ge> seg_end b then len b - 1 else hi - seg_offset b)"
  have eq: "st = m - a" "en - st + 1 = l" using b assms(2,3) by (auto simp: m_def l_def st_def en_def)
  have "slots_search lo hi (b # bs) = b # slots_search lo hi bs" using b assms(2,3) by (simp add: slots_search_def)
  moreover have "fst (slot_tasks lo hi bpos (b # slots_search lo hi bs)) =
      (data b, st + cap_offset b, bpos, en - st + 1) # fst (slot_tasks lo hi (bpos + (en - st + 1)) (slots_search lo hi bs))"
    by (simp only: slot_tasks.simps Let_def split_def fst_conv st_def en_def)
  ultimately show "fst (slot_tasks lo hi bpos (slots_search lo hi (b # bs))) =
      (data b, cap_offset b + (m - a), bpos, l) # fst (slot_tasks lo hi (bpos + l) (slots_search lo hi bs))"
    by (simp only: eq(2) eq(1) [symmetric] add.commute [of "cap_offset b"])
  show "0 < l" using b assms(2-4) by (auto simp: l_def)
qed

lemma no_task:
  assumes "tiled a (b # bs) c" "\<not> (a \<le> hi \<and> lo \<le> seg_end b)"
  shows "slots_search lo hi (b # bs) = slots_search lo hi bs"
  using assms by (auto simp: slots_search_def)

lemma read_block_apply:
  "read_block w (cap, start, bpos, blen) buf p = (if bpos \<le> p \<and> p < bpos + blen then store w cap (start + (p - bpos)) else buf p)"
  by (simp add: read_block_def)

lemma read_slots:
  "tiled a bs c \<Longrightarrow> lo \<le> hi \<Longrightarrow>
     fold (read_block w) (fst (slot_tasks lo hi bpos (slots_search lo hi bs))) buf p =
       (if bpos \<le> p \<and> p < bpos + (min (hi + 1) c - max lo a) then the (byte_at (store w) bs (max lo a + (p - bpos))) else buf p)"
proof (induction bs arbitrary: a bpos buf)
  case Nil
  then show ?case by (auto simp: slots_search_def)
next
  case (Cons b bs)
  have b: "seg_offset b = a" "seg_end b = a + len b - 1" "0 < len b" "tiled (a + len b) bs c" using Cons.prems(1) by auto
  have c: "a + len b \<le> c" by (rule tiled_le [OF b(4)])
  show ?case
  proof (cases "a \<le> hi \<and> lo \<le> seg_end b")
    case True
    define m where "m = max lo a"
    define l where "l = min (hi + 1) (a + len b) - m"
    have ts: "fst (slot_tasks lo hi bpos (slots_search lo hi (b # bs))) =
        (data b, cap_offset b + (m - a), bpos, l) # fst (slot_tasks lo hi (bpos + l) (slots_search lo hi bs))" and l: "0 < l"
      using first_task [OF Cons.prems(1) _ _ Cons.prems(2)] True by (simp_all add: m_def l_def)
    have ih: "fold (read_block w) (fst (slot_tasks lo hi bpos (slots_search lo hi (b # bs)))) buf p =
        (if bpos + l \<le> p \<and> p < bpos + l + (min (hi + 1) c - max lo (a + len b))
         then the (byte_at (store w) bs (max lo (a + len b) + (p - (bpos + l))))
         else if bpos \<le> p \<and> p < bpos + l then store w (data b) (cap_offset b + (m - a) + (p - bpos)) else buf p)"
      unfolding ts using Cons.IH [OF b(4) Cons.prems(2), of "bpos + l"] by (simp add: read_block_apply)
    show ?thesis
    proof (cases "hi < a + len b")
      case True
      then have "min (hi + 1) c - max lo (a + len b) \<le> 0" "min (hi + 1) c = hi + 1" "l = hi + 1 - m" using c by (auto simp: l_def)
      then show ?thesis using ih b True by (auto simp: m_def [symmetric] max_def m_def algebra_simps)
    next
      case False
      have mx: "max lo (a + len b) = a + len b" "l = a + len b - m" "m \<le> seg_end b" "a \<le> m"
        using True False b by (auto simp: l_def m_def)
      have e: "a + len b + (p - (bpos + l)) = m + (p - bpos)" "cap_offset b + (m - a) + (p - bpos) = cap_offset b + (m + (p - bpos) - seg_offset b)"
        "bpos + l + (min (hi + 1) c - (a + len b)) = bpos + (min (hi + 1) c - m)"
        using mx(2) b(1) by simp_all
      have "bpos + l \<le> bpos + (min (hi + 1) c - m)" using mx(2) c False by simp
      then show ?thesis
        unfolding ih mx(1) e m_def [symmetric] using mx(2-4) b by auto
    qed
  next
    case False
    have ih: "fold (read_block w) (fst (slot_tasks lo hi bpos (slots_search lo hi (b # bs)))) buf p =
        (if bpos \<le> p \<and> p < bpos + (min (hi + 1) c - max lo (a + len b)) then the (byte_at (store w) bs (max lo (a + len b) + (p - bpos))) else buf p)"
      using Cons.IH [OF b(4) Cons.prems(2)] no_task [OF Cons.prems(1) False] by simp
    show ?thesis
    proof (cases "a \<le> hi")
      case True
      then have "a + len b \<le> lo" using False b(2) by simp
      then show ?thesis using ih b by (auto simp: max_def)
    next
      case False
      then show ?thesis using ih b(3) by (auto simp: max_def min_def)
    qed
  qed
qed

lemma write_block_apply:
  assumes "0 < blen"
  shows "store (write_block buf (cap, start, bpos, blen) w) cap' o' =
           (if cap' = cap \<and> start \<le> o' \<and> o' < start + blen then buf (bpos + (o' - start)) else store w cap' o')"
  using assms by (auto simp: write_block_def ds_write_def)

lemma write_block_next [simp]: "next_cap (write_block buf t w) = next_cap w"
  by (simp add: write_block_def split: prod.splits)

lemma write_blocks_next [simp]: "next_cap (fold (write_block buf) ts w) = next_cap w"
  by (induction ts arbitrary: w) auto

lemma write_blocks_other: "cap \<notin> fst ` set ts \<Longrightarrow> store (fold (write_block buf) ts w) cap = store w cap"
  by (induction ts arbitrary: w) (auto simp: write_block_def ds_write_def)

lemma slot_tasks_caps: "fst ` set (fst (slot_tasks lo hi bpos bs)) = data ` set bs"
  by (induction bs arbitrary: bpos) (auto simp: Let_def split_def)

lemma search_tasks_caps: "fst ` set (fst (slot_tasks lo hi bpos (slots_search lo hi bs))) \<subseteq> data ` set bs"
  by (auto simp: slot_tasks_caps slots_search_def)

lemma write_slots:
  "tiled a bs c \<Longrightarrow> lo \<le> hi \<Longrightarrow> distinct (map data bs) \<Longrightarrow>
     byte_at (store (fold (write_block buf) (fst (slot_tasks lo hi bpos (slots_search lo hi bs))) w)) bs x =
       (if max lo a \<le> x \<and> x < min (hi + 1) c then Some (buf (bpos + (x - max lo a))) else byte_at (store w) bs x)"
proof (induction bs arbitrary: a bpos w)
  case Nil
  then show ?case by auto
next
  case (Cons b bs)
  have b: "seg_offset b = a" "seg_end b = a + len b - 1" "0 < len b" "tiled (a + len b) bs c" "data b \<notin> data ` set bs" "distinct (map data bs)"
    using Cons.prems(1,3) by auto
  have c: "a + len b \<le> c" by (rule tiled_le [OF b(4)])
  have keep: "store (fold (write_block buf) (fst (slot_tasks lo hi q (slots_search lo hi bs))) v) (data b) = store v (data b)" for q v
    using search_tasks_caps [of lo hi q bs] b(5) by (intro write_blocks_other) auto
  show ?case
  proof (cases "a \<le> hi \<and> lo \<le> seg_end b")
    case True
    define m where "m = max lo a"
    define l where "l = min (hi + 1) (a + len b) - m"
    define w1 where "w1 = write_block buf (data b, cap_offset b + (m - a), bpos, l) w"
    define w2 where "w2 = fold (write_block buf) (fst (slot_tasks lo hi (bpos + l) (slots_search lo hi bs))) w1"
    have ts: "fst (slot_tasks lo hi bpos (slots_search lo hi (b # bs))) =
        (data b, cap_offset b + (m - a), bpos, l) # fst (slot_tasks lo hi (bpos + l) (slots_search lo hi bs))" and l: "0 < l"
      using first_task [OF Cons.prems(1) _ _ Cons.prems(2)] True by (simp_all add: m_def l_def)
    then have w2: "fold (write_block buf) (fst (slot_tasks lo hi bpos (slots_search lo hi (b # bs)))) w = w2"
      by (simp add: w1_def w2_def)
    have ma: "a \<le> m" "m \<le> seg_end b" using True b by (auto simp: m_def)
    show ?thesis
    proof (cases "a \<le> x \<and> x \<le> seg_end b")
      case in_b: True
      have "byte_at (store w2) (b # bs) x = Some (store w1 (data b) (cap_offset b + (x - a)))"
        using in_b b(1) keep by (simp add: w2_def)
      also have "\<dots> = (if m \<le> x \<and> x < m + l then Some (buf (bpos + (x - m))) else Some (store w (data b) (cap_offset b + (x - a))))"
        using l by (auto simp: w1_def write_block_apply algebra_simps)
      finally show ?thesis unfolding w2 m_def [symmetric] using in_b b(1,2) c by (auto simp: l_def)
    next
      case out: False
      have "byte_at (store w1) bs x = byte_at (store w) bs x"
      proof (rule byte_at_cong)
        fix d o'
        assume "d \<in> set bs"
        then have "data d \<noteq> data b" using b(5) by (metis imageI)
        then show "store w1 (data d) o' = store w (data d) o'" using l by (simp add: w1_def write_block_apply)
      qed
      then have r1: "byte_at (store w2) (b # bs) x =
          (if max lo (a + len b) \<le> x \<and> x < min (hi + 1) c then Some (buf (bpos + l + (x - max lo (a + len b)))) else byte_at (store w) (b # bs) x)"
        using Cons.IH [OF b(4) Cons.prems(2) b(6), of "bpos + l" w1] out b(1) by (auto simp: w2_def)
      have r2: "max lo (a + len b) \<le> x \<and> x < min (hi + 1) c \<longleftrightarrow> m \<le> x \<and> x < min (hi + 1) c"
        using out ma b(2) by (auto simp: m_def)
      have r3: "bpos + l + (x - max lo (a + len b)) = bpos + (x - m)" if "m \<le> x" "x < min (hi + 1) c"
        using that out ma b(2) True by (auto simp: l_def max_def)
      show ?thesis
      proof (cases "m \<le> x \<and> x < min (hi + 1) c")
        case True
        then show ?thesis unfolding w2 m_def [symmetric] r1 r2 using r3 by (simp only: if_True simp_thms)
      qed (simp only: w2 m_def [symmetric] r1 r2 if_False)
    qed
  next
    case False
    define w2 where "w2 = fold (write_block buf) (fst (slot_tasks lo hi bpos (slots_search lo hi bs))) w"
    have w2: "fold (write_block buf) (fst (slot_tasks lo hi bpos (slots_search lo hi (b # bs)))) w = w2"
      using no_task [OF Cons.prems(1) False] by (simp add: w2_def)
    have ih: "byte_at (store w2) bs x = (if max lo (a + len b) \<le> x \<and> x < min (hi + 1) c then Some (buf (bpos + (x - max lo (a + len b)))) else byte_at (store w) bs x)"
      using Cons.IH [OF b(4) Cons.prems(2) b(6)] by (simp add: w2_def)
    have st: "store w2 (data b) = store w (data b)" using keep by (simp add: w2_def)
    show ?thesis unfolding w2 using False ih st b(1-3) by (cases "a \<le> hi") (auto simp: max_def)
  qed
qed

text \<open>A request of one piece executes all of its operations.\<close>

lemma queue_tasks_some: "queue_tasks ts g (Some q) = (if ts = [] then g else Some (last ts), Some (q @ ts))"
  by (induction ts arbitrary: g q) (auto simp: Let_def)

lemma executed_single: "executed s [(off, l)] boff = fst (slot_tasks off (off + l - 1) boff (slots_search off (off + l - 1) (isl s)))"
proof -
  obtain ts bp where "slot_tasks off (off + l - 1) boff (slots_search off (off + l - 1) (isl s)) = (ts, bp)" by fastforce
  moreover have "(case queue_tasks ts None None of (gop, Some q) \<Rightarrow> q | (Some gop, None) \<Rightarrow> [gop] | (None, None) \<Rightarrow> []) = ts"
  proof (cases ts)
    case (Cons t ts')
    then show ?thesis by (cases ts') (auto simp: queue_tasks_some Let_def)
  qed simp
  ultimately show ?thesis by (simp add: executed_def Let_def split: prod.splits option.splits)
qed

lemma executed_nonempty:
  assumes "tiled 0 (isl s) (total_size s)" "0 \<le> off" "0 < l" "off < total_size s"
  shows "executed s [(off, l)] boff \<noteq> []"
proof -
  obtain xs b ys where "isl s = xs @ b # ys" "seg_offset b \<le> off" "off \<le> seg_end b"
    using tiled_split [OF assms(1,2,4)] by metis
  then have "b \<in> set (slots_search off (off + l - 1) (isl s))" using assms(3) by (simp add: slots_search_def)
  then show ?thesis using slot_tasks_caps [of off "off + l - 1" boff "slots_search off (off + l - 1) (isl s)"]
    by (auto simp: executed_single)
qed

section \<open>Properties\<close>

text \<open>
  C9: truncating a well formed linear segment to any size that is not negative keeps it well formed when the
  allocations succeed: its slots cover exactly the new size without gaps or overlaps, no slot is longer than the
  maximal block size, no two slots share an allocation, and every byte below both sizes is what it was.
\<close>

theorem seglin_truncate_correct:
  assumes "seglin_ok s w" "0 \<le> n"
  shows "\<exists>r s' w'. sl_truncate s w rid True ok2 n = Some (r, s', w') \<and> seglin_ok s' w' \<and> total_size s' = n \<and>
           (\<forall>x. 0 \<le> x \<and> x < min n (total_size s) \<longrightarrow> seglin_view s' w' x = seglin_view s w x)"
proof -
  consider "n < total_size s" | "total_size s < n" | "n = total_size s" by linarith
  then show ?thesis
  proof cases
    case 1
    then obtain s' where "sl_shrink s True n = Some (True, s')" "seglin_ok s' w" "total_size s' = n" "\<forall>x. 0 \<le> x \<and> x < n \<longrightarrow> seglin_view s' w x = seglin_view s w x"
      using sl_shrink_correct [OF assms] by blast
    then show ?thesis using 1 assms(2) by (auto simp: sl_truncate_def)
  next
    case 2
    then show ?thesis using sl_grow_correct [OF assms(1) 2, of rid ok2] assms(2) by (auto simp: sl_truncate_def grown_def)
  next
    case 3
    then show ?thesis using assms by (auto simp: sl_truncate_def)
  qed
qed

definition demo_slot :: seglin_slot_t where
  "demo_slot = \<lparr>data = 4, d_size = 8, d_max_size = 8, rid_key = ''r'', cap_offset = 0, seg_offset = 0, seg_end = 7, len = 8\<rparr>"

definition demo_seg :: seglin_priv_t where
  "demo_seg = \<lparr>used_size = 8, total_size = 8, max_block_size = 16, excess_block_size = 4, n_rid_default = 1, hard_errors = 0, isl = [demo_slot]\<rparr>"

definition demo_ds :: ds_state where
  "demo_ds = \<lparr>store = (\<lambda>_ _. 7), next_cap = 5\<rparr>"

lemma demo_seg_ok: "seglin_ok demo_seg demo_ds"
  by (simp add: seglin_ok_def demo_seg_def demo_ds_def demo_slot_def)

theorem seglin_truncate_correct_witness:
  "\<exists>r s' w'. sl_truncate demo_seg demo_ds (\<lambda>_. ''r'') True True 40 = Some (r, s', w') \<and> total_size s' = 40 \<and> seglin_view s' w' 7 = Some 7"
proof -
  obtain r s' w' where "sl_truncate demo_seg demo_ds (\<lambda>_. ''r'') True True 40 = Some (r, s', w')" "total_size s' = 40"
    "\<forall>x. 0 \<le> x \<and> x < min 40 (total_size demo_seg) \<longrightarrow> seglin_view s' w' x = seglin_view demo_seg demo_ds x"
    using seglin_truncate_correct [OF demo_seg_ok, of 40 "\<lambda>_. ''r''" True] by auto
  moreover have "seglin_view demo_seg demo_ds 7 = Some 7" "total_size demo_seg = 8"
    by (simp_all add: seglin_view_def demo_seg_def demo_slot_def demo_ds_def)
  ultimately show ?thesis by auto
qed

text \<open>A read of one piece.\<close>

lemma seglin_read_piece:
  assumes "seglin_ok s w" "0 \<le> off" "0 < l" "off + l \<le> total_size s" "state \<noteq> 0"
  shows "\<exists>buf'. seglin_read_func s w state (\<lambda>_. True) [(off, l)] boff buf = (OP_STATE_SUCCESS, s\<lparr>hard_errors := hard_errors s + 1\<rparr>, buf') \<and>
           (\<forall>p. buf' p = (if boff \<le> p \<and> p < boff + l then the (seglin_view s w (off + (p - boff))) else buf p))"
proof -
  have t: "tiled 0 (isl s) (total_size s)" using assms(1) by (simp add: seglin_ok_def)
  define buf' where "buf' = fold (read_block w) (executed s [(off, l)] boff) buf"
  have "buf' p = (if boff \<le> p \<and> p < boff + l then the (seglin_view s w (off + (p - boff))) else buf p)" for p
    using read_slots [OF t, of off "off + l - 1" w boff buf p] assms(2-4) by (simp add: buf'_def executed_single seglin_view_def)
  moreover have "executed s [(off, l)] boff \<noteq> []" using executed_nonempty [OF t assms(2,3)] assms(3,4) by simp
  ultimately show ?thesis using assms(5) by (auto simp: seglin_read_func_def buf'_def Let_def)
qed

text \<open>
  C20: a read of one piece inside of the segment whose block reads all take effect puts exactly the bytes of the segment
  into the buffer and touches no other byte of it.  The read is reported as a success, whatever status the wait for the
  data service returned, and counts as a hard error.
\<close>

theorem seglin_read_correct:
  assumes "seglin_ok s w" "0 \<le> off" "0 < l" "off + l \<le> total_size s" "state \<noteq> 0"
  shows "\<exists>buf'. seglin_read_func s w state (\<lambda>_. True) [(off, l)] boff buf = (OP_STATE_SUCCESS, s\<lparr>hard_errors := hard_errors s + 1\<rparr>, buf') \<and>
           (\<forall>p. buf' p = (if boff \<le> p \<and> p < boff + l then the (seglin_view s w (off + (p - boff))) else buf p))"
  using seglin_read_piece [OF assms, of boff buf] .

theorem seglin_read_correct_witness:
  "\<exists>buf'. seglin_read_func demo_seg demo_ds OP_STATE_FAILURE (\<lambda>_. True) [(2, 3)] 0 (\<lambda>_. 0) =
      (OP_STATE_SUCCESS, demo_seg\<lparr>hard_errors := hard_errors demo_seg + 1\<rparr>, buf') \<and>
      (\<forall>p. buf' p = (if 0 \<le> p \<and> p < 0 + 3 then the (seglin_view demo_seg demo_ds (2 + (p - 0))) else (\<lambda>_. 0) p))"
  by (rule seglin_read_correct [OF demo_seg_ok]) (simp_all add: demo_seg_def OP_STATE_FAILURE_def)

text \<open>A write of one piece.\<close>

lemma seglin_write_piece:
  assumes "seglin_ok s w" "0 \<le> off" "0 < l" "1 \<le> excess_block_size s"
  shows "\<exists>s' w'. seglin_write_func s w rid True ok2 OP_STATE_SUCCESS (\<lambda>_. True) [(off, l)] boff buf = Some (OP_STATE_SUCCESS, s', w') \<and>
           seglin_ok s' w' \<and> total_size s \<le> total_size s' \<and> excess_block_size s' = excess_block_size s \<and> off + l \<le> total_size s' \<and> used_size s' = max (used_size s) (off + l) \<and>
           (\<forall>x. 0 \<le> x \<longrightarrow> off \<le> x \<and> x < off + l \<longrightarrow> seglin_view s' w' x = Some (buf (boff + (x - off)))) \<and>
           (\<forall>x. 0 \<le> x \<longrightarrow> x < total_size s \<longrightarrow> \<not> (off \<le> x \<and> x < off + l) \<longrightarrow> seglin_view s' w' x = seglin_view s w x)"
proof -
  let ?m = "off + l - 1"
  have maxpos: "foldl (\<lambda>m (off, l). if off + l - 1 > m then off + l - 1 else m) 0 [(off, l)] = ?m" using assms(2,3) by simp
  obtain s1 w1 where g: "(if ?m \<ge> total_size s \<and> total_size s < ?m + excess_block_size s
      then map_option snd (sl_truncate s w rid True ok2 (?m + excess_block_size s)) else Some (s, w)) = Some (s1, w1)"
    and ok1: "seglin_ok s1 w1" "?m < total_size s1" "used_size s1 = used_size s" "hard_errors s1 = hard_errors s"
      "\<And>x. 0 \<le> x \<Longrightarrow> x < total_size s \<Longrightarrow> seglin_view s1 w1 x = seglin_view s w x" "total_size s \<le> total_size s1" "excess_block_size s1 = excess_block_size s"
  proof (cases "total_size s \<le> ?m")
    case True
    then have n: "total_size s < ?m + excess_block_size s" using assms(4) by simp
    obtain s' w' where "sl_grow s w rid True ok2 (?m + excess_block_size s) = Some (ok2, s', w')" "grown s w (?m + excess_block_size s) s' w'"
      using sl_grow_correct [OF assms(1) n] by blast
    then show ?thesis using that [of s' w'] True n assms by (auto simp: sl_truncate_def grown_def)
  next
    case False
    then show ?thesis using that [of s w] assms(1) by simp
  qed
  have t: "tiled 0 (isl s1) (total_size s1)" "distinct (map data (isl s1))" using ok1(1) by (auto simp: seglin_ok_def)
  have ne: "executed s1 [(off, l)] boff \<noteq> []" using executed_nonempty [OF t(1) assms(2,3)] ok1(2) assms(3) by simp
  define w2 where "w2 = fold (write_block buf) (executed s1 [(off, l)] boff) w1"
  define s2 where "s2 = (if used_size s1 \<le> ?m then s1\<lparr>used_size := ?m + 1\<rparr> else s1)"
  have run: "seglin_write_func s w rid True ok2 OP_STATE_SUCCESS (\<lambda>_. True) [(off, l)] boff buf = Some (OP_STATE_SUCCESS, s2, w2)"
    unfolding seglin_write_func_def Let_def maxpos g using ne by (simp add: seglin_write_op_def w2_def s2_def Let_def)
  have seglin_view2: "seglin_view s2 w2 x = (if off \<le> x \<and> x < off + l then Some (buf (boff + (x - off))) else seglin_view s1 w1 x)" if "0 \<le> x" for x
    using write_slots [OF t(1) _ t(2), of off ?m buf boff w1 x] assms(2,3) ok1(2)
    by (simp add: seglin_view_def s2_def w2_def executed_single)
  have "seglin_ok s2 w2" using ok1(1) by (auto simp: seglin_ok_def s2_def w2_def)
  moreover have "used_size s2 = max (used_size s) (off + l)" "total_size s2 = total_size s1" "excess_block_size s2 = excess_block_size s" using ok1(3,7) by (auto simp: s2_def)
  ultimately show ?thesis using run seglin_view2 ok1(2,5,6) by (intro exI [of _ s2] exI [of _ w2]) auto
qed

text \<open>
  C8: when the services work and the excess block size is at least one, a write of one piece grows the segment as needed
  and puts exactly the bytes of the buffer into the segment: the bytes of the piece are the buffer's, every other byte of
  the old segment is kept, and the used size covers the piece.
\<close>

theorem seglin_write_correct:
  assumes "seglin_ok s w" "0 \<le> off" "0 < l" "1 \<le> excess_block_size s"
  shows "\<exists>s' w'. seglin_write_func s w rid True ok2 OP_STATE_SUCCESS (\<lambda>_. True) [(off, l)] boff buf = Some (OP_STATE_SUCCESS, s', w') \<and>
           seglin_ok s' w' \<and> off + l \<le> total_size s' \<and> used_size s' = max (used_size s) (off + l) \<and>
           (\<forall>x. 0 \<le> x \<longrightarrow> off \<le> x \<and> x < off + l \<longrightarrow> seglin_view s' w' x = Some (buf (boff + (x - off)))) \<and>
           (\<forall>x. 0 \<le> x \<longrightarrow> x < total_size s \<longrightarrow> \<not> (off \<le> x \<and> x < off + l) \<longrightarrow> seglin_view s' w' x = seglin_view s w x)"
  using seglin_write_piece [OF assms, of rid ok2 boff buf] by blast

theorem seglin_write_correct_witness:
  "\<exists>s' w'. seglin_write_func demo_seg demo_ds (\<lambda>_. ''r'') True True OP_STATE_SUCCESS (\<lambda>_. True) [(6, 30)] 0 (\<lambda>_. 9) = Some (OP_STATE_SUCCESS, s', w') \<and>
     used_size s' = 36 \<and> seglin_view s' w' 35 = Some 9 \<and> seglin_view s' w' 5 = Some 7"
proof -
  obtain s' w' where "seglin_write_func demo_seg demo_ds (\<lambda>_. ''r'') True True OP_STATE_SUCCESS (\<lambda>_. True) [(6, 30)] 0 (\<lambda>_. 9) = Some (OP_STATE_SUCCESS, s', w')"
    "used_size s' = max (used_size demo_seg) (6 + 30)"
    "\<forall>x. 0 \<le> x \<longrightarrow> 6 \<le> x \<and> x < 6 + 30 \<longrightarrow> seglin_view s' w' x = Some 9"
    "\<forall>x. 0 \<le> x \<longrightarrow> x < total_size demo_seg \<longrightarrow> \<not> (6 \<le> x \<and> x < 6 + 30) \<longrightarrow> seglin_view s' w' x = seglin_view demo_seg demo_ds x"
    using seglin_write_correct [OF demo_seg_ok, of 6 30 "\<lambda>_. ''r''" True 0 "\<lambda>_. 9"] by (auto simp: demo_seg_def)
  moreover have "seglin_view demo_seg demo_ds 5 = Some 7" "total_size demo_seg = 8" "used_size demo_seg = 8"
    by (simp_all add: seglin_view_def demo_seg_def demo_slot_def demo_ds_def)
  ultimately show ?thesis by auto
qed

lemma search_inside:
  assumes "tiled 0 bs t" "b \<in> set bs" "seg_offset b \<le> lo" "lo \<le> hi" "hi \<le> seg_end b"
  shows "slots_search lo hi bs = [b]"
proof -
  have lo: "0 \<le> lo" "lo < t" using tiled_member [OF assms(1,2)] assms(3-5) by auto
  obtain xs b' ys where s: "bs = xs @ b' # ys" "seg_offset b' \<le> lo" "lo \<le> seg_end b'" "tiled 0 xs (seg_offset b')" "tiled (seg_end b' + 1) ys t"
    using tiled_split [OF assms(1) lo] by metis
  have "b \<notin> set xs" "b \<notin> set ys" using tiled_member [OF s(4), of b] tiled_member [OF s(5), of b] s(2,3) assms(3-5) by auto
  then have b: "b' = b" using assms(2) s(1) by auto
  have "slots_search lo hi xs = []" "slots_search lo hi ys = []"
    using tiled_member [OF s(4)] tiled_member [OF s(5)] s(2) assms(5) b by (fastforce simp: slots_search_def filter_empty_conv)+
  then show ?thesis using s(1-3) b assms(4) by (simp add: slots_search_def)
qed

text \<open>
  Of a write of two pieces, each inside of one slot, only the second one is executed: the bytes of the first piece
  never reach the segment, and the write is reported as a success.
\<close>

lemma seglin_write_loses_piece:
  assumes "seglin_ok s w" "b1 \<in> set (isl s)" "seg_offset b1 \<le> o1" "0 < l1" "o1 + l1 - 1 \<le> seg_end b1"
    and "b2 \<in> set (isl s)" "seg_offset b2 \<le> o2" "0 < l2" "o2 + l2 - 1 \<le> seg_end b2" "0 \<le> x" "\<not> (o2 \<le> x \<and> x < o2 + l2)"
  shows "\<exists>s' w'. seglin_write_func s w rid ok1 ok2 OP_STATE_SUCCESS (\<lambda>_. True) [(o1, l1), (o2, l2)] boff buf = Some (OP_STATE_SUCCESS, s', w') \<and>
           seglin_view s' w' x = seglin_view s w x"
proof -
  have t: "tiled 0 (isl s) (total_size s)" "distinct (map data (isl s))" using assms(1) by (auto simp: seglin_ok_def)
  have in1: "0 \<le> o1" "o1 + l1 - 1 < total_size s" and in2: "0 \<le> o2" "o2 + l2 - 1 < total_size s"
    using tiled_member [OF t(1) assms(2)] tiled_member [OF t(1) assms(6)] assms by auto
  have search: "slots_search o1 (o1 + l1 - 1) (isl s) = [b1]" "slots_search o2 (o2 + l2 - 1) (isl s) = [b2]"
    using search_inside [OF t(1) assms(2,3)] search_inside [OF t(1) assms(6,7)] assms by auto
  define m where "m = foldl (\<lambda>m (off, l). if off + l - 1 > m then off + l - 1 else m) 0 [(o1, l1), (o2, l2)]"
  have m: "\<not> total_size s \<le> m" using in1 in2 assms by (simp add: m_def)
  obtain t1 p1 where s1: "slot_tasks o1 (o1 + l1 - 1) boff [b1] = ([t1], p1)" by (simp add: Let_def)
  define ts where "ts = fst (slot_tasks o2 (o2 + l2 - 1) p1 (slots_search o2 (o2 + l2 - 1) (isl s)))"
  have ex: "executed s [(o1, l1), (o2, l2)] boff = ts"
    using s1 by (simp add: executed_def search ts_def Let_def)
  have "ts \<noteq> []" using search by (simp add: ts_def Let_def)
  then have run: "seglin_write_func s w rid ok1 ok2 OP_STATE_SUCCESS (\<lambda>_. True) [(o1, l1), (o2, l2)] boff buf =
      Some (OP_STATE_SUCCESS, if used_size s \<le> m then s\<lparr>used_size := m + 1\<rparr> else s, fold (write_block buf) ts w)"
    unfolding seglin_write_func_def Let_def m_def [symmetric] using m by (simp add: seglin_write_op_def ex Let_def)
  have "byte_at (store (fold (write_block buf) ts w)) (isl s) x = byte_at (store w) (isl s) x"
    using write_slots [OF t(1) _ t(2), of o2 "o2 + l2 - 1" buf p1 w x] assms(8,10,11) in2 by (auto simp: ts_def)
  then show ?thesis unfolding run by (auto simp: seglin_view_def)
qed

lemma seglin_write_loses_piece_witness:
  "\<exists>s' w'. seglin_write_func demo_seg demo_ds (\<lambda>_. ''r'') True True OP_STATE_SUCCESS (\<lambda>_. True) [(0, 2), (4, 2)] 0 (\<lambda>_. 9) = Some (OP_STATE_SUCCESS, s', w') \<and>
     seglin_view s' w' 0 = Some 7"
proof -
  have "demo_slot \<in> set (isl demo_seg)" by (simp add: demo_seg_def)
  moreover have "seglin_view demo_seg demo_ds 0 = Some 7" by (simp add: seglin_view_def demo_seg_def demo_slot_def demo_ds_def)
  ultimately show ?thesis
    using seglin_write_loses_piece [OF demo_seg_ok, of demo_slot 0 2 demo_slot 4 2 0 "\<lambda>_. ''r''" True True 0 "\<lambda>_. 9"]
    by (simp add: demo_slot_def)
qed

text \<open>
  When a segment cannot be grown, a write that starts inside of it and ends outside is still reported as a success,
  and the used size covers the whole piece, although no slot has the bytes from the old total size on.
\<close>

lemma seglin_write_without_space:
  assumes "seglin_ok s w" "0 \<le> off" "off < total_size s" "total_size s < off + l" "1 \<le> excess_block_size s" "used_size s \<le> total_size s"
  shows "\<exists>s' w'. seglin_write_func s w rid False ok2 OP_STATE_SUCCESS (\<lambda>_. True) [(off, l)] boff buf = Some (OP_STATE_SUCCESS, s', w') \<and>
           used_size s' = off + l \<and> (\<forall>x \<ge> total_size s. seglin_view s' w' x = None)"
proof -
  let ?m = "off + l - 1" and ?n = "off + l - 1 + excess_block_size s"
  have l: "0 < l" using assms by simp
  have maxpos: "foldl (\<lambda>m (off, l). if off + l - 1 > m then off + l - 1 else m) 0 [(off, l)] = ?m" using assms by simp
  have n: "total_size s < ?n" using assms by simp
  obtain w1 where g: "sl_grow s w rid False ok2 ?n = Some (False, s, w1)" using sl_grow_fails [OF assms(1) n] by blast
  have t: "tiled 0 (isl s) (total_size s)" using assms(1) by (simp add: seglin_ok_def)
  have ne: "executed s [(off, l)] boff \<noteq> []" by (rule executed_nonempty [OF t assms(2) l assms(3)])
  define w2 where "w2 = fold (write_block buf) (executed s [(off, l)] boff) w1"
  have "(if ?m \<ge> total_size s \<and> total_size s < ?n then map_option snd (sl_truncate s w rid False ok2 ?n) else Some (s, w)) = Some (s, w1)"
    using g n assms by (simp add: sl_truncate_def)
  then have "seglin_write_func s w rid False ok2 OP_STATE_SUCCESS (\<lambda>_. True) [(off, l)] boff buf =
      Some (OP_STATE_SUCCESS, s\<lparr>used_size := ?m + 1\<rparr>, w2)"
    unfolding seglin_write_func_def Let_def maxpos using ne assms(4,6) by (simp add: seglin_write_op_def w2_def Let_def)
  moreover have "seglin_view (s\<lparr>used_size := ?m + 1\<rparr>) w2 x = None" if "total_size s \<le> x" for x
    using byte_at_outside [OF t, of x] that by (simp add: seglin_view_def)
  ultimately show ?thesis by auto
qed

lemma seglin_write_without_space_witness:
  "\<exists>s' w'. seglin_write_func demo_seg demo_ds (\<lambda>_. ''r'') False True OP_STATE_SUCCESS (\<lambda>_. True) [(6, 30)] 0 (\<lambda>_. 9) = Some (OP_STATE_SUCCESS, s', w') \<and>
     used_size s' = 36 \<and> (\<forall>x \<ge> total_size demo_seg. seglin_view s' w' x = None)"
  using seglin_write_without_space [OF demo_seg_ok, of 6 30 "\<lambda>_. ''r''" True 0 "\<lambda>_. 9"] by (simp add: demo_seg_def)

section \<open>Cloning\<close>

fun clones :: "nat \<Rightarrow> seglin_slot_t list \<Rightarrow> seglin_slot_t list" where
  "clones c [] = []"
| "clones c (b # bs) = clone_slot c b # clones (Suc c) bs"

lemma clones_upt: "map (\<lambda>i. clone_slot (c + i) (bs ! i)) [0..<length bs] = clones c bs"
proof (induction bs arbitrary: c)
  case (Cons b bs)
  have "map (\<lambda>i. clone_slot (c + i) ((b # bs) ! i)) [0..<Suc (length bs)] =
      clone_slot c b # map (\<lambda>i. clone_slot (Suc c + i) (bs ! i)) [0..<length bs]"
    by (simp only: map_upt_Suc) simp
  then show ?case using Cons [of "Suc c"] by simp
qed simp

lemma clones_facts:
  "tiled a (clones c bs) e \<longleftrightarrow> tiled a bs e" "map data (clones c bs) = [c..<c + length bs]" "map len (clones c bs) = map len bs"
proof -
  show "tiled a (clones c bs) e \<longleftrightarrow> tiled a bs e" by (induction bs arbitrary: a c) (auto simp: clone_slot_def)
  show "map data (clones c bs) = [c..<c + length bs]"
  proof (induction bs arbitrary: c)
    case (Cons b bs)
    have "c < c + length (b # bs)" by simp
    from upt_conv_Cons [OF this] Cons [of "Suc c"] show ?case by (simp add: clone_slot_def del: upt_Suc)
  qed simp
  show "map len (clones c bs) = map len bs" by (induction bs arbitrary: c) (auto simp: clone_slot_def)
qed

lemma copy_slots_other:
  "cap \<notin> data ` snd ` set ps \<Longrightarrow> fold (\<lambda>(bs, bd). copy_slot bs bd) ps st cap = st cap"
  by (induction ps arbitrary: st) (auto simp: copy_slot_def ds_write_def)

lemma clones_copied:
  "tiled a bs e \<Longrightarrow> \<forall>b \<in> set bs. data b < c \<Longrightarrow>
     byte_at (fold (\<lambda>(bs, bd). copy_slot bs bd) (zip bs (clones c bs)) st) (clones c bs) x = byte_at st bs x"
proof (induction bs arbitrary: a c st)
  case (Cons b bs)
  define st1 where "st1 = copy_slot b (clone_slot c b) st"
  define st2 where "st2 = fold (\<lambda>(bs, bd). copy_slot bs bd) (zip bs (clones (Suc c) bs)) st1"
  have b: "seg_offset b = a" "seg_end b = a + len b - 1" "tiled (a + len b) bs e" using Cons.prems(1) by auto
  have "data ` snd ` set (zip bs (clones (Suc c) bs)) \<subseteq> set (map data (clones (Suc c) bs))" by (auto dest: set_zip_rightD)
  moreover have "c \<notin> set (map data (clones (Suc c) bs))" unfolding clones_facts(2) by (simp del: upt_Suc)
  ultimately have "c \<notin> data ` snd ` set (zip bs (clones (Suc c) bs))" by blast
  then have st2: "st2 c = st1 c" unfolding st2_def by (rule copy_slots_other)
  have rest: "byte_at st2 (clones (Suc c) bs) x = byte_at st1 bs x"
    unfolding st2_def using Cons.prems(2) by (intro Cons.IH [OF b(3)]) (auto simp: less_Suc_eq)
  have same: "byte_at st1 bs x = byte_at st bs x"
    by (rule byte_at_cong) (use Cons.prems(2) in \<open>auto simp: st1_def copy_slot_def ds_write_def clone_slot_def\<close>)
  have "byte_at st2 (clone_slot c b # clones (Suc c) bs) x = byte_at st (b # bs) x"
  proof (cases "a \<le> x \<and> x \<le> seg_end b")
    case True
    then have "st1 c (x - a) = st (data b) (cap_offset b + (x - a))"
      using b(2) by (auto simp: st1_def copy_slot_def ds_write_def clone_slot_def)
    then show ?thesis using True b(1) st2 by (simp add: clone_slot_def)
  next
    case False
    then show ?thesis using b(1) rest same by (auto simp: clone_slot_def)
  qed
  then show ?case by (simp add: st1_def st2_def)
qed simp

text \<open>
  C22: cloning a segment that is not empty into an empty one, when the allocations and the copies succeed, gives a well
  formed segment with the same sizes and the same bytes, in allocations of its own, and does not change the source.
\<close>

theorem seglin_clone_copies:
  assumes "seglin_ok ss w" "0 < total_size ss" "isl sd = []" "max_block_size sd = max_block_size ss" "0 < n_rid_default sd"
  shows "\<exists>sd' w'. seglin_clone_func False ss sd w ok_t True True (\<lambda>_. True) = Some (True, sd', w') \<and> seglin_ok sd' w' \<and>
           seglin_size sd' = seglin_size ss \<and> total_size sd' = total_size ss \<and>
           (\<forall>x. seglin_view sd' w' x = seglin_view ss w x \<and> seglin_view ss w' x = seglin_view ss w x) \<and>
           data ` set (isl sd') \<inter> data ` set (isl ss) = {}"
proof -
  let ?c = "next_cap w" and ?bs = "isl ss"
  have t: "tiled 0 ?bs (total_size ss)" and old: "\<forall>b \<in> set ?bs. data b < ?c" using assms(1) by (auto simp: seglin_ok_def)
  have ne: "?bs \<noteq> []" using t assms(2) by auto
  define st where "st = fold (\<lambda>(bs, bd). copy_slot bs bd) (zip ?bs (clones ?c ?bs)) (store w)"
  define sd' where "sd' = sd\<lparr>isl := clones ?c ?bs, total_size := total_size ss, used_size := used_size ss\<rparr>"
  define w' where "w' = w\<lparr>next_cap := ?c + length ?bs, store := st\<rparr>"
  have "fold slots_insert (clones ?c ?bs) [] = clones ?c ?bs"
    using slots_insert_blocks [of 0 "[]" 0 "clones ?c ?bs" "total_size ss"] t by (simp add: clones_facts)
  then have run: "seglin_clone_func False ss sd w ok_t True True (\<lambda>_. True) = Some (True, sd', w')"
    using ne assms(3,5) by (simp add: seglin_clone_func_def clones_upt sd'_def w'_def st_def split_def Let_def)
  have caps: "data ` set (clones ?c ?bs) = {?c..<?c + length ?bs}" using arg_cong [OF clones_facts(2), of set] by simp
  have lens: "\<forall>b \<in> set (clones ?c ?bs). len b \<le> max_block_size ss"
  proof
    fix b
    assume "b \<in> set (clones ?c ?bs)"
    then have "len b \<in> set (map len ?bs)" using clones_facts(3) [of ?c ?bs] by (metis image_eqI list.set_map)
    then show "len b \<le> max_block_size ss" using assms(1) by (auto simp: seglin_ok_def)
  qed
  have "seglin_ok sd' w'"
    using assms(1,4,5) lens caps t clones_facts(2) [of ?c ?bs] by (fastforce simp: seglin_ok_def sd'_def w'_def clones_facts)
  moreover have "seglin_view sd' w' x = seglin_view ss w x" for x
    using clones_copied [OF t old] by (simp add: seglin_view_def sd'_def w'_def st_def)
  moreover have "seglin_view ss w' x = seglin_view ss w x" for x
    unfolding seglin_view_def
  proof (rule byte_at_cong)
    fix b o'
    assume "b \<in> set ?bs"
    then have "data b \<notin> set (map data (clones ?c ?bs))" using old by (auto simp: clones_facts)
    then have "data b \<notin> data ` snd ` set (zip ?bs (clones ?c ?bs))" by (auto dest: set_zip_rightD)
    then show "store w' (data b) o' = store w (data b) o'" by (simp add: w'_def st_def copy_slots_other)
  qed
  moreover have "data ` set (isl sd') \<inter> data ` set ?bs = {}" using caps old by (auto simp: sd'_def)
  moreover have "seglin_size sd' = seglin_size ss" "total_size sd' = total_size ss" by (simp_all add: sd'_def seglin_size_def)
  ultimately show ?thesis using run by blast
qed

theorem seglin_clone_copies_witness:
  "\<exists>sd' w'. seglin_clone_func False demo_seg (segment_linear_create\<lparr>max_block_size := 16\<rparr>) demo_ds True True True (\<lambda>_. True) = Some (True, sd', w') \<and>
     seglin_ok sd' w' \<and> seglin_size sd' = 8 \<and> seglin_view sd' w' 3 = Some 7"
proof -
  have v: "seglin_view demo_seg demo_ds 3 = Some 7" "seglin_size demo_seg = 8" "0 < total_size demo_seg" "max_block_size demo_seg = 16"
    by (simp_all add: seglin_view_def demo_seg_def demo_slot_def demo_ds_def seglin_size_def)
  have "isl (segment_linear_create\<lparr>max_block_size := 16\<rparr>) = []" "n_rid_default (segment_linear_create\<lparr>max_block_size := 16\<rparr>) = 1"
    by (simp_all add: segment_linear_create_def)
  then show ?thesis
    using seglin_clone_copies [OF demo_seg_ok v(3), of "segment_linear_create\<lparr>max_block_size := 16\<rparr>" True] v by auto
qed

text \<open>
  A segment without blocks cannot be cloned: no request is made for it, and \<^verbatim>\<open>gop_waitall\<close> is called with \<^verbatim>\<open>NULL\<close>.
\<close>

lemma seglin_clone_empty: "isl ss = [] \<Longrightarrow> seglin_clone_func trunc ss sd w ok_t ok1 ok2 eff = None"
  by (cases "sl_truncate sd w (\<lambda>_. []) ok_t ok_t 0") (auto simp: seglin_clone_func_def)

end
