(* ===== verification/Tbuf.thy ===== *)
theory Tbuf
  imports Prelude
begin

text \<open>
  The transfer buffers of \<^verbatim>\<open>toolbox/transfer_buffer.c\<close>: a buffer that is scattered over a vector of memory blocks, and
  the routines that walk through it, copy from one to another and fill it.  Memory is a function from addresses to
  bytes; an element of the vector with the base NULL has no memory behind it.  Positions and sizes are
  \<^verbatim>\<open>size_t\<close> values, kept as natural numbers with the wrap around written out, and the values that the code keeps in an
  \<^verbatim>\<open>int\<close> are converted by \<open>to_int\<close>.  \<open>None\<close> is undefined behaviour or a loop that does not end.
\<close>

section \<open>The code\<close>

type_synonym mem = "nat \<Rightarrow> u8"

record tbx_iovec_t =
  iov_base :: "nat option"
  iov_len :: nat

text \<open>\<^verbatim>\<open>iov\<close> are the \<^verbatim>\<open>n\<close> elements of the vector.\<close>

record tbx_tbuf_info_t =
  total_bytes :: nat
  iov :: "tbx_iovec_t list"

text \<open>
  The state of a walk.  \<^verbatim>\<open>buffer\<close> are the \<^verbatim>\<open>n_iov\<close> elements that the pointer of the same name gives access to; the last
  two fields are those of \<^verbatim>\<open>tbx_tbuf_state_t\<close>.
\<close>

record tbx_tbuf_var_t =
  nbytes :: nat
  buffer :: "tbx_iovec_t list"
  curr_slot :: nat
  slot_total_pos :: int

text \<open>A buffer: the routine that finds the next block, with its argument \<^verbatim>\<open>arg\<close> applied, and the vector it works on.\<close>

record tbx_tbuf_t =
  next_block :: "tbx_tbuf_info_t \<Rightarrow> nat \<Rightarrow> tbx_tbuf_var_t \<Rightarrow> (int \<times> tbx_tbuf_var_t) option"
  buf :: tbx_tbuf_info_t

definition TBUFFER_OK :: int where "TBUFFER_OK = 1"
definition TBUFFER_OUTOFSPACE :: int where "TBUFFER_OUTOFSPACE = 2"

definition tbx_tbuf_var_init :: tbx_tbuf_var_t where
  "tbx_tbuf_var_init = \<lparr>nbytes = 0, buffer = [], curr_slot = 0, slot_total_pos = 0\<rparr>"

text \<open>
  The two searches along the vector: the slot that contains \<open>pos\<close> with the number of bytes before it, and the slot that
  contains \<open>endpos\<close> with the number of bytes of the slots before it.  \<open>d\<close> is the slot if none does.
\<close>

fun find_slot :: "tbx_iovec_t list \<Rightarrow> nat \<Rightarrow> nat \<Rightarrow> nat \<Rightarrow> nat \<Rightarrow> nat \<times> nat" where
  "find_slot [] i tot pos d = (d, tot)"
| "find_slot (v # vs) i tot pos d =
     (let ds = to_size (int tot + int (iov_len v)) in if ds > pos then (i, tot) else find_slot vs (Suc i) ds pos d)"

fun find_end :: "tbx_iovec_t list \<Rightarrow> nat \<Rightarrow> nat \<Rightarrow> nat \<Rightarrow> nat \<Rightarrow> nat \<Rightarrow> nat \<times> nat" where
  "find_end [] i tot len endpos d = (d, len)"
| "find_end (v # vs) i tot len endpos d =
     (let ds = to_size (int tot + int (iov_len v)) in
      if ds > endpos then (i, len) else find_end vs (Suc i) ds (to_size (int len + int (iov_len v))) endpos d)"

text \<open>The three ways to answer: the rest of the vector, a part of it from an element's start, a part of one element.\<close>

definition next_on_boundary :: "tbx_tbuf_info_t \<Rightarrow> nat \<Rightarrow> nat \<Rightarrow> nat \<Rightarrow> nat \<Rightarrow> tbx_tbuf_var_t \<Rightarrow> tbx_tbuf_var_t option" where
  "next_on_boundary ti pos endpos slot tot tbv =
     (if to_size (int pos + int (nbytes tbv)) \<ge> total_bytes ti
      then Some (tbv\<lparr>buffer := drop slot (iov ti),
                     nbytes := (if nbytes tbv > total_bytes ti then total_bytes ti - tot else nbytes tbv)\<rparr>)
      else
        (let (slot', len) = find_end (drop slot (iov ti)) slot tot 0 endpos slot in
         if slot' = slot
         then (if slot < length (iov ti) then Some (tbv\<lparr>buffer := [(iov ti ! slot)\<lparr>iov_len := nbytes tbv\<rparr>]\<rparr>) else None)
         else Some (tbv\<lparr>buffer := take (slot' - slot) (drop slot (iov ti)), nbytes := len\<rparr>)))"

definition next_mid_element :: "tbx_tbuf_info_t \<Rightarrow> int \<Rightarrow> nat \<Rightarrow> tbx_tbuf_var_t \<Rightarrow> tbx_tbuf_var_t option" where
  "next_mid_element ti i slot tbv =
     (if slot \<ge> length (iov ti) then None
      else
        (let v = iov ti ! slot;
             l = min (to_size (int (iov_len v) - i)) (nbytes tbv) in
         if iov_base v \<noteq> None \<and> i < 0 then None
         else Some (tbv\<lparr>buffer := [\<lparr>iov_base = map_option (\<lambda>b. b + nat i) (iov_base v), iov_len = l\<rparr>], nbytes := l\<rparr>)))"

definition tb_next_block :: "tbx_tbuf_info_t \<Rightarrow> nat \<Rightarrow> tbx_tbuf_var_t \<Rightarrow> (int \<times> tbx_tbuf_var_t) option" where
  "tb_next_block ti pos tbv =
     (if pos \<ge> total_bytes ti then Some (TBUFFER_OUTOFSPACE, tbv)
      else
        (let endpos = to_size (int pos + int (nbytes tbv) - 1);
             (start, tot) = (if pos < to_size (slot_total_pos tbv) then (0, 0) else (curr_slot tbv, to_size (slot_total_pos tbv)));
             (slot, tot) = find_slot (drop start (iov ti)) start tot pos start;
             tbv = tbv\<lparr>slot_total_pos := to_int (int tot), curr_slot := slot\<rparr>;
             i = to_int (int pos - int tot) in
         map_option (Pair TBUFFER_OK)
           (if i = 0 then next_on_boundary ti pos endpos slot tot tbv else next_mid_element ti i slot tbv)))"

definition tbx_tbuf_next :: "tbx_tbuf_t \<Rightarrow> nat \<Rightarrow> tbx_tbuf_var_t \<Rightarrow> (int \<times> tbx_tbuf_var_t) option" where
  "tbx_tbuf_next tb off tbv = next_block tb (buf tb) off tbv"

definition tbx_tbuf_single :: "nat \<Rightarrow> nat option \<Rightarrow> tbx_tbuf_t" where
  "tbx_tbuf_single n b =
     \<lparr>next_block = tb_next_block, buf = \<lparr>total_bytes = n, iov = [\<lparr>iov_base = b, iov_len = n\<rparr>]\<rparr>\<rparr>"

definition tbx_tbuf_vec :: "nat \<Rightarrow> tbx_iovec_t list \<Rightarrow> tbx_tbuf_t" where
  "tbx_tbuf_vec tbytes v = \<lparr>next_block = tb_next_block, buf = \<lparr>total_bytes = tbytes, iov = v\<rparr>\<rparr>"

definition tbx_tbuf_fn ::
  "tbx_tbuf_t \<Rightarrow> nat \<Rightarrow> 'arg \<Rightarrow> ('arg \<Rightarrow> tbx_tbuf_info_t \<Rightarrow> nat \<Rightarrow> tbx_tbuf_var_t \<Rightarrow> (int \<times> tbx_tbuf_var_t) option) \<Rightarrow> tbx_tbuf_t" where
  "tbx_tbuf_fn tb tbytes arg fn = tb\<lparr>next_block := fn arg, buf := (buf tb)\<lparr>total_bytes := tbytes\<rparr>\<rparr>"

definition tbx_tbuf_size :: "tbx_tbuf_t \<Rightarrow> nat" where
  "tbx_tbuf_size tb = total_bytes (buf tb)"

text \<open>\<^verbatim>\<open>memcpy\<close> between blocks that overlap is undefined.\<close>

definition mem_copy :: "nat \<Rightarrow> nat \<Rightarrow> nat \<Rightarrow> mem \<Rightarrow> mem option" where
  "mem_copy dst src n m =
     (if 0 < n \<and> src < dst + n \<and> dst < src + n then None
      else Some (\<lambda>a. if dst \<le> a \<and> a < dst + n then m (src + (a - dst)) else m a))"

definition mem_set :: "nat \<Rightarrow> u8 \<Rightarrow> nat \<Rightarrow> mem \<Rightarrow> mem" where
  "mem_set dst c n m = (\<lambda>a. if dst \<le> a \<and> a < dst + n then c else m a)"

text \<open>
  The inner loop of the copy on what is left of the two lists of elements: \<open>sp\<close>, \<open>dp\<close> are the positions in their first
  elements and \<open>slen\<close>, \<open>dlen\<close> what is left of those.  The result is the number of bytes passed (by which the code moves
  \<^verbatim>\<open>spos\<close>, \<^verbatim>\<open>dpos\<close> and \<^verbatim>\<open>nleft\<close>), \<^verbatim>\<open>nskipped\<close> and the memory.
\<close>

definition copy_ele :: "int \<Rightarrow> tbx_iovec_t \<Rightarrow> tbx_iovec_t \<Rightarrow> nat \<Rightarrow> nat \<Rightarrow> nat \<Rightarrow> nat \<Rightarrow> mem \<Rightarrow> (nat \<times> mem) option" where
  "copy_ele blank s d sp dp len skipped m =
     (case (iov_base d, iov_base s) of
        (Some db, Some sb) \<Rightarrow> map_option (Pair skipped) (mem_copy (db + dp) (sb + sp) len m)
      | (Some db, None) \<Rightarrow> Some (len, if blank \<noteq> 0 then mem_set (db + dp) 0 len m else m)
      | (None, _) \<Rightarrow> Some (len, m))"

definition step_ele :: "tbx_iovec_t list \<Rightarrow> nat \<Rightarrow> nat \<Rightarrow> nat \<Rightarrow> (tbx_iovec_t list \<times> nat \<times> nat) option" where
  "step_ele vs p left len =
     (if left - len = 0 then (case tl vs of [] \<Rightarrow> None | v # vs' \<Rightarrow> Some (v # vs', 0, iov_len v)) else Some (vs, p + len, left - len))"

function copy_loop ::
  "int \<Rightarrow> tbx_iovec_t list \<Rightarrow> nat \<Rightarrow> nat \<Rightarrow> tbx_iovec_t list \<Rightarrow> nat \<Rightarrow> nat \<Rightarrow> int \<Rightarrow> nat \<Rightarrow> nat \<Rightarrow> mem \<Rightarrow> (nat \<times> nat \<times> mem) option" where
  "copy_loop blank ss sp slen ds dp dlen n moved skipped m =
     (if n \<le> 0 then Some (moved, skipped, m)
      else if ss = [] \<or> ds = [] then None
      else
        (let len = min slen dlen; n = to_int (n - int len) in
         Option.bind (copy_ele blank (hd ss) (hd ds) sp dp len skipped m) (\<lambda>(skipped, m).
         if n \<le> 0 then Some (moved + len, skipped, m)
         else
           (case (step_ele ds dp dlen len, step_ele ss sp slen len) of
              (Some (ds', dp', dlen'), Some (ss', sp', slen')) \<Rightarrow>
                copy_loop blank ss' sp' slen' ds' dp' dlen' n (moved + len) skipped m
            | _ \<Rightarrow> None))))"
  by pat_completeness auto
termination
proof (relation "measure (\<lambda>(_, ss, _, _, ds, _). length ss + length ds)")
qed (auto simp: step_ele_def min_def neq_Nil_conv split: if_splits list.splits)

declare copy_loop.simps [simp del]

partial_function (option) tbuf_copy_loop ::
  "int \<Rightarrow> tbx_tbuf_t \<Rightarrow> tbx_tbuf_t \<Rightarrow> nat \<Rightarrow> nat \<Rightarrow> nat \<Rightarrow> tbx_tbuf_var_t \<Rightarrow> tbx_tbuf_var_t \<Rightarrow> nat \<Rightarrow> mem \<Rightarrow> (nat \<times> mem) option" where
  "tbuf_copy_loop blank tb_s tb_d nleft spos dpos stv dtv skipped m =
     (if nleft = 0 then Some (skipped, m)
      else
        Option.bind (tbx_tbuf_next tb_s spos (stv\<lparr>nbytes := nleft\<rparr>)) (\<lambda>(err, stv).
        if err \<noteq> TBUFFER_OK then Some (skipped, m)
        else Option.bind (tbx_tbuf_next tb_d dpos (dtv\<lparr>nbytes := nleft\<rparr>)) (\<lambda>(err, dtv).
        if err \<noteq> TBUFFER_OK then Some (skipped, m)
        else if buffer stv = [] \<or> buffer dtv = [] then None
        else Option.bind (copy_loop blank (buffer stv) 0 (iov_len (hd (buffer stv))) (buffer dtv) 0 (iov_len (hd (buffer dtv)))
                            (to_int (int (min (nbytes stv) (nbytes dtv)))) 0 skipped m) (\<lambda>(moved, skipped, m).
        tbuf_copy_loop blank tb_s tb_d (to_size (int nleft - int moved)) (to_size (int spos + int moved))
          (to_size (int dpos + int moved)) stv dtv skipped m))))"

definition tbx_tbuf_copy :: "tbx_tbuf_t \<Rightarrow> nat \<Rightarrow> tbx_tbuf_t \<Rightarrow> nat \<Rightarrow> nat \<Rightarrow> int \<Rightarrow> mem \<Rightarrow> (int \<times> mem) option" where
  "tbx_tbuf_copy tb_s off_s tb_d off_d n blank_missing m =
     map_option (\<lambda>(skipped, m). (to_int (int skipped), m))
       (tbuf_copy_loop blank_missing tb_s tb_d n off_s off_d tbx_tbuf_var_init tbx_tbuf_var_init 0 m)"

text \<open>Filling: the loop over the elements of one block, and the loop over the blocks, which does not look at the error.\<close>

fun set_eles :: "u8 \<Rightarrow> tbx_iovec_t list \<Rightarrow> nat \<Rightarrow> nat \<Rightarrow> mem \<Rightarrow> nat \<times> nat \<times> mem" where
  "set_eles c [] nleft pos m = (nleft, pos, m)"
| "set_eles c (v # vs) nleft pos m =
     (let m = (case iov_base v of None \<Rightarrow> m | Some b \<Rightarrow> mem_set b c (iov_len v) m);
          nleft = to_size (int nleft - int (iov_len v));
          pos = to_size (int pos + int (iov_len v)) in
      if nleft = 0 then (nleft, pos, m) else set_eles c vs nleft pos m)"

partial_function (option) memset_loop :: "u8 \<Rightarrow> tbx_tbuf_t \<Rightarrow> nat \<Rightarrow> nat \<Rightarrow> tbx_tbuf_var_t \<Rightarrow> mem \<Rightarrow> mem option" where
  "memset_loop c tb nleft pos tbv m =
     (if nleft = 0 then Some m
      else
        Option.bind (tbx_tbuf_next tb pos (tbv\<lparr>nbytes := nleft\<rparr>)) (\<lambda>(err, tbv).
        case set_eles c (buffer tbv) nleft pos m of (nleft, pos, m) \<Rightarrow> memset_loop c tb nleft pos tbv m))"

definition tbx_tbuf_memset :: "tbx_tbuf_t \<Rightarrow> nat \<Rightarrow> int \<Rightarrow> nat \<Rightarrow> mem \<Rightarrow> (int \<times> mem) option" where
  "tbx_tbuf_memset tb off c n m =
     (if to_size (int (tbx_tbuf_size tb) - int off) < n then Some (-1, m)
      else map_option (Pair 0) (memset_loop (word_of_int c) tb n off tbx_tbuf_var_init m))"

section \<open>The addresses behind a buffer\<close>

text \<open>Byte by byte, the memory behind an element and behind a list of them; \<open>None\<close> is a byte without memory.\<close>

definition ele_addrs :: "tbx_iovec_t \<Rightarrow> nat option list" where
  "ele_addrs v = (case iov_base v of None \<Rightarrow> replicate (iov_len v) None | Some b \<Rightarrow> map Some [b ..< b + iov_len v])"

definition vec_addrs :: "tbx_iovec_t list \<Rightarrow> nat option list" where
  "vec_addrs vs = concat (map ele_addrs vs)"

definition vec_len :: "tbx_iovec_t list \<Rightarrow> nat" where
  "vec_len vs = sum_list (map iov_len vs)"

definition tbuf_addrs :: "tbx_tbuf_t \<Rightarrow> nat option list" where
  "tbuf_addrs tb = vec_addrs (iov (buf tb))"

text \<open>A buffer over a vector whose total is the sum of its elements and fits into an \<^verbatim>\<open>int\<close>.\<close>

definition tbuf_wf :: "tbx_tbuf_t \<Rightarrow> bool" where
  "tbuf_wf tb \<longleftrightarrow> next_block tb = tb_next_block \<and> total_bytes (buf tb) = vec_len (iov (buf tb)) \<and> vec_len (iov (buf tb)) < 2 ^ 31"

text \<open>The position that a walk remembers is the start of the slot that it remembers.\<close>

definition var_ok :: "tbx_tbuf_t \<Rightarrow> tbx_tbuf_var_t \<Rightarrow> bool" where
  "var_ok tb tbv \<longleftrightarrow> curr_slot tbv \<le> length (iov (buf tb)) \<and> slot_total_pos tbv = int (vec_len (take (curr_slot tbv) (iov (buf tb))))"

text \<open>The bytes that an answer of a walk stands for.\<close>

definition block_at :: "tbx_tbuf_var_t \<Rightarrow> nat option list \<Rightarrow> nat \<Rightarrow> nat \<Rightarrow> bool" where
  "block_at tbv as pos n \<longleftrightarrow> 0 < nbytes tbv \<and> nbytes tbv \<le> n \<and> vec_addrs (buffer tbv) = take (nbytes tbv) (drop pos as)"

lemma vec_simps [simp]:
  "vec_len [] = 0" "vec_len (v # vs) = iov_len v + vec_len vs" "vec_len (vs @ ws) = vec_len vs + vec_len ws"
  "vec_addrs [] = []" "vec_addrs (v # vs) = ele_addrs v @ vec_addrs vs" "vec_addrs (vs @ ws) = vec_addrs vs @ vec_addrs ws"
  by (simp_all add: vec_len_def vec_addrs_def)

lemma ele_addrs_length [simp]: "length (ele_addrs v) = iov_len v"
  by (simp add: ele_addrs_def split: option.split)

lemma vec_addrs_length [simp]: "length (vec_addrs vs) = vec_len vs"
  by (induction vs) auto

lemma take_ele_addrs: "n \<le> iov_len v \<Longrightarrow> take n (ele_addrs v) = ele_addrs (v\<lparr>iov_len := n\<rparr>)"
  by (auto simp: ele_addrs_def take_map min_def split: option.split)

lemma drop_ele_addrs:
  "drop i (ele_addrs v) = ele_addrs \<lparr>iov_base = map_option (\<lambda>b. b + i) (iov_base v), iov_len = iov_len v - i\<rparr>"
  by (cases "i \<le> iov_len v") (auto simp: ele_addrs_def drop_map split: option.split)

lemma vec_len_split: "k \<le> length vs \<Longrightarrow> vec_len vs = vec_len (take k vs) + vec_len (drop k vs)"
  by (metis append_take_drop_id vec_simps(3))

lemma drop_vec_addrs: "k \<le> length vs \<Longrightarrow> drop (vec_len (take k vs) + i) (vec_addrs vs) = drop i (vec_addrs (drop k vs))"
  by (metis append_take_drop_id drop_drop add.commute vec_simps(6) vec_addrs_length append_eq_conv_conj)

lemma drop_Cons_nth: "k < length vs \<Longrightarrow> drop k vs = vs ! k # drop (Suc k) vs"
  by (rule Cons_nth_drop_Suc [symmetric])

section \<open>The walk\<close>

lemma find_slot_found:
  assumes "tot \<le> pos" "pos < tot + vec_len vs" "tot + vec_len vs < 2 ^ 64"
  shows "\<exists>k < length vs. find_slot vs i tot pos d = (i + k, tot + vec_len (take k vs)) \<and>
           tot + vec_len (take k vs) \<le> pos \<and> pos < tot + vec_len (take k vs) + iov_len (vs ! k)"
  using assms
proof (induction vs arbitrary: i tot)
  case Nil
  then show ?case by simp
next
  case (Cons v vs)
  have ds: "to_size (int tot + int (iov_len v)) = tot + iov_len v" using Cons.prems(3) by (simp add: to_size_id nat_add_distrib)
  show ?case
  proof (cases "tot + iov_len v > pos")
    case True
    then show ?thesis using Cons.prems by (intro exI [of _ 0]) (simp add: ds)
  next
    case False
    then obtain k where "k < length vs" "find_slot vs (Suc i) (tot + iov_len v) pos d = (Suc i + k, tot + iov_len v + vec_len (take k vs))"
      "tot + iov_len v + vec_len (take k vs) \<le> pos" "pos < tot + iov_len v + vec_len (take k vs) + iov_len (vs ! k)"
      using Cons.IH [of "tot + iov_len v" "Suc i"] Cons.prems by auto
    then show ?thesis using False by (intro exI [of _ "Suc k"]) (simp add: ds Let_def)
  qed
qed

lemma find_end_found:
  assumes "tot \<le> pos" "pos < tot + vec_len vs" "tot + vec_len vs < 2 ^ 64" "len \<le> tot"
  shows "\<exists>k < length vs. find_end vs i tot len pos d = (i + k, len + vec_len (take k vs)) \<and>
           tot + vec_len (take k vs) \<le> pos \<and> pos < tot + vec_len (take k vs) + iov_len (vs ! k)"
  using assms
proof (induction vs arbitrary: i tot len)
  case Nil
  then show ?case by simp
next
  case (Cons v vs)
  have ds: "to_size (int tot + int (iov_len v)) = tot + iov_len v" "to_size (int len + int (iov_len v)) = len + iov_len v"
    using Cons.prems(3,4) by (simp_all add: to_size_id nat_add_distrib)
  show ?case
  proof (cases "tot + iov_len v > pos")
    case True
    then show ?thesis using Cons.prems by (intro exI [of _ 0]) (simp add: ds)
  next
    case False
    then obtain k where "k < length vs"
      "find_end vs (Suc i) (tot + iov_len v) (len + iov_len v) pos d = (Suc i + k, len + iov_len v + vec_len (take k vs))"
      "tot + iov_len v + vec_len (take k vs) \<le> pos" "pos < tot + iov_len v + vec_len (take k vs) + iov_len (vs ! k)"
      using Cons.IH [of "tot + iov_len v" "len + iov_len v" "Suc i"] Cons.prems by auto
    then show ?thesis using False by (intro exI [of _ "Suc k"]) (simp add: ds Let_def)
  qed
qed

lemma next_on_boundary_block:
  assumes wf: "total_bytes ti = vec_len (iov ti)" "vec_len (iov ti) < 2 ^ 31" and slot: "slot < length (iov ti)"
    and pos: "pos = vec_len (take slot (iov ti))" "0 < iov_len (iov ti ! slot)" and n: "0 < nbytes tbv" "pos + nbytes tbv \<le> total_bytes ti"
  shows "\<exists>tbv'. next_on_boundary ti pos (pos + nbytes tbv - 1) slot pos tbv = Some tbv' \<and> curr_slot tbv' = curr_slot tbv \<and>
           slot_total_pos tbv' = slot_total_pos tbv \<and> block_at tbv' (vec_addrs (iov ti)) pos (nbytes tbv)"
proof -
  let ?vs = "drop slot (iov ti)"
  have sz: "to_size (int pos + int (nbytes tbv)) = pos + nbytes tbv" using wf n by (simp add: to_size_id nat_add_distrib)
  have len: "vec_len (iov ti) = pos + vec_len ?vs" using vec_len_split [of slot "iov ti"] slot pos(1) by simp
  have as: "drop pos (vec_addrs (iov ti)) = vec_addrs ?vs" using drop_vec_addrs [of slot "iov ti" 0] slot pos(1) by simp
  have vs: "?vs = iov ti ! slot # drop (Suc slot) (iov ti)" using slot by (rule drop_Cons_nth)
  show ?thesis
  proof (cases "pos + nbytes tbv = total_bytes ti")
    case True
    then have "next_on_boundary ti pos (pos + nbytes tbv - 1) slot pos tbv = Some (tbv\<lparr>buffer := ?vs\<rparr>)"
      unfolding next_on_boundary_def sz by simp
    moreover have "nbytes tbv = vec_len ?vs" using True len wf(1) by simp
    ultimately show ?thesis using n as by (simp add: block_at_def)
  next
    case False
    have e: "pos \<le> pos + nbytes tbv - 1" "pos + nbytes tbv - 1 < pos + vec_len ?vs" "pos + vec_len ?vs < 2 ^ 64"
      using n wf len by simp_all
    obtain k where k: "k < length ?vs"
      "find_end ?vs slot pos 0 (pos + nbytes tbv - 1) slot = (slot + k, 0 + vec_len (take k ?vs))"
      "pos + vec_len (take k ?vs) \<le> pos + nbytes tbv - 1" "pos + nbytes tbv - 1 < pos + vec_len (take k ?vs) + iov_len (?vs ! k)"
      using find_end_found [OF e le0, of slot slot] by blast
    show ?thesis
    proof (cases k)
      case 0
      then have "nbytes tbv \<le> iov_len (iov ti ! slot)" using k(4) n slot by simp
      then show ?thesis using 0 False n slot k(2) wf as
        by (simp add: next_on_boundary_def sz block_at_def vs take_ele_addrs [symmetric])
    next
      case (Suc k')
      have "0 < vec_len (take k ?vs)" using pos(2) unfolding Suc vs by simp
      moreover have "vec_addrs (take k ?vs) = take (vec_len (take k ?vs)) (vec_addrs ?vs)"
        by (metis append_take_drop_id vec_simps(6) vec_addrs_length append_eq_conv_conj)
      ultimately show ?thesis using Suc False n k(2,3) wf as by (simp add: next_on_boundary_def sz block_at_def)
    qed
  qed
qed

lemma next_mid_element_block:
  assumes slot: "slot < length (iov ti)" "vec_len (iov ti) < 2 ^ 31" and pos: "pos = vec_len (take slot (iov ti)) + i" "i < iov_len (iov ti ! slot)"
    and n: "0 < nbytes tbv"
  shows "\<exists>tbv'. next_mid_element ti (int i) slot tbv = Some tbv' \<and> curr_slot tbv' = curr_slot tbv \<and>
           slot_total_pos tbv' = slot_total_pos tbv \<and> block_at tbv' (vec_addrs (iov ti)) pos (nbytes tbv)"
proof -
  let ?v = "iov ti ! slot" let ?l = "min (iov_len ?v - i) (nbytes tbv)"
  let ?w = "\<lparr>iov_base = map_option (\<lambda>b. b + i) (iov_base ?v), iov_len = iov_len ?v - i\<rparr>"
  have "iov_len ?v \<le> vec_len (iov ti)" using vec_len_split [of slot "iov ti"] slot(1) by (simp add: drop_Cons_nth)
  then have sz: "to_size (int (iov_len ?v) - int i) = iov_len ?v - i" using slot(2) pos(2) by (simp add: to_size_id)
  have "drop pos (vec_addrs (iov ti)) = drop i (vec_addrs (drop slot (iov ti)))" using slot(1) pos(1) by (simp add: drop_vec_addrs)
  also have "\<dots> = ele_addrs ?w @ vec_addrs (drop (Suc slot) (iov ti))" using slot(1) pos(2) by (simp add: drop_Cons_nth drop_ele_addrs)
  finally have as: "take ?l (drop pos (vec_addrs (iov ti))) = ele_addrs (?w\<lparr>iov_len := ?l\<rparr>)"
    using take_ele_addrs [of ?l ?w] by simp
  have "next_mid_element ti (int i) slot tbv = Some (tbv\<lparr>buffer := [?w\<lparr>iov_len := ?l\<rparr>], nbytes := ?l\<rparr>)"
    using slot(1) by (simp add: next_mid_element_def sz Let_def)
  moreover have "0 < ?l" "?l \<le> nbytes tbv" using n pos(2) by simp_all
  ultimately show ?thesis using as by (simp add: block_at_def)
qed

lemma tb_next_block_block:
  assumes "tbuf_wf tb" "var_ok tb tbv" "0 < nbytes tbv" "pos + nbytes tbv \<le> length (tbuf_addrs tb)"
  shows "\<exists>tbv'. tbx_tbuf_next tb pos tbv = Some (TBUFFER_OK, tbv') \<and> var_ok tb tbv' \<and> block_at tbv' (tbuf_addrs tb) pos (nbytes tbv)"
proof -
  let ?ti = "buf tb" let ?vs = "iov (buf tb)"
  have wf: "next_block tb = tb_next_block" "total_bytes ?ti = vec_len ?vs" "vec_len ?vs < 2 ^ 31" and n: "pos + nbytes tbv \<le> vec_len ?vs"
    using assms(1,4) by (auto simp: tbuf_wf_def tbuf_addrs_def)
  define sp where "sp = vec_len (take (curr_slot tbv) ?vs)"
  define start where "start = (if pos < sp then 0 else curr_slot tbv)"
  define tot where "tot = vec_len (take start ?vs)"
  have start: "start \<le> length ?vs" "tot \<le> pos" using assms(2) by (auto simp: start_def tot_def sp_def var_ok_def)
  have len: "vec_len ?vs = tot + vec_len (drop start ?vs)" using start(1) by (simp add: tot_def vec_len_split)
  have "sp \<le> vec_len ?vs" using vec_len_split [of "curr_slot tbv" ?vs] assms(2) by (simp add: var_ok_def sp_def)
  then have sp: "to_size (slot_total_pos tbv) = sp" using assms(2) wf(3) by (simp add: var_ok_def sp_def to_size_id)
  have st: "(if pos < sp then (0, 0) else (curr_slot tbv, sp)) = (start, tot)" by (simp add: start_def tot_def sp_def)
  have e: "pos < tot + vec_len (drop start ?vs)" "tot + vec_len (drop start ?vs) < 2 ^ 64" using n assms(3) len wf(3) by simp_all
  obtain k where k: "k < length (drop start ?vs)" "find_slot (drop start ?vs) start tot pos start = (start + k, tot + vec_len (take k (drop start ?vs)))"
    "tot + vec_len (take k (drop start ?vs)) \<le> pos" "pos < tot + vec_len (take k (drop start ?vs)) + iov_len (drop start ?vs ! k)"
    using find_slot_found [OF start(2) e, of start start] by blast
  define slot where "slot = start + k"
  define tt where "tt = tot + vec_len (take k (drop start ?vs))"
  have slot: "slot < length ?vs" "tt = vec_len (take slot ?vs)" "tt \<le> pos" "pos < tt + iov_len (?vs ! slot)"
    using k by (auto simp: slot_def tt_def tot_def take_add)
  define i where "i = pos - tt"
  define tbv1 where "tbv1 = tbv\<lparr>slot_total_pos := int tt, curr_slot := slot\<rparr>"
  have ti: "to_int (int tt) = int tt" "to_int (int pos - int tt) = int i" "to_size (int pos + int (nbytes tbv) - 1) = pos + nbytes tbv - 1"
    using n wf(3) assms(3) slot(3) by (simp_all add: to_int_id to_size_id i_def nat_diff_distrib')
  have eq: "tbx_tbuf_next tb pos tbv = map_option (Pair TBUFFER_OK)
      (if int i = 0 then next_on_boundary ?ti pos (pos + nbytes tbv - 1) slot tt tbv1 else next_mid_element ?ti (int i) slot tbv1)"
    using n assms(3) wf(1,2) by (simp add: tbx_tbuf_next_def tb_next_block_def sp st k(2) ti Let_def flip: slot_def tt_def tbv1_def cong: if_cong)
  have "\<exists>tbv'. (if int i = 0 then next_on_boundary ?ti pos (pos + nbytes tbv - 1) slot tt tbv1 else next_mid_element ?ti (int i) slot tbv1) = Some tbv' \<and>
      curr_slot tbv' = slot \<and> slot_total_pos tbv' = int tt \<and> block_at tbv' (vec_addrs ?vs) pos (nbytes tbv)"
  proof (cases "i = 0")
    case True
    then have "pos = tt" using slot(3) by (simp add: i_def)
    then show ?thesis using next_on_boundary_block [of ?ti slot pos tbv1] True wf n slot assms(3) by (simp add: tbv1_def ti)
  next
    case False
    then show ?thesis using next_mid_element_block [of slot ?ti pos i tbv1] wf n slot assms(3) by (simp add: tbv1_def ti i_def)
  qed
  then show ?thesis using slot(1,2) by (auto simp: eq var_ok_def tbuf_addrs_def)
qed

section \<open>Copies and fills, byte by byte\<close>

text \<open>The reference: one byte after the other, where a source without memory gives a zero or leaves the byte as it is.\<close>

fun flat_copy :: "int \<Rightarrow> nat option list \<Rightarrow> nat option list \<Rightarrow> mem \<Rightarrow> mem" where
  "flat_copy blank (s # ss) (Some d # ds) m =
     flat_copy blank ss ds (case s of Some a \<Rightarrow> m(d := m a) | None \<Rightarrow> if blank \<noteq> 0 then m(d := 0) else m)"
| "flat_copy blank (s # ss) (None # ds) m = flat_copy blank ss ds m"
| "flat_copy blank _ _ m = m"

definition flat_set :: "u8 \<Rightarrow> nat option list \<Rightarrow> mem \<Rightarrow> mem" where
  "flat_set c as m = (\<lambda>a. if Some a \<in> set as then c else m a)"

definition apart :: "nat option list \<Rightarrow> nat option list \<Rightarrow> bool" where
  "apart as bs \<longleftrightarrow> (\<forall>a. Some a \<in> set as \<longrightarrow> Some a \<notin> set bs)"

definition byte_slice :: "nat option list \<Rightarrow> nat \<Rightarrow> nat \<Rightarrow> nat option list" where
  "byte_slice as pos n = take n (drop pos as)"

lemma flat_copy_append:
  "length ss = length ds \<Longrightarrow> flat_copy blank (ss @ ss') (ds @ ds') m = flat_copy blank ss' ds' (flat_copy blank ss ds m)"
  by (induction blank ss ds m rule: flat_copy.induct) auto

lemma flat_copy_no_dest: "flat_copy blank ss (replicate n None) m = m"
proof (induction ss arbitrary: n)
  case (Cons s ss)
  then show ?case by (cases n) auto
qed simp

lemma upt_snoc: "[d ..< d + Suc n] = [d ..< d + n] @ [d + n]"
  by simp

lemma flat_copy_blank:
  "flat_copy blank (replicate n None) (map Some [d ..< d + n]) m = (if blank \<noteq> 0 then mem_set d 0 n m else m)"
proof (induction n)
  case (Suc n)
  have "flat_copy blank (replicate (Suc n) None) (map Some [d ..< d + Suc n]) m =
      flat_copy blank [None] [Some (d + n)] (flat_copy blank (replicate n None) (map Some [d ..< d + n]) m)"
    unfolding upt_snoc replicate_Suc replicate_append_same [symmetric] map_append by (subst flat_copy_append) simp_all
  then show ?case unfolding Suc.IH by (auto simp: mem_set_def)
qed (auto simp: mem_set_def fun_eq_iff)

lemma flat_copy_block:
  "n = 0 \<or> d + n \<le> s \<or> s + n \<le> d \<Longrightarrow>
     flat_copy blank (map Some [s ..< s + n]) (map Some [d ..< d + n]) m = (\<lambda>a. if d \<le> a \<and> a < d + n then m (s + (a - d)) else m a)"
proof (induction n)
  case (Suc n)
  have "flat_copy blank (map Some [s ..< s + Suc n]) (map Some [d ..< d + Suc n]) m =
      flat_copy blank [Some (s + n)] [Some (d + n)] (flat_copy blank (map Some [s ..< s + n]) (map Some [d ..< d + n]) m)"
    unfolding upt_snoc map_append by (subst flat_copy_append) simp_all
  moreover have "n = 0 \<or> d + n \<le> s \<or> s + n \<le> d" using Suc.prems by auto
  ultimately show ?case using Suc.prems by (auto simp: Suc.IH)
qed (auto simp: fun_eq_iff)

text \<open>Where the destination bytes are distinct and apart from the source, the copy is what it should be.\<close>

lemma flat_copy_other: "Some a \<notin> set ds \<Longrightarrow> flat_copy blank ss ds m a = m a"
  by (induction blank ss ds m rule: flat_copy.induct) (auto split: option.split)

lemma flat_copy_nth:
  assumes "length ss = length ds" "apart ss ds" "distinct (filter (\<lambda>x. x \<noteq> None) ds)" "k < length ds" "ds ! k = Some d"
  shows "flat_copy blank ss ds m d = (case ss ! k of Some a \<Rightarrow> m a | None \<Rightarrow> if blank \<noteq> 0 then 0 else m d)"
proof -
  have split: "xs = take k xs @ xs ! k # drop (Suc k) xs" if "length xs = length ds" for xs :: "nat option list"
    using assms(4) that by (simp add: id_take_nth_drop)
  have "distinct (filter (\<lambda>x. x \<noteq> None) (take k ds @ Some d # drop (Suc k) ds))" using assms(3,5) split [of ds] by simp
  then have before: "Some d \<notin> set (take k ds)" and after: "Some d \<notin> set (drop (Suc k) ds)" by auto
  have "flat_copy blank ss ds m = flat_copy blank (ss ! k # drop (Suc k) ss) (Some d # drop (Suc k) ds) (flat_copy blank (take k ss) (take k ds) m)"
    using flat_copy_append [of "take k ss" "take k ds" blank "ss ! k # drop (Suc k) ss" "Some d # drop (Suc k) ds" m]
      split [of ss] split [of ds] assms(1,5) by simp
  moreover have "Some a \<notin> set (take k ds)" if "ss ! k = Some a" for a
    using assms(1,2,4) that nth_mem [of k ss] by (auto simp: apart_def dest: in_set_takeD)
  ultimately show ?thesis using before after by (auto simp: flat_copy_other split: option.split)
qed

lemma flat_set_append: "flat_set c (as @ bs) m = flat_set c bs (flat_set c as m)"
  by (auto simp: flat_set_def)

lemma byte_slice_length: "pos + n \<le> length as \<Longrightarrow> length (byte_slice as pos n) = n"
  by (simp add: byte_slice_def)

lemma byte_slice_split: "k \<le> n \<Longrightarrow> byte_slice as pos n = byte_slice as pos k @ byte_slice as (pos + k) (n - k)"
  by (metis byte_slice_def take_add drop_drop add.commute le_add_diff_inverse)

lemma apart_append: "apart (as @ as') (bs @ bs') \<longleftrightarrow> apart as bs \<and> apart as' bs' \<and> apart as bs' \<and> apart as' bs"
  by (auto simp: apart_def)

section \<open>The loops\<close>

text \<open>One step of the copy, on the same number of bytes of an element on either side.\<close>

lemma sub_ele_addrs:
  "p + len \<le> iov_len v \<Longrightarrow> byte_slice (ele_addrs v) p len = ele_addrs \<lparr>iov_base = map_option (\<lambda>b. b + p) (iov_base v), iov_len = len\<rparr>"
  by (simp add: byte_slice_def drop_ele_addrs take_ele_addrs)

lemma copy_ele_flat:
  assumes "sp + len \<le> iov_len s" "dp + len \<le> iov_len d" "apart (byte_slice (ele_addrs s) sp len) (byte_slice (ele_addrs d) dp len)"
  shows "\<exists>k. copy_ele blank s d sp dp len skipped m =
           Some (k, flat_copy blank (byte_slice (ele_addrs s) sp len) (byte_slice (ele_addrs d) dp len) m) \<and>
         (skipped = 0 \<and> None \<notin> set (byte_slice (ele_addrs s) sp len) \<and> None \<notin> set (byte_slice (ele_addrs d) dp len) \<longrightarrow> k = 0)"
proof (cases "iov_base d")
  case None
  then show ?thesis using assms(1,2) by (simp add: copy_ele_def sub_ele_addrs ele_addrs_def [of "\<lparr>iov_base = None, iov_len = len\<rparr>"] flat_copy_no_dest)
next
  case (Some db)
  note d = this
  have D: "byte_slice (ele_addrs d) dp len = map Some [db + dp ..< db + dp + len]" unfolding sub_ele_addrs [OF assms(2)] using d by (simp add: ele_addrs_def)
  show ?thesis
  proof (cases "iov_base s")
    case None
    then show ?thesis using d unfolding D sub_ele_addrs [OF assms(1)] by (simp add: copy_ele_def ele_addrs_def flat_copy_blank)
  next
    case (Some sb)
    have S: "byte_slice (ele_addrs s) sp len = map Some [sb + sp ..< sb + sp + len]" unfolding sub_ele_addrs [OF assms(1)] using Some by (simp add: ele_addrs_def)
    have ap: "len = 0 \<or> db + dp + len \<le> sb + sp \<or> sb + sp + len \<le> db + dp"
    proof (rule ccontr)
      assume "\<not> ?thesis"
      then have "Some (max (sb + sp) (db + dp)) \<in> set (byte_slice (ele_addrs s) sp len) \<inter> set (byte_slice (ele_addrs d) dp len)"
        unfolding S D by auto
      then show False using assms(3) by (auto simp: apart_def)
    qed
    then show ?thesis unfolding S D flat_copy_block [OF ap] using d Some by (auto simp: copy_ele_def mem_copy_def)
  qed
qed

text \<open>What is left of a list of elements, with its first one at the position \<open>p\<close> and with \<open>left\<close> bytes.\<close>

definition rest_ok :: "tbx_iovec_t list \<Rightarrow> nat \<Rightarrow> nat \<Rightarrow> bool" where
  "rest_ok vs p left \<longleftrightarrow> vs \<noteq> [] \<and> p + left = iov_len (hd vs)"

lemma step_ele_ok:
  assumes "rest_ok vs p left" "len \<le> left" "p + len < vec_len vs"
  shows "\<exists>vs' p' left'. step_ele vs p left len = Some (vs', p', left') \<and> rest_ok vs' p' left' \<and>
           drop p' (vec_addrs vs') = drop (p + len) (vec_addrs vs)"
proof (cases "left = len")
  case True
  obtain v w ws where "vs = v # w # ws" using assms True
    by (cases vs; cases "tl vs") (auto simp: rest_ok_def)
  then show ?thesis using assms True by (simp add: step_ele_def rest_ok_def)
next
  case False
  then show ?thesis using assms by (simp add: step_ele_def rest_ok_def)
qed

lemma rest_head:
  assumes "rest_ok vs p left" "len \<le> left"
  shows "byte_slice (vec_addrs vs) p len = byte_slice (ele_addrs (hd vs)) p len"
  using assms by (cases vs) (auto simp: rest_ok_def byte_slice_def)

lemma byte_slice_rest: "drop p' bs = drop (p + len) as \<Longrightarrow> byte_slice bs p' n = byte_slice as (p + len) n"
  by (simp add: byte_slice_def)

lemma length_rest: "drop p' bs = drop (p + len) as \<Longrightarrow> length bs - p' = length as - (p + len)"
  by (metis length_drop)

lemma copy_loop_flat:
  assumes "rest_ok ss sp slen" "rest_ok ds dp dlen" "0 < n" "n < 2 ^ 31"
    "n \<le> vec_len ss - sp" "n \<le> vec_len ds - dp" "n = vec_len ss - sp \<or> n = vec_len ds - dp"
    "apart (byte_slice (vec_addrs ss) sp n) (byte_slice (vec_addrs ds) dp n)"
  shows "\<exists>k. copy_loop blank ss sp slen ds dp dlen (int n) moved skipped m =
           Some (moved + n, k, flat_copy blank (byte_slice (vec_addrs ss) sp n) (byte_slice (vec_addrs ds) dp n) m) \<and>
         (skipped = 0 \<and> None \<notin> set (byte_slice (vec_addrs ss) sp n) \<and> None \<notin> set (byte_slice (vec_addrs ds) dp n) \<longrightarrow> k = 0)"
  using assms
proof (induction "length ss + length ds" arbitrary: ss sp slen ds dp dlen n moved skipped m rule: less_induct)
  case less
  note prems = less.prems
  define l where "l = min slen dlen"
  let ?S = "byte_slice (vec_addrs ss) sp" let ?D = "byte_slice (vec_addrs ds) dp"
  have hd: "ss \<noteq> []" "ds \<noteq> []" "sp + l \<le> iov_len (hd ss)" "dp + l \<le> iov_len (hd ds)"
    using prems(1,2) by (auto simp: rest_ok_def l_def)
  have "slen \<le> vec_len ss - sp" "dlen \<le> vec_len ds - dp" using prems(1,2) by (cases ss; cases ds; auto simp: rest_ok_def)+
  then have len: "l \<le> n" using prems(7) by (auto simp: l_def)
  have S: "?S l = byte_slice (ele_addrs (hd ss)) sp l" and D: "?D l = byte_slice (ele_addrs (hd ds)) dp l"
    using prems(1,2) by (simp_all add: rest_head l_def)
  have Sn: "?S n = ?S l @ byte_slice (vec_addrs ss) (sp + l) (n - l)" and Dn: "?D n = ?D l @ byte_slice (vec_addrs ds) (dp + l) (n - l)"
    using len by (simp_all add: byte_slice_split)
  have ap: "apart (?S l) (?D l)" "apart (byte_slice (vec_addrs ss) (sp + l) (n - l)) (byte_slice (vec_addrs ds) (dp + l) (n - l))"
    using prems(8) unfolding Sn Dn by (simp_all add: apart_append)
  obtain k where k: "copy_ele blank (hd ss) (hd ds) sp dp l skipped m = Some (k, flat_copy blank (?S l) (?D l) m)"
    "skipped = 0 \<and> None \<notin> set (?S l) \<and> None \<notin> set (?D l) \<longrightarrow> k = 0"
    using copy_ele_flat [OF hd(3,4)] ap(1) unfolding S D by blast
  have n: "to_int (int n - int l) = int (n - l)" using len prems(4) by (simp add: to_int_id of_nat_diff)
  have all: "flat_copy blank (?S n) (?D n) m = flat_copy blank (byte_slice (vec_addrs ss) (sp + l) (n - l)) (byte_slice (vec_addrs ds) (dp + l) (n - l))
      (flat_copy blank (?S l) (?D l) m)"
    unfolding Sn Dn by (rule flat_copy_append) (use prems(3,5,6) len in \<open>simp add: byte_slice_length\<close>)
  show ?case
  proof (cases "n = l")
    case True
    then show ?thesis using hd(1,2) k prems(3) n by (subst copy_loop.simps) (simp add: Let_def flip: l_def)
  next
    case False
    have more: "sp + l < vec_len ss" "dp + l < vec_len ds" using False len prems(3,5,6) by linarith+
    obtain ss' sp' slen' where s': "step_ele ss sp slen l = Some (ss', sp', slen')" "rest_ok ss' sp' slen'"
      "drop sp' (vec_addrs ss') = drop (sp + l) (vec_addrs ss)" using step_ele_ok [OF prems(1) _ more(1)] by (auto simp: l_def)
    obtain ds' dp' dlen' where d': "step_ele ds dp dlen l = Some (ds', dp', dlen')" "rest_ok ds' dp' dlen'"
      "drop dp' (vec_addrs ds') = drop (dp + l) (vec_addrs ds)" using step_ele_ok [OF prems(2) _ more(2)] by (auto simp: l_def)
    have smaller: "length ss' + length ds' < length ss + length ds" using s'(1) d'(1) hd(1,2)
      by (auto simp: step_ele_def l_def min_def neq_Nil_conv split: if_splits list.splits)
    have lens: "vec_len ss' - sp' = vec_len ss - sp - l" "vec_len ds' - dp' = vec_len ds - dp - l"
      using length_rest [OF s'(3)] length_rest [OF d'(3)] by simp_all
    have pre: "0 < n - l" "n - l < 2 ^ 31" "n - l \<le> vec_len ss' - sp'" "n - l \<le> vec_len ds' - dp'"
      "n - l = vec_len ss' - sp' \<or> n - l = vec_len ds' - dp'"
      using False len prems(3-7) by (auto simp: lens)
    have ap': "apart (byte_slice (vec_addrs ss') sp' (n - l)) (byte_slice (vec_addrs ds') dp' (n - l))"
      using ap(2) unfolding byte_slice_rest [OF s'(3)] byte_slice_rest [OF d'(3)] .
    obtain k' where k': "copy_loop blank ss' sp' slen' ds' dp' dlen' (int (n - l)) (moved + l) k (flat_copy blank (?S l) (?D l) m) =
        Some (moved + l + (n - l), k', flat_copy blank (?S n) (?D n) m)" 
      "k = 0 \<and> None \<notin> set (byte_slice (vec_addrs ss) (sp + l) (n - l)) \<and> None \<notin> set (byte_slice (vec_addrs ds) (dp + l) (n - l)) \<longrightarrow> k' = 0"
      using less.hyps [OF smaller s'(2) d'(2) pre ap', of "moved + l" k "flat_copy blank (?S l) (?D l) m"]
      unfolding byte_slice_rest [OF s'(3)] byte_slice_rest [OF d'(3)] all [symmetric] by blast
    have "copy_loop blank ss sp slen ds dp dlen (int n) moved skipped m = Some (moved + n, k', flat_copy blank (?S n) (?D n) m)"
      using hd(1,2) k(1) prems(3) n False len s'(1) d'(1) k'(1) by (subst copy_loop.simps) (simp add: Let_def flip: l_def)
    moreover have "skipped = 0 \<and> None \<notin> set (?S n) \<and> None \<notin> set (?D n) \<longrightarrow> k' = 0"
      using k(2) k'(2) unfolding Sn Dn by auto
    ultimately show ?thesis by blast
  qed
qed

lemma set_eles_flat:
  "vec_len vs \<le> n \<Longrightarrow> pos + n < 2 ^ 64 \<Longrightarrow>
     set_eles c vs n pos m = (n - vec_len vs, pos + vec_len vs, flat_set c (vec_addrs vs) m)"
proof (induction vs arbitrary: n pos m)
  case Nil
  then show ?case by (simp add: flat_set_def)
next
  case (Cons v vs)
  let ?m = "case iov_base v of None \<Rightarrow> m | Some b \<Rightarrow> mem_set b c (iov_len v) m"
  have m: "?m = flat_set c (ele_addrs v) m" by (auto simp: flat_set_def ele_addrs_def mem_set_def fun_eq_iff split: option.split)
  have sz: "to_size (int n - int (iov_len v)) = n - iov_len v" "to_size (int pos + int (iov_len v)) = pos + iov_len v"
    using Cons.prems by (simp_all add: to_size_id nat_add_distrib)
  show ?case
  proof (cases "n - iov_len v = 0")
    case True
    then have "vec_addrs vs = []" "vec_len vs = 0" using Cons.prems by (simp_all flip: length_0_conv)
    then show ?thesis using True by (simp add: sz m Let_def flat_set_append flat_set_def)
  next
    case False
    then show ?thesis using Cons.IH [of "n - iov_len v" "pos + iov_len v" ?m] Cons.prems by (simp add: sz m Let_def flat_set_append)
  qed
qed

text \<open>
  What the copy and the fill rely on: a kind of buffer whose \<^verbatim>\<open>next_block\<close> answers a request within the buffer with a
  list of elements for some of the bytes, starting with the first.
\<close>

locale block_source =
  fixes wf :: "tbx_tbuf_t \<Rightarrow> bool"
    and addrs :: "tbx_tbuf_t \<Rightarrow> nat option list"
    and ok :: "tbx_tbuf_t \<Rightarrow> tbx_tbuf_var_t \<Rightarrow> bool"
  assumes fits: "wf tb \<Longrightarrow> length (addrs tb) < 2 ^ 31"
    and start: "wf tb \<Longrightarrow> ok tb tbx_tbuf_var_init"
    and answers: "wf tb \<Longrightarrow> ok tb tbv \<Longrightarrow> 0 < n \<Longrightarrow> pos + n \<le> length (addrs tb) \<Longrightarrow>
      \<exists>tbv'. tbx_tbuf_next tb pos (tbv\<lparr>nbytes := n\<rparr>) = Some (TBUFFER_OK, tbv') \<and> ok tb tbv' \<and> block_at tbv' (addrs tb) pos n"
begin

lemma copy_flat:
  assumes "wf tb_s" "wf tb_d" "ok tb_s stv" "ok tb_d dtv" "spos + n \<le> length (addrs tb_s)" "dpos + n \<le> length (addrs tb_d)"
    "apart (byte_slice (addrs tb_s) spos n) (byte_slice (addrs tb_d) dpos n)"
  shows "\<exists>k. tbuf_copy_loop blank tb_s tb_d n spos dpos stv dtv skipped m =
    Some (k, flat_copy blank (byte_slice (addrs tb_s) spos n) (byte_slice (addrs tb_d) dpos n) m) \<and>
    (skipped = 0 \<and> None \<notin> set (byte_slice (addrs tb_s) spos n) \<and> None \<notin> set (byte_slice (addrs tb_d) dpos n) \<longrightarrow> k = 0)"
  using assms(3-)
proof (induction n arbitrary: spos dpos stv dtv skipped m rule: less_induct)
  case (less n)
  let ?S = "byte_slice (addrs tb_s)" let ?D = "byte_slice (addrs tb_d)"
  show ?case
  proof (cases "n = 0")
    case True
    then show ?thesis by (subst tbuf_copy_loop.simps) (simp add: byte_slice_def)
  next
    case False
    then have n: "0 < n" by simp
    obtain stv' where s: "tbx_tbuf_next tb_s spos (stv\<lparr>nbytes := n\<rparr>) = Some (TBUFFER_OK, stv')" "ok tb_s stv'" "block_at stv' (addrs tb_s) spos n"
      using answers [OF assms(1) less.prems(1) n less.prems(3)] by blast
    obtain dtv' where d: "tbx_tbuf_next tb_d dpos (dtv\<lparr>nbytes := n\<rparr>) = Some (TBUFFER_OK, dtv')" "ok tb_d dtv'" "block_at dtv' (addrs tb_d) dpos n"
      using answers [OF assms(2) less.prems(2) n less.prems(4)] by blast
    define k where "k = min (nbytes stv') (nbytes dtv')"
    have k: "0 < k" "k \<le> n" using s(3) d(3) by (auto simp: k_def block_at_def)
    have len: "vec_len (buffer stv') = nbytes stv'" "vec_len (buffer dtv') = nbytes dtv'"
      using arg_cong [of _ _ length] s(3) d(3) less.prems(3,4) by (auto simp: block_at_def simp flip: vec_addrs_length)
    have sl: "byte_slice (vec_addrs (buffer stv')) 0 k = ?S spos k" "byte_slice (vec_addrs (buffer dtv')) 0 k = ?D dpos k"
      using s(3) d(3) by (simp_all add: block_at_def byte_slice_def k_def min.commute)
    have ne: "buffer stv' \<noteq> []" "buffer dtv' \<noteq> []" using len s(3) d(3) by (auto simp: block_at_def)
    have ap: "apart (?S spos k) (?D dpos k)" "apart (?S (spos + k) (n - k)) (?D (dpos + k) (n - k))"
      using less.prems(5) byte_slice_split [OF k(2)] by (simp_all add: apart_append)
    have k31: "k < 2 ^ 31" using fits [OF assms(1)] less.prems(3) k by simp
    have kl: "k \<le> vec_len (buffer stv') - 0" "k \<le> vec_len (buffer dtv') - 0" "k = vec_len (buffer stv') - 0 \<or> k = vec_len (buffer dtv') - 0"
      by (auto simp: k_def len min_def)
    obtain sk where c: "copy_loop blank (buffer stv') 0 (iov_len (hd (buffer stv'))) (buffer dtv') 0 (iov_len (hd (buffer dtv'))) (int k) 0 skipped m =
        Some (k, sk, flat_copy blank (?S spos k) (?D dpos k) m)"
      "skipped = 0 \<and> None \<notin> set (?S spos k) \<and> None \<notin> set (?D dpos k) \<longrightarrow> sk = 0"
      using copy_loop_flat [OF _ _ k(1) k31 kl, unfolded sl, OF _ _ ap(1),
          of "iov_len (hd (buffer stv'))" "iov_len (hd (buffer dtv'))" blank 0 skipped m] ne by (auto simp: rest_ok_def)
    have sz: "to_size (int n - int k) = n - k" "to_size (int spos + int k) = spos + k" "to_size (int dpos + int k) = dpos + k"
      using k less.prems(3,4) fits [OF assms(1)] fits [OF assms(2)] by (simp_all add: to_size_id nat_add_distrib)
    have eq: "tbuf_copy_loop blank tb_s tb_d n spos dpos stv dtv skipped m =
        tbuf_copy_loop blank tb_s tb_d (n - k) (spos + k) (dpos + k) stv' dtv' sk (flat_copy blank (?S spos k) (?D dpos k) m)"
      using n s(1) d(1) ne c(1) k31 by (subst tbuf_copy_loop.simps) (simp add: sz to_int_id flip: k_def)
    have all: "flat_copy blank (?S spos n) (?D dpos n) m = flat_copy blank (?S (spos + k) (n - k)) (?D (dpos + k) (n - k)) (flat_copy blank (?S spos k) (?D dpos k) m)"
      unfolding byte_slice_split [OF k(2)] using k less.prems(3,4) by (intro flat_copy_append) (simp add: byte_slice_length)
    have sub: "set (?S spos n) = set (?S spos k) \<union> set (?S (spos + k) (n - k))" "set (?D dpos n) = set (?D dpos k) \<union> set (?D (dpos + k) (n - k))"
      unfolding byte_slice_split [OF k(2)] by simp_all
    have "n - k < n" "spos + k + (n - k) \<le> length (addrs tb_s)" "dpos + k + (n - k) \<le> length (addrs tb_d)" using k less.prems(3,4) by simp_all
    from less.IH [OF this(1) s(2) d(2) this(2,3) ap(2), of sk "flat_copy blank (?S spos k) (?D dpos k) m"]
    show ?thesis unfolding eq all sub using c(2) by blast
  qed
qed

lemma memset_flat:
  assumes "wf tb" "ok tb tbv" "pos + n \<le> length (addrs tb)"
  shows "memset_loop c tb n pos tbv m = Some (flat_set c (byte_slice (addrs tb) pos n) m)"
  using assms(2-)
proof (induction n arbitrary: pos tbv m rule: less_induct)
  case (less n)
  let ?D = "byte_slice (addrs tb)"
  show ?case
  proof (cases "n = 0")
    case True
    then show ?thesis by (subst memset_loop.simps) (simp add: byte_slice_def flat_set_def)
  next
    case False
    then have n: "0 < n" by simp
    obtain tbv' where t: "tbx_tbuf_next tb pos (tbv\<lparr>nbytes := n\<rparr>) = Some (TBUFFER_OK, tbv')" "ok tb tbv'" "block_at tbv' (addrs tb) pos n"
      using answers [OF assms(1) less.prems(1) n less.prems(2)] by blast
    let ?k = "nbytes tbv'"
    have k: "0 < ?k" "?k \<le> n" and sl: "vec_addrs (buffer tbv') = ?D pos ?k" using t(3) by (auto simp: block_at_def byte_slice_def)
    have len: "vec_len (buffer tbv') = ?k" using arg_cong [OF sl, of length] k less.prems(2) by (simp add: byte_slice_length)
    have "set_eles c (buffer tbv') n pos m = (n - ?k, pos + ?k, flat_set c (?D pos ?k) m)"
      using set_eles_flat [of "buffer tbv'" n pos c m] len k sl less.prems(2) fits [OF assms(1)] by simp
    then have "memset_loop c tb n pos tbv m = memset_loop c tb (n - ?k) (pos + ?k) tbv' (flat_set c (?D pos ?k) m)"
      using n t(1) by (subst memset_loop.simps) simp
    then show ?thesis using less.IH [of "n - ?k" tbv' "pos + ?k" "flat_set c (?D pos ?k) m"] k t(2) less.prems(2)
      by (simp add: byte_slice_split [OF k(2)] flat_set_append)
  qed
qed

end

interpretation vec_buffer: block_source tbuf_wf tbuf_addrs var_ok
proof unfold_locales
  show "length (tbuf_addrs tb) < 2 ^ 31" if "tbuf_wf tb" for tb
    using that by (simp add: tbuf_wf_def tbuf_addrs_def)
  show "var_ok tb tbx_tbuf_var_init" if "tbuf_wf tb" for tb
    by (simp add: var_ok_def tbx_tbuf_var_init_def)
  show "\<exists>tbv'. tbx_tbuf_next tb pos (tbv\<lparr>nbytes := n\<rparr>) = Some (TBUFFER_OK, tbv') \<and> var_ok tb tbv' \<and> block_at tbv' (tbuf_addrs tb) pos n"
    if "tbuf_wf tb" "var_ok tb tbv" "0 < n" "pos + n \<le> length (tbuf_addrs tb)" for tb tbv n pos
    using tb_next_block_block [of tb "tbv\<lparr>nbytes := n\<rparr>" pos] that by (simp add: var_ok_def)
qed

section \<open>The buffers of the interface\<close>

lemma tbuf_single_wf: "n < 2 ^ 31 \<Longrightarrow> tbuf_wf (tbx_tbuf_single n b)"
  by (simp add: tbuf_wf_def tbx_tbuf_single_def)

lemma tbuf_vec_wf: "vec_len vs < 2 ^ 31 \<Longrightarrow> tbuf_wf (tbx_tbuf_vec (vec_len vs) vs)"
  by (simp add: tbuf_wf_def tbx_tbuf_vec_def)

lemma tbuf_addrs_simps [simp]:
  "tbuf_addrs (tbx_tbuf_single n (Some b)) = map Some [b ..< b + n]" "tbuf_addrs (tbx_tbuf_vec k vs) = vec_addrs vs"
  by (simp_all add: tbuf_addrs_def tbx_tbuf_single_def tbx_tbuf_vec_def ele_addrs_def)

lemma tbuf_size_addrs: "tbuf_wf tb \<Longrightarrow> tbx_tbuf_size tb = length (tbuf_addrs tb)"
  by (simp add: tbuf_wf_def tbuf_addrs_def tbx_tbuf_size_def)

text \<open>
  C18: \<^verbatim>\<open>tbx_tbuf_copy\<close> between two vectors that fit into an \<^verbatim>\<open>int\<close>, for a range that is within both, where no byte of the
  destination range occurs twice or is in the source range: it returns, the k-th byte of the destination has the value of the
  k-th byte of the source (a zero, or what it had, if the source has no memory there), no other memory changes, and the
  result is 0 if there is memory behind all bytes of both ranges.  The vectors may be cut in any way.
\<close>

theorem tbuf_copy_correct:
  assumes "S = byte_slice (tbuf_addrs tb_s) off_s n" "D = byte_slice (tbuf_addrs tb_d) off_d n" "tbuf_wf tb_s" "tbuf_wf tb_d" "off_s + n \<le> tbx_tbuf_size tb_s" "off_d + n \<le> tbx_tbuf_size tb_d" "apart S D"
    "distinct (filter (\<lambda>x. x \<noteq> None) D)"
  shows "\<exists>r m'. tbx_tbuf_copy tb_s off_s tb_d off_d n blank_missing m = Some (r, m') \<and>
    (\<forall>k d. k < n \<and> D ! k = Some d \<longrightarrow> m' d = (case S ! k of Some a \<Rightarrow> m a | None \<Rightarrow> if blank_missing \<noteq> 0 then 0 else m d)) \<and>
    (\<forall>a. Some a \<notin> set D \<longrightarrow> m' a = m a) \<and> (None \<notin> set S \<and> None \<notin> set D \<longrightarrow> r = 0)"
proof -
  have fit: "off_s + n \<le> length (tbuf_addrs tb_s)" "off_d + n \<le> length (tbuf_addrs tb_d)" using assms(3-6) by (simp_all add: tbuf_size_addrs)
  obtain k where k: "tbuf_copy_loop blank_missing tb_s tb_d n off_s off_d tbx_tbuf_var_init tbx_tbuf_var_init 0 m =
      Some (k, flat_copy blank_missing S D m)" "None \<notin> set S \<and> None \<notin> set D \<longrightarrow> k = 0"
    using vec_buffer.copy_flat [OF assms(3,4) vec_buffer.start [OF assms(3)] vec_buffer.start [OF assms(4)] fit assms(7) [unfolded assms(1,2)], of blank_missing 0 m]
    unfolding assms(1,2) by blast
  have len: "length S = n" "length D = n" using fit by (simp_all add: assms(1,2) byte_slice_length)
  show ?thesis using k flat_copy_nth [of S D, OF _ assms(7,8)] len
    by (auto simp: tbx_tbuf_copy_def flat_copy_other to_int_id)
qed

theorem tbuf_copy_correct_witness:
  "\<exists>r m'. tbx_tbuf_copy (tbx_tbuf_vec 5 [\<lparr>iov_base = Some 10, iov_len = 2\<rparr>, \<lparr>iov_base = Some 20, iov_len = 3\<rparr>]) 1
      (tbx_tbuf_vec 6 [\<lparr>iov_base = Some 40, iov_len = 4\<rparr>, \<lparr>iov_base = Some 30, iov_len = 2\<rparr>]) 2 4 0 (\<lambda>a. of_nat a) = Some (r, m') \<and>
    m' 42 = 11 \<and> m' 43 = 20 \<and> m' 30 = 21 \<and> m' 31 = 22 \<and> m' 41 = 41 \<and> r = 0"
proof -
  let ?s = "[\<lparr>iov_base = Some 10, iov_len = 2\<rparr>, \<lparr>iov_base = Some 20, iov_len = 3\<rparr>]"
  let ?d = "[\<lparr>iov_base = Some 40, iov_len = 4\<rparr>, \<lparr>iov_base = Some 30, iov_len = 2\<rparr>]"
  have S: "byte_slice (tbuf_addrs (tbx_tbuf_vec 5 ?s)) 1 4 = [Some 11, Some 20, Some 21, Some 22]"
    and D: "byte_slice (tbuf_addrs (tbx_tbuf_vec 6 ?d)) 2 4 = [Some 42, Some 43, Some 30, Some 31]"
    by (simp_all add: byte_slice_def ele_addrs_def upt_rec)
  have wf: "tbuf_wf (tbx_tbuf_vec 5 ?s)" "tbuf_wf (tbx_tbuf_vec 6 ?d)" by (simp_all add: tbuf_wf_def tbx_tbuf_vec_def)
  have sz: "1 + 4 \<le> tbx_tbuf_size (tbx_tbuf_vec 5 ?s)" "2 + 4 \<le> tbx_tbuf_size (tbx_tbuf_vec 6 ?d)" by (simp_all add: tbx_tbuf_size_def tbx_tbuf_vec_def)
  have dist: "distinct (filter (\<lambda>x. x \<noteq> None) [Some 42, Some 43, Some 30, Some (31::nat)])" by simp
  have ap: "apart [Some 11, Some 20, Some 21, Some 22] [Some 42, Some 43, Some 30, Some 31]" by (simp add: apart_def)
  obtain r m' where c: "tbx_tbuf_copy (tbx_tbuf_vec 5 ?s) 1 (tbx_tbuf_vec 6 ?d) 2 4 0 (\<lambda>a. of_nat a) = Some (r, m')"
    and b: "\<And>k d. k < 4 \<Longrightarrow> [Some 42, Some 43, Some 30, Some 31] ! k = Some d \<Longrightarrow>
      m' d = (case [Some 11, Some 20, Some 21, Some 22] ! k of Some a \<Rightarrow> of_nat a | None \<Rightarrow> if (0::int) \<noteq> 0 then 0 else of_nat d)"
    and o: "\<And>a. Some a \<notin> set [Some 42, Some 43, Some 30, Some 31] \<Longrightarrow> m' a = of_nat a" and r: "r = 0"
    using tbuf_copy_correct [OF S [symmetric] D [symmetric] wf sz ap dist, where blank_missing = 0 and m = "\<lambda>a. of_nat a"] by auto
  show ?thesis using c r b [of 0 42] b [of 1 43] b [of 2 30] b [of 3 31] o [of 41] by auto
qed

text \<open>
  C37: \<^verbatim>\<open>tbx_tbuf_memset\<close> from an offset that is not behind the end: if there is room it returns 0 and exactly the memory
  behind the range has the new value, otherwise it returns -1 and changes nothing.
\<close>

theorem tbuf_memset_correct:
  assumes "tbuf_wf tb" "off \<le> tbx_tbuf_size tb"
  shows "tbx_tbuf_memset tb off c n m =
    (if off + n \<le> tbx_tbuf_size tb
     then Some (0, \<lambda>a. if Some a \<in> set (byte_slice (tbuf_addrs tb) off n) then word_of_int c else m a)
     else Some (-1, m))"
proof -
  have "tbx_tbuf_size tb < 2 ^ 31" using assms(1) by (simp add: tbuf_wf_def tbx_tbuf_size_def)
  then have "to_size (int (tbx_tbuf_size tb) - int off) = tbx_tbuf_size tb - off" using assms(2) by (simp add: to_size_id)
  then show ?thesis using vec_buffer.memset_flat [OF assms(1) vec_buffer.start [OF assms(1)], of off n] assms
    by (auto simp: tbx_tbuf_memset_def tbuf_size_addrs flat_set_def)
qed

theorem tbuf_memset_correct_witness:
  "\<exists>m'. tbx_tbuf_memset (tbx_tbuf_vec 5 [\<lparr>iov_base = Some 10, iov_len = 2\<rparr>, \<lparr>iov_base = Some 20, iov_len = 3\<rparr>]) 1 7 2 (\<lambda>_. 0) = Some (0, m') \<and>
     m' 10 = 0 \<and> m' 11 = 7 \<and> m' 20 = 7 \<and> m' 21 = 0"
proof -
  let ?tb = "tbx_tbuf_vec 5 [\<lparr>iov_base = Some 10, iov_len = 2\<rparr>, \<lparr>iov_base = Some 20, iov_len = 3\<rparr>]"
  have "tbuf_wf ?tb" "1 \<le> tbx_tbuf_size ?tb" "1 + 2 \<le> tbx_tbuf_size ?tb"
    by (simp_all add: tbuf_wf_def tbx_tbuf_vec_def tbx_tbuf_size_def)
  moreover have "byte_slice (tbuf_addrs ?tb) 1 2 = [Some 11, Some 20]" by (simp add: byte_slice_def ele_addrs_def upt_rec)
  ultimately show ?thesis using tbuf_memset_correct [of ?tb 1 7 2 "\<lambda>_. 0"] by simp
qed

text \<open>
  An offset behind the end passes the check for room, as the difference is unsigned; the walk then has no block to offer and
  the loop does not end.
\<close>

lemma memset_loop_stuck:
  assumes "tbx_tbuf_next tb pos = (\<lambda>tbv. Some (TBUFFER_OUTOFSPACE, tbv))" "0 < n" "buffer tbv = []"
  shows "memset_loop c tb n pos tbv m \<noteq> Some m'"
proof
  assume "memset_loop c tb n pos tbv m = Some m'"
  then have "\<not> (tbx_tbuf_next tb pos = (\<lambda>tbv. Some (TBUFFER_OUTOFSPACE, tbv)) \<and> 0 < n \<and> buffer tbv = [])"
    by (rule memset_loop.raw_induct [rotated]) (fastforce split: if_splits)
  then show False using assms by simp
qed

lemma tbuf_memset_behind_end:
  assumes "tbuf_wf tb" "tbx_tbuf_size tb < off" "off < 2 ^ 63" "0 < n" "n < 2 ^ 63"
  shows "tbx_tbuf_memset tb off c n m = None"
proof -
  have sz: "tbx_tbuf_size tb < 2 ^ 31" using assms(1) by (simp add: tbuf_wf_def tbx_tbuf_size_def)
  have "(int (tbx_tbuf_size tb) - int off) mod 2 ^ 64 = int (tbx_tbuf_size tb) - int off + 2 ^ 64"
    using assms(2,3) mod_pos_pos_trivial [of "int (tbx_tbuf_size tb) - int off + 2 ^ 64" "2 ^ 64"] by simp
  then have room: "\<not> to_size (int (tbx_tbuf_size tb) - int off) < n" using assms(3,5) by (simp add: to_size_def)
  have "tbx_tbuf_next tb off = (\<lambda>tbv. Some (TBUFFER_OUTOFSPACE, tbv))"
    using assms(1,2) by (auto simp: tbx_tbuf_next_def tbuf_wf_def tb_next_block_def tbx_tbuf_size_def)
  then have "memset_loop (word_of_int c) tb n off tbx_tbuf_var_init m = None"
    using memset_loop_stuck [of tb off n tbx_tbuf_var_init] assms(4) by (cases "memset_loop (word_of_int c) tb n off tbx_tbuf_var_init m") (auto simp: tbx_tbuf_var_init_def)
  then show ?thesis using room by (simp add: tbx_tbuf_memset_def)
qed

text \<open>
  C38: the distance into an element is kept in an \<^verbatim>\<open>int\<close>.  In a buffer of one block of more than 4 GiB, a walk that starts at
  4 GiB is answered with the first bytes of the block instead of those at the position.
\<close>

theorem tbuf_next_wraps:
  assumes "2 ^ 32 + n < size_b" "0 < n" "size_b < 2 ^ 63"
  shows "\<exists>tbv. tbx_tbuf_next (tbx_tbuf_single size_b (Some b)) (2 ^ 32) (tbx_tbuf_var_init\<lparr>nbytes := n\<rparr>) = Some (TBUFFER_OK, tbv) \<and>
    buffer tbv = [\<lparr>iov_base = Some b, iov_len = n\<rparr>]"
proof -
  have "to_size (2 ^ 32 + int n - 1) = 2 ^ 32 + n - 1" "to_size (int size_b) = size_b" "to_size (2 ^ 32 + int n) = 2 ^ 32 + n" "to_size 0 = 0"
    using assms by (simp_all add: to_size_id nat_add_distrib nat_diff_distrib')
  moreover have "to_int (2 ^ 32) = 0" "to_int 0 = 0" by (simp_all add: to_int_def signed_take_bit_eq_if_positive take_bit_eq_mod)
  ultimately show ?thesis using assms
    by (simp add: tbx_tbuf_next_def tbx_tbuf_single_def tb_next_block_def tbx_tbuf_var_init_def next_on_boundary_def)
qed

theorem tbuf_next_wraps_witness:
  "\<exists>tbv. tbx_tbuf_next (tbx_tbuf_single (2 ^ 33) (Some 100)) (2 ^ 32) (tbx_tbuf_var_init\<lparr>nbytes := 5\<rparr>) = Some (TBUFFER_OK, tbv) \<and>
    buffer tbv = [\<lparr>iov_base = Some 100, iov_len = 5\<rparr>]"
  using tbuf_next_wraps [of 5 "2 ^ 33" 100] by simp

text \<open>
  A request from the start of an element beyond the end of the vector is not cut to what is there: a copy then goes through
  the elements behind the vector.
\<close>

lemma tbuf_next_not_cut:
  "tbx_tbuf_next (tbx_tbuf_vec 10 [\<lparr>iov_base = Some 100, iov_len = 8\<rparr>, \<lparr>iov_base = Some 200, iov_len = 2\<rparr>]) 8 (tbx_tbuf_var_init\<lparr>nbytes := 5\<rparr>) =
     Some (TBUFFER_OK, \<lparr>nbytes = 5, buffer = [\<lparr>iov_base = Some 200, iov_len = 2\<rparr>], curr_slot = 1, slot_total_pos = 8\<rparr>)"
  by (simp add: tbx_tbuf_next_def tbx_tbuf_vec_def tb_next_block_def tbx_tbuf_var_init_def next_on_boundary_def to_size_id to_int_id Let_def)

end
