(* ===== verification/Linear_Copy.thy ===== *)
theory Linear_Copy
  imports Seg_Linear
begin

text \<open>
  The linear segment behind the generic segment interface: its table of functions, that it keeps the laws that the copies
  of \<^verbatim>\<open>lio/segment.c\<close> rely on, and what the copies do with linear segments that live in one data service.
\<close>

section \<open>The table of functions\<close>

text \<open>\<^verbatim>\<open>seglin_truncate_func\<close>: the truncation under the lock of the segment.\<close>

definition seglin_truncate_func ::
  "seglin_priv_t \<Rightarrow> ds_state \<Rightarrow> (nat \<Rightarrow> string) \<Rightarrow> bool \<Rightarrow> bool \<Rightarrow> int \<Rightarrow> (int \<times> seglin_priv_t \<times> ds_state) option" where
  "seglin_truncate_func s w rid ok1 ok2 new_size =
     map_option (\<lambda>(ok, s, w). (if ok then OP_STATE_SUCCESS else OP_STATE_FAILURE, s, w)) (sl_truncate s w rid ok1 ok2 new_size)"

definition seglin_block_size :: "seglin_priv_t \<Rightarrow> int" where
  "seglin_block_size s = 1"

text \<open>
  The operations with a data service that carries them out: allocations, reads and writes succeed, \<open>ok2\<close> is the outcome of
  the writes of the last bytes of new blocks, and \<open>rid\<close> are the resources for new blocks.
\<close>

definition lio_seglin_vtable :: "(nat \<Rightarrow> string) \<Rightarrow> bool \<Rightarrow> (seglin_priv_t, ds_state) lio_segment_vtable_t" where
  "lio_seglin_vtable rid ok2 =
     \<lparr>read_fn = (\<lambda>s w off n b. seglin_read_func s w OP_STATE_SUCCESS (\<lambda>_. True) [(off, n)] 0 b),
      write_fn = (\<lambda>s w off n b. seglin_write_func s w rid True ok2 OP_STATE_SUCCESS (\<lambda>_. True) [(off, n)] 0 b),
      truncate_fn = (\<lambda>s w n. seglin_truncate_func s w rid True ok2 n),
      block_size_fn = seglin_block_size,
      size_fn = seglin_size\<rparr>"

section \<open>What an operation leaves alone\<close>

definition caps :: "seglin_priv_t \<Rightarrow> nat set" where
  "caps s = data ` set (isl s)"

text \<open>New allocations are new, and only the allocations of the segment are written.\<close>

definition framed :: "seglin_priv_t \<Rightarrow> ds_state \<Rightarrow> seglin_priv_t \<Rightarrow> ds_state \<Rightarrow> bool" where
  "framed s w s' w' \<longleftrightarrow> next_cap w \<le> next_cap w' \<and> caps s' \<subseteq> caps s \<union> {next_cap w..} \<and>
     (\<forall>c. c < next_cap w \<and> c \<notin> caps s \<longrightarrow> store w' c = store w c)"

lemma framed_refl: "framed s w s w"
  by (simp add: framed_def)

lemma framed_same: "s' = s \<Longrightarrow> store w' = store w \<Longrightarrow> next_cap w \<le> next_cap w' \<Longrightarrow> framed s w s' w'"
  by (simp add: framed_def)

lemma framed_trans: "framed s w s1 w1 \<Longrightarrow> framed s1 w1 s2 w2 \<Longrightarrow> framed s w s2 w2"
proof -
  assume 1: "framed s w s1 w1" and 2: "framed s1 w1 s2 w2"
  have c: "c \<notin> caps s1" if "c < next_cap w" "c \<notin> caps s" for c using 1 that by (auto simp: framed_def)
  have "caps s2 \<subseteq> caps s \<union> {next_cap w..}"
  proof
    fix c assume "c \<in> caps s2"
    then have "c \<in> caps s1 \<or> next_cap w1 \<le> c" using 2 by (auto simp: framed_def)
    then show "c \<in> caps s \<union> {next_cap w..}" using 1 by (auto simp: framed_def)
  qed
  then show ?thesis using 1 2 c by (simp add: framed_def)
qed

lemma set_slots_insert [simp]: "set (slots_insert b bs) = insert b (set bs)"
  by (simp add: slots_insert_def set_insort_key)

lemma set_slots_inserts [simp]: "set (fold slots_insert xs bs) = set xs \<union> set bs"
  by (induction xs arbitrary: bs) auto

lemma slots_search_subset: "slots_search lo hi bs = b # ys \<Longrightarrow> b \<in> set bs"
  by (metis filter_is_subset list.set_intros(1) slots_search_def subsetD)

lemma new_block_caps:
  assumes "0 < mx" "b \<in> set (new_blocks mx n rid c 0 off)"
  shows "c \<le> data b"
proof -
  have "data b \<in> set (map data (new_blocks mx n rid c 0 off))" using assms(2) by simp
  then show ?thesis using new_blocks_caps [OF assms(1), of n rid c 0 off] by auto
qed

lemma grown_framed:
  assumes "0 < max_block_size s" "blocks = new_blocks (max_block_size s) n rid (next_cap w) 0 lo" "data ` set isl1 \<subseteq> caps s"
    "\<And>c. c \<notin> caps s \<Longrightarrow> st1 c = store w c" "isl s' = fold slots_insert blocks isl1"
    "store w' = fold end_write blocks st1" "next_cap w \<le> next_cap w'"
  shows "framed s w s' w'"
proof -
  have b: "next_cap w \<le> data b" if "b \<in> set blocks" for b using new_block_caps [OF assms(1)] that unfolding assms(2) by blast
  have "store w' c = store w c" if "c < next_cap w" "c \<notin> caps s" for c
  proof -
    have "c \<notin> data ` set blocks" using b that(1) by (auto simp: not_le [symmetric])
    then show ?thesis using assms(4) [OF that(2)] by (simp add: assms(6) end_writes_other)
  qed
  then show ?thesis using assms(3,7) b by (auto simp: framed_def caps_def assms(5))
qed

lemma sl_grow_framed:
  assumes "sl_grow s w rid ok1 ok2 n = Some (r, s', w')"
  shows "framed s w s' w'"
proof -
  define m where "m = (if n < 0 then - n else n)"
  note def = assms [unfolded sl_grow_def, folded m_def, unfolded Let_def]
  show ?thesis
  proof (cases "n < 0 \<and> m < total_size s")
    case True
    then have "s' = s" "w' = w" using def by simp_all
    then show ?thesis by (simp add: framed_refl)
  next
    case False
    note d1 = def [unfolded if_not_P [OF False]]
    have mx: "0 < max_block_size s" using d1 by (auto split: if_splits)
    then have "\<not> max_block_size s \<le> 0" by simp
    note d2 = d1 [unfolded if_not_P [OF this]]
    obtain last_b where lb: "(if total_size s > 0
        then (case slots_search (total_size s - 1) (total_size s) (isl s) of [] \<Rightarrow> None | b # _ \<Rightarrow> Some (Some b)) else Some None) = Some last_b"
      using d2 unfolding bind_Some_iff by blast
    note d3 = d2 [unfolded lb bind_Some_simp]
    have inb: "data b \<in> caps s" if "last_b = Some b" for b
      using lb that slots_search_subset by (auto simp: caps_def split: if_splits list.splits)
    show ?thesis
    proof (cases "\<exists>b. last_b = Some b \<and> len b < max_block_size s")
      case False
      then obtain lo where lo: "(case last_b of None \<Rightarrow> (None, total_size s) | Some b \<Rightarrow> if len b < max_block_size s
          then (Some (b, min (m - seg_offset b) (max_block_size s)), seg_offset b + min (m - seg_offset b) (max_block_size s) - 1 + 1)
          else (None, seg_end b + 1)) = (None, lo)" by (cases last_b) auto
      let ?B = "new_blocks (max_block_size s) m rid (next_cap w) 0 lo"
      from d3 [unfolded lo prod.case option.case]
      have "(s' = s \<and> store w' = store w \<and> next_cap w \<le> next_cap w') \<or>
          (isl s' = fold slots_insert ?B (isl s) \<and> store w' = fold end_write ?B (store w) \<and> next_cap w \<le> next_cap w')"
        by (auto split: if_splits)
      moreover have "data ` set (isl s) \<subseteq> caps s" by (simp add: caps_def)
      ultimately show ?thesis using grown_framed [OF mx refl, of "isl s" "store w" w s' m rid lo w'] framed_same by blast
    next
      case True
      then obtain b where b: "last_b = Some b" "len b < max_block_size s" by blast
      define dsize where "dsize = min (m - seg_offset b) (max_block_size s)"
      define b' where "b' = b\<lparr>len := dsize, seg_end := seg_offset b + dsize - 1, d_size := dsize, d_max_size := dsize\<rparr>"
      let ?B = "new_blocks (max_block_size s) m rid (next_cap w) 0 (seg_offset b + dsize - 1 + 1)"
      have sub: "data ` set (slots_insert b' (remove1 b (isl s))) \<subseteq> caps s"
        using inb [OF b(1)] set_remove1_subset [of b "isl s"] by (auto simp: caps_def b'_def)
      have other: "end_write b' (store w) c = store w c" if "c \<notin> caps s" for c
        using inb [OF b(1)] that end_write_other [of c b' "store w"] by (auto simp: b'_def)
      from d3 [unfolded b(1) option.case if_P [OF b(2)] prod.case, folded dsize_def, folded b'_def]
      have "(s' = s \<and> store w' = store w \<and> next_cap w \<le> next_cap w') \<or>
          (isl s' = fold slots_insert ?B (slots_insert b' (remove1 b (isl s))) \<and> store w' = fold end_write ?B (end_write b' (store w)) \<and> next_cap w \<le> next_cap w')"
        by (auto split: if_splits)
      then show ?thesis using grown_framed [OF mx refl sub other, of s' m rid "seg_offset b + dsize - 1 + 1" w'] framed_same by blast
    qed
  qed
qed

lemma sl_shrink_framed:
  assumes "sl_shrink s ok n = Some (r, s')"
  shows "framed s w s' w"
proof -
  obtain b bs where b: "slots_search n (total_size s) (isl s) = b # bs" using assms by (auto simp: sl_shrink_def split: list.splits)
  have rem: "set (fold remove1 xs ys) \<subseteq> set ys" for xs ys :: "seglin_slot_t list"
    by (induction xs arbitrary: ys) (auto dest: set_mp [OF set_remove1_subset] subsetD)
  have "caps s' \<subseteq> caps s"
  proof
    fix c assume "c \<in> caps s'"
    then obtain x where x: "x \<in> set (isl s')" "c = data x" by (auto simp: caps_def)
    let ?xs = "if n - seg_offset b = 0 then b # bs else bs"
    have "x \<in> set (fold remove1 ?xs (isl s)) \<or> data x = data b"
      using assms x(1) set_remove1_subset [of b "fold remove1 ?xs (isl s)"] by (auto simp: sl_shrink_def b Let_def split: if_splits)
    then show "c \<in> caps s" using rem [of ?xs "isl s"] slots_search_subset [OF b] x(2) by (auto simp: caps_def)
  qed
  then show ?thesis by (auto simp: framed_def)
qed

lemma sl_truncate_framed: "sl_truncate s w rid ok1 ok2 n = Some (r, s', w') \<Longrightarrow> framed s w s' w'"
  by (auto simp: sl_truncate_def framed_refl split: if_splits dest: sl_grow_framed intro: sl_shrink_framed)

lemma write_op_framed:
  assumes "seglin_write_op s w state eff [(off, n)] boff b = (e, w')"
  shows "framed s w s w'"
proof -
  have "fst ` set (filter eff (executed s [(off, n)] boff)) \<subseteq> caps s"
    using search_tasks_caps [of off "off + n - 1" boff "isl s"] by (auto simp: executed_single caps_def)
  then have "store w' c = store w c" if "c \<notin> caps s" for c
    using assms that write_blocks_other [of c "filter eff (executed s [(off, n)] boff)" b w] by (auto simp: seglin_write_op_def Let_def)
  moreover have "next_cap w' = next_cap w" using assms by (auto simp: seglin_write_op_def Let_def)
  ultimately show ?thesis by (simp add: framed_def)
qed

lemma write_func_framed:
  assumes "seglin_write_func s w rid ok1 ok2 state eff [(off, n)] boff b = Some (e, s', w')"
  shows "framed s w s' w'"
proof -
  define m where "m = foldl (\<lambda>m (off, l). if off + l - 1 > m then off + l - 1 else m) 0 [(off, n)]"
  note def = assms [unfolded seglin_write_func_def Let_def, folded m_def]
  obtain x where "(if m \<ge> total_size s \<and> total_size s < m + excess_block_size s
      then map_option snd (sl_truncate s w rid ok1 ok2 (m + excess_block_size s)) else Some (s, w)) = Some x"
    using def unfolding bind_Some_iff by blast
  moreover obtain s1 w1 where "x = (s1, w1)" by fastforce
  ultimately have g: "(if m \<ge> total_size s \<and> total_size s < m + excess_block_size s
      then map_option snd (sl_truncate s w rid ok1 ok2 (m + excess_block_size s)) else Some (s, w)) = Some (s1, w1)" by simp
  have f1: "framed s w s1 w1" using g by (auto simp: framed_refl split: if_splits dest: sl_truncate_framed)
  obtain e1 w2 where o: "seglin_write_op s1 w1 state eff [(off, n)] boff b = (e1, w2)" by fastforce
  have "w' = w2" "caps s' = caps s1"
    using def unfolding g by (auto simp: o caps_def split: if_splits)
  moreover have "framed s1 w1 s1 w2" by (rule write_op_framed [OF o])
  ultimately have "framed s1 w1 s' w'" by (simp add: framed_def)
  then show ?thesis by (rule framed_trans [OF f1])
qed

section \<open>The laws\<close>

definition lin_ok :: "seglin_priv_t \<Rightarrow> ds_state \<Rightarrow> bool" where
  "lin_ok s w \<longleftrightarrow> seglin_ok s w \<and> 0 \<le> used_size s \<and> used_size s \<le> total_size s \<and> 1 \<le> excess_block_size s"

text \<open>A reservation of exactly the allocated size is undefined when the last block is full.\<close>

definition lin_reservable :: "seglin_priv_t \<Rightarrow> int \<Rightarrow> bool" where
  "lin_reservable s n \<longleftrightarrow> \<not> (n = total_size s \<and> len (last (isl s)) = max_block_size s)"

definition lin_sep :: "seglin_priv_t \<Rightarrow> seglin_priv_t \<Rightarrow> ds_state \<Rightarrow> bool" where
  "lin_sep s d w \<longleftrightarrow> caps s \<inter> caps d = {}"

lemma caps_old: "seglin_ok s w \<Longrightarrow> c \<in> caps s \<Longrightarrow> c < next_cap w"
  by (auto simp: seglin_ok_def caps_def)

lemma view_framed:
  assumes "framed d w d' w'" "seglin_ok s w" "lin_sep s d w"
  shows "seglin_view s w' = seglin_view s w"
proof -
  have "store w' c = store w c" if "c \<in> caps s" for c
    using assms(1,3) that caps_old [OF assms(2) that] by (auto simp: framed_def lin_sep_def)
  then show ?thesis unfolding seglin_view_def by (intro ext byte_at_cong) (simp add: caps_def)
qed

lemma ok_framed: "framed d w d' w' \<Longrightarrow> lin_ok s w \<Longrightarrow> lin_ok s w'"
  by (fastforce simp: framed_def lin_ok_def seglin_ok_def)

lemma sep_framed:
  assumes "framed d w d' w'" "seglin_ok s w" "lin_sep s d w"
  shows "lin_sep s d' w'"
  using assms(1,3) caps_old [OF assms(2)] by (fastforce simp: framed_def lin_sep_def)

lemmas pair_framed = view_framed ok_framed sep_framed

lemma lin_reads:
  assumes "lin_ok s w" "0 \<le> off" "0 < n" "off + n \<le> seglin_size s"
  shows "\<exists>s' b'. seglin_read_func s w OP_STATE_SUCCESS (\<lambda>_. True) [(off, n)] 0 b = (OP_STATE_SUCCESS, s', b') \<and> lin_ok s' w \<and>
    seglin_view s' = seglin_view s \<and> seglin_size s' = seglin_size s \<and> holds (seglin_view s w) off n b'"
proof -
  have ok: "seglin_ok s w" "off + n \<le> total_size s" using assms(1,4) by (auto simp: lin_ok_def seglin_size_def)
  obtain b' where b': "seglin_read_func s w OP_STATE_SUCCESS (\<lambda>_. True) [(off, n)] 0 b = (OP_STATE_SUCCESS, s\<lparr>hard_errors := hard_errors s + 1\<rparr>, b')"
    "\<forall>p. b' p = (if 0 \<le> p \<and> p < 0 + n then the (seglin_view s w (off + (p - 0))) else b p)"
    using seglin_read_piece [OF ok(1) assms(2,3) ok(2), of OP_STATE_SUCCESS 0 b] by (auto simp: OP_STATE_SUCCESS_def)
  have "seglin_view s w x \<noteq> None" if "0 \<le> x" "x < total_size s" for x
  proof -
    have "tiled 0 (isl s) (total_size s)" using ok(1) by (simp add: seglin_ok_def)
    from tiled_split [OF this that] show ?thesis by (auto simp: seglin_view_def byte_at_append byte_at_outside)
  qed
  then have "holds (seglin_view s w) off n b'" using b'(2) assms(2) ok(2) by (auto simp: holds_def)
  moreover have "lin_ok (s\<lparr>hard_errors := hard_errors s + 1\<rparr>) w" using assms(1) by (simp add: lin_ok_def seglin_ok_def)
  ultimately show ?thesis using b'(1) by (auto simp: seglin_view_def seglin_size_def fun_eq_iff)
qed

lemma lin_writes:
  assumes "lin_ok d w" "0 \<le> off" "0 < n"
  shows "\<exists>d' w'. seglin_write_func d w rid True ok2 OP_STATE_SUCCESS (\<lambda>_. True) [(off, n)] 0 b = Some (OP_STATE_SUCCESS, d', w') \<and> lin_ok d' w' \<and>
    seglin_size d' = max (seglin_size d) (off + n) \<and> overlaid (seglin_view d w) (seglin_size d) off n (\<lambda>p. Some (b p)) (seglin_view d' w')"
proof -
  have ok: "seglin_ok d w" "1 \<le> excess_block_size d" "0 \<le> used_size d" "used_size d \<le> total_size d" using assms(1) by (simp_all add: lin_ok_def)
  obtain d' w' where r: "seglin_write_func d w rid True ok2 OP_STATE_SUCCESS (\<lambda>_. True) [(off, n)] 0 b = Some (OP_STATE_SUCCESS, d', w')"
    "seglin_ok d' w'" "total_size d \<le> total_size d'" "excess_block_size d' = excess_block_size d" "off + n \<le> total_size d'" "used_size d' = max (used_size d) (off + n)"
    and v: "\<forall>x. 0 \<le> x \<longrightarrow> off \<le> x \<and> x < off + n \<longrightarrow> seglin_view d' w' x = Some (b (0 + (x - off)))"
      "\<forall>x. 0 \<le> x \<longrightarrow> x < total_size d \<longrightarrow> \<not> (off \<le> x \<and> x < off + n) \<longrightarrow> seglin_view d' w' x = seglin_view d w x"
    using seglin_write_piece [OF ok(1) assms(2,3) ok(2), of rid ok2 0 b] by blast
  have "overlaid (seglin_view d w) (seglin_size d) off n (\<lambda>p. Some (b p)) (seglin_view d' w')"
    using v ok(4) assms(2) by (auto simp: overlaid_def seglin_size_def)
  moreover have "lin_ok d' w'" using r ok by (auto simp: lin_ok_def)
  ultimately show ?thesis using r(1,6) by (auto simp: seglin_size_def)
qed

lemma sl_grow_reserve: "0 < n \<Longrightarrow> \<not> n < total_size s \<Longrightarrow> sl_grow s w rid ok1 ok2 (- n) = sl_grow s w rid ok1 ok2 n"
  by (simp add: sl_grow_def)

lemma lin_reserves:
  assumes "lin_ok d w" "0 < n" "lin_reservable d n"
  shows "\<exists>r d' w'. seglin_truncate_func d w rid True ok2 (- n) = Some (r, d', w') \<and> lin_ok d' w' \<and> seglin_size d' = seglin_size d \<and>
    (\<forall>x. 0 \<le> x \<and> x < seglin_size d \<and> x \<noteq> n - 1 \<longrightarrow> seglin_view d' w' x = seglin_view d w x)"
proof (cases "n < total_size d")
  case True
  then show ?thesis using assms by (simp add: seglin_truncate_func_def sl_truncate_def sl_grow_def)
next
  case False
  have ok: "seglin_ok d w" using assms(1) by (simp add: lin_ok_def)
  have "\<exists>d' w'. sl_grow d w rid True ok2 n = Some (ok2, d', w') \<and> lin_ok d' w' \<and> seglin_size d' = seglin_size d \<and>
    (\<forall>x. 0 \<le> x \<and> x < seglin_size d \<and> x \<noteq> n - 1 \<longrightarrow> seglin_view d' w' x = seglin_view d w x)"
  proof (cases "n = total_size d")
    case True
    have "isl d \<noteq> []" using ok assms(2) True by (auto simp: seglin_ok_def)
    then have "len (last (isl d)) \<le> max_block_size d" using ok by (simp add: seglin_ok_def)
    then have "len (last (isl d)) < max_block_size d" "0 < total_size d" using assms(2,3) True by (auto simp: lin_reservable_def)
    from sl_grow_same [OF ok this(2,1), of rid ok2] show ?thesis using assms(1) True by (force simp: lin_ok_def seglin_size_def)
  next
    case neq: False
    then have "total_size d < n" using False by simp
    from sl_grow_correct [OF ok this, of rid ok2] show ?thesis using assms(1) \<open>total_size d < n\<close> by (force simp: grown_def lin_ok_def seglin_size_def)
  qed
  then obtain d' w' where g: "sl_grow d w rid True ok2 n = Some (ok2, d', w')" "lin_ok d' w'" "seglin_size d' = seglin_size d"
    "\<forall>x. 0 \<le> x \<and> x < seglin_size d \<and> x \<noteq> n - 1 \<longrightarrow> seglin_view d' w' x = seglin_view d w x" by blast
  then have "seglin_truncate_func d w rid True ok2 (- n) = Some (if ok2 then OP_STATE_SUCCESS else OP_STATE_FAILURE, d', w')"
    using assms(2) sl_grow_reserve [OF assms(2) False] by (simp add: seglin_truncate_func_def sl_truncate_def)
  then show ?thesis using g(2-4) by blast
qed

lemma lin_not_reserves:
  assumes "lin_ok d w" "0 < n" "\<not> lin_reservable d n"
  shows "seglin_truncate_func d w rid ok1 ok2 (- n) = None"
proof -
  have n: "n = total_size d" "\<not> len (last (isl d)) < max_block_size d" using assms(3) by (auto simp: lin_reservable_def)
  have "sl_grow d w rid ok1 ok2 n = None" unfolding n(1) using assms(1,2) n by (intro sl_grow_same_full) (simp_all add: lin_ok_def)
  then show ?thesis using assms(2) n(1) sl_grow_reserve [OF assms(2), of d] by (simp add: seglin_truncate_func_def sl_truncate_def)
qed

lemma lin_truncates:
  assumes "lin_ok d w" "0 \<le> n" "n \<le> seglin_size d"
  shows "\<exists>r d' w'. seglin_truncate_func d w rid True ok2 n = Some (r, d', w') \<and> lin_ok d' w' \<and> seglin_size d' = n \<and>
    (\<forall>x. 0 \<le> x \<and> x < n \<longrightarrow> seglin_view d' w' x = seglin_view d w x)"
proof (cases "n = total_size d")
  case True
  then show ?thesis using assms by (auto simp: seglin_truncate_func_def sl_truncate_def lin_ok_def seglin_size_def)
next
  case False
  then have n: "n < total_size d" and ok: "seglin_ok d w" using assms by (auto simp: lin_ok_def seglin_size_def)
  obtain d' where d': "sl_shrink d True n = Some (True, d')" "seglin_ok d' w" "total_size d' = n" "used_size d' = n"
    "\<forall>x. 0 \<le> x \<and> x < n \<longrightarrow> seglin_view d' w x = seglin_view d w x" using sl_shrink_correct [OF ok assms(2) n] by blast
  have "excess_block_size d' = excess_block_size d" using d'(1) by (auto simp: sl_shrink_def Let_def split: list.splits)
  then show ?thesis using d' n assms by (auto simp: seglin_truncate_func_def sl_truncate_def lin_ok_def seglin_size_def)
qed

lemma vtable_simps [simp]:
  "read_fn (lio_seglin_vtable rid ok2) s w off n b = seglin_read_func s w OP_STATE_SUCCESS (\<lambda>_. True) [(off, n)] 0 b"
  "write_fn (lio_seglin_vtable rid ok2) s w off n b = seglin_write_func s w rid True ok2 OP_STATE_SUCCESS (\<lambda>_. True) [(off, n)] 0 b"
  "truncate_fn (lio_seglin_vtable rid ok2) s w k = seglin_truncate_func s w rid True ok2 k"
  "block_size_fn (lio_seglin_vtable rid ok2) s = 1" "size_fn (lio_seglin_vtable rid ok2) s = seglin_size s"
  by (simp_all add: lio_seglin_vtable_def seglin_block_size_def)

lemma truncate_func_framed: "seglin_truncate_func d w rid ok1 ok2 n = Some (e, d', w') \<Longrightarrow> framed d w d' w'"
  by (auto simp: seglin_truncate_func_def dest: sl_truncate_framed)

interpretation lin: seg_pair "lio_seglin_vtable rid ok2" lin_ok seglin_view "lio_seglin_vtable rid ok2" lin_ok seglin_view lin_reservable lin_sep
  for rid ok2
proof (unfold_locales, goal_cases)
  case 2 then show ?case using lin_reads by simp
next
  case 3 then show ?case using lin_writes by simp
next
  case 4 then show ?case using lin_reserves by simp
next
  case 5 then show ?case using lin_truncates by simp
next
  case (6 s d w w' off n b e s' b')
  then have "isl s' = isl s" by (auto simp: seglin_read_func_def Let_def split: if_splits)
  with 6 show ?case by (simp add: lin_sep_def caps_def)
next
  case (7 s w d off n b e d' w')
  then have "framed d w d' w'" "seglin_ok s w" by (auto simp: lin_ok_def dest: write_func_framed)
  with 7 show ?case using pair_framed by blast
next
  case (8 s w d n e d' w')
  then have "framed d w d' w'" "seglin_ok s w" by (auto simp: lin_ok_def dest: truncate_func_framed)
  with 8 show ?case using pair_framed by blast
qed simp_all

section \<open>Properties\<close>

text \<open>
  C6: a copy between two linear segments that share no blocks, whose data services and resource service work and whose
  excess block size is at least one, from an offset inside of the source.  The length is -1 or at least what the first
  read takes, which is half of the buffer or all that the source has (for shorter lengths, see the next property).  Then
  the copy is undefined exactly when its end is the allocated size of the destination and the last block of the
  destination is full; else it returns and succeeds for every scheduling of the reads and the writes and reports the
  position it reached, the bytes of the source stand in the destination, all other bytes of the destination are kept, and
  its size is cut to the end of the copy if that was asked for.
\<close>

theorem seglin_copy_correct:
  assumes "lin_ok s w" "lin_ok d w" "lin_sep s d w" "0 \<le> src_offset sc" "0 \<le> dest_offset sc" "2 \<le> bufsize sc"
    "n = seglin_size s - src_offset sc" "0 < n" "copy_len sc = -1 \<or> min n (bufsize sc div 2) \<le> copy_len sc"
    "k = (if copy_len sc \<noteq> -1 \<and> copy_len sc < n then copy_len sc else n)"
  shows "if dest_offset sc + k = total_size d \<and> len (last (isl d)) = max_block_size d
    then lio_segment_copy_gop_func (lio_seglin_vtable rid ok2) (lio_seglin_vtable rid ok2) sched sc s d w buf1 buf2 = None
    else \<exists>s' d' w'. lio_segment_copy_gop_func (lio_seglin_vtable rid ok2) (lio_seglin_vtable rid ok2) sched sc s d w buf1 buf2 =
      Some ((OP_STATE_SUCCESS, to_int (src_offset sc + k)), s', d', w') \<and>
    lin_ok s' w' \<and> lin_ok d' w' \<and> seglin_view s' w' = seglin_view s w \<and>
    seglin_size d' = (if do_truncate sc = 1 then dest_offset sc + k else max (seglin_size d) (dest_offset sc + k)) \<and>
    (\<forall>p. 0 \<le> p \<and> p < k \<longrightarrow> seglin_view d' w' (dest_offset sc + p) = seglin_view s w (src_offset sc + p)) \<and>
    (\<forall>x. 0 \<le> x \<and> x < min (seglin_size d) (seglin_size d') \<and> \<not> (dest_offset sc \<le> x \<and> x < dest_offset sc + k) \<longrightarrow>
       seglin_view d' w' x = seglin_view d w x)"
proof (cases "lin_reservable d (dest_offset sc + k)")
  case True
  then show ?thesis using lin.copy_moves [unfolded vtable_simps, OF assms True] by (simp only: lin_reservable_def if_False)
next
  case False
  have "0 < dest_offset sc + k" using assms(5-10) by auto
  from lin_not_reserves [OF assms(2) this False, of rid True ok2]
  have "lio_segment_copy_gop_func (lio_seglin_vtable rid ok2) (lio_seglin_vtable rid ok2) sched sc s d w buf1 buf2 = None"
    by (rule lin.copy_undefined [unfolded vtable_simps, OF assms(7,10)])
  then show ?thesis using False by (simp add: lin_reservable_def)
qed

definition demo_dest :: seglin_priv_t where
  "demo_dest = \<lparr>used_size = 0, total_size = 0, max_block_size = 16, excess_block_size = 4, n_rid_default = 1, hard_errors = 0, isl = []\<rparr>"

definition demo_copy :: "int \<Rightarrow> lio_segment_copy_gop_t" where
  "demo_copy l = \<lparr>src_offset = 2, dest_offset = 3, copy_len = l, bufsize = 4, do_truncate = 1\<rparr>"

lemma demo_pair_ok: "lin_ok demo_seg demo_ds" "lin_ok demo_dest demo_ds" "lin_sep demo_seg demo_dest demo_ds"
  by (simp_all add: lin_ok_def demo_seg_ok) (simp_all add: seglin_ok_def lin_sep_def caps_def demo_seg_def demo_dest_def)

theorem seglin_copy_correct_witness:
  "\<exists>s' d' w'. lio_segment_copy_gop_func (lio_seglin_vtable (\<lambda>_. ''r'') True) (lio_seglin_vtable (\<lambda>_. ''r'') True) (\<lambda>i. even i)
      (demo_copy (-1)) demo_seg demo_dest demo_ds (\<lambda>_. 0) (\<lambda>_. 0) = Some ((OP_STATE_SUCCESS, 8), s', d', w') \<and>
    seglin_size d' = 9 \<and> seglin_view d' w' 8 = Some 7"
proof -
  let ?v = "lio_seglin_vtable (\<lambda>_. ''r'') True" let ?sc = "demo_copy (-1)"
  have f: "0 \<le> src_offset ?sc" "0 \<le> dest_offset ?sc" "2 \<le> bufsize ?sc" "6 = seglin_size demo_seg - src_offset ?sc" "(0::int) < 6"
    "copy_len ?sc = -1 \<or> min 6 (bufsize ?sc div 2) \<le> copy_len ?sc" "6 = (if copy_len ?sc \<noteq> -1 \<and> copy_len ?sc < 6 then copy_len ?sc else 6)"
    by (simp_all add: demo_copy_def demo_seg_def seglin_size_def)
  have neq: "\<not> (dest_offset ?sc + 6 = total_size demo_dest \<and> len (last (isl demo_dest)) = max_block_size demo_dest)"
    by (simp add: demo_copy_def demo_dest_def)
  obtain s' d' w' where c: "lio_segment_copy_gop_func ?v ?v (\<lambda>i. even i) ?sc demo_seg demo_dest demo_ds (\<lambda>_. 0) (\<lambda>_. 0) =
      Some ((OP_STATE_SUCCESS, to_int (src_offset ?sc + 6)), s', d', w')"
    "seglin_size d' = (if do_truncate ?sc = 1 then dest_offset ?sc + 6 else max (seglin_size demo_dest) (dest_offset ?sc + 6))"
    "\<forall>p. 0 \<le> p \<and> p < 6 \<longrightarrow> seglin_view d' w' (dest_offset ?sc + p) = seglin_view demo_seg demo_ds (src_offset ?sc + p)"
    using seglin_copy_correct [OF demo_pair_ok f, of "\<lambda>_. ''r''" True "\<lambda>i. even i" "\<lambda>_. 0" "\<lambda>_. 0", unfolded if_not_P [OF neq]] by blast
  moreover have "seglin_view demo_seg demo_ds 7 = Some 7" by (simp add: seglin_view_def demo_seg_def demo_slot_def demo_ds_def)
  moreover have "seglin_view d' w' (dest_offset ?sc + 5) = seglin_view demo_seg demo_ds (src_offset ?sc + 5)" using c(3) by simp
  ultimately show ?thesis by (auto simp: demo_copy_def to_int_id)
qed

text \<open>
  C39: the length of the first read does not look at the number of bytes to copy.  Between any two segments, a copy of fewer
  bytes than the source has and than fit into a buffer never succeeds: it fails or does not return.
\<close>

theorem segment_copy_short_len:
  assumes "copy_bufsize (block_size_fn S s) (block_size_fn D d) sc = Some bs" "0 < bs" "0 \<le> copy_len sc"
    "copy_len sc < size_fn S s - src_offset sc" "copy_len sc < bs"
  shows "\<not> (\<exists>e s' d' w'. lio_segment_copy_gop_func S D sched sc s d w buf1 buf2 = Some ((OP_STATE_SUCCESS, e), s', d', w'))"
proof
  assume "\<exists>e s' d' w'. lio_segment_copy_gop_func S D sched sc s d w buf1 buf2 = Some ((OP_STATE_SUCCESS, e), s', d', w')"
  then obtain e s' d' w' where c: "lio_segment_copy_gop_func S D sched sc s d w buf1 buf2 = Some ((OP_STATE_SUCCESS, e), s', d', w')" by blast
  define rl where "rl = next_len (size_fn S s - src_offset sc) bs"
  have neg: "copy_len sc - rl < 0" "copy_len sc \<noteq> -1" using assms(3-5) by (auto simp: rl_def next_len_def)
  have def: "lio_segment_copy_gop_func S D sched sc s d w buf1 buf2 = Option.bind (truncate_fn D d w (- (dest_offset sc + copy_len sc))) (\<lambda>(_, d, w).
      case read_fn S s w (src_offset sc) rl buf1 of (err, s, rbuf) \<Rightarrow>
        if err \<noteq> OP_STATE_SUCCESS then Some (gop_failure_status, s, d, w)
        else Option.bind (copy_blocks S D sched bs 0 s d w rbuf buf2 rl (src_offset sc + rl) (dest_offset sc) (copy_len sc - rl)) (\<lambda>((ok, rpos, wpos), s, d, w).
          if \<not> ok then Some (gop_failure_status, s, d, w)
          else Option.bind (if do_truncate sc = 1 then map_option snd (truncate_fn D d w wpos) else Some (d, w))
            (\<lambda>(d, w). Some ((OP_STATE_SUCCESS, to_int rpos), s, d, w))))"
    using neg(2) assms(1,4) by (simp add: lio_segment_copy_gop_func_def Let_def rl_def cong: if_cong)
  obtain r0 d1 w1 where t: "truncate_fn D d w (- (dest_offset sc + copy_len sc)) = Some (r0, d1, w1)" using c unfolding def bind_Some_iff by auto
  obtain err s1 b1 where rd: "read_fn S s w1 (src_offset sc) rl buf1 = (err, s1, b1)" by (metis surj_pair)
  have "err = OP_STATE_SUCCESS" using c unfolding def t by (auto simp: rd gop_failure_status_def OP_STATE_SUCCESS_def OP_STATE_FAILURE_def split: if_splits)
  then obtain ok rpos wpos s2 d2 w2 where
    cb: "copy_blocks S D sched bs 0 s1 d1 w1 b1 buf2 rl (src_offset sc + rl) (dest_offset sc) (copy_len sc - rl) = Some ((ok, rpos, wpos), s2, d2, w2)"
    using c unfolding def t by (auto simp: rd bind_Some_iff)
  have ok using c \<open>err = OP_STATE_SUCCESS\<close> unfolding def t
    by (auto simp: rd cb gop_failure_status_def OP_STATE_SUCCESS_def OP_STATE_FAILURE_def split: if_splits)
  with copy_blocks_negative [OF cb neg(1) assms(2)] show False by simp
qed

theorem segment_copy_short_len_witness:
  "\<not> (\<exists>e s' d' w'. lio_segment_copy_gop_func (lio_seglin_vtable (\<lambda>_. ''r'') True) (lio_seglin_vtable (\<lambda>_. ''r'') True) (\<lambda>_. True)
      (demo_copy 1) demo_seg demo_dest demo_ds (\<lambda>_. 0) (\<lambda>_. 0) = Some ((OP_STATE_SUCCESS, e), s', d', w'))"
proof (rule segment_copy_short_len)
  have "math_lcm 1 1 = Some 1" using math_lcm_lcm [of 1 1] by simp
  then show "copy_bufsize (block_size_fn (lio_seglin_vtable (\<lambda>_. ''r'') True) demo_seg) (block_size_fn (lio_seglin_vtable (\<lambda>_. ''r'') True) demo_dest) (demo_copy 1) = Some 2"
    by (simp add: copy_bufsize_def demo_copy_def sdiv_pos)
qed (simp_all add: demo_copy_def demo_seg_def seglin_size_def)

text \<open>
  C7: a non-empty file that is put into a linear segment, up to its end and at any offset, can be got back, when the
  services and the files work: \<^verbatim>\<open>segment_put\<close> and then \<^verbatim>\<open>segment_get\<close> of as many bytes, with buffers of any sizes from two
  bytes on, append exactly the bytes of the file to the other file, however the system calls for reading cut the file.
\<close>

theorem seglin_put_get_roundtrip:
  assumes "lin_ok d w" "0 \<le> off" "2 \<le> bsize1" "2 \<le> bsize2" "reads_ok fd" "file_left fd \<noteq> []" "fd_results out = []"
  shows "\<exists>d' w' fd' d''.
    segment_put_gop_func (lio_seglin_vtable rid ok2) \<lparr>src_offset = 0, dest_offset = off, copy_len = -1, bufsize = bsize1, do_truncate = tr\<rparr> d w fd buf1 buf2 =
      Some (gop_success_status, d', w', fd') \<and>
    segment_get_gop_func (lio_seglin_vtable rid ok2)
        \<lparr>src_offset = off, dest_offset = 0, copy_len = int (length (file_left fd)), bufsize = bsize2, do_truncate = 0\<rparr> d' w' out buf3 buf4 =
      Some (gop_success_status, d'', out\<lparr>fd_out := fd_out out @ file_left fd\<rparr>)"
proof -
  let ?v = "lio_seglin_vtable rid ok2" let ?bs = "file_left fd"
  let ?put = "\<lparr>src_offset = 0, dest_offset = off, copy_len = -1, bufsize = bsize1, do_truncate = tr\<rparr>"
  let ?get = "\<lparr>src_offset = off, dest_offset = 0, copy_len = int (length ?bs), bufsize = bsize2, do_truncate = 0\<rparr>"
  have args: "0 \<le> dest_offset ?put" "2 \<le> bufsize ?put" "copy_len ?put = -1" "0 \<le> src_offset ?get" "2 \<le> bufsize ?get" using assms(2-4) by simp_all
  obtain d' w' fd' where p: "segment_put_gop_func ?v ?put d w fd buf1 buf2 = Some (gop_success_status, d', w', fd')" "lin_ok d' w'"
    "size_fn ?v d' = (if do_truncate ?put = 1 then dest_offset ?put + int (length ?bs) else max (size_fn ?v d) (dest_offset ?put + int (length ?bs)))"
    "\<forall>p < length ?bs. seglin_view d' w' (dest_offset ?put + int p) = Some (?bs ! p)"
    using lin.put_moves [OF assms(1) args(1-3) assms(5,6) refl, of rid ok2 buf1 buf2] by blast
  have sz: "int (length ?bs) \<le> seglin_size d' - off" "0 < int (length ?bs)" using p(3) assms(6) by auto
  define n where "n = size_fn ?v d' - src_offset ?get"
  have k: "int (length ?bs) = (if copy_len ?get > 0 \<and> n > copy_len ?get then copy_len ?get else n)" "0 < n"
    using sz by (auto simp: n_def simp del: length_greater_0_conv of_nat_0_less_iff)
  have "view_bytes (seglin_view d' w') off (int (length ?bs)) = ?bs" using p(4) by (auto simp: view_bytes_def intro: nth_equalityI)
  then show ?thesis using lin.get_moves [OF p(2) args(4,5) assms(7) n_def k(2,1), of buf3 buf4] p(1) by auto
qed

definition demo_file :: file_t where
  "demo_file = \<lparr>fd_in = [Some [1, 2, 3], Some [4, 5]], fd_out = [], fd_results = []\<rparr>"

lemma demo_file_left: "reads_ok demo_file" "file_left demo_file = [1, 2, 3, 4, 5]"
  by (simp_all add: demo_file_def reads_ok_def file_left_def)

theorem seglin_put_get_roundtrip_witness:
  "\<exists>d' w' fd' d''.
    segment_put_gop_func (lio_seglin_vtable (\<lambda>_. ''r'') True) \<lparr>src_offset = 0, dest_offset = 2, copy_len = -1, bufsize = 4, do_truncate = 1\<rparr>
        demo_dest demo_ds demo_file (\<lambda>_. 0) (\<lambda>_. 0) = Some (gop_success_status, d', w', fd') \<and>
    segment_get_gop_func (lio_seglin_vtable (\<lambda>_. ''r'') True) \<lparr>src_offset = 2, dest_offset = 0, copy_len = 5, bufsize = 3, do_truncate = 0\<rparr>
        d' w' \<lparr>fd_in = [], fd_out = [9], fd_results = []\<rparr> (\<lambda>_. 0) (\<lambda>_. 0) =
      Some (gop_success_status, d'', \<lparr>fd_in = [], fd_out = [9, 1, 2, 3, 4, 5], fd_results = []\<rparr>)"
  using seglin_put_get_roundtrip [OF demo_pair_ok(2), of 2 4 3 demo_file "\<lparr>fd_in = [], fd_out = [9], fd_results = []\<rparr>"
      "\<lambda>_. ''r''" True 1 "\<lambda>_. 0" "\<lambda>_. 0" "\<lambda>_. 0" "\<lambda>_. 0"] by (simp add: demo_file_left)



end
