(* ===== verification/Opque.thy ===== *)
theory Opque
  imports Segment
begin

text \<open>
  The task queues of \<^verbatim>\<open>gop/opque.c\<close> and \<^verbatim>\<open>gop/gop.c\<close>: operations and queues of them, which may be nested, and the chain of
  callbacks that carries the end of an operation up to the queues it is in.  A \<^verbatim>\<open>gop\<close> is a number and the store gives its
  fields.  The only callbacks are those that a queue appends to what is added to it (\<^verbatim>\<open>_opque_cb\<close>); \<^verbatim>\<open>failure_cb\<close>, which no
  code sets, is empty.  Each function runs as one step; the locks are left out, so that the order in which threads take them
  is not looked at.  The stacks are lists from top to bottom.
  \<open>None\<close> is undefined behaviour or a loop that does not end.
\<close>

section \<open>The code\<close>

datatype gop_op_type_t = Q_TYPE_OPERATION | Q_TYPE_QUE

text \<open>
  \<^verbatim>\<open>gop_op_generic_t\<close> with the fields of \<^verbatim>\<open>gop_op_common_t\<close> and \<^verbatim>\<open>gop_que_data_t\<close>; \<open>cb\<close> is the number of callbacks in the chain,
  \<open>qlist\<close> is \<^verbatim>\<open>list\<close>.
\<close>

record gop_op_generic_t =
  gop_type :: gop_op_type_t
  cb :: nat
  parent_q :: "nat option"
  status :: "int \<times> int"
  failure_mode :: int
  retries :: nat
  state :: bool
  started_execution :: bool
  qlist :: "nat list"
  finished :: "nat list"
  failed :: "nat list"
  nleft :: int
  nsubmitted :: int

type_synonym gops = "nat \<Rightarrow> gop_op_generic_t"

definition OP_STATE_RETRY :: int where "OP_STATE_RETRY = 30"
definition OP_STATE_TIMEOUT :: int where "OP_STATE_TIMEOUT = 50"
definition OP_FM_GET_END :: int where "OP_FM_GET_END = 22"

definition gop_init :: gop_op_generic_t where
  "gop_init = \<lparr>gop_type = Q_TYPE_OPERATION, cb = 0, parent_q = None, status = (0, 0), failure_mode = 0, retries = 0, state = False,
     started_execution = False, qlist = [], finished = [], failed = [], nleft = 0, nsubmitted = 0\<rparr>"

definition init_opque :: gop_op_generic_t where
  "init_opque = gop_init\<lparr>gop_type := Q_TYPE_QUE\<rparr>"

definition gop_reset :: "gop_op_generic_t \<Rightarrow> gop_op_generic_t" where
  "gop_reset x = x\<lparr>cb := 0, state := False, status := gop_failure_status, started_execution := False\<rparr>"

text \<open>
  \<^verbatim>\<open>_opque_cb\<close> on a list of gops whose callback is to be executed.  A queue that gets to its end has its own callbacks
  executed before the next one.
\<close>

definition opque_cb :: "gops \<Rightarrow> nat \<Rightarrow> nat \<Rightarrow> bool \<times> gops" where
  "opque_cb h g q =
     (let success = (if gop_type (h g) = Q_TYPE_QUE then (if failed (h g) = [] then status (h g) else gop_failure_status) else status (h g));
          y = (h q)\<lparr>finished := finished (h q) @ [g], failed := (if fst success = OP_STATE_FAILURE then g # failed (h q) else failed (h q)),
                    nleft := nleft (h q) - 1\<rparr> in
      if nleft y \<le> 0 then
        (if failed y = [] then (True, h(q := y\<lparr>status := gop_success_status\<rparr>))
         else if retries y = 0 then (True, h(q := y\<lparr>retries := 1, nleft := 0, failure_mode := 0, status := gop_failure_status\<rparr>))
         else (False, h(q := y)))
      else (False, h(q := y)))"

partial_function (option) callback_execute :: "gops \<Rightarrow> nat list \<Rightarrow> gops option" where
  "callback_execute h gs =
     (case gs of
        [] \<Rightarrow> Some h
      | g # gs \<Rightarrow>
          (case parent_q (h g) of
             None \<Rightarrow> None
           | Some q \<Rightarrow>
               (case opque_cb h g q of (complete, h) \<Rightarrow> callback_execute h ((if complete then replicate (cb (h q)) q else []) @ gs))))"

definition single_gop_mark_completed :: "gops \<Rightarrow> nat \<Rightarrow> int \<times> int \<Rightarrow> gops option" where
  "single_gop_mark_completed h g st =
     map_option (\<lambda>h. h(g := (h g)\<lparr>state := True\<rparr>)) (callback_execute (h(g := (h g)\<lparr>status := st\<rparr>)) (replicate (cb (h g)) g))"

text \<open>The operations that were coalesced with one are completed first.\<close>

fun gop_mark_completed :: "gops \<Rightarrow> nat list \<Rightarrow> nat \<Rightarrow> int \<times> int \<Rightarrow> gops option" where
  "gop_mark_completed h [] g st = single_gop_mark_completed h g st"
| "gop_mark_completed h (sgop # sgops) g st = Option.bind (single_gop_mark_completed h sgop st) (\<lambda>h. gop_mark_completed h sgops g st)"

text \<open>Submitting: the gops still to be started; the result has the operations in the order of their submission.\<close>

partial_function (option) start_list :: "gops \<Rightarrow> nat list \<Rightarrow> nat list \<Rightarrow> (gops \<times> nat list) option" where
  "start_list h gs subs =
     (case gs of
        [] \<Rightarrow> Some (h, subs)
      | g # gs \<Rightarrow>
          if gop_type (h g) = Q_TYPE_OPERATION then start_list (h(g := (h g)\<lparr>started_execution := True\<rparr>)) gs (subs @ [g])
          else if started_execution (h g) then start_list h gs subs
          else start_list (h(g := (h g)\<lparr>started_execution := True, qlist := []\<rparr>)) (qlist (h g) @ gs) subs)"

definition gop_start_execution :: "gops \<Rightarrow> nat \<Rightarrow> (gops \<times> nat list) option" where
  "gop_start_execution h g =
     (if gop_type (h g) = Q_TYPE_OPERATION \<and> started_execution (h g) then Some (h, []) else start_list h [g] [])"

definition internal_gop_opque_add :: "gops \<Rightarrow> nat \<Rightarrow> nat \<Rightarrow> (gops \<times> nat list) option" where
  "internal_gop_opque_add h q g =
     (let h = h(g := (h g)\<lparr>parent_q := Some q, cb := cb (h g) + 1\<rparr>);
          h = h(q := (h q)\<lparr>nsubmitted := nsubmitted (h q) + 1, nleft := nleft (h q) + 1,
                           qlist := (if started_execution (h q) then qlist (h q) else qlist (h q) @ [g])\<rparr>) in
      if started_execution (h q) then start_list h [g] [] else Some (h, []))"

text \<open>The questions that can be asked of a gop.\<close>

definition gop_completed_successfully :: "gops \<Rightarrow> nat \<Rightarrow> int" where
  "gop_completed_successfully h g =
     (if gop_type (h g) = Q_TYPE_QUE then (if failed (h g) = [] then fst (status (h g)) else OP_STATE_FAILURE) else fst (status (h g)))"

definition gop_tasks_failed :: "gops \<Rightarrow> nat \<Rightarrow> int" where
  "gop_tasks_failed h g =
     (if gop_type (h g) = Q_TYPE_QUE then int (length (failed (h g))) else if fst (status (h g)) = OP_STATE_SUCCESS then 0 else 1)"

definition gop_tasks_finished :: "gops \<Rightarrow> nat \<Rightarrow> int" where
  "gop_tasks_finished h g =
     (if gop_type (h g) = Q_TYPE_QUE then int (length (finished (h g))) else if state (h g) then 1 else 0)"

definition gop_tasks_left :: "gops \<Rightarrow> nat \<Rightarrow> int" where
  "gop_tasks_left h g = (if gop_type (h g) = Q_TYPE_QUE then nleft (h g) else if state (h g) then 0 else 1)"

definition gop_will_block :: "gops \<Rightarrow> nat \<Rightarrow> bool" where
  "gop_will_block h g = (if gop_type (h g) = Q_TYPE_QUE then finished (h g) = [] \<and> nleft (h g) > 0 else \<not> state (h g))"

definition gop_get_next_finished :: "gops \<Rightarrow> nat \<Rightarrow> nat option \<times> gops" where
  "gop_get_next_finished h g =
     (if gop_type (h g) = Q_TYPE_QUE then
        (case finished (h g) of [] \<Rightarrow> (None, h) | x # xs \<Rightarrow> (Some x, h(g := (h g)\<lparr>finished := xs\<rparr>)))
      else if failure_mode (h g) \<noteq> OP_FM_GET_END then (Some g, h(g := (h g)\<lparr>failure_mode := OP_FM_GET_END\<rparr>)) else (None, h))"

definition gop_get_next_failed :: "gops \<Rightarrow> nat \<Rightarrow> nat option \<times> gops" where
  "gop_get_next_failed h g =
     (if gop_type (h g) = Q_TYPE_QUE then
        (case failed (h g) of [] \<Rightarrow> (None, h) | x # xs \<Rightarrow> (Some x, h(g := (h g)\<lparr>failed := xs\<rparr>)))
      else if failure_mode (h g) \<noteq> OP_FM_GET_END
        then (if fst (status (h g)) \<noteq> OP_STATE_SUCCESS then Some g else None, h(g := (h g)\<lparr>failure_mode := OP_FM_GET_END\<rparr>))
      else (None, h))"

text \<open>
  \<^verbatim>\<open>gop_waitall\<close>: what it does before it waits, with the gop it waits for and the operations that it submits, or executes
  itself where \<open>sync\<close> (\<^verbatim>\<open>gop_op_sync_exec_enabled\<close>) allows it; and a look at the gop it waits for, with \<open>None\<close> as long as it
  has to wait.
\<close>

partial_function (option) waitall_begin :: "(nat \<Rightarrow> bool) \<Rightarrow> gops \<Rightarrow> nat \<Rightarrow> (gops \<times> nat \<times> nat list) option" where
  "waitall_begin sync h g =
     (if gop_type (h g) = Q_TYPE_QUE \<and> length (qlist (h g)) = 1 \<and> \<not> started_execution (h g)
      then waitall_begin sync (h(g := (h g)\<lparr>qlist := []\<rparr>)) (hd (qlist (h g)))
      else if gop_type (h g) = Q_TYPE_OPERATION \<and> sync g \<and> \<not> started_execution (h g) then Some (h, g, [g])
      else Option.bind (gop_start_execution h g) (\<lambda>(h, subs). Some (h, g, subs)))"

definition waitall_look :: "gops \<Rightarrow> nat \<Rightarrow> int option" where
  "waitall_look h g = (if gop_tasks_left h g > 0 then None else Some (gop_completed_successfully h g))"

text \<open>With a time limit the caller looks once more after the wait and then gives up.\<close>

definition timed_waitall_end :: "gops \<Rightarrow> nat \<Rightarrow> int" where
  "timed_waitall_end h g = (if gop_tasks_left h g > 0 then OP_STATE_RETRY else gop_completed_successfully h g)"

text \<open>\<^verbatim>\<open>gop_waitany\<close> of a queue or an operation that was started: \<open>None\<close> as long as it has to wait, or what it returns.\<close>

definition waitany_look :: "gops \<Rightarrow> nat \<Rightarrow> (nat option \<times> gops) option" where
  "waitany_look h g =
     (if gop_type (h g) = Q_TYPE_QUE then
        (case finished (h g) of
           [] \<Rightarrow> if nleft (h g) > 0 then None else Some (None, h)
         | x # xs \<Rightarrow> Some (Some x, h(g := (h g)\<lparr>finished := xs\<rparr>)))
      else if state (h g) then Some (Some g, h) else None)"

definition timed_waitany_end :: "gops \<Rightarrow> nat \<Rightarrow> nat option \<times> gops" where
  "timed_waitany_end h g =
     (if gop_type (h g) = Q_TYPE_QUE then
        (case finished (h g) of [] \<Rightarrow> (None, h) | x # xs \<Rightarrow> (Some x, h(g := (h g)\<lparr>finished := xs\<rparr>)))
      else (if state (h g) then Some g else None, h))"

text \<open>\<^verbatim>\<open>gop_wait\<close>.\<close>

definition gop_wait_look :: "gops \<Rightarrow> nat \<Rightarrow> int option" where
  "gop_wait_look h g = (if state (h g) then Some (fst (status (h g))) else None)"

section \<open>The tree of queues\<close>

definition edges :: "gops \<Rightarrow> (nat \<times> nat) set" where
  "edges h = {(g, q). parent_q (h g) = Some q}"

definition children :: "gops \<Rightarrow> nat \<Rightarrow> nat set" where
  "children h q = {g. parent_q (h g) = Some q}"

text \<open>\<open>C\<close> are the operations that have been completed.  A queue is at its end when nothing of what it was given is left.\<close>

definition done_gop :: "gops \<Rightarrow> nat set \<Rightarrow> nat \<Rightarrow> bool" where
  "done_gop h C g \<longleftrightarrow> (if gop_type (h g) = Q_TYPE_QUE then nsubmitted (h g) > 0 \<and> nleft (h g) = 0 else g \<in> C)"

definition bad_gop :: "gops \<Rightarrow> nat \<Rightarrow> bool" where
  "bad_gop h g \<longleftrightarrow> (if gop_type (h g) = Q_TYPE_QUE then failed (h g) \<noteq> [] else fst (status (h g)) = OP_STATE_FAILURE)"

text \<open>A queue knows which of its members are at their end, except those in \<open>X\<close> for which it is about to be called back.\<close>

definition opq_ok :: "gops \<Rightarrow> nat set \<Rightarrow> nat set \<Rightarrow> nat \<Rightarrow> bool" where
  "opq_ok h C X q \<longleftrightarrow>
     distinct (finished (h q)) \<and> set (finished (h q)) = {g \<in> children h q. done_gop h C g} - X \<and>
     nsubmitted (h q) = int (card (children h q)) \<and> nleft (h q) = nsubmitted (h q) - int (length (finished (h q))) \<and>
     set (failed (h q)) = {g \<in> set (finished (h q)). bad_gop h g} \<and>
     (if done_gop h C q then fst (status (h q)) = (if failed (h q) = [] then OP_STATE_SUCCESS else OP_STATE_FAILURE) else retries (h q) = 0)"

definition gops_ok :: "gops \<Rightarrow> nat set \<Rightarrow> nat set \<Rightarrow> bool" where
  "gops_ok h C X \<longleftrightarrow> finite (edges h) \<and> acyclic (edges h) \<and> (\<forall>g. cb (h g) = (if parent_q (h g) = None then 0 else 1)) \<and>
     (\<forall>g q. parent_q (h g) = Some q \<longrightarrow> gop_type (h q) = Q_TYPE_QUE) \<and> (\<forall>q. gop_type (h q) = Q_TYPE_QUE \<longrightarrow> opq_ok h C X q)"

lemma children_edges: "g \<in> children h q \<longleftrightarrow> (g, q) \<in> edges h"
  by (simp add: children_def edges_def)

lemma finite_children: "finite (edges h) \<Longrightarrow> finite (children h q)"
proof -
  assume "finite (edges h)"
  then have "finite (fst ` edges h)" by simp
  moreover have "children h q \<subseteq> fst ` edges h" by (force simp: children_edges)
  ultimately show ?thesis by (rule rev_finite_subset)
qed

lemma edge_irrefl: "acyclic (edges h) \<Longrightarrow> (g, g) \<notin> edges h"
  by (auto simp: acyclic_def)

text \<open>Changes that leave the tree and the states of the members alone.\<close>

lemma opq_ok_cong:
  assumes "\<And>g. parent_q (h' g) = parent_q (h g)" "\<And>g. gop_type (h' g) = gop_type (h g)"
    "\<And>g. g \<in> children h q \<Longrightarrow> done_gop h' C' g = done_gop h C g \<or> g \<in> X \<union> X'" "\<And>g. g \<in> children h q \<Longrightarrow> g \<in> X - X' \<Longrightarrow> \<not> done_gop h' C' g"
    "\<And>g. g \<in> children h q \<Longrightarrow> g \<in> X' - X \<Longrightarrow> \<not> done_gop h C g" "\<And>g. g \<in> set (finished (h q)) \<Longrightarrow> bad_gop h' g = bad_gop h g"
    "finished (h' q) = finished (h q)" "failed (h' q) = failed (h q)" "nleft (h' q) = nleft (h q)" "nsubmitted (h' q) = nsubmitted (h q)"
    "retries (h' q) = retries (h q)" "status (h' q) = status (h q)" "gop_type (h q) = Q_TYPE_QUE" "opq_ok h C X q"
  shows "opq_ok h' C' X' q"
proof -
  have ch: "children h' q = children h q" using assms(1) by (simp add: children_def)
  have "{g \<in> children h q. done_gop h' C' g} - X' = {g \<in> children h q. done_gop h C g} - X"
    using assms(3-5) by blast
  moreover have "done_gop h' C' q = done_gop h C q" using assms(2,9,10,13) by (simp add: done_gop_def)
  moreover have "{g \<in> set (finished (h q)). bad_gop h' g} = {g \<in> set (finished (h q)). bad_gop h g}" using assms(6) by blast
  ultimately show ?thesis using assms(7-12,14) by (simp add: opq_ok_def ch)
qed

text \<open>One callback: \<open>g\<close> is at its end and its queue \<open>q\<close> does not know it yet.\<close>

lemma opque_cb_step:
  assumes ok: "gops_ok h C {g}" and p: "parent_q (h g) = Some q" and d: "done_gop h C g"
  shows "\<exists>c h'. opque_cb h g q = (c, h') \<and> (\<forall>x. x \<noteq> q \<longrightarrow> h' x = h x) \<and> gop_type (h' q) = Q_TYPE_QUE \<and> parent_q (h' q) = parent_q (h q) \<and> cb (h' q) = cb (h q) \<and>
    (c \<longleftrightarrow> done_gop h' C q) \<and> gops_ok h' C (if c \<and> parent_q (h q) \<noteq> None then {q} else {})"
proof -
  have fin: "finite (edges h)" and ac: "acyclic (edges h)" and ty: "gop_type (h q) = Q_TYPE_QUE" and qok: "opq_ok h C {g} q"
    using ok p by (auto simp: gops_ok_def)
  have gq: "g \<in> children h q" "g \<noteq> q" using p edge_irrefl [OF ac, of g] by (auto simp: children_def edges_def)
  let ?F = "finished (h q)"
  have F: "distinct ?F" "set ?F = {x \<in> children h q. done_gop h C x} - {g}" "nsubmitted (h q) = int (card (children h q))"
    "nleft (h q) = nsubmitted (h q) - int (length ?F)" "set (failed (h q)) = {x \<in> set ?F. bad_gop h x}" using qok by (auto simp: opq_ok_def)
  have "set ?F \<subseteq> children h q - {g}" using F(2) by blast
  then have "length ?F \<le> card (children h q - {g})" using F(1) finite_children [OF fin] by (metis card_mono distinct_card finite_Diff)
  then have len: "length ?F + 1 \<le> card (children h q)" using gq(1) finite_children [OF fin]
    by (metis Suc_eq_plus1 Suc_le_mono card_Suc_Diff1)
  then have left: "1 \<le> nleft (h q)" "0 < nsubmitted (h q)" using F(3,4) by simp_all
  then have nd: "\<not> done_gop h C q" "retries (h q) = 0" using ty qok by (auto simp: done_gop_def opq_ok_def)
  define fl where "fl = (if bad_gop h g then g # failed (h q) else failed (h q))"
  define y where "y = (h q)\<lparr>finished := ?F @ [g], failed := fl, nleft := nleft (h q) - 1\<rparr>"
  define c where "c \<longleftrightarrow> nleft (h q) = 1"
  define z where "z = (if \<not> c then y else if fl = [] then y\<lparr>status := gop_success_status\<rparr>
      else y\<lparr>retries := 1, nleft := 0, failure_mode := 0, status := gop_failure_status\<rparr>)"
  have sb: "fst (if gop_type (h g) = Q_TYPE_QUE then (if failed (h g) = [] then status (h g) else gop_failure_status) else status (h g)) = OP_STATE_FAILURE
      \<longleftrightarrow> bad_gop h g"
    using ok d by (auto simp: gops_ok_def opq_ok_def bad_gop_def gop_failure_status_def OP_STATE_SUCCESS_def OP_STATE_FAILURE_def)
  have cbq: "opque_cb h g q = (c, h(q := z))"
    unfolding opque_cb_def Let_def sb using left nd(2) by (simp add: c_def z_def y_def flip: fl_def)
  let ?h = "h(q := z)" let ?X = "if c \<and> parent_q (h q) \<noteq> None then {q} else {}"
  have z: "finished z = ?F @ [g]" "failed z = fl" "nleft z = nleft (h q) - 1" "nsubmitted z = nsubmitted (h q)" "gop_type z = Q_TYPE_QUE"
    "parent_q z = parent_q (h q)" "cb z = cb (h q)" "\<not> c \<Longrightarrow> retries z = 0"
    "c \<Longrightarrow> fst (status z) = (if fl = [] then OP_STATE_SUCCESS else OP_STATE_FAILURE)"
    using ty nd(2) by (auto simp: z_def y_def c_def gop_success_status_def gop_failure_status_def)
  have par: "parent_q (?h x) = parent_q (h x)" and tyx: "gop_type (?h x) = gop_type (h x)" and cbs: "cb (?h x) = cb (h x)" for x using z ty by auto
  have ch: "children ?h x = children h x" and ed: "edges ?h = edges h" for x using par by (auto simp: children_def edges_def)
  have dn: "x \<noteq> q \<Longrightarrow> done_gop ?h C x = done_gop h C x" and bd: "x \<noteq> q \<Longrightarrow> bad_gop ?h x = bad_gop h x" for x
    by (simp_all add: done_gop_def bad_gop_def)
  have dq: "done_gop ?h C q \<longleftrightarrow> c" using z left by (auto simp: done_gop_def c_def)
  have notq: "x \<noteq> q" if "x \<in> children h q" for x using that edge_irrefl [OF ac, of q] by (auto simp: children_edges)
  have "opq_ok ?h C ?X q"
  proof -
    have "{x \<in> children h q. done_gop ?h C x} - ?X = {x \<in> children h q. done_gop h C x}" using dn notq by auto
    moreover have "set (?F @ [g]) = {x \<in> children h q. done_gop h C x}" using F(2) gq(1) d by auto
    moreover have "set fl = {x \<in> set (?F @ [g]). bad_gop ?h x}" using F(2,5) bd notq gq by (auto simp: fl_def)
    ultimately show ?thesis using z F left dq by (simp add: opq_ok_def ch)
  qed
  moreover have "opq_ok ?h C ?X x" if x: "x \<noteq> q" "gop_type (h x) = Q_TYPE_QUE" for x
  proof (rule opq_ok_cong [where h = h and C = C and X = "{g}"])
    have gx: "g \<notin> children h x" using p x(1) by (simp add: children_def)
    have qx: "q \<in> children h x \<Longrightarrow> parent_q (h q) \<noteq> None" by (simp add: children_def)
    show "done_gop ?h C y = done_gop h C y \<or> y \<in> {g} \<union> ?X" if "y \<in> children h x" for y
      using dn [of y] dq nd(1) qx that by (cases "y = q") auto
    show "\<not> done_gop ?h C y" if "y \<in> children h x" "y \<in> {g} - ?X" for y using that gx by auto
    show "\<not> done_gop h C y" if "y \<in> children h x" "y \<in> ?X - {g}" for y using that nd(1) by (auto split: if_splits)
    have "opq_ok h C {g} x" using ok x(2) by (simp add: gops_ok_def)
    then show "opq_ok h C {g} x" .
    show "bad_gop ?h y = bad_gop h y" if "y \<in> set (finished (h x))" for y
      using that \<open>opq_ok h C {g} x\<close> nd(1) by (intro bd) (auto simp: opq_ok_def)
  qed (use x par tyx in simp_all)
  ultimately have "gops_ok ?h C ?X" using ok tyx par cbs unfolding gops_ok_def ed by (metis (no_types))
  then show ?thesis using cbq z dq by auto
qed

text \<open>The callbacks go up the tree and end there.\<close>

definition same_tree :: "gops \<Rightarrow> gops \<Rightarrow> bool" where
  "same_tree h h' \<longleftrightarrow> (\<forall>x. gop_type (h' x) = gop_type (h x) \<and> parent_q (h' x) = parent_q (h x) \<and> (gop_type (h x) = Q_TYPE_OPERATION \<longrightarrow> h' x = h x))"

lemma same_tree_edges: "same_tree h h' \<Longrightarrow> edges h' = edges h"
  by (simp add: same_tree_def edges_def)

lemma callback_execute_ok:
  assumes "gops_ok h C {g}" "parent_q (h g) = Some q" "done_gop h C g"
  shows "\<exists>h'. callback_execute h [g] = Some h' \<and> gops_ok h' C {} \<and> same_tree h h'"
proof -
  define E where "E = edges h"
  have "wf (E\<inverse>)" using assms(1) by (auto simp: E_def gops_ok_def intro: finite_acyclic_wf_converse)
  then show ?thesis using assms E_def
  proof (induction g arbitrary: h q rule: wf_induct_rule)
    case (less g)
    obtain c h1 where c: "opque_cb h g q = (c, h1)" and h1: "\<forall>x. x \<noteq> q \<longrightarrow> h1 x = h x" "gop_type (h1 q) = Q_TYPE_QUE"
        "parent_q (h1 q) = parent_q (h q)" "cb (h1 q) = cb (h q)" "c \<longleftrightarrow> done_gop h1 C q"
      and ok1: "gops_ok h1 C (if c \<and> parent_q (h q) \<noteq> None then {q} else {})"
      using opque_cb_step [OF less.prems(1-3)] by blast
    have ty: "gop_type (h q) = Q_TYPE_QUE" "cb (h q) = (if parent_q (h q) = None then 0 else 1)"
      using less.prems(1,2) by (auto simp: gops_ok_def)
    have same: "same_tree h h1" unfolding same_tree_def using h1(1-3) ty(1) by (metis gop_op_type_t.distinct(1))
    have step: "callback_execute h [g] = callback_execute h1 (if c \<and> parent_q (h q) \<noteq> None then [q] else [])"
      using less.prems(2) c h1(4) ty(2) by (subst callback_execute.simps) simp
    show ?case
    proof (cases "c \<and> parent_q (h q) \<noteq> None")
      case False
      moreover have "callback_execute h1 [] = Some h1" by (subst callback_execute.simps) simp
      ultimately show ?thesis using step ok1 same by auto
    next
      case True
      then obtain p where p: "parent_q (h1 q) = Some p" using h1(3) by auto
      have "(q, g) \<in> E\<inverse>" using less.prems(2,4) by (simp add: edges_def)
      moreover have "E = edges h1" using less.prems(4) same_tree_edges [OF same] by simp
      moreover have "gops_ok h1 C {q}" using ok1 True by simp
      moreover have "done_gop h1 C q" using h1(5) True by simp
      ultimately obtain h' where "callback_execute h1 [q] = Some h'" "gops_ok h' C {}" "same_tree h1 h'"
        using less.IH [of q h1 p] p by blast
      moreover from this(3) same have "same_tree h h'" by (simp add: same_tree_def)
      ultimately show ?thesis using step True by auto
    qed
  qed
qed

lemma gops_ok_cong:
  assumes "gops_ok h C X" "\<And>g. parent_q (h' g) = parent_q (h g)" "\<And>g. gop_type (h' g) = gop_type (h g)" "\<And>g. cb (h' g) = cb (h g)"
    "\<And>q. gop_type (h q) = Q_TYPE_QUE \<Longrightarrow> opq_ok h C X q \<Longrightarrow> opq_ok h' C' X' q"
  shows "gops_ok h' C' X'"
proof -
  have "edges h' = edges h" using assms(2) by (simp add: edges_def)
  then show ?thesis using assms by (simp add: gops_ok_def)
qed

text \<open>What the counting does not look at.\<close>

lemma gops_ok_same:
  assumes "gops_ok h C {}" "\<And>g. parent_q (h' g) = parent_q (h g)" "\<And>g. gop_type (h' g) = gop_type (h g)" "\<And>g. cb (h' g) = cb (h g)"
    "\<And>g. finished (h' g) = finished (h g) \<and> failed (h' g) = failed (h g) \<and> nleft (h' g) = nleft (h g) \<and> nsubmitted (h' g) = nsubmitted (h g) \<and>
       retries (h' g) = retries (h g) \<and> status (h' g) = status (h g)"
  shows "gops_ok h' C {}"
  using assms(1-4)
proof (rule gops_ok_cong)
  fix q assume q: "gop_type (h q) = Q_TYPE_QUE" "opq_ok h C {} q"
  show "opq_ok h' C {} q" by (rule opq_ok_cong [OF assms(2,3) _ _ _ _ _ _ _ _ _ _ q]) (use assms(3,5) in \<open>simp_all add: done_gop_def bad_gop_def\<close>)
qed

lemma mark_completed_ok:
  assumes "gops_ok h C {}" "gop_type (h g) = Q_TYPE_OPERATION" "g \<notin> C"
  shows "\<exists>h'. single_gop_mark_completed h g st = Some h' \<and> gops_ok h' (insert g C) {} \<and> edges h' = edges h \<and>
    (\<forall>x. gop_type (h' x) = gop_type (h x) \<and> (gop_type (h x) = Q_TYPE_OPERATION \<and> x \<noteq> g \<longrightarrow> h' x = h x)) \<and> status (h' g) = st \<and> state (h' g)"
proof -
  let ?h = "h(g := (h g)\<lparr>status := st\<rparr>)" let ?X = "if parent_q (h g) = None then {} else {g}"
  have ok1: "gops_ok ?h (insert g C) ?X"
    using assms(1)
  proof (rule gops_ok_cong)
    fix q assume q: "gop_type (h q) = Q_TYPE_QUE" "opq_ok h C {} q"
    have nq: "q \<noteq> g" using q(1) assms(2) by auto
    have nd: "\<not> done_gop h C g" using assms(2,3) by (simp add: done_gop_def)
    show "opq_ok ?h (insert g C) ?X q"
    proof (rule opq_ok_cong [OF _ _ _ _ _ _ _ _ _ _ _ _ q])
      show "done_gop ?h (insert g C) x = done_gop h C x \<or> x \<in> {} \<union> ?X" if "x \<in> children h q" for x
        using that by (auto simp: done_gop_def children_def)
      show "bad_gop ?h x = bad_gop h x" if "x \<in> set (finished (h q))" for x
        using that q(2) nd by (cases "x = g") (auto simp: opq_ok_def bad_gop_def)
    qed (use nq nd in \<open>auto split: if_splits\<close>)
  qed simp_all
  have cb: "cb (h g) = (if parent_q (h g) = None then 0 else 1)" using assms(1) by (simp add: gops_ok_def)
  obtain h1 where h1: "callback_execute ?h (replicate (cb (h g)) g) = Some h1" "gops_ok h1 (insert g C) {}" "same_tree ?h h1"
  proof (cases "parent_q (h g)")
    case None
    then show ?thesis using that [of ?h] ok1 cb by (simp add: callback_execute.simps [of _ "[]"] same_tree_def)
  next
    case (Some q)
    then show ?thesis using that callback_execute_ok [of ?h "insert g C" g q] ok1 cb assms(2) by (auto simp: done_gop_def)
  qed
  have hg: "h1 g = (h g)\<lparr>status := st\<rparr>" using h1(3) assms(2) by (auto simp: same_tree_def dest: spec [of _ g])
  define h' where "h' = h1(g := (h1 g)\<lparr>state := True\<rparr>)"
  have "gops_ok h' (insert g C) {}" by (rule gops_ok_same [OF h1(2)]) (simp_all add: h'_def)
  moreover have "single_gop_mark_completed h g st = Some h'" using h1(1) by (simp add: single_gop_mark_completed_def h'_def)
  moreover have "parent_q (h' x) = parent_q (h x)" for x using h1(3) hg by (cases "x = g") (auto simp: same_tree_def h'_def)
  then have "edges h' = edges h" by (simp add: edges_def)
  moreover have "gop_type (h' x) = gop_type (h x) \<and> (gop_type (h x) = Q_TYPE_OPERATION \<and> x \<noteq> g \<longrightarrow> h' x = h x)" for x
    using h1(3) by (auto simp: same_tree_def h'_def)
  ultimately show ?thesis using hg by (auto simp: h'_def)
qed

text \<open>Starting changes the marks and the lists of what is to be started only.\<close>

definition core :: "gop_op_generic_t \<Rightarrow> gop_op_generic_t" where
  "core x = x\<lparr>started_execution := False, qlist := []\<rparr>"

lemma core_fields:
  assumes "core x = core y"
  shows "parent_q x = parent_q y" "gop_type x = gop_type y" "cb x = cb y" "finished x = finished y" "failed x = failed y"
    "nleft x = nleft y" "nsubmitted x = nsubmitted y" "retries x = retries y" "status x = status y" "state x = state y"
  using arg_cong [OF assms, of parent_q] arg_cong [OF assms, of gop_type] arg_cong [OF assms, of cb] arg_cong [OF assms, of finished]
    arg_cong [OF assms, of failed] arg_cong [OF assms, of nleft] arg_cong [OF assms, of nsubmitted] arg_cong [OF assms, of retries]
    arg_cong [OF assms, of status] arg_cong [OF assms, of state] by (simp_all add: core_def)

lemma start_list_core: "start_list h gs subs = Some (h', subs') \<Longrightarrow> core (h' x) = core (h x)"
proof -
  assume "start_list h gs subs = Some (h', subs')"
  then have "\<forall>x. core (fst (h', subs') x) = core (h x)"
    by (rule start_list.raw_induct [rotated]) (fastforce simp: core_def split: list.splits if_splits)
  then show ?thesis by simp
qed

lemma start_execution_core: "gop_start_execution h g = Some (h', subs) \<Longrightarrow> core (h' x) = core (h x)"
  by (auto simp: gop_start_execution_def split: if_splits dest: start_list_core)

lemma gops_ok_core:
  assumes "gops_ok h C {}" "\<And>x. core (h' x) = core (h x)"
  shows "gops_ok h' C {}"
  using core_fields [OF assms(2)] by (intro gops_ok_same [OF assms(1)]) auto

lemma que_counts:
  assumes "gops_ok h C X" "gop_type (h q) = Q_TYPE_QUE"
  shows "0 \<le> nleft (h q)" "nleft (h q) \<le> nsubmitted (h q)"
proof -
  have ok: "opq_ok h C X q" and fin: "finite (children h q)" using assms finite_children by (auto simp: gops_ok_def)
  have "set (finished (h q)) \<subseteq> children h q" using ok by (auto simp: opq_ok_def)
  then have "card (set (finished (h q))) \<le> card (children h q)" by (rule card_mono [OF fin])
  moreover have "card (set (finished (h q))) = length (finished (h q))" using ok by (intro distinct_card) (simp add: opq_ok_def)
  ultimately show "0 \<le> nleft (h q)" "nleft (h q) \<le> nsubmitted (h q)" using ok by (auto simp: opq_ok_def)
qed

text \<open>Adding a gop that is not at its end and has no queue yet to a queue that is not at its end.\<close>

lemma add_ok:
  assumes ok: "gops_ok h C {}" and q: "gop_type (h q) = Q_TYPE_QUE" "\<not> done_gop h C q" and g: "parent_q (h g) = None" "\<not> done_gop h C g"
    "(q, g) \<notin> (edges h)\<^sup>*" and add: "internal_gop_opque_add h q g = Some (h', subs)"
  shows "gops_ok h' C {} \<and> edges h' = insert (g, q) (edges h) \<and> (\<forall>x. gop_type (h' x) = gop_type (h x) \<and> state (h' x) = state (h x))"
proof -
  have gq: "g \<noteq> q" using g(3) by auto
  define h1 where "h1 = h(g := (h g)\<lparr>parent_q := Some q, cb := cb (h g) + 1\<rparr>)"
  define h2 where "h2 = h1(q := (h1 q)\<lparr>nsubmitted := nsubmitted (h1 q) + 1, nleft := nleft (h1 q) + 1,
    qlist := (if started_execution (h1 q) then qlist (h1 q) else qlist (h1 q) @ [g])\<rparr>)"
  have core: "core (h' x) = core (h2 x)" for x
    using add start_list_core [of h2 "[g]" "[]" h' subs x] unfolding internal_gop_opque_add_def Let_def h1_def [symmetric] h2_def [symmetric]
    by (auto split: if_splits)
  have ty: "gop_type (h2 x) = gop_type (h x)" and cb: "cb (h2 x) = (if x = g then cb (h g) + 1 else cb (h x))"
    and par: "parent_q (h2 x) = (if x = g then Some q else parent_q (h x))" for x using gq by (auto simp: h1_def h2_def)
  have ed: "edges h2 = insert (g, q) (edges h)" using g(1) by (auto simp: edges_def par split: if_splits)
  have ch: "children h2 x = (if x = q then insert g (children h q) else children h x)" for x
    using g(1) by (auto simp: children_def par)
  have new: "g \<notin> children h q" using g(1) by (simp add: children_def)
  have dn: "done_gop h2 C x = done_gop h C x" and bd: "bad_gop h2 x = bad_gop h x" for x
  proof -
    have "0 \<le> nleft (h q)" using que_counts(1) [OF ok q(1)] .
    then have "\<not> done_gop h2 C q" using q gq by (auto simp: done_gop_def h1_def h2_def)
    then show "done_gop h2 C x = done_gop h C x" using q(2) by (cases "x = q") (auto simp: done_gop_def h1_def h2_def)
    show "bad_gop h2 x = bad_gop h x" by (auto simp: bad_gop_def h1_def h2_def)
  qed
  have "opq_ok h2 C {} x" if x: "gop_type (h x) = Q_TYPE_QUE" for x
  proof -
    have qx: "opq_ok h C {} x" using ok x by (simp add: gops_ok_def)
    have f: "finished (h2 x) = finished (h x)" "failed (h2 x) = failed (h x)" "retries (h2 x) = retries (h x)" "status (h2 x) = status (h x)"
      by (auto simp: h1_def h2_def)
    have n: "nsubmitted (h2 x) = nsubmitted (h x) + (if x = q then 1 else 0)" "nleft (h2 x) = nleft (h x) + (if x = q then 1 else 0)"
      using gq by (auto simp: h1_def h2_def)
    have "card (children h2 x) = card (children h x) + (if x = q then 1 else 0)"
      using new finite_children [of h q] ok by (simp add: ch gops_ok_def)
    moreover have "{y \<in> children h2 x. done_gop h C y} = {y \<in> children h x. done_gop h C y}" using g(2) by (auto simp: ch)
    ultimately show ?thesis using qx by (simp add: opq_ok_def f n dn bd)
  qed
  moreover have "acyclic (edges h2)" using ok g(3) unfolding ed by (simp add: gops_ok_def acyclic_insert)
  ultimately have "gops_ok h2 C {}" using ok q(1) g(1) unfolding gops_ok_def by (auto simp: ed ty cb par)
  then have "gops_ok h' C {}" using core by (rule gops_ok_core)
  moreover have "edges h' = edges h2" using core_fields(1) [OF core] by (simp add: edges_def)
  moreover have "state (h2 x) = state (h x)" for x by (simp add: h1_def h2_def)
  ultimately show ?thesis using ed ty core_fields(2,10) [OF core] by simp
qed

section \<open>Runs\<close>

text \<open>
  The calls that threads make, one after the other in any order: adding to a queue that is not at its end a gop that is not
  at its end and in no queue yet, starting, what \<^verbatim>\<open>gop_waitall\<close> does before it waits, and completing an operation with any
  status.  Runs in which members are taken out of a queue (\<^verbatim>\<open>gop_waitany\<close>, \<^verbatim>\<open>gop_get_next_finished\<close>, \<^verbatim>\<open>gop_get_next_failed\<close>) or
  a queue is used again after its end are not among them.
\<close>

inductive gop_step :: "gops \<Rightarrow> gops \<Rightarrow> bool" where
  add: "gop_step h h'" if "gop_type (h q) = Q_TYPE_QUE" "nleft (h q) > 0 \<or> nsubmitted (h q) = 0" "parent_q (h g) = None"
    "gop_tasks_left h g > 0 \<or> nsubmitted (h g) = 0 \<and> gop_type (h g) = Q_TYPE_QUE" "(q, g) \<notin> (edges h)\<^sup>*"
    "internal_gop_opque_add h q g = Some (h', subs)"
| start: "gop_step h h'" if "gop_start_execution h g = Some (h', subs)"
| wait: "gop_step h h'" if "waitall_begin sync h g = Some (h', g', subs)"
| complete: "gop_step h h'" if "gop_type (h g) = Q_TYPE_OPERATION" "\<not> state (h g)"
    "single_gop_mark_completed h g st = Some h'"

definition fresh_gops :: "gops \<Rightarrow> bool" where
  "fresh_gops h \<longleftrightarrow> (\<forall>g. h g = gop_init \<or> h g = init_opque)"

definition completed :: "gops \<Rightarrow> nat set" where
  "completed h = {g. gop_type (h g) = Q_TYPE_OPERATION \<and> state (h g)}"

lemma fresh_ok: "fresh_gops h \<Longrightarrow> gops_ok h (completed h) {}"
proof -
  assume h: "fresh_gops h"
  have f: "parent_q (h g) = None" "cb (h g) = 0" "\<not> state (h g)" "nsubmitted (h g) = 0" "nleft (h g) = 0" "finished (h g) = []" "failed (h g) = []" "retries (h g) = 0" for g
    using h [unfolded fresh_gops_def, THEN spec, of g] by (auto simp: gop_init_def init_opque_def)
  then have "edges h = {}" "children h q = {}" for q by (simp_all add: edges_def children_def)
  then show ?thesis using f by (simp add: gops_ok_def opq_ok_def done_gop_def acyclic_def)
qed

lemma waitall_begin_core: "waitall_begin sync h g = Some (h', g', subs) \<Longrightarrow> core (h' x) = core (h x)"
proof -
  assume "waitall_begin sync h g = Some (h', g', subs)"
  then have "\<forall>x. core (fst (h', g', subs) x) = core (h x)"
  proof (rule waitall_begin.raw_induct [rotated])
    fix W sync h g r
    assume IH: "\<And>sync h g r. W sync h g = Some r \<Longrightarrow> \<forall>x. core (fst r x) = core (h x)"
      and r: "(if gop_type (h g) = Q_TYPE_QUE \<and> length (qlist (h g)) = 1 \<and> \<not> started_execution (h g)
        then W sync (h(g := (h g)\<lparr>qlist := []\<rparr>)) (hd (qlist (h g)))
        else if gop_type (h g) = Q_TYPE_OPERATION \<and> sync g \<and> \<not> started_execution (h g) then Some (h, g, [g])
        else Option.bind (gop_start_execution h g) (\<lambda>(h, subs). Some (h, g, subs))) = Some r"
    have "core ((h(g := (h g)\<lparr>qlist := []\<rparr>)) x) = core (h x)" for x by (simp add: core_def)
    then show "\<forall>x. core (fst r x) = core (h x)"
      using r IH [of sync "h(g := (h g)\<lparr>qlist := []\<rparr>)"] by (auto split: if_splits bind_splits dest: start_execution_core)
  qed
  then show ?thesis by simp
qed

lemma core_step: "gops_ok h (completed h) {} \<Longrightarrow> (\<And>x. core (h' x) = core (h x)) \<Longrightarrow> gops_ok h' (completed h') {}"
proof -
  assume ok: "gops_ok h (completed h) {}" and core: "\<And>x. core (h' x) = core (h x)"
  have "gop_type (h' x) = gop_type (h x) \<and> state (h' x) = state (h x)" for x
    using core_fields(2,10) [OF core] by simp
  then have "completed h' = completed h" by (simp add: completed_def)
  then show ?thesis using gops_ok_core [OF ok core] by simp
qed

lemma step_ok: "gop_step h h' \<Longrightarrow> gops_ok h (completed h) {} \<Longrightarrow> gops_ok h' (completed h') {}"
proof (induction rule: gop_step.induct)
  case (add h q g h' subs)
  have "\<not> done_gop h (completed h) q" using add.hyps(1,2) by (auto simp: done_gop_def)
  moreover have "\<not> done_gop h (completed h) g" using add.hyps(4) by (auto simp: done_gop_def gop_tasks_left_def completed_def split: if_splits)
  ultimately have "gops_ok h' (completed h) {} \<and> (\<forall>x. gop_type (h' x) = gop_type (h x) \<and> state (h' x) = state (h x))"
    using add_ok add by blast
  moreover from this have "completed h' = completed h" by (simp add: completed_def)
  ultimately show ?case by simp
next
  case (start h g h' subs)
  then show ?case by (blast intro: core_step start_execution_core)
next
  case (wait sync h g h' g' subs)
  then show ?case by (blast intro: core_step waitall_begin_core)
next
  case (complete h g st h')
  have "g \<notin> completed h" using complete.hyps(2) by (simp add: completed_def)
  then have r: "gops_ok h' (insert g (completed h)) {}" "state (h' g)"
    "\<And>x. gop_type (h' x) = gop_type (h x)" "\<And>x. gop_type (h x) = Q_TYPE_OPERATION \<Longrightarrow> x \<noteq> g \<Longrightarrow> h' x = h x"
    using mark_completed_ok [OF complete.prems complete.hyps(1), of st] complete.hyps(3) by auto
  have "completed h' = insert g (completed h)" using r(2-4) complete.hyps(1) by (auto simp: completed_def) metis+
  then show ?case using r(1) by simp
qed

lemma reachable_ok: "gop_step\<^sup>*\<^sup>* h0 h \<Longrightarrow> fresh_gops h0 \<Longrightarrow> gops_ok h (completed h) {}"
  by (induction rule: rtranclp_induct) (auto intro: fresh_ok step_ok)

section \<open>Waiting for a tree\<close>

text \<open>The operations somewhere below a queue.\<close>

definition below :: "gops \<Rightarrow> nat \<Rightarrow> nat set" where
  "below h q = {g. (g, q) \<in> (edges h)\<^sup>+ \<and> gop_type (h g) = Q_TYPE_OPERATION}"

lemma below_children:
  assumes "gops_ok h C X"
  shows "below h q = (\<Union>c \<in> children h q. if gop_type (h c) = Q_TYPE_OPERATION then {c} else below h c)"
proof -
  have leaf: "(g, c) \<notin> (edges h)\<^sup>+" if "gop_type (h c) = Q_TYPE_OPERATION" for g c
    using assms that by (auto simp: gops_ok_def edges_def dest!: tranclD2)
  have "g \<in> below h q \<longleftrightarrow> (\<exists>c. (c, q) \<in> edges h \<and> (g = c \<or> (g, c) \<in> (edges h)\<^sup>+) \<and> gop_type (h g) = Q_TYPE_OPERATION)" for g
    unfolding below_def by (blast dest: tranclD2 rtranclD intro: trancl_into_trancl)
  then have "below h q = (\<Union>c \<in> children h q. {g. (g = c \<or> (g, c) \<in> (edges h)\<^sup>+) \<and> gop_type (h g) = Q_TYPE_OPERATION})"
    unfolding Bex_def children_edges set_eq_iff UN_iff by blast
  moreover have "{g. (g = c \<or> (g, c) \<in> (edges h)\<^sup>+) \<and> gop_type (h g) = Q_TYPE_OPERATION} = (if gop_type (h c) = Q_TYPE_OPERATION then {c} else below h c)" for c
    using leaf [of c] by (auto simp: below_def)
  ultimately show ?thesis by simp
qed

lemma que_done_iff:
  assumes ok: "gops_ok h C {}" and q: "gop_type (h q) = Q_TYPE_QUE" "nsubmitted (h q) > 0"
  shows "nleft (h q) = 0 \<longleftrightarrow> (\<forall>c \<in> children h q. done_gop h C c)"
proof -
  have qok: "opq_ok h C {} q" and fin: "finite (children h q)" using ok q(1) finite_children by (auto simp: gops_ok_def)
  have F: "distinct (finished (h q))" "set (finished (h q)) = {c \<in> children h q. done_gop h C c}" "nleft (h q) = int (card (children h q)) - int (length (finished (h q)))"
    using qok by (auto simp: opq_ok_def)
  have "nleft (h q) = 0 \<longleftrightarrow> card (set (finished (h q))) = card (children h q)" using F(3) distinct_card [OF F(1)] by auto
  also have "\<dots> \<longleftrightarrow> set (finished (h q)) = children h q" using fin F(2) card_subset_eq [OF fin, of "set (finished (h q))"] by auto
  finally show ?thesis using F(2) by auto
qed

lemma tree_status:
  assumes ok: "gops_ok h C {}" and q: "gop_type (h q) = Q_TYPE_QUE"
    and full: "\<And>g. (g, q) \<in> (edges h)\<^sup>* \<Longrightarrow> gop_type (h g) = Q_TYPE_QUE \<Longrightarrow> nsubmitted (h g) > 0"
  shows "(nleft (h q) = 0 \<longleftrightarrow> below h q \<subseteq> C) \<and> (nleft (h q) = 0 \<longrightarrow> (failed (h q) \<noteq> [] \<longleftrightarrow> (\<exists>g \<in> below h q. fst (status (h g)) = OP_STATE_FAILURE)))"
proof -
  have "wf (edges h)" using ok by (auto simp: gops_ok_def intro: finite_acyclic_wf)
  then show ?thesis using q full
  proof (induction q rule: wf_induct_rule)
    case (less q)
    have ns: "nsubmitted (h q) > 0" using less.prems by blast
    have qok: "opq_ok h C {} q" using ok less.prems(1) by (simp add: gops_ok_def)
    have IH: "(nleft (h c) = 0 \<longleftrightarrow> below h c \<subseteq> C) \<and> (nleft (h c) = 0 \<longrightarrow> (failed (h c) \<noteq> [] \<longleftrightarrow> (\<exists>g \<in> below h c. fst (status (h g)) = OP_STATE_FAILURE)))"
      "nsubmitted (h c) > 0" if c: "c \<in> children h q" "gop_type (h c) = Q_TYPE_QUE" for c
      using less.IH [of c] less.prems(2) c by (auto simp: children_edges intro: rtrancl_into_rtrancl)
    have op: "gop_type x = Q_TYPE_OPERATION \<longleftrightarrow> gop_type x \<noteq> Q_TYPE_QUE" for x by (cases "gop_type x") auto
    have "done_gop h C c \<longleftrightarrow> (if gop_type (h c) = Q_TYPE_OPERATION then {c} else below h c) \<subseteq> C" if "c \<in> children h q" for c
      using IH [OF that] by (auto simp: done_gop_def op)
    then have "nleft (h q) = 0 \<longleftrightarrow> below h q \<subseteq> C" unfolding que_done_iff [OF ok less.prems(1) ns] by (subst below_children [OF ok]) auto
    moreover have "failed (h q) \<noteq> [] \<longleftrightarrow> (\<exists>g \<in> below h q. fst (status (h g)) = OP_STATE_FAILURE)" if n: "nleft (h q) = 0"
    proof -
      have all: "\<forall>c \<in> children h q. done_gop h C c" using n que_done_iff [OF ok less.prems(1) ns] by simp
      then have "set (failed (h q)) = {c \<in> children h q. bad_gop h c}" using qok by (auto simp: opq_ok_def)
      then have "failed (h q) \<noteq> [] \<longleftrightarrow> (\<exists>c \<in> children h q. bad_gop h c)" by (auto simp flip: set_empty)
      moreover have "bad_gop h c \<longleftrightarrow> (\<exists>g \<in> (if gop_type (h c) = Q_TYPE_OPERATION then {c} else below h c). fst (status (h g)) = OP_STATE_FAILURE)"
        if c: "c \<in> children h q" for c
        using IH [OF c] all c by (auto simp: bad_gop_def done_gop_def op)
      ultimately show ?thesis by (subst below_children [OF ok]) blast
    qed
    ultimately show ?case by blast
  qed
qed

section \<open>Starting ends\<close>

text \<open>The list of what is to be started has members of the queue only.\<close>

definition listed :: "gops \<Rightarrow> (nat \<times> nat) set \<Rightarrow> bool" where
  "listed h E \<longleftrightarrow> (\<forall>q. \<forall>m \<in> set (qlist (h q)). (m, q) \<in> E)"

lemma start_list_qlist: "start_list h gs subs = Some r \<Longrightarrow> set (qlist (fst r x)) \<subseteq> set (qlist (h x))"
proof -
  assume "start_list h gs subs = Some r"
  then have "\<forall>x. set (qlist (fst r x)) \<subseteq> set (qlist (h x))"
    by (rule start_list.raw_induct [rotated]) (fastforce split: list.splits if_splits)
  then show ?thesis by simp
qed

lemma start_execution_qlist: "gop_start_execution h g = Some r \<Longrightarrow> set (qlist (fst r x)) \<subseteq> set (qlist (h x))"
  by (auto simp: gop_start_execution_def split: if_splits dest: start_list_qlist)

lemma waitall_begin_qlist: "waitall_begin sync h g = Some r \<Longrightarrow> set (qlist (fst r x)) \<subseteq> set (qlist (h x))"
proof -
  assume "waitall_begin sync h g = Some r"
  then have "\<forall>x. set (qlist (fst r x)) \<subseteq> set (qlist (h x))"
  proof (rule waitall_begin.raw_induct [rotated])
    fix W sync h g r
    assume IH: "\<And>sync h g r. W sync h g = Some r \<Longrightarrow> \<forall>x. set (qlist (fst r x)) \<subseteq> set (qlist (h x))"
      and r: "(if gop_type (h g) = Q_TYPE_QUE \<and> length (qlist (h g)) = 1 \<and> \<not> started_execution (h g)
        then W sync (h(g := (h g)\<lparr>qlist := []\<rparr>)) (hd (qlist (h g)))
        else if gop_type (h g) = Q_TYPE_OPERATION \<and> sync g \<and> \<not> started_execution (h g) then Some (h, g, [g])
        else Option.bind (gop_start_execution h g) (\<lambda>(h, subs). Some (h, g, subs))) = Some r"
    have sub: "set (qlist ((h(g := (h g)\<lparr>qlist := []\<rparr>)) x)) \<subseteq> set (qlist (h x))" for x by simp
    show "\<forall>x. set (qlist (fst r x)) \<subseteq> set (qlist (h x))"
    proof (cases "gop_type (h g) = Q_TYPE_QUE \<and> length (qlist (h g)) = 1 \<and> \<not> started_execution (h g)")
      case True
      then have "W sync (h(g := (h g)\<lparr>qlist := []\<rparr>)) (hd (qlist (h g))) = Some r" using r by simp
      from IH [OF this] sub show ?thesis by (meson subset_trans)
    next
      case False
      then consider "r = (h, g, [g])" | h' subs where "gop_start_execution h g = Some (h', subs)" "r = (h', g, subs)"
        using r by (auto split: if_splits bind_splits)
      then show ?thesis using start_execution_qlist [of h g "(h', subs)" for h' subs] by cases auto
    qed
  qed
  then show ?thesis by simp
qed

lemma callback_execute_qlist: "callback_execute h gs = Some h' \<Longrightarrow> qlist (h' x) = qlist (h x) \<and> parent_q (h' x) = parent_q (h x)"
proof -
  have cb: "qlist (snd (opque_cb h g q) x) = qlist (h x) \<and> parent_q (snd (opque_cb h g q) x) = parent_q (h x)" for h g q x
    by (simp add: opque_cb_def Let_def)
  assume "callback_execute h gs = Some h'"
  then have "\<forall>x. qlist (h' x) = qlist (h x) \<and> parent_q (h' x) = parent_q (h x)"
  proof (rule callback_execute.raw_induct [rotated])
    fix W h gs h'
    assume IH: "\<And>h gs h'. W h gs = Some h' \<Longrightarrow> \<forall>x. qlist (h' x) = qlist (h x) \<and> parent_q (h' x) = parent_q (h x)"
      and r: "(case gs of [] \<Rightarrow> Some h | g # gs \<Rightarrow> (case parent_q (h g) of None \<Rightarrow> None | Some q \<Rightarrow>
        (case opque_cb h g q of (complete, h) \<Rightarrow> W h ((if complete then replicate (cb (h q)) q else []) @ gs)))) = Some h'"
    show "\<forall>x. qlist (h' x) = qlist (h x) \<and> parent_q (h' x) = parent_q (h x)"
    proof (cases gs)
      case Nil
      then show ?thesis using r by simp
    next
      case (Cons g gs')
      obtain q where q: "parent_q (h g) = Some q" using r Cons by (cases "parent_q (h g)") auto
      obtain c h1 where c: "opque_cb h g q = (c, h1)" by fastforce
      have "W h1 ((if c then replicate (cb (h1 q)) q else []) @ gs') = Some h'" using r Cons q c by simp
      from IH [OF this] cb [of h g q] c show ?thesis by simp
    qed
  qed
  then show ?thesis by simp
qed

lemma listed_sub: "listed h E \<Longrightarrow> (\<And>x. set (qlist (h' x)) \<subseteq> set (qlist (h x))) \<Longrightarrow> E \<subseteq> E' \<Longrightarrow> listed h' E'"
  unfolding listed_def by blast

lemma step_listed: "gop_step h h' \<Longrightarrow> listed h (edges h) \<Longrightarrow> listed h' (edges h')"
proof (induction rule: gop_step.induct)
  case (add h q g h' subs)
  define h1 where "h1 = h(g := (h g)\<lparr>parent_q := Some q, cb := cb (h g) + 1\<rparr>)"
  define h2 where "h2 = h1(q := (h1 q)\<lparr>nsubmitted := nsubmitted (h1 q) + 1, nleft := nleft (h1 q) + 1,
    qlist := (if started_execution (h1 q) then qlist (h1 q) else qlist (h1 q) @ [g])\<rparr>)"
  have r: "(if started_execution (h2 q) then start_list h2 [g] [] else Some (h2, [])) = Some (h', subs)"
    using add.hyps(6) unfolding internal_gop_opque_add_def Let_def h1_def [symmetric] h2_def [symmetric] .
  have core: "core (h' x) = core (h2 x)" and sub: "set (qlist (h' x)) \<subseteq> set (qlist (h2 x))" for x
    using r start_list_core [of h2 "[g]" "[]" h' subs x] start_list_qlist [of h2 "[g]" "[]" "(h', subs)" x] by (auto split: if_splits)
  have ed: "edges h' = edges h2" using core_fields(1) [OF core] by (simp add: edges_def)
  have "edges h2 = insert (g, q) (edges h)" using add.hyps(3) by (auto simp: edges_def h1_def h2_def split: if_splits)
  moreover have "set (qlist (h2 x)) \<subseteq> set (qlist (h x)) \<union> (if x = q then {g} else {})" for x by (auto simp: h1_def h2_def)
  ultimately have "listed h2 (edges h2)" using add.prems unfolding listed_def by (fastforce split: if_splits)
  then show ?case unfolding ed using sub by (rule listed_sub) simp
next
  case (start h g h' subs)
  have "edges h' = edges h" using core_fields(1) [OF start_execution_core [OF start.hyps]] by (simp add: edges_def)
  then show ?case using start_execution_qlist [OF start.hyps] by (intro listed_sub [OF start.prems]) simp_all
next
  case (wait sync h g h' g' subs)
  have "edges h' = edges h" using core_fields(1) [OF waitall_begin_core [OF wait.hyps]] by (simp add: edges_def)
  then show ?case using waitall_begin_qlist [OF wait.hyps] by (intro listed_sub [OF wait.prems]) simp_all
next
  case (complete h g st h')
  let ?h = "h(g := (h g)\<lparr>status := st\<rparr>)"
  obtain h1 where h1: "callback_execute ?h (replicate (cb (h g)) g) = Some h1" "h' = h1(g := (h1 g)\<lparr>state := True\<rparr>)"
    using complete.hyps(3) by (auto simp: single_gop_mark_completed_def)
  have "qlist (h' x) = qlist (h x) \<and> parent_q (h' x) = parent_q (h x)" for x using callback_execute_qlist [OF h1(1), of x] h1(2) by auto
  then show ?case using complete.prems by (simp add: listed_def edges_def)
qed

lemma reachable_listed: "gop_step\<^sup>*\<^sup>* h0 h \<Longrightarrow> fresh_gops h0 \<Longrightarrow> listed h (edges h)"
proof (induction rule: rtranclp_induct)
  case base
  have "qlist (h0 x) = []" for x using base [unfolded fresh_gops_def, THEN spec, of x] by (auto simp: gop_init_def init_opque_def)
  then show ?case by (simp add: listed_def)
qed (rule step_listed)

text \<open>Starting goes down the tree: what is at the head of the list is dealt with, whatever stands behind it.\<close>

lemma start_one:
  assumes "wf E" "listed h E"
  shows "\<exists>h' subs'. (\<forall>gs. start_list h (g # gs) subs = start_list h' gs subs') \<and> listed h' E"
  using assms
proof (induction g arbitrary: h subs rule: wf_induct_rule)
  case (less g)
  have many: "\<exists>h' subs'. (\<forall>gs. start_list h (ms @ gs) subs = start_list h' gs subs') \<and> listed h' E"
    if "set ms \<subseteq> {m. (m, g) \<in> E}" "listed h E" for ms h subs
    using that
  proof (induction ms arbitrary: h subs)
    case (Cons m ms)
    obtain h1 s1 where 1: "\<forall>gs. start_list h (m # gs) subs = start_list h1 gs s1" "listed h1 E"
      using less.IH [of m h subs] Cons.prems by auto
    with Cons.IH [of h1 s1] Cons.prems(1) show ?case by auto
  qed auto
  show ?case
  proof (cases "gop_type (h g) = Q_TYPE_OPERATION")
    case True
    then have "start_list h (g # gs) subs = start_list (h(g := (h g)\<lparr>started_execution := True\<rparr>)) gs (subs @ [g])" for gs
      by (subst start_list.simps) simp
    moreover have "listed (h(g := (h g)\<lparr>started_execution := True\<rparr>)) E" using less.prems by (simp add: listed_def)
    ultimately show ?thesis by blast
  next
    case que: False
    show ?thesis
    proof (cases "started_execution (h g)")
      case True
      then have "start_list h (g # gs) subs = start_list h gs subs" for gs using que by (subst start_list.simps) simp
      then show ?thesis using less.prems by blast
    next
      case False
      let ?h = "h(g := (h g)\<lparr>started_execution := True, qlist := []\<rparr>)"
      have "start_list h (g # gs) subs = start_list ?h (qlist (h g) @ gs) subs" for gs using que False by (subst start_list.simps) simp
      moreover have "listed ?h E" using less.prems by (simp add: listed_def)
      moreover have "set (qlist (h g)) \<subseteq> {m. (m, g) \<in> E}" using less.prems by (auto simp: listed_def)
      ultimately show ?thesis using many [of "qlist (h g)" ?h subs] by simp
    qed
  qed
qed

lemma start_execution_returns: "wf E \<Longrightarrow> listed h E \<Longrightarrow> \<exists>r. gop_start_execution h g = Some r"
  using start_one [of E h g "[]"] by (auto simp: gop_start_execution_def start_list.simps [of _ "[]"])

text \<open>The gop that \<^verbatim>\<open>gop_waitall\<close> waits for: the gop itself, or that of the only member of a queue that is not started.\<close>

inductive waits_for :: "gops \<Rightarrow> nat \<Rightarrow> nat \<Rightarrow> bool" where
  itself: "waits_for h g g" if "gop_type (h g) = Q_TYPE_OPERATION \<or> length (qlist (h g)) \<noteq> 1 \<or> started_execution (h g)"
| member: "waits_for h g x" if "gop_type (h g) = Q_TYPE_QUE" "qlist (h g) = [m]" "\<not> started_execution (h g)" "waits_for h m x"

lemma waitall_begin_returns:
  assumes "finite E" "acyclic E" "listed h E" "listed h' E" "\<And>x. (x, g) \<in> E\<^sup>* \<Longrightarrow> h' x = h x"
  shows "\<exists>h1 x subs. waitall_begin sync h' g = Some (h1, x, subs) \<and> waits_for h g x"
proof -
  have wf: "wf E" using assms(1,2) by (rule finite_acyclic_wf)
  then show ?thesis using assms(3-5)
  proof (induction g arbitrary: h' rule: wf_induct_rule)
    case (less g)
    have g: "h' g = h g" using less.prems(3) by simp
    show ?case
    proof (cases "gop_type (h g) = Q_TYPE_QUE \<and> length (qlist (h g)) = 1 \<and> \<not> started_execution (h g)")
      case True
      then obtain m where m: "qlist (h g) = [m]" by (auto simp: length_Suc_conv)
      then have mg: "(m, g) \<in> E" using less.prems(1) by (auto simp: listed_def dest: spec [of _ g])
      let ?h = "h'(g := (h g)\<lparr>qlist := []\<rparr>)"
      have "?h x = h x" if "(x, m) \<in> E\<^sup>*" for x
      proof -
        have "x \<noteq> g" using that mg assms(2) by (auto simp: acyclic_def dest: rtrancl_into_trancl1)
        moreover have "(x, g) \<in> E\<^sup>*" using that mg by (rule rtrancl_into_rtrancl)
        ultimately show ?thesis using less.prems(3) by simp
      qed
      moreover have "listed ?h E" using less.prems(2) by (auto simp: listed_def)
      ultimately obtain h1 x subs where "waitall_begin sync ?h m = Some (h1, x, subs)" "waits_for h m x"
        using less.IH [OF mg less.prems(1)] by blast
      moreover have "waitall_begin sync h' g = waitall_begin sync ?h m" using True m g by (subst waitall_begin.simps) simp
      ultimately show ?thesis using True m by (auto intro: waits_for.member)
    next
      case False
      obtain r where "gop_start_execution h' g = Some r" using start_execution_returns [OF wf less.prems(2)] by blast
      then have "\<exists>h1 subs. waitall_begin sync h' g = Some (h1, g, subs)"
        using False g by (subst waitall_begin.simps) (cases r, auto)
      moreover have "waits_for h g g" using False by (intro waits_for.itself) (cases "gop_type (h g)", auto)
      ultimately show ?thesis by blast
    qed
  qed
qed

section \<open>Properties\<close>

text \<open>The operations that waiting for a gop is about, and the status that it returns.\<close>

definition waited :: "gops \<Rightarrow> nat \<Rightarrow> nat set" where
  "waited h g = (if gop_type (h g) = Q_TYPE_OPERATION then {g} else below h g)"

definition wait_status :: "gops \<Rightarrow> nat \<Rightarrow> int" where
  "wait_status h g =
     (if gop_type (h g) = Q_TYPE_OPERATION then fst (status (h g))
      else if \<exists>x \<in> below h g. fst (status (h x)) = OP_STATE_FAILURE then OP_STATE_FAILURE else OP_STATE_SUCCESS)"

lemma waitall_look_result:
  assumes ok: "gops_ok h (completed h) {}" and full: "\<forall>x. (x, g) \<in> (edges h)\<^sup>* \<and> gop_type (h x) = Q_TYPE_QUE \<longrightarrow> nsubmitted (h x) > 0"
  shows "waitall_look h g = (if \<forall>x \<in> waited h g. state (h x) then Some (wait_status h g) else None)"
proof (cases "gop_type (h g) = Q_TYPE_OPERATION")
  case True
  then show ?thesis by (simp add: waitall_look_def gop_tasks_left_def gop_completed_successfully_def waited_def wait_status_def)
next
  case False
  then have q: "gop_type (h g) = Q_TYPE_QUE" by (cases "gop_type (h g)") auto
  have tree: "(nleft (h g) = 0 \<longleftrightarrow> below h g \<subseteq> completed h) \<and>
      (nleft (h g) = 0 \<longrightarrow> (failed (h g) \<noteq> [] \<longleftrightarrow> (\<exists>x \<in> below h g. fst (status (h x)) = OP_STATE_FAILURE)))"
    using tree_status [OF ok q] full by blast
  have all: "below h g \<subseteq> completed h \<longleftrightarrow> (\<forall>x \<in> below h g. state (h x))" by (auto simp: below_def completed_def)
  have left: "gop_tasks_left h g > 0 \<longleftrightarrow> nleft (h g) \<noteq> 0" using que_counts(1) [OF ok q] q by (auto simp: gop_tasks_left_def)
  have "nsubmitted (h g) > 0" using q full by blast
  then have "nleft (h g) = 0 \<longrightarrow> fst (status (h g)) = (if failed (h g) = [] then OP_STATE_SUCCESS else OP_STATE_FAILURE)"
    using ok q by (auto simp: gops_ok_def opq_ok_def done_gop_def)
  then show ?thesis using tree left q by (auto simp: waitall_look_def gop_completed_successfully_def all waited_def wait_status_def)
qed

text \<open>
  C2: in every run of the calls on fresh operations and queues, \<^verbatim>\<open>gop_waitall\<close> of any gop starts what is to be started and
  comes to wait.  It waits for the gop itself, or, as long as this is a queue that was not started and has one member on its
  list, for what waiting for that member waits for.  However the run goes on, if no queue at or below the gop that is waited
  for is empty, the wait lasts exactly until all operations below it are completed.  For an operation \<^verbatim>\<open>gop_waitall\<close> then
  returns its status.  For a queue it returns \<^verbatim>\<open>OP_STATE_FAILURE\<close> when some operation anywhere below ended with just that
  status, and \<^verbatim>\<open>OP_STATE_SUCCESS\<close> otherwise, so that a time-out below a queue counts as a success.
\<close>

theorem opque_waitall_result:
  assumes "fresh_gops h0" "gop_step\<^sup>*\<^sup>* h0 h"
  shows "\<exists>h1 g subs. waitall_begin sync h q = Some (h1, g, subs) \<and> gop_step h h1 \<and> waits_for h q g \<and>
    (\<forall>h2. gop_step\<^sup>*\<^sup>* h1 h2 \<and> (\<forall>x. (x, g) \<in> (edges h2)\<^sup>* \<and> gop_type (h2 x) = Q_TYPE_QUE \<longrightarrow> nsubmitted (h2 x) > 0) \<longrightarrow>
       waitall_look h2 g = (if \<forall>x \<in> waited h2 g. state (h2 x) then Some (wait_status h2 g) else None))"
proof -
  have ok: "gops_ok h (completed h) {}" using reachable_ok assms by blast
  have E: "finite (edges h)" "acyclic (edges h)" "listed h (edges h)" using ok reachable_listed assms by (auto simp: gops_ok_def)
  obtain h1 g subs where w: "waitall_begin sync h q = Some (h1, g, subs)" "waits_for h q g"
    using waitall_begin_returns [OF E E(3), of q sync] by blast
  have s: "gop_step h h1" using w(1) by (rule gop_step.wait)
  then have "gops_ok h2 (completed h2) {}" if "gop_step\<^sup>*\<^sup>* h1 h2" for h2
    using reachable_ok [OF _ assms(1), of h2] assms(2) that by (meson rtranclp.rtrancl_into_rtrancl rtranclp_trans)
  then show ?thesis using w s waitall_look_result by blast
qed

text \<open>
  C15: In every such run, marking an operation that is not completed as completed returns, with any status: the callbacks go
  up through the queues and end.
\<close>

theorem mark_completed_returns:
  assumes "fresh_gops h0" "gop_step\<^sup>*\<^sup>* h0 h" "gop_type (h g) = Q_TYPE_OPERATION" "\<not> state (h g)"
  shows "\<exists>h'. single_gop_mark_completed h g st = Some h' \<and> gop_step h h' \<and> gop_tasks_left h' g = 0 \<and> gop_wait_look h' g = Some (fst st)"
proof -
  have ok: "gops_ok h (completed h) {}" using reachable_ok assms(1,2) by blast
  have "g \<notin> completed h" using assms(4) by (simp add: completed_def)
  then obtain h' where h': "single_gop_mark_completed h g st = Some h'" "gop_type (h' g) = gop_type (h g)" "state (h' g)" "status (h' g) = st"
    using mark_completed_ok [OF ok assms(3), of st] by blast
  have "gop_step h h'" using assms(3,4) h'(1) by (rule gop_step.complete)
  then show ?thesis using h' assms(3) by (simp add: gop_tasks_left_def gop_wait_look_def)
qed

text \<open>
  Asking a queue for finished members until \<^verbatim>\<open>gop_waitany\<close> returns NULL, with at most \<open>n\<close> members; \<open>None\<close> when it has to wait or
  there are more.
\<close>

fun waitany_all :: "nat \<Rightarrow> gops \<Rightarrow> nat \<Rightarrow> nat list option" where
  "waitany_all n h q =
     (case waitany_look h q of
        None \<Rightarrow> None
      | Some (None, h) \<Rightarrow> Some []
      | Some (Some g, h) \<Rightarrow> (case n of 0 \<Rightarrow> None | Suc n \<Rightarrow> map_option ((#) g) (waitany_all n h q)))"

declare waitany_all.simps [simp del]

lemma waitany_all_finished:
  "gop_type (h q) = Q_TYPE_QUE \<Longrightarrow> nleft (h q) \<le> 0 \<Longrightarrow> length (finished (h q)) \<le> n \<Longrightarrow> waitany_all n h q = Some (finished (h q))"
  by (induction n arbitrary: h) (subst waitany_all.simps, auto simp: waitany_look_def split: list.splits)+

text \<open>
  C14: When all operations below a queue are completed, asking for members with \<^verbatim>\<open>gop_waitany\<close> gives each gop that was added to
  the queue exactly once and then NULL.
\<close>

theorem opque_waitany_each_once:
  assumes "fresh_gops h0" "gop_step\<^sup>*\<^sup>* h0 h" "gop_type (h q) = Q_TYPE_QUE"
    and "\<forall>g. (g, q) \<in> (edges h)\<^sup>* \<and> gop_type (h g) = Q_TYPE_QUE \<longrightarrow> nsubmitted (h g) > 0" "\<forall>g \<in> below h q. state (h g)"
  shows "\<exists>gs. waitany_all (nat (nsubmitted (h q))) h q = Some gs \<and> distinct gs \<and> set gs = {g. parent_q (h g) = Some q}"
proof -
  have ok: "gops_ok h (completed h) {}" using reachable_ok assms(1,2) by blast
  have sub: "below h q \<subseteq> completed h" using assms(5) by (auto simp: below_def completed_def)
  then have left: "nleft (h q) = 0" using tree_status [OF ok assms(3)] assms(4) by blast
  have ns: "nsubmitted (h q) > 0" using assms(3,4) by blast
  have qok: "opq_ok h (completed h) {} q" using ok assms(3) by (simp add: gops_ok_def)
  then have "waitany_all (nat (nsubmitted (h q))) h q = Some (finished (h q))"
    using left assms(3) by (intro waitany_all_finished) (simp_all add: opq_ok_def)
  moreover have "set (finished (h q)) = children h q" using que_done_iff [OF ok assms(3) ns] left qok by (auto simp: opq_ok_def)
  ultimately show ?thesis using qok by (simp add: opq_ok_def children_def)
qed

section \<open>Examples\<close>

text \<open>A queue with one operation that is completed with a given status.\<close>

definition ex_start :: gops where
  "ex_start = (\<lambda>_. gop_init)(0 := init_opque)"

definition ex_added :: gops where
  "ex_added = ex_start(1 := gop_init\<lparr>parent_q := Some 0, cb := 1\<rparr>, 0 := init_opque\<lparr>nsubmitted := 1, nleft := 1, qlist := [1]\<rparr>)"

definition ex_done :: "int \<times> int \<Rightarrow> gops" where
  "ex_done st = ex_added(1 := (ex_added 1)\<lparr>status := st, state := True\<rparr>, 0 := (ex_added 0)\<lparr>nleft := 0, finished := [1],
     failed := (if fst st = OP_STATE_FAILURE then [1] else []), retries := (if fst st = OP_STATE_FAILURE then 1 else 0),
     status := (if fst st = OP_STATE_FAILURE then gop_failure_status else gop_success_status)\<rparr>)"

lemma ex_fresh: "fresh_gops ex_start"
  by (simp add: fresh_gops_def ex_start_def)

lemma ex_step_add: "gop_step ex_start ex_added"
proof (rule gop_step.add)
  show "internal_gop_opque_add ex_start 0 1 = Some (ex_added, [])"
    by (simp add: internal_gop_opque_add_def ex_start_def ex_added_def init_opque_def gop_init_def fun_eq_iff)
  have "edges ex_start = {}" by (simp add: edges_def ex_start_def init_opque_def gop_init_def)
  then show "(0, 1) \<notin> (edges ex_start)\<^sup>*" by simp
qed (simp_all add: ex_start_def init_opque_def gop_init_def gop_tasks_left_def)

lemma ex_completes: "single_gop_mark_completed ex_added 1 st = Some (ex_done st)"
  by (simp add: single_gop_mark_completed_def ex_added_def ex_start_def ex_done_def init_opque_def gop_init_def
      callback_execute.simps opque_cb_def) (simp add: fun_eq_iff)

lemma ex_step_done: "gop_step ex_added (ex_done st)"
  by (rule gop_step.complete [OF _ _ ex_completes]) (simp_all add: ex_added_def gop_init_def)

lemma ex_run: "gop_step\<^sup>*\<^sup>* ex_start (ex_done st)" "gop_step\<^sup>*\<^sup>* ex_start ex_added"
  using ex_step_add ex_step_done [of st] by (auto intro: rtranclp.intros)

lemma ex_edges: "edges (ex_done st) = {(1, 0)}"
  by (auto simp: edges_def ex_done_def ex_added_def ex_start_def init_opque_def gop_init_def split: if_splits)

lemma ex_queues: "gop_type (ex_done st g) = Q_TYPE_QUE \<longleftrightarrow> g = 0" "nsubmitted (ex_done st 0) = 1" "state (ex_done st 1)"
  by (auto simp: ex_done_def ex_added_def ex_start_def init_opque_def gop_init_def)

lemma ex_below: "below (ex_done st) 0 = {1}"
proof -
  have "trans {(1::nat, 0::nat)}" by (simp add: trans_def)
  then have "{(1::nat, 0::nat)}\<^sup>+ = {(1, 0)}" by (rule trancl_id)
  moreover have "gop_type (ex_done st 1) = Q_TYPE_OPERATION" using ex_queues(1) [of st 1] by (cases "gop_type (ex_done st 1)") auto
  ultimately show ?thesis by (auto simp: below_def ex_edges)
qed

text \<open>A queue of one that is not started is left out, the operation is waited for and its own status returned.\<close>

lemma ex_begins: "waitall_begin (\<lambda>_. True) ex_added 0 = Some (ex_added(0 := (ex_added 0)\<lparr>qlist := []\<rparr>), 1, [1])"
  by (subst waitall_begin.simps, subst waitall_begin.simps) (simp add: ex_added_def init_opque_def gop_init_def)

lemma ex_completes_waited: "single_gop_mark_completed (ex_added(0 := (ex_added 0)\<lparr>qlist := []\<rparr>)) 1 st =
    Some ((ex_done st)(0 := (ex_done st 0)\<lparr>qlist := []\<rparr>))"
  by (simp add: single_gop_mark_completed_def ex_added_def ex_start_def ex_done_def init_opque_def gop_init_def
      callback_execute.simps opque_cb_def) (simp add: fun_eq_iff)

theorem opque_waitall_result_witness:
  "waitall_look ((ex_done (OP_STATE_TIMEOUT, 0))(0 := (ex_done (OP_STATE_TIMEOUT, 0) 0)\<lparr>qlist := []\<rparr>)) 1 = Some OP_STATE_TIMEOUT"
proof -
  let ?h1 = "ex_added(0 := (ex_added 0)\<lparr>qlist := []\<rparr>)"
  let ?st = "(OP_STATE_TIMEOUT, 0) :: int \<times> int"
  let ?h2 = "(ex_done ?st)(0 := (ex_done ?st 0)\<lparr>qlist := []\<rparr>)"
  have "gop_step ?h1 ?h2" by (rule gop_step.complete [OF _ _ ex_completes_waited]) (simp_all add: ex_added_def gop_init_def)
  moreover have "edges ?h2 = edges (ex_done ?st)" by (auto simp: edges_def split: if_splits)
  moreover have "(x, 1) \<in> {(1::nat, 0::nat)}\<^sup>* \<longleftrightarrow> x = 1" for x by (auto elim: rtranclE)
  moreover have ty: "gop_type (?h2 1) = Q_TYPE_OPERATION" using ex_queues(1) [of ?st 1] by (cases "gop_type (ex_done ?st 1)") auto
  ultimately have "gop_step\<^sup>*\<^sup>* ?h1 ?h2 \<and> (\<forall>x. (x, 1) \<in> (edges ?h2)\<^sup>* \<and> gop_type (?h2 x) = Q_TYPE_QUE \<longrightarrow> nsubmitted (?h2 x) > 0)"
    by (auto simp: ex_edges)
  then have "waitall_look ?h2 1 = (if \<forall>x \<in> waited ?h2 1. state (?h2 x) then Some (wait_status ?h2 1) else None)"
    using opque_waitall_result [OF ex_fresh ex_run(2), of "\<lambda>_. True" 0] ex_begins by auto
  then show ?thesis using ty ex_queues(3) [of ?st] by (simp add: waited_def wait_status_def) (simp add: ex_done_def)
qed

theorem mark_completed_returns_witness:
  "\<exists>h'. single_gop_mark_completed ex_added 1 (7, 3) = Some h' \<and> gop_step ex_added h' \<and> gop_tasks_left h' 1 = 0 \<and> gop_wait_look h' 1 = Some 7"
  using mark_completed_returns [OF ex_fresh ex_run(2), of 1 "(7, 3)"] by (simp add: ex_added_def gop_init_def)

theorem opque_waitany_each_once_witness:
  "\<exists>gs. waitany_all 1 (ex_done (7, 3)) 0 = Some gs \<and> distinct gs \<and> set gs = {g. parent_q (ex_done (7, 3) g) = Some 0}"
  using opque_waitany_each_once [OF ex_fresh ex_run(1), of "(7, 3)" 0] by (simp add: ex_queues ex_queues(3) [simplified] ex_below)

text \<open>
  The status of an operation that ended with \<^verbatim>\<open>OP_STATE_TIMEOUT\<close> is what waiting for a queue of one returns when the queue was
  not started before, and success when it was.
\<close>

lemma opque_timeout_is_success:
  "waitall_look (ex_done (OP_STATE_TIMEOUT, 0)) 1 = Some OP_STATE_TIMEOUT"
  "waitall_look (ex_done (OP_STATE_TIMEOUT, 0)) 0 = Some OP_STATE_SUCCESS"
  by (simp_all add: waitall_look_def gop_tasks_left_def gop_completed_successfully_def ex_done_def ex_added_def init_opque_def gop_init_def
    OP_STATE_TIMEOUT_def OP_STATE_FAILURE_def gop_success_status_def)

text \<open>A queue that was added empty is never called back for, so the queue it is in is never at its end.\<close>

lemma opque_empty_member_waits:
  assumes "gops_ok h C {}" "gop_type (h q) = Q_TYPE_QUE" "parent_q (h e) = Some q" "gop_type (h e) = Q_TYPE_QUE" "nsubmitted (h e) = 0"
  shows "waitall_look h q = None"
proof -
  have qok: "opq_ok h C {} q" and fin: "finite (children h q)" using assms(1,2) finite_children by (auto simp: gops_ok_def)
  have e: "e \<in> children h q" "\<not> done_gop h C e" using assms(3-5) by (simp_all add: children_def done_gop_def)
  then have "nsubmitted (h q) > 0" using qok fin by (auto simp: opq_ok_def card_gt_0_iff)
  then have "nleft (h q) \<noteq> 0" using que_done_iff [OF assms(1,2)] e by blast
  then show ?thesis using que_counts(1) [OF assms(1,2)] assms(2) by (simp add: waitall_look_def gop_tasks_left_def)
qed

text \<open>Waiting for a queue that never got anything returns the cleared status at once.\<close>

lemma opque_empty_waitall:
  "waitall_begin sync (\<lambda>_. init_opque) q = Some ((\<lambda>_. init_opque)(q := init_opque\<lparr>started_execution := True\<rparr>), q, [])"
  "waitall_look ((\<lambda>_. init_opque)(q := init_opque\<lparr>started_execution := True\<rparr>)) q = Some 0"
  by (subst waitall_begin.simps, simp add: gop_start_execution_def start_list.simps init_opque_def gop_init_def,
      simp add: waitall_look_def gop_tasks_left_def gop_completed_successfully_def init_opque_def gop_init_def)

end
