(* ===== verification/Skiplist.thy ===== *)
theory Skiplist
  imports C_String
begin

text \<open>
  \<^verbatim>\<open>toolbox/skiplist.c\<close>: ordered lists with several levels of links.  The model is at the level of the pointers: nodes are
  cells of a store that is kept in the record of the list, NULL is \<open>None\<close>, and the chain of elements of a node, which only its
  node points to, is a list whose first member is the one inside the node.  Reading through NULL or a released node and an
  index outside of an array are undefined (\<open>None\<close>).  The comparison of keys is a field of the list; \<open>key_compare\<close> is what the
  list needs of it.  The random numbers are arguments: \<open>draws i\<close> says whether the i-th one of a call is below \<^verbatim>\<open>p\<close>.  \<open>sl_rep\<close> is
  the invariant, \<open>sl_abs\<close> reads the structure as a sorted list of keys with their data, and the operations refine their
  counterparts on such lists.
\<close>

section \<open>The structures\<close>

definition SKIPLIST_MAX_LEVEL :: nat where "SKIPLIST_MAX_LEVEL = 32"

record ('k, 'd) tbx_sl_node_t =
  sn_level :: nat
  sn_key :: "'k option"
  sn_next :: "nat option list"
  sn_ele :: "'d option list"

text \<open>\<open>sl_brk\<close> is the next address that \<^verbatim>\<open>malloc\<close> hands out, \<open>sl_freed\<close> lists the arguments of the calls of \<^verbatim>\<open>data_free\<close>.\<close>

record ('k, 'd) tbx_sl_t =
  max_levels :: nat
  current_max :: nat
  allow_dups :: bool
  n_keys :: int
  n_ele :: int
  head :: nat
  compare :: "'k \<Rightarrow> 'k \<Rightarrow> int"
  nodes :: "nat \<Rightarrow> ('k, 'd) tbx_sl_node_t option"
  sl_brk :: nat
  sl_freed :: "'d option list"

section \<open>Reading and writing of nodes\<close>

definition sl_next :: "('k, 'd) tbx_sl_t \<Rightarrow> nat \<Rightarrow> nat \<Rightarrow> nat option option" where
  "sl_next s a i = do { n \<leftarrow> nodes s a; if i < length (sn_next n) then Some (sn_next n ! i) else None }"

definition set_node :: "('k, 'd) tbx_sl_t \<Rightarrow> nat \<Rightarrow> ('k, 'd) tbx_sl_node_t \<Rightarrow> ('k, 'd) tbx_sl_t" where
  "set_node s a n = s\<lparr>nodes := (nodes s)(a \<mapsto> n)\<rparr>"

definition set_next :: "('k, 'd) tbx_sl_t \<Rightarrow> nat \<Rightarrow> nat \<Rightarrow> nat option \<Rightarrow> ('k, 'd) tbx_sl_t option" where
  "set_next s a i v = do {
     n \<leftarrow> nodes s a;
     if i < length (sn_next n) then Some (set_node s a (n\<lparr>sn_next := (sn_next n)[i := v]\<rparr>)) else None
   }"

definition get_ptr :: "nat option list \<Rightarrow> nat \<Rightarrow> nat option" where
  "get_ptr ptr i = (if i < length ptr then ptr ! i else None)"

definition set_ptr :: "nat option list \<Rightarrow> nat \<Rightarrow> nat option \<Rightarrow> nat option list option" where
  "set_ptr ptr i v = (if i < length ptr then Some (ptr[i := v]) else None)"

definition no_ptr :: "nat option list" where
  "no_ptr = replicate SKIPLIST_MAX_LEVEL None"

definition create_skiplist_node :: "('k, 'd) tbx_sl_t \<Rightarrow> nat \<Rightarrow> nat \<times> ('k, 'd) tbx_sl_t" where
  "create_skiplist_node s level =
     (sl_brk s, set_node s (sl_brk s) \<lparr>sn_level = level, sn_key = None, sn_next = replicate (level + 1) None, sn_ele = [None]\<rparr>
        \<lparr>sl_brk := Suc (sl_brk s)\<rparr>)"

definition data_free :: "('k, 'd) tbx_sl_t \<Rightarrow> 'd option list \<Rightarrow> ('k, 'd) tbx_sl_t" where
  "data_free s ds = s\<lparr>sl_freed := sl_freed s @ ds\<rparr>"

text \<open>The first element is freed when it is not NULL, the others always.\<close>

definition freed_eles :: "'d option list \<Rightarrow> 'd option list" where
  "freed_eles es = (case es of [] \<Rightarrow> [] | e # es \<Rightarrow> (if e \<noteq> None then [e] else []) @ es)"

definition destroy_skiplist_node :: "('k, 'd) tbx_sl_t \<Rightarrow> nat \<Rightarrow> ('k, 'd) tbx_sl_t option" where
  "destroy_skiplist_node s a = do { n \<leftarrow> nodes s a; Some ((data_free s (freed_eles (sn_ele n)))\<lparr>nodes := (nodes s)(a := None)\<rparr>) }"

section \<open>The operations\<close>

definition tbx_sl_init_full :: "nat \<Rightarrow> bool \<Rightarrow> ('k \<Rightarrow> 'k \<Rightarrow> int) \<Rightarrow> ('k, 'd) tbx_sl_t option" where
  "tbx_sl_init_full maxlevels dups cmp =
     (if maxlevels > 0
      then (case create_skiplist_node \<lparr>max_levels = maxlevels, current_max = 0, allow_dups = dups, n_keys = 0, n_ele = 0, head = 0,
                   compare = cmp, nodes = (\<lambda>_. None), sl_brk = 0, sl_freed = []\<rparr> (maxlevels - 1) of
              (a, s) \<Rightarrow> Some (s\<lparr>head := a\<rparr>))
      else None)"

definition create_skiplist :: "bool \<Rightarrow> ('k \<Rightarrow> 'k \<Rightarrow> int) \<Rightarrow> ('k, 'd) tbx_sl_t option" where
  "create_skiplist dups cmp = tbx_sl_init_full 16 dups cmp"

definition skiplist_compare_fn_ptr :: "nat \<Rightarrow> nat \<Rightarrow> int" where
  "skiplist_compare_fn_ptr a b = (if a < b then -1 else if a = b then 0 else 1)"

definition skiplist_compare_fn_int :: "int \<Rightarrow> int \<Rightarrow> int \<Rightarrow> int" where
  "skiplist_compare_fn_int scale a b = scale * (if a < b then -1 else if a = b then 0 else 1)"

definition skiplist_compare_fn_strcmp :: "int \<Rightarrow> string \<Rightarrow> string \<Rightarrow> int" where
  "skiplist_compare_fn_strcmp scale a b = scale * strncmp (Suc (max (length a) (length b))) a b"

definition skiplist_compare_fn_strncmp :: "nat \<Rightarrow> string \<Rightarrow> string \<Rightarrow> int" where
  "skiplist_compare_fn_strncmp n a b = strncmp n a b"

definition tbx_sl_key_count :: "('k, 'd) tbx_sl_t \<Rightarrow> int" where
  "tbx_sl_key_count s = n_keys s"

definition skiplist_element_count :: "('k, 'd) tbx_sl_t \<Rightarrow> int" where
  "skiplist_element_count s = n_ele s"

partial_function (option) destroy_chain :: "('k, 'd) tbx_sl_t \<Rightarrow> nat option \<Rightarrow> ('k, 'd) tbx_sl_t option" where
  "destroy_chain s sn =
     (case sn of
        None \<Rightarrow> Some s
      | Some a \<Rightarrow> do { nx \<leftarrow> sl_next s a 0; s \<leftarrow> destroy_skiplist_node s a; destroy_chain s nx })"

definition tbx_sl_empty :: "('k, 'd) tbx_sl_t \<Rightarrow> ('k, 'd) tbx_sl_t option" where
  "tbx_sl_empty s = do {
     n \<leftarrow> nodes s (head s);
     sn \<leftarrow> sl_next s (head s) 0;
     let s = s\<lparr>n_keys := 0, n_ele := 0, current_max := 0\<rparr>;
     if max_levels s \<le> length (sn_next n)
     then destroy_chain (set_node s (head s) (n\<lparr>sn_next := replicate (max_levels s) None @ drop (max_levels s) (sn_next n)\<rparr>)) sn
     else None
   }"

definition tbx_sl_fini :: "('k, 'd) tbx_sl_t \<Rightarrow> ('k, 'd) tbx_sl_t option" where
  "tbx_sl_fini s = do { s \<leftarrow> tbx_sl_empty s; destroy_skiplist_node s (head s) }"

text \<open>\<^verbatim>\<open>tbx_sl_init\<close> returns 0 for success.  The result of \<^verbatim>\<open>tbx_sl_new\<close> may be NULL.\<close>

definition tbx_sl_init :: "(int \<times> (int, 'd) tbx_sl_t) option" where
  "tbx_sl_init = map_option (\<lambda>s. (0, s)) (tbx_sl_init_full 20 False (skiplist_compare_fn_int 1))"

definition tbx_sl_new :: "(int, 'd) tbx_sl_t option option" where
  "tbx_sl_new = do { (r, s) \<leftarrow> tbx_sl_init; if r = 0 then do { s \<leftarrow> tbx_sl_fini s; Some None } else Some (Some s) }"

function random_loop :: "(nat \<Rightarrow> bool) \<Rightarrow> nat \<Rightarrow> nat \<Rightarrow> nat" where
  "random_loop draws m level = (if draws level \<and> level < m then random_loop draws m (level + 1) else level)"
  by pat_completeness auto
termination by (relation "measure (\<lambda>(draws, m, level). m - level)") auto

definition get_random_level :: "(nat \<Rightarrow> bool) \<Rightarrow> nat \<Rightarrow> nat \<Rightarrow> nat" where
  "get_random_level draws max_level cur =
     (let level = random_loop draws (max_level - 1) 0 in if level > cur then cur + 1 else level)"

text \<open>The loops of \<^verbatim>\<open>find_key_compare\<close>: along one level, and down the levels.  A NULL key compares as \<open>fixed\<close>.\<close>

definition compare_node :: "('k, 'd) tbx_sl_t \<Rightarrow> ('k \<Rightarrow> 'k \<Rightarrow> int) \<Rightarrow> 'k option \<Rightarrow> int \<Rightarrow> nat \<Rightarrow> int option" where
  "compare_node s cmpf key fixed b =
     (case key of None \<Rightarrow> Some fixed | Some k \<Rightarrow> do { n \<leftarrow> nodes s b; kb \<leftarrow> sn_key n; Some (cmpf kb k) })"

partial_function (option) find_level ::
  "('k, 'd) tbx_sl_t \<Rightarrow> ('k \<Rightarrow> 'k \<Rightarrow> int) \<Rightarrow> 'k option \<Rightarrow> int \<Rightarrow> nat \<Rightarrow> nat \<Rightarrow> int \<Rightarrow> (nat \<times> int) option" where
  "find_level s cmpf key fixed i sn cmp = do {
     nx \<leftarrow> (if cmp < 0 then sl_next s sn i else Some None);
     case nx of
       None \<Rightarrow> Some (sn, cmp)
     | Some b \<Rightarrow> do {
         cmp \<leftarrow> compare_node s cmpf key fixed b;
         find_level s cmpf key fixed i (if cmp < 0 then b else sn) cmp
       }
   }"

primrec find_levels ::
  "('k, 'd) tbx_sl_t \<Rightarrow> ('k \<Rightarrow> 'k \<Rightarrow> int) \<Rightarrow> 'k option \<Rightarrow> int \<Rightarrow> nat \<Rightarrow> nat option list \<Rightarrow> nat \<Rightarrow> int \<Rightarrow> (nat option list \<times> int) option" where
  "find_levels s cmpf key fixed 0 ptr sn cmp = Some (ptr, cmp)"
| "find_levels s cmpf key fixed (Suc i) ptr sn cmp = do {
     (sn, cmp) \<leftarrow> find_level s cmpf key fixed i sn (-1);
     ptr \<leftarrow> set_ptr ptr i (Some sn);
     find_levels s cmpf key fixed i ptr sn cmp
   }"

definition find_key_compare ::
  "('k, 'd) tbx_sl_t \<Rightarrow> nat option list \<Rightarrow> 'k option \<Rightarrow> ('k \<Rightarrow> 'k \<Rightarrow> int) \<Rightarrow> int \<Rightarrow> (nat option list \<times> int) option" where
  "find_key_compare s ptr key cmpf fixed = find_levels s cmpf key fixed (Suc (current_max s)) ptr (head s) (-1)"

definition find_key :: "('k, 'd) tbx_sl_t \<Rightarrow> nat option list \<Rightarrow> 'k option \<Rightarrow> int \<Rightarrow> (nat option list \<times> int) option" where
  "find_key s ptr key fixed = find_key_compare s ptr key (compare s) fixed"

definition ptr_next :: "('k, 'd) tbx_sl_t \<Rightarrow> nat option list \<Rightarrow> nat option option" where
  "ptr_next s ptr = do { p \<leftarrow> get_ptr ptr 0; sl_next s p 0 }"

definition tbx_sl_first_key :: "('k, 'd) tbx_sl_t \<Rightarrow> 'k option option" where
  "tbx_sl_first_key s =
     (if n_keys s \<le> 0 then Some None
      else do { (ptr, cmp) \<leftarrow> find_key s no_ptr None 1; nx \<leftarrow> ptr_next s ptr; b \<leftarrow> nx; n \<leftarrow> nodes s b; Some (sn_key n) })"

definition tbx_sl_key_last :: "('k, 'd) tbx_sl_t \<Rightarrow> 'k option option" where
  "tbx_sl_key_last s =
     (if n_keys s \<le> 0 then Some None
      else do { (ptr, cmp) \<leftarrow> find_key s no_ptr None (-1); p \<leftarrow> get_ptr ptr 0; n \<leftarrow> nodes s p; Some (sn_key n) })"

primrec link_levels :: "('k, 'd) tbx_sl_t \<Rightarrow> nat option list \<Rightarrow> nat \<Rightarrow> nat list \<Rightarrow> ('k, 'd) tbx_sl_t option" where
  "link_levels s ptr a [] = Some s"
| "link_levels s ptr a (i # is) = do {
     p \<leftarrow> get_ptr ptr i;
     nx \<leftarrow> sl_next s p i;
     s \<leftarrow> set_next s a i nx;
     s \<leftarrow> set_next s p i (Some a);
     link_levels s ptr a is
   }"

primrec set_ptrs :: "nat option list \<Rightarrow> nat option \<Rightarrow> nat list \<Rightarrow> nat option list option" where
  "set_ptrs ptr v [] = Some ptr"
| "set_ptrs ptr v (i # is) = do { ptr \<leftarrow> set_ptr ptr i v; set_ptrs ptr v is }"

text \<open>The result has the new node, the list and the array of predecessors, which the caller keeps.\<close>

definition pos_tbx_sl_insert ::
  "('k, 'd) tbx_sl_t \<Rightarrow> nat option list \<Rightarrow> (nat \<Rightarrow> bool) \<Rightarrow> 'k option \<Rightarrow> 'd option \<Rightarrow> (nat \<times> ('k, 'd) tbx_sl_t \<times> nat option list) option" where
  "pos_tbx_sl_insert s ptr draws key data =
     (let level = get_random_level draws (max_levels s) (current_max s);
          (a, s) = create_skiplist_node s level in do {
        (s, ptr) \<leftarrow> (if level > current_max s
                     then do { ptr \<leftarrow> set_ptrs ptr (Some (head s)) [current_max s + 1..<level + 1]; Some (s\<lparr>current_max := level\<rparr>, ptr) }
                     else Some (s, ptr));
        s \<leftarrow> link_levels s ptr a [0..<level + 1];
        n \<leftarrow> nodes s a;
        Some (a, set_node s a (n\<lparr>sn_key := key, sn_ele := data # tl (sn_ele n)\<rparr>), ptr)
      })"

definition tbx_sl_insert :: "('k, 'd) tbx_sl_t \<Rightarrow> (nat \<Rightarrow> bool) \<Rightarrow> 'k option \<Rightarrow> 'd option \<Rightarrow> (int \<times> ('k, 'd) tbx_sl_t) option" where
  "tbx_sl_insert s draws key data = do {
     (ptr, cmp) \<leftarrow> find_key s no_ptr key 0;
     if cmp = 0 then do {
       nx \<leftarrow> ptr_next s ptr;
       b \<leftarrow> nx;
       n \<leftarrow> nodes s b;
       if \<not> allow_dups s then Some (0, set_node (data_free s [hd (sn_ele n)]) b (n\<lparr>sn_ele := data # tl (sn_ele n)\<rparr>))
       else Some (0, (set_node s b (n\<lparr>sn_ele := hd (sn_ele n) # data # tl (sn_ele n)\<rparr>))\<lparr>n_ele := n_ele s + 1\<rparr>)
     } else do {
       (a, s, ptr) \<leftarrow> pos_tbx_sl_insert (s\<lparr>n_keys := n_keys s + 1, n_ele := n_ele s + 1\<rparr>) ptr draws key data;
       Some (0, s)
     }
   }"

text \<open>Taking a node out of all of its levels, and lowering the top level of the list.\<close>

primrec unlink_levels :: "('k, 'd) tbx_sl_t \<Rightarrow> nat option list \<Rightarrow> nat \<Rightarrow> nat list \<Rightarrow> ('k, 'd) tbx_sl_t option" where
  "unlink_levels s ptr a [] = Some s"
| "unlink_levels s ptr a (i # is) = do {
     p \<leftarrow> get_ptr ptr i;
     nx \<leftarrow> sl_next s a i;
     s \<leftarrow> set_next s p i nx;
     unlink_levels s ptr a is
   }"

primrec lower_max :: "('k, 'd) tbx_sl_t \<Rightarrow> nat \<Rightarrow> nat option" where
  "lower_max s 0 = Some 0"
| "lower_max s (Suc i) = do { nx \<leftarrow> sl_next s (head s) (Suc i); if nx = None then lower_max s i else Some (Suc i) }"

definition remove_node :: "('k, 'd) tbx_sl_t \<Rightarrow> nat option list \<Rightarrow> nat \<Rightarrow> ('k, 'd) tbx_sl_t option" where
  "remove_node s ptr a = do {
     n \<leftarrow> nodes s a;
     s \<leftarrow> unlink_levels s ptr a [0..<sn_level n + 1];
     m \<leftarrow> (if sn_level n = current_max s then lower_max s (current_max s) else Some (current_max s));
     destroy_skiplist_node (s\<lparr>current_max := m, n_keys := n_keys s - 1\<rparr>) a
   }"

definition tbx_sl_remove :: "('k, 'd) tbx_sl_t \<Rightarrow> 'k option \<Rightarrow> 'd option \<Rightarrow> (int \<times> ('k, 'd) tbx_sl_t) option" where
  "tbx_sl_remove s key data = do {
     (ptr, cmp) \<leftarrow> find_key s no_ptr key 0;
     if cmp \<noteq> 0 then Some (1, s)
     else do {
       nx \<leftarrow> ptr_next s ptr;
       b \<leftarrow> nx;
       n \<leftarrow> nodes s b;
       (case data of
          None \<Rightarrow> do {
            s \<leftarrow> remove_node (set_node (data_free s (freed_eles (sn_ele n))) b (n\<lparr>sn_ele := [None]\<rparr>)
                   \<lparr>n_ele := n_ele s - int (length (sn_ele n))\<rparr>) ptr b;
            Some (0, s)
          }
        | Some d \<Rightarrow>
            if hd (sn_ele n) = Some d then
              (let s1 = (data_free s [Some d])\<lparr>n_ele := n_ele s - 1\<rparr> in
               if tl (sn_ele n) \<noteq> [] then Some (0, set_node s1 b (n\<lparr>sn_ele := tl (sn_ele n)\<rparr>))
               else do { s \<leftarrow> remove_node (set_node s1 b (n\<lparr>sn_ele := [None]\<rparr>)) ptr b; Some (0, s) })
            else if Some d \<in> set (tl (sn_ele n)) then
              Some (0, set_node ((data_free s [Some d])\<lparr>n_ele := n_ele s - 1\<rparr>) b (n\<lparr>sn_ele := hd (sn_ele n) # remove1 (Some d) (tl (sn_ele n))\<rparr>))
            else Some (1, s))
     }
   }"

section \<open>Iterators\<close>

text \<open>A pointer to an element is its node and its place in the chain.\<close>

record tbx_sl_iter_t =
  it_ele :: "(nat \<times> nat) option"
  it_curr :: "(nat \<times> nat) option"
  it_prev :: "(nat \<times> nat) option"
  it_sn :: "nat option"
  it_ptr :: "nat option list"

definition tbx_sl_iter_search_compare ::
  "('k, 'd) tbx_sl_t \<Rightarrow> 'k option \<Rightarrow> ('k \<Rightarrow> 'k \<Rightarrow> int) \<Rightarrow> int \<Rightarrow> tbx_sl_iter_t option" where
  "tbx_sl_iter_search_compare s key cmpf round_mode = do {
     (ptr, cmp) \<leftarrow> find_key_compare s no_ptr key cmpf 0;
     p \<leftarrow> get_ptr ptr 0;
     nx \<leftarrow> sl_next s p 0;
     let sn = (if round_mode < -1 \<or> round_mode < 0 \<and> cmp \<noteq> 0 then Some p else nx);
     Some \<lparr>it_ele = map_option (\<lambda>a. (a, 0)) sn, it_curr = None, it_prev = None, it_sn = sn, it_ptr = ptr\<rparr>
   }"

definition tbx_sl_search_compare :: "('k, 'd) tbx_sl_t \<Rightarrow> 'k \<Rightarrow> ('k \<Rightarrow> 'k \<Rightarrow> int) \<Rightarrow> 'd option option" where
  "tbx_sl_search_compare s key cmpf = do {
     it \<leftarrow> tbx_sl_iter_search_compare s (Some key) cmpf 0;
     case it_sn it of
       None \<Rightarrow> Some None
     | Some a \<Rightarrow> do { n \<leftarrow> nodes s a; k \<leftarrow> sn_key n; Some (if cmpf k key = 0 then hd (sn_ele n) else None) }
   }"

text \<open>The element behind a pointer, and the pointer to the one after it.\<close>

definition ele_at :: "('k, 'd) tbx_sl_t \<Rightarrow> nat \<times> nat \<Rightarrow> ('d option \<times> (nat \<times> nat) option) option" where
  "ele_at s e = do {
     n \<leftarrow> nodes s (fst e);
     if snd e < length (sn_ele n)
     then Some (sn_ele n ! snd e, if snd e + 1 < length (sn_ele n) then Some (fst e, snd e + 1) else None) else None
   }"

primrec ptrs_from :: "('k, 'd) tbx_sl_t \<Rightarrow> nat \<Rightarrow> nat option list \<Rightarrow> nat list \<Rightarrow> nat option list option" where
  "ptrs_from s a ptr [] = Some ptr"
| "ptrs_from s a ptr (i # is) = do { nx \<leftarrow> sl_next s a i; ptr \<leftarrow> set_ptr ptr i nx; ptrs_from s a ptr is }"

definition next_get :: "('k, 'd) tbx_sl_t \<Rightarrow> tbx_sl_iter_t \<Rightarrow> (int \<times> 'k option \<times> 'd option \<times> tbx_sl_iter_t) option" where
  "next_get s it = do {
     a \<leftarrow> it_sn it;
     e \<leftarrow> it_ele it;
     n \<leftarrow> nodes s a;
     (d, nx) \<leftarrow> ele_at s e;
     Some (0, sn_key n, d, it\<lparr>it_prev := it_curr it, it_curr := Some e, it_ele := nx\<rparr>)
   }"

definition tbx_sl_next :: "('k, 'd) tbx_sl_t \<Rightarrow> tbx_sl_iter_t \<Rightarrow> (int \<times> 'k option \<times> 'd option \<times> tbx_sl_iter_t) option" where
  "tbx_sl_next s it =
     (case it_ele it of
        Some e \<Rightarrow> next_get s it
      | None \<Rightarrow>
          (case it_sn it of
             None \<Rightarrow> Some (1, None, None, it\<lparr>it_curr := None\<rparr>)
           | Some a \<Rightarrow> do {
               n \<leftarrow> nodes s a;
               nx \<leftarrow> sl_next s a 0;
               (case nx of
                  None \<Rightarrow> Some (1, None, None, it\<lparr>it_sn := None, it_curr := None\<rparr>)
                | Some b \<Rightarrow> do {
                    ptr \<leftarrow> ptrs_from s a (it_ptr it) [0..<sn_level n + 1];
                    next_get s (it\<lparr>it_sn := Some b, it_ele := Some (b, 0), it_ptr := ptr\<rparr>)
                  })
             }))"

text \<open>
  Removing the current element.  The pointer to the next element moves with the chain.  \<^verbatim>\<open>&(it->sn->ele)\<close> at the end of the
  list, where \<^verbatim>\<open>it->sn\<close> is NULL, is undefined.
\<close>

definition iter_tbx_sl_remove :: "('k, 'd) tbx_sl_t \<Rightarrow> tbx_sl_iter_t \<Rightarrow> (int \<times> ('k, 'd) tbx_sl_t \<times> tbx_sl_iter_t) option" where
  "iter_tbx_sl_remove s it =
     (case it_curr it of
        None \<Rightarrow> Some (1, s, it)
      | Some c \<Rightarrow> do {
          a \<leftarrow> it_sn it;
          n \<leftarrow> nodes s a;
          let es = sn_ele n;
          if c = (a, 0) then
            (if tl es \<noteq> [] then
               Some (0, (set_node (data_free s [hd (tl es)]) a (n\<lparr>sn_ele := tl es\<rparr>))\<lparr>n_ele := n_ele s - 1\<rparr>,
                     it\<lparr>it_ele := Some (a, 0), it_curr := None\<rparr>)
             else do {
               s \<leftarrow> remove_node (set_node s a (n\<lparr>sn_ele := [None]\<rparr>)) (it_ptr it) a;
               nx \<leftarrow> ptr_next s (it_ptr it);
               b \<leftarrow> nx;
               Some (0, s, it\<lparr>it_sn := Some b, it_ele := Some (b, 0), it_prev := None, it_curr := None\<rparr>)
             })
          else do {
            p \<leftarrow> it_prev it;
            if c = (a, snd p + 1) \<and> fst p = a \<and> snd c < length es
            then Some (0, (set_node (data_free s (if es ! snd c \<noteq> None then [es ! snd c] else [])) a
                             (n\<lparr>sn_ele := take (snd c) es @ drop (snd c + 1) es\<rparr>))\<lparr>n_ele := n_ele s - 1\<rparr>,
                       it\<lparr>it_ele := (if snd c + 1 < length es then Some c else None), it_curr := None\<rparr>)
            else None
          }
        })"

declare destroy_chain.simps [code] find_level.simps [code]

section \<open>Comparison of keys\<close>

locale key_compare =
  fixes f :: "'k \<Rightarrow> 'k \<Rightarrow> int"
  assumes anti: "f a b < 0 \<longleftrightarrow> 0 < f b a"
    and le_trans: "f a b \<le> 0 \<Longrightarrow> f b c \<le> 0 \<Longrightarrow> f a c \<le> 0"
begin

lemma refl0: "f a a = 0"
  using anti [of a a] by linarith

lemma sym0: "f a b = 0 \<longleftrightarrow> f b a = 0"
  using anti [of a b] anti [of b a] by linarith

lemma lt_le_trans: "f a b < 0 \<Longrightarrow> f b c \<le> 0 \<Longrightarrow> f a c < 0"
  using le_trans [of b c a] anti [of a b] anti [of a c] anti [of c a] by (metis linorder_not_less order_le_less)

lemma le_lt_trans: "f a b \<le> 0 \<Longrightarrow> f b c < 0 \<Longrightarrow> f a c < 0"
  using le_trans [of c a b] anti [of b c] anti [of a c] anti [of c a] by (metis linorder_not_less order_le_less)

lemma lt_trans: "f a b < 0 \<Longrightarrow> f b c < 0 \<Longrightarrow> f a c < 0"
  using lt_le_trans [of a b c] by simp

end

interpretation cmp_ptr: key_compare skiplist_compare_fn_ptr
  by unfold_locales (auto simp: skiplist_compare_fn_ptr_def split: if_splits)

interpretation cmp_int: key_compare "skiplist_compare_fn_int 1"
  by unfold_locales (auto simp: skiplist_compare_fn_int_def split: if_splits)

lemma strncmp_anti: "strncmp n a b < 0 \<longleftrightarrow> 0 < strncmp n b a"
  by (induction n a b rule: strncmp.induct) auto

lemma strncmp_le_trans: "strncmp n a b \<le> 0 \<Longrightarrow> strncmp n b c \<le> 0 \<Longrightarrow> strncmp n a c \<le> 0"
proof (induction n a b arbitrary: c rule: strncmp.induct)
  case (3 n y ys)
  then show ?case by (cases c) auto
next
  case (5 n x xs y ys)
  then show ?case by (cases c) (auto split: if_splits)
next
  case (2 n)
  then show ?case by simp
qed auto

lemma strncmp_longer: "length a < n \<Longrightarrow> length b < n \<Longrightarrow> n \<le> m \<Longrightarrow> strncmp m a b = strncmp n a b"
proof (induction n a b arbitrary: m rule: strncmp.induct)
  case (2 n) then show ?case by (cases m) auto
next
  case (3 n y ys) then show ?case by (cases m) auto
next
  case (4 n x xs) then show ?case by (cases m) auto
next
  case (5 n x xs y ys)
  then obtain m' where "m = Suc m'" by (cases m) auto
  then show ?case using 5(1) [of m'] 5(2-4) by auto
qed auto

lemma strcmp_strncmp: "length a < n \<Longrightarrow> length b < n \<Longrightarrow> skiplist_compare_fn_strcmp s a b = s * strncmp n a b"
  using strncmp_longer [of a "Suc (max (length a) (length b))" b n] by (simp add: skiplist_compare_fn_strcmp_def)

interpretation cmp_str: key_compare "skiplist_compare_fn_strcmp 1"
proof
  fix a b c :: string
  let ?n = "Suc (max (length a) (max (length b) (length c)))"
  note n = strcmp_strncmp [of _ ?n _ 1]
  show "skiplist_compare_fn_strcmp 1 a b < 0 \<longleftrightarrow> 0 < skiplist_compare_fn_strcmp 1 b a"
    using strncmp_anti [of ?n a b] n [of a b] n [of b a] by simp
  show "skiplist_compare_fn_strcmp 1 a b \<le> 0 \<Longrightarrow> skiplist_compare_fn_strcmp 1 b c \<le> 0 \<Longrightarrow> skiplist_compare_fn_strcmp 1 a c \<le> 0"
    using strncmp_le_trans [of ?n a b c] n [of a b] n [of b c] n [of a c] by simp
qed

text \<open>A comparison that is turned around (\<^verbatim>\<open>tbx_sl_compare_strcmp_descending\<close>).\<close>

lemma key_compare_uminus: "key_compare f \<Longrightarrow> key_compare (\<lambda>a b. - f a b)"
proof -
  assume f: "key_compare f"
  have flip: "- f a b \<le> 0 \<longleftrightarrow> f b a \<le> 0" for a b using key_compare.anti [OF f, of a b] by linarith
  have "- f a b < 0 \<longleftrightarrow> 0 < - f b a" for a b using key_compare.anti [OF f, of b a] by linarith
  moreover have "- f a b \<le> 0 \<Longrightarrow> - f b c \<le> 0 \<Longrightarrow> - f a c \<le> 0" for a b c using key_compare.le_trans [OF f, of c b a] unfolding flip by blast
  ultimately show ?thesis by (rule key_compare.intro)
qed

lemma key_compare_descending: "key_compare (skiplist_compare_fn_strcmp (-1))"
proof -
  have "skiplist_compare_fn_strcmp (-1) = (\<lambda>a b. - skiplist_compare_fn_strcmp 1 a b)"
    by (simp add: skiplist_compare_fn_strcmp_def fun_eq_iff)
  then show ?thesis using key_compare_uminus [OF cmp_str.key_compare_axioms] by simp
qed

section \<open>Links\<close>

text \<open>Each node points, on each of its levels, to the next node that has the level.\<close>

fun links :: "(nat \<Rightarrow> nat) \<Rightarrow> (nat \<Rightarrow> nat \<Rightarrow> nat option) \<Rightarrow> nat list \<Rightarrow> bool" where
  "links lv nx [] = True"
| "links lv nx (a # as) \<longleftrightarrow> (\<forall>i \<le> lv a. nx a i = find (\<lambda>b. i \<le> lv b) as) \<and> links lv nx as"

lemma links_split: "links lv nx as \<longleftrightarrow> (\<forall>p a q. as = p @ a # q \<longrightarrow> (\<forall>i \<le> lv a. nx a i = find (\<lambda>b. i \<le> lv b) q))"
proof (induction as)
  case (Cons x as)
  show ?case
  proof
    assume "links lv nx (x # as)"
    then show "\<forall>p a q. x # as = p @ a # q \<longrightarrow> (\<forall>i \<le> lv a. nx a i = find (\<lambda>b. i \<le> lv b) q)"
      using Cons.IH by (auto simp: Cons_eq_append_conv)
  next
    assume "\<forall>p a q. x # as = p @ a # q \<longrightarrow> (\<forall>i \<le> lv a. nx a i = find (\<lambda>b. i \<le> lv b) q)"
    then have h: "\<And>p a q i. x # as = p @ a # q \<Longrightarrow> i \<le> lv a \<Longrightarrow> nx a i = find (\<lambda>b. i \<le> lv b) q" by blast
    have "links lv nx as" unfolding Cons.IH using h [of "x # p" for p] by auto
    then show "links lv nx (x # as)" using h [of "[]"] by simp
  qed
qed simp

lemma linksD: "links lv nx (p @ a # q) \<Longrightarrow> i \<le> lv a \<Longrightarrow> nx a i = find (\<lambda>b. i \<le> lv b) q"
  unfolding links_split by blast

lemma find_append: "find P (xs @ ys) = (case find P xs of None \<Rightarrow> find P ys | Some x \<Rightarrow> Some x)"
  by (induction xs) auto

lemma find_None: "\<forall>x \<in> set xs. \<not> P x \<Longrightarrow> find P xs = None"
  by (simp add: find_None_iff)

lemma find_cong_set: "(\<And>x. x \<in> set xs \<Longrightarrow> P x = Q x) \<Longrightarrow> find P xs = find Q xs"
  by (induction xs) auto

text \<open>The last node of a list that has a level.\<close>

definition is_pred :: "(nat \<Rightarrow> nat) \<Rightarrow> nat \<Rightarrow> nat list \<Rightarrow> nat \<Rightarrow> bool" where
  "is_pred lv i as a \<longleftrightarrow> (\<exists>u v. as = u @ a # v \<and> i \<le> lv a \<and> (\<forall>b \<in> set v. lv b < i))"

lemma is_predI: "i \<le> lv a \<Longrightarrow> \<forall>b \<in> set v. lv b < i \<Longrightarrow> is_pred lv i (u @ a # v) a"
  by (auto simp: is_pred_def)

lemma is_pred_mem: "is_pred lv i as a \<Longrightarrow> a \<in> set as \<and> i \<le> lv a"
  by (auto simp: is_pred_def)

lemma is_pred_iff:
  assumes "distinct (p @ a # q)" "i \<le> lv a" "is_pred lv i (p @ a # q) x"
  shows "x = a \<longleftrightarrow> (\<forall>b \<in> set q. lv b < i)"
proof -
  obtain u v where uv: "p @ a # q = u @ x # v" "i \<le> lv x" "\<forall>b \<in> set v. lv b < i" using assms(3) by (auto simp: is_pred_def)
  show ?thesis
  proof
    assume "x = a"
    moreover have "a \<notin> set p" "a \<notin> set q" using assms(1) by auto
    ultimately have "q = v" using uv(1) append_Cons_eq_iff [of a p q u v] by simp
    then show "\<forall>b \<in> set q. lv b < i" using uv(3) by simp
  next
    assume q: "\<forall>b \<in> set q. lv b < i"
    then have "x \<notin> set q" using uv(2) by auto
    moreover have "a \<notin> set v" using uv(3) assms(2) by auto
    ultimately show "x = a" using uv(1) by (auto simp: append_eq_append_conv2 Cons_eq_append_conv append_eq_Cons_conv)
  qed
qed

lemma is_pred_unique: "distinct as \<Longrightarrow> is_pred lv i as a \<Longrightarrow> is_pred lv i as b \<Longrightarrow> a = b"
proof -
  assume d: "distinct as" and a: "is_pred lv i as a" and b: "is_pred lv i as b"
  obtain u v where "as = u @ a # v" "i \<le> lv a" "\<forall>b \<in> set v. lv b < i" using a by (auto simp: is_pred_def)
  then show ?thesis using is_pred_iff [of u a v i lv b] d b by simp
qed

lemma links_insert:
  assumes "links lv nx (as @ bs)" "distinct (as @ bs)" "n \<notin> set (as @ bs)" "\<forall>i \<le> l. is_pred lv i as (pr i)"
    and nx': "\<And>x i. x \<in> set (n # as @ bs) \<Longrightarrow> i \<le> (lv(n := l)) x \<Longrightarrow>
      nx' x i = (if x = n then nx (pr i) i else if i \<le> l \<and> pr i = x then Some n else nx x i)"
  shows "links (lv(n := l)) nx' (as @ n # bs)"
  unfolding links_split
proof (intro allI impI)
  fix p a q i assume split: "as @ n # bs = p @ a # q" and i: "i \<le> (lv(n := l)) a"
  have lv: "find (\<lambda>b. i \<le> (lv(n := l)) b) xs = find (\<lambda>b. i \<le> lv b) xs" if "n \<notin> set xs" for xs
    using that by (intro find_cong_set) auto
  have mem: "a \<in> set (n # as @ bs)" using split by (metis Un_iff append_Cons in_set_conv_decomp set_append set_ConsD list.set_intros(1) list.set_intros(2))
  consider q' where "as = p @ a # q'" "q = q' @ n # bs" | "p = as" "a = n" "q = bs" | u where "p = as @ n # u" "bs = u @ a # q"
    using split by (auto simp: append_eq_append_conv2 Cons_eq_append_conv append_eq_Cons_conv)
  then show "nx' a i = find (\<lambda>b. i \<le> (lv(n := l)) b) q"
  proof cases
    case 1
    then have an: "a \<noteq> n" "n \<notin> set q'" "n \<notin> set bs" using assms(3) by auto
    have old: "nx a i = find (\<lambda>b. i \<le> lv b) (q' @ bs)" using linksD [of lv nx p a "q' @ bs" i] assms(1) 1 an i by simp
    have pred: "i \<le> l \<Longrightarrow> pr i = a \<longleftrightarrow> (\<forall>b \<in> set q'. lv b < i)"
      using is_pred_iff [of p a q' i lv "pr i"] assms(2,4) 1 an i by auto
    have nb: "find (\<lambda>b. i \<le> (lv(n := l)) b) (n # bs) = (if i \<le> l then Some n else find (\<lambda>b. i \<le> lv b) bs)"
      unfolding find.simps lv [OF an(3)] by simp
    have "find (\<lambda>b. i \<le> (lv(n := l)) b) q = (case find (\<lambda>b. i \<le> lv b) q' of None \<Rightarrow> if i \<le> l then Some n else find (\<lambda>b. i \<le> lv b) bs | Some x \<Rightarrow> Some x)"
      unfolding 1 find_append lv [OF an(2)] nb ..
    moreover have "nx' a i = (if i \<le> l \<and> pr i = a then Some n else nx a i)" using nx' [OF mem i] an by simp
    moreover have "find (\<lambda>b. i \<le> lv b) q' = None \<longleftrightarrow> (\<forall>b \<in> set q'. lv b < i)" by (auto simp: find_None_iff not_le)
    ultimately show ?thesis using pred old by (cases "find (\<lambda>b. i \<le> lv b) q'") (auto simp: find_append)
  next
    case 2
    then have il: "i \<le> l" using i by simp
    then obtain u v where uv: "as = u @ pr i # v" "i \<le> lv (pr i)" "\<forall>b \<in> set v. lv b < i" using assms(4) by (auto simp: is_pred_def)
    have "nx (pr i) i = find (\<lambda>b. i \<le> lv b) (v @ bs)" using linksD [of lv nx u "pr i" "v @ bs" i] assms(1) uv by simp
    moreover have "find (\<lambda>b. i \<le> lv b) v = None" using uv(3) by (intro find_None) auto
    ultimately have "nx (pr i) i = find (\<lambda>b. i \<le> lv b) bs" by (simp add: find_append)
    then show ?thesis using nx' [OF mem i] 2 lv [of bs] assms(3) by simp
  next
    case 3
    then have an: "a \<noteq> n" "n \<notin> set q" using assms(3) by auto
    have "i \<le> l \<Longrightarrow> pr i \<in> set as" using assms(4) is_pred_mem by blast
    then have "i \<le> l \<Longrightarrow> pr i \<noteq> a" using assms(2) 3 by auto
    then have "nx' a i = nx a i" using nx' [OF mem i] an by auto
    then show ?thesis using linksD [of lv nx "as @ u" a q i] assms(1) 3 an i lv [of q] by simp
  qed
qed

lemma links_remove:
  assumes "links lv nx (as @ n # bs)" "distinct (as @ n # bs)" "\<forall>i \<le> lv n. is_pred lv i as (pr i)"
    and nx': "\<And>x i. x \<in> set (as @ bs) \<Longrightarrow> i \<le> lv x \<Longrightarrow> nx' x i = (if i \<le> lv n \<and> pr i = x then nx n i else nx x i)"
  shows "links lv nx' (as @ bs)"
  unfolding links_split
proof (intro allI impI)
  fix p a q i assume split: "as @ bs = p @ a # q" and i: "i \<le> lv a"
  have mem: "a \<in> set (as @ bs)" unfolding split by simp
  consider q' where "as = p @ a # q'" "q = q' @ bs" | u where "p = as @ u" "bs = u @ a # q"
    using split by (auto simp: append_eq_append_conv2 Cons_eq_append_conv append_eq_Cons_conv)
  then show "nx' a i = find (\<lambda>b. i \<le> lv b) q"
  proof cases
    case 1
    have old: "nx a i = find (\<lambda>b. i \<le> lv b) (q' @ n # bs)" using linksD [of lv nx p a "q' @ n # bs" i] assms(1) 1 i by simp
    have n: "i \<le> lv n \<Longrightarrow> nx n i = find (\<lambda>b. i \<le> lv b) bs" using linksD [of lv nx as n bs i] assms(1) by simp
    have pred: "i \<le> lv n \<Longrightarrow> pr i = a \<longleftrightarrow> (\<forall>b \<in> set q'. lv b < i)"
      using is_pred_iff [of p a q' i lv "pr i"] assms(2,3) 1 i by auto
    have "find (\<lambda>b. i \<le> lv b) q' = None \<longleftrightarrow> (\<forall>b \<in> set q'. lv b < i)" by (auto simp: find_None_iff not_le)
    then show ?thesis unfolding nx' [OF mem i] 1(2) using pred old n by (cases "find (\<lambda>b. i \<le> lv b) q'") (auto simp: find_append)
  next
    case 2
    have "i \<le> lv n \<Longrightarrow> pr i \<in> set as" using assms(3) is_pred_mem by blast
    then have "i \<le> lv n \<Longrightarrow> pr i \<noteq> a" using assms(2) 2 by auto
    then have "nx' a i = nx a i" using nx' [OF mem i] by auto
    then show ?thesis using linksD [of lv nx "as @ n # u" a q i] assms(1) 2 i by simp
  qed
qed

section \<open>Searching\<close>

definition lvl :: "('k, 'd) tbx_sl_t \<Rightarrow> nat \<Rightarrow> nat" where
  "lvl s a = (case nodes s a of None \<Rightarrow> 0 | Some n \<Rightarrow> sn_level n)"

definition nx :: "('k, 'd) tbx_sl_t \<Rightarrow> nat \<Rightarrow> nat \<Rightarrow> nat option" where
  "nx s a i = (case nodes s a of None \<Rightarrow> None | Some n \<Rightarrow> if i < length (sn_next n) then sn_next n ! i else None)"

definition node_ok :: "('k, 'd) tbx_sl_t \<Rightarrow> nat \<Rightarrow> bool" where
  "node_ok s a \<longleftrightarrow> (\<exists>n. nodes s a = Some n \<and> length (sn_next n) = Suc (sn_level n) \<and> sn_ele n \<noteq> [])"

lemma node_okD: "node_ok s a \<Longrightarrow> i \<le> lvl s a \<Longrightarrow> \<exists>n. nodes s a = Some n \<and> i < length (sn_next n)"
  by (auto simp: node_ok_def lvl_def)

lemma sl_next_ok: "node_ok s a \<Longrightarrow> i \<le> lvl s a \<Longrightarrow> sl_next s a i = Some (nx s a i)"
  by (auto simp: node_ok_def sl_next_def lvl_def nx_def)

text \<open>The nodes before the place of the key are \<open>as\<close>, those from there on \<open>bs\<close>; \<open>ck\<close> is how a node compares with the key.\<close>

definition placed_at :: "('k, 'd) tbx_sl_t \<Rightarrow> ('k \<Rightarrow> 'k \<Rightarrow> int) \<Rightarrow> 'k option \<Rightarrow> int \<Rightarrow> (nat \<Rightarrow> int) \<Rightarrow> nat list \<Rightarrow> nat list \<Rightarrow> bool" where
  "placed_at s cmpf key fixed ck as bs \<longleftrightarrow>
     (\<forall>a \<in> set (as @ bs). node_ok s a) \<and> links (lvl s) (nx s) (as @ bs) \<and>
     (\<forall>b \<in> set (tl as @ bs). compare_node s cmpf key fixed b = Some (ck b)) \<and> (\<forall>b \<in> set (tl as). ck b < 0) \<and> (\<forall>b \<in> set bs. 0 \<le> ck b)"

lemma find_level_pred:
  assumes pl: "placed_at s cmpf key fixed ck as bs" and "as = u @ sn # v" "i \<le> lvl s sn" "c0 < 0"
  shows "\<exists>sn' c. find_level s cmpf key fixed i sn c0 = Some (sn', c) \<and> is_pred (lvl s) i as sn' \<and>
    (case find (\<lambda>b. i \<le> lvl s b) bs of None \<Rightarrow> c < 0 | Some b \<Rightarrow> c = ck b)"
  using assms(2-4)
proof (induction "length v" arbitrary: u sn v c0 rule: less_induct)
  case less
  have "node_ok s sn" using pl less.prems(1) by (simp add: placed_at_def)
  moreover have "nx s sn i = find (\<lambda>b. i \<le> lvl s b) (v @ bs)"
    using linksD [of "lvl s" "nx s" u sn "v @ bs" i] pl less.prems(1,2) by (simp add: placed_at_def)
  ultimately have nxt: "sl_next s sn i = Some (find (\<lambda>b. i \<le> lvl s b) (v @ bs))" using sl_next_ok less.prems(2) by metis
  show ?case
  proof (cases "find (\<lambda>b. i \<le> lvl s b) v")
    case (Some b)
    then obtain v1 v2 where v: "v = v1 @ b # v2" "i \<le> lvl s b" by (metis find_Some_iff2 id_take_nth_drop)
    have b: "b \<in> set (tl as)" using less.prems(1) v(1) by (cases u) auto
    then have ck: "compare_node s cmpf key fixed b = Some (ck b)" "ck b < 0" using pl by (auto simp: placed_at_def)
    have "find_level s cmpf key fixed i sn c0 = find_level s cmpf key fixed i b (ck b)"
      using less.prems(3) nxt Some ck by (subst find_level.simps) (simp add: find_append)
    then show ?thesis using less.hyps [of v2 "u @ sn # v1" b "ck b"] less.prems(1) v ck(2) by simp
  next
    case None
    then have pred: "is_pred (lvl s) i as sn" using less.prems(1,2) by (auto intro!: is_predI simp: find_None_iff)
    show ?thesis
    proof (cases "find (\<lambda>b. i \<le> lvl s b) bs")
      case none: None
      then have "find_level s cmpf key fixed i sn c0 = Some (sn, c0)"
        using less.prems(3) nxt None by (subst find_level.simps) (simp add: find_append)
      then show ?thesis using pred none less.prems(3) by simp
    next
      case (Some b)
      then have "b \<in> set bs" by (auto simp: find_Some_iff)
      then have ck: "compare_node s cmpf key fixed b = Some (ck b)" "\<not> ck b < 0" using pl by (auto simp: placed_at_def)
      have "find_level s cmpf key fixed i sn c0 = find_level s cmpf key fixed i sn (ck b)"
        using less.prems(3) nxt Some None ck by (subst find_level.simps) (simp add: find_append)
      also have "\<dots> = Some (sn, ck b)" using ck(2) by (subst find_level.simps) simp
      finally show ?thesis using pred Some by simp
    qed
  qed
qed

lemma find_levels_pred:
  assumes pl: "placed_at s cmpf key fixed ck as bs" and "sn \<in> set as" "i \<le> Suc (lvl s sn)" "i \<le> length ptr" "0 < i"
  shows "\<exists>ptr' c. find_levels s cmpf key fixed i ptr sn c0 = Some (ptr', c) \<and> length ptr' = length ptr \<and>
    (\<forall>j < i. \<exists>a. ptr' ! j = Some a \<and> is_pred (lvl s) j as a) \<and> (\<forall>j \<ge> i. j < length ptr \<longrightarrow> ptr' ! j = ptr ! j) \<and>
    (case bs of [] \<Rightarrow> c < 0 | b # _ \<Rightarrow> c = ck b)"
  using assms(2-5)
proof (induction i arbitrary: sn ptr c0)
  case (Suc i)
  obtain u v where "as = u @ sn # v" using Suc.prems(1) by (auto simp: in_set_conv_decomp)
  then obtain sn' c where sn': "find_level s cmpf key fixed i sn (-1) = Some (sn', c)" "is_pred (lvl s) i as sn'"
    "case find (\<lambda>b. i \<le> lvl s b) bs of None \<Rightarrow> c < 0 | Some b \<Rightarrow> c = ck b"
    using find_level_pred [OF pl, of u sn v i "-1"] Suc.prems(2) by auto
  let ?p = "ptr[i := Some sn']"
  have eq: "find_levels s cmpf key fixed (Suc i) ptr sn c0 = find_levels s cmpf key fixed i ?p sn' c"
    using sn'(1) Suc.prems(3) by (simp add: set_ptr_def)
  show ?case
  proof (cases "i = 0")
    case True
    then have "case bs of [] \<Rightarrow> c < 0 | b # _ \<Rightarrow> c = ck b" using sn'(3) by (cases bs) auto
    moreover have "ptr[0 := Some sn'] ! 0 = Some sn'" using Suc.prems(3) by (cases ptr) auto
    ultimately show ?thesis using eq True Suc.prems(3) sn'(2) by auto
  next
    case False
    have "sn' \<in> set as" "i \<le> Suc (lvl s sn')" using is_pred_mem [OF sn'(2)] by auto
    then obtain ptr' c' where r: "find_levels s cmpf key fixed i ?p sn' c = Some (ptr', c')" "length ptr' = length ?p"
      "\<forall>j < i. \<exists>a. ptr' ! j = Some a \<and> is_pred (lvl s) j as a" "\<forall>j \<ge> i. j < length ?p \<longrightarrow> ptr' ! j = ?p ! j"
      "case bs of [] \<Rightarrow> c' < 0 | b # _ \<Rightarrow> c' = ck b"
      using Suc.IH [of sn' ?p c] Suc.prems(3) False by auto
    have "\<exists>a. ptr' ! j = Some a \<and> is_pred (lvl s) j as a" if "j < Suc i" for j
      using r(3,4) sn'(2) Suc.prems(3) that by (cases "j = i") auto
    moreover have "ptr' ! j = ptr ! j" if "Suc i \<le> j" "j < length ptr" for j using r(4) that by auto
    ultimately show ?thesis using eq r by auto
  qed
qed simp

section \<open>Linking and unlinking\<close>

text \<open>The state apart from the links.\<close>

definition shape :: "('k, 'd) tbx_sl_t \<Rightarrow> ('k, 'd) tbx_sl_t" where
  "shape s = s\<lparr>nodes := (\<lambda>a. map_option (\<lambda>n. n\<lparr>sn_next := replicate (length (sn_next n)) None\<rparr>) (nodes s a))\<rparr>"

lemma nodes_shape: "nodes (shape s) a = map_option (\<lambda>n. n\<lparr>sn_next := replicate (length (sn_next n)) None\<rparr>) (nodes s a)"
  by (simp add: shape_def)

lemma shape_node: "shape s = shape t \<Longrightarrow> nodes t a = Some n \<Longrightarrow> \<exists>m. nodes s a = Some m \<and> sn_level m = sn_level n \<and> sn_key m = sn_key n \<and>
    sn_ele m = sn_ele n \<and> length (sn_next m) = length (sn_next n)"
proof -
  assume sh: "shape s = shape t" and n: "nodes t a = Some n"
  let ?f = "\<lambda>n. n\<lparr>sn_next := replicate (length (sn_next n)) None\<rparr>"
  have "map_option ?f (nodes s a) = map_option ?f (nodes t a)"
    using arg_cong [OF sh, of "\<lambda>s. nodes s a"] unfolding nodes_shape .
  then obtain m where m: "nodes s a = Some m" and e: "m\<lparr>sn_next := replicate (length (sn_next m)) None\<rparr> = n\<lparr>sn_next := replicate (length (sn_next n)) None\<rparr>"
    using n by (cases "nodes s a") auto
  show ?thesis using m arg_cong [OF e, of sn_level] arg_cong [OF e, of sn_key] arg_cong [OF e, of sn_ele] arg_cong [OF e, of "\<lambda>n. length (sn_next n)"] by simp
qed

lemma shape_fields:
  assumes "shape s = shape t"
  shows "max_levels s = max_levels t" "current_max s = current_max t" "allow_dups s = allow_dups t" "n_keys s = n_keys t" "n_ele s = n_ele t"
    "head s = head t" "compare s = compare t" "sl_brk s = sl_brk t" "sl_freed s = sl_freed t"
  using arg_cong [OF assms, of max_levels] arg_cong [OF assms, of current_max] arg_cong [OF assms, of allow_dups] arg_cong [OF assms, of n_keys]
    arg_cong [OF assms, of n_ele] arg_cong [OF assms, of head] arg_cong [OF assms, of compare] arg_cong [OF assms, of sl_brk] arg_cong [OF assms, of sl_freed]
  by (simp_all add: shape_def)

lemma shape_nodes:
  assumes "shape s = shape t"
  shows "lvl s a = lvl t a" "node_ok s a = node_ok t a" "dom (nodes s) = dom (nodes t)" "nodes s a = None \<longleftrightarrow> nodes t a = None"
    "map_option sn_key (nodes s a) = map_option sn_key (nodes t a)" "map_option sn_ele (nodes s a) = map_option sn_ele (nodes t a)"
    "map_option (\<lambda>n. length (sn_next n)) (nodes s a) = map_option (\<lambda>n. length (sn_next n)) (nodes t a)"
proof -
  note st = shape_node [OF assms] shape_node [OF assms [symmetric]]
  show n: "nodes s a = None \<longleftrightarrow> nodes t a = None" for a using st [of a] by (cases "nodes s a"; cases "nodes t a") auto
  show "lvl s a = lvl t a" "node_ok s a = node_ok t a"
    "map_option sn_key (nodes s a) = map_option sn_key (nodes t a)" "map_option sn_ele (nodes s a) = map_option sn_ele (nodes t a)"
    "map_option (\<lambda>n. length (sn_next n)) (nodes s a) = map_option (\<lambda>n. length (sn_next n)) (nodes t a)"
    using st [of a] by (cases "nodes s a"; cases "nodes t a"; force simp: lvl_def node_ok_def)+
  show "dom (nodes s) = dom (nodes t)" using n by (auto simp: dom_def)
qed

lemma set_next_result:
  assumes "nodes s a = Some n" "i < length (sn_next n)"
  shows "\<exists>s'. set_next s a i v = Some s' \<and> shape s' = shape s \<and> (\<forall>x j. nx s' x j = (if x = a \<and> j = i then v else nx s x j))"
  using assms by (auto simp: set_next_def set_node_def shape_def nx_def fun_eq_iff nth_list_update)

lemma link_levels_result:
  assumes "distinct is" "\<forall>i \<in> set is. \<exists>p. get_ptr ptr i = Some p \<and> p \<noteq> a \<and> node_ok s p \<and> i \<le> lvl s p \<and> i \<le> lvl s a" "node_ok s a"
  shows "\<exists>s'. link_levels s ptr a is = Some s' \<and> shape s' = shape s \<and>
    (\<forall>x i. nx s' x i = (if i \<in> set is then if x = a then nx s (the (get_ptr ptr i)) i else if get_ptr ptr i = Some x then Some a else nx s x i else nx s x i))"
  using assms
proof (induction "is" arbitrary: s)
  case (Cons i "is")
  obtain p where p: "get_ptr ptr i = Some p" "p \<noteq> a" "node_ok s p" "i \<le> lvl s p" "i \<le> lvl s a" using Cons.prems(2) by auto
  obtain na where na: "nodes s a = Some na" "i < length (sn_next na)" using node_okD Cons.prems(3) p(5) by blast
  obtain s1 where s1: "set_next s a i (nx s p i) = Some s1" "shape s1 = shape s" "\<forall>x j. nx s1 x j = (if x = a \<and> j = i then nx s p i else nx s x j)"
    using set_next_result [OF na] by blast
  obtain np where np: "nodes s1 p = Some np" "i < length (sn_next np)" using node_okD [of s1 p i] p(3,4) shape_nodes(1,2) [OF s1(2), of p] by auto
  obtain s2 where s2: "set_next s1 p i (Some a) = Some s2" "shape s2 = shape s1" "\<forall>x j. nx s2 x j = (if x = p \<and> j = i then Some a else nx s1 x j)"
    using set_next_result [OF np] by blast
  have sh: "shape s2 = shape s" using s1(2) s2(2) by simp
  have "\<forall>i \<in> set is. \<exists>p. get_ptr ptr i = Some p \<and> p \<noteq> a \<and> node_ok s2 p \<and> i \<le> lvl s2 p \<and> i \<le> lvl s2 a" "node_ok s2 a"
    using Cons.prems(2,3) shape_nodes(1,2) [OF sh] by auto
  then obtain s' where s': "link_levels s2 ptr a is = Some s'" "shape s' = shape s2"
    "\<forall>x i. nx s' x i = (if i \<in> set is then if x = a then nx s2 (the (get_ptr ptr i)) i else if get_ptr ptr i = Some x then Some a else nx s2 x i else nx s2 x i)"
    using Cons.IH [of s2] Cons.prems(1) by auto
  have "link_levels s ptr a (i # is) = Some s'" using p(1) sl_next_ok [OF p(3,4)] s1(1) s2(1) s'(1) by simp
  moreover have "nx s' x j = (if j \<in> set (i # is) then if x = a then nx s (the (get_ptr ptr j)) j else if get_ptr ptr j = Some x then Some a else nx s x j else nx s x j)" for x j
    using s'(3) s2(3) s1(3) Cons.prems(1) p(1,2) by (cases "j = i") auto
  ultimately show ?case using s'(2) sh by auto
qed simp

lemma unlink_levels_result:
  assumes "distinct is" "\<forall>i \<in> set is. \<exists>p. get_ptr ptr i = Some p \<and> p \<noteq> a \<and> node_ok s p \<and> i \<le> lvl s p \<and> i \<le> lvl s a" "node_ok s a"
  shows "\<exists>s'. unlink_levels s ptr a is = Some s' \<and> shape s' = shape s \<and>
    (\<forall>x i. nx s' x i = (if i \<in> set is \<and> get_ptr ptr i = Some x then nx s a i else nx s x i))"
  using assms
proof (induction "is" arbitrary: s)
  case (Cons i "is")
  obtain p where p: "get_ptr ptr i = Some p" "p \<noteq> a" "node_ok s p" "i \<le> lvl s p" "i \<le> lvl s a" using Cons.prems(2) by auto
  obtain np where np: "nodes s p = Some np" "i < length (sn_next np)" using node_okD p(3,4) by blast
  obtain s1 where s1: "set_next s p i (nx s a i) = Some s1" "shape s1 = shape s" "\<forall>x j. nx s1 x j = (if x = p \<and> j = i then nx s a i else nx s x j)"
    using set_next_result [OF np] by blast
  have "\<forall>i \<in> set is. \<exists>p. get_ptr ptr i = Some p \<and> p \<noteq> a \<and> node_ok s1 p \<and> i \<le> lvl s1 p \<and> i \<le> lvl s1 a" "node_ok s1 a"
    using Cons.prems(2,3) shape_nodes(1,2) [OF s1(2)] by auto
  then obtain s' where s': "unlink_levels s1 ptr a is = Some s'" "shape s' = shape s1"
    "\<forall>x i. nx s' x i = (if i \<in> set is \<and> get_ptr ptr i = Some x then nx s1 a i else nx s1 x i)"
    using Cons.IH [of s1] Cons.prems(1) by auto
  have "unlink_levels s ptr a (i # is) = Some s'" using p(1) sl_next_ok [OF Cons.prems(3) p(5)] s1(1) s'(1) by simp
  moreover have "nx s' x j = (if j \<in> set (i # is) \<and> get_ptr ptr j = Some x then nx s a j else nx s x j)" for x j
    using s'(3) s1(3) Cons.prems(1) p(1,2) by (cases "j = i") auto
  ultimately show ?case using s'(2) s1(2) by auto
qed simp

section \<open>The invariant\<close>

definition sl_rep :: "('k, 'd) tbx_sl_t \<Rightarrow> nat list \<Rightarrow> bool" where
  "sl_rep s ns \<longleftrightarrow>
     0 < max_levels s \<and> max_levels s \<le> SKIPLIST_MAX_LEVEL \<and> current_max s < max_levels s \<and>
     distinct (head s # ns) \<and> dom (nodes s) = set (head s # ns) \<and> (\<forall>a \<in> set (head s # ns). a < sl_brk s \<and> node_ok s a) \<and>
     lvl s (head s) = max_levels s - 1 \<and> (\<forall>a \<in> set ns. lvl s a \<le> current_max s) \<and> links (lvl s) (nx s) (head s # ns)"

text \<open>The keys and data of the nodes.\<close>

definition info :: "('k, 'd) tbx_sl_t \<Rightarrow> nat \<Rightarrow> ('k option \<times> 'd option list) option" where
  "info s a = map_option (\<lambda>n. (sn_key n, sn_ele n)) (nodes s a)"

text \<open>The predecessors of a place on all levels in use.\<close>

definition preds :: "('k, 'd) tbx_sl_t \<Rightarrow> nat option list \<Rightarrow> nat list \<Rightarrow> bool" where
  "preds s ptr as \<longleftrightarrow> length ptr = SKIPLIST_MAX_LEVEL \<and> (\<forall>j \<le> current_max s. \<exists>p. get_ptr ptr j = Some p \<and> is_pred (lvl s) j (head s # as) p)"

lemma sl_rep_nodes: "sl_rep s ns \<Longrightarrow> a \<in> set (head s # ns) \<Longrightarrow> node_ok s a"
  by (auto simp: sl_rep_def)

lemma sl_rep_lvl: "sl_rep s ns \<Longrightarrow> a \<in> set (head s # ns) \<Longrightarrow> lvl s a < max_levels s"
  by (auto simp: sl_rep_def)

lemma sl_rep_max: "sl_rep s ns \<Longrightarrow> a \<in> set ns \<Longrightarrow> lvl s a \<le> current_max s"
  by (simp add: sl_rep_def)

lemma sl_rep_next:
  assumes "sl_rep s ns" "head s # ns = p @ a # q"
  shows "sl_next s a 0 = Some (case q of [] \<Rightarrow> None | b # _ \<Rightarrow> Some b)"
proof -
  have "links (lvl s) (nx s) (p @ a # q)" using assms by (simp add: sl_rep_def)
  then have "nx s a 0 = (case q of [] \<Rightarrow> None | b # _ \<Rightarrow> Some b)" by (subst linksD) (auto split: list.split)
  moreover have "node_ok s a" using sl_rep_nodes [OF assms(1), of a] assms(2) by simp
  ultimately show ?thesis using sl_next_ok [of s a 0] by simp
qed

lemma find_key_result:
  assumes rep: "sl_rep s (as @ bs)" and "\<forall>b \<in> set (as @ bs). compare_node s cmpf key fixed b = Some (ck b)"
    "\<forall>b \<in> set as. ck b < 0" "\<forall>b \<in> set bs. 0 \<le> ck b"
  shows "\<exists>ptr c. find_key_compare s no_ptr key cmpf fixed = Some (ptr, c) \<and> preds s ptr as \<and> (case bs of [] \<Rightarrow> c < 0 | b # _ \<Rightarrow> c = ck b)"
proof -
  have "placed_at s cmpf key fixed ck (head s # as) bs" using assms by (auto simp: placed_at_def sl_rep_def)
  moreover have "Suc (current_max s) \<le> Suc (lvl s (head s))" "Suc (current_max s) \<le> length no_ptr" using rep by (auto simp: sl_rep_def no_ptr_def)
  ultimately obtain ptr c where r: "find_levels s cmpf key fixed (Suc (current_max s)) no_ptr (head s) (-1) = Some (ptr, c)" "length ptr = length no_ptr"
      "\<forall>j < Suc (current_max s). \<exists>a. ptr ! j = Some a \<and> is_pred (lvl s) j (head s # as) a" "case bs of [] \<Rightarrow> c < 0 | b # _ \<Rightarrow> c = ck b"
    using find_levels_pred [of s cmpf key fixed ck "head s # as" bs "head s" "Suc (current_max s)" no_ptr "-1"] by auto
  have "preds s ptr as" using r(2,3) rep by (auto simp: preds_def get_ptr_def no_ptr_def sl_rep_def less_Suc_eq_le)
  then show ?thesis using r(1,4) by (auto simp: find_key_compare_def)
qed

lemma preds_next:
  assumes "sl_rep s (as @ bs)" "preds s ptr as"
  shows "ptr_next s ptr = Some (case bs of [] \<Rightarrow> None | b # _ \<Rightarrow> Some b)"
    and "get_ptr ptr 0 = Some (last (head s # as))"
proof -
  obtain p u v where p: "get_ptr ptr 0 = Some p" "head s # as = u @ p # v" "\<forall>b \<in> set v. lvl s b < 0" using assms(2) by (auto simp: preds_def is_pred_def)
  then have v: "v = []" by (cases v) auto
  then show "get_ptr ptr 0 = Some (last (head s # as))" using p by simp
  have "sl_next s p 0 = Some (case bs of [] \<Rightarrow> None | b # _ \<Rightarrow> Some b)"
    by (rule sl_rep_next [OF assms(1), of u]) (use p(2) v in simp)
  then show "ptr_next s ptr = Some (case bs of [] \<Rightarrow> None | b # _ \<Rightarrow> Some b)" using p(1) by (simp add: ptr_next_def)
qed

section \<open>Adding and removing a node\<close>

lemma random_loop_bound: "level \<le> m \<Longrightarrow> random_loop draws m level \<le> m"
  by (induction draws m level rule: random_loop.induct) (subst random_loop.simps, auto)

declare random_loop.simps [simp del]

lemma get_random_level_bound: "0 < max_level \<Longrightarrow> get_random_level draws max_level cur \<le> max_level - 1 \<and> get_random_level draws max_level cur \<le> cur + 1"
  using random_loop_bound [of 0 "max_level - 1" draws] by (auto simp: get_random_level_def Let_def)

lemma pos_insert_result:
  assumes rep: "sl_rep s (as @ bs)" and pr: "preds s ptr as"
  shows "\<exists>s' ptr'. pos_tbx_sl_insert s ptr draws key data = Some (sl_brk s, s', ptr') \<and> sl_rep s' (as @ sl_brk s # bs) \<and>
    info s' = (info s)(sl_brk s \<mapsto> (key, [data])) \<and> (\<forall>a. a \<noteq> sl_brk s \<longrightarrow> lvl s' a = lvl s a) \<and>
    (\<forall>j \<le> lvl s' (sl_brk s). \<exists>p. get_ptr ptr' j = Some p \<and> is_pred (lvl s) j (head s # as) p) \<and>
    max_levels s' = max_levels s \<and> allow_dups s' = allow_dups s \<and> n_keys s' = n_keys s \<and> n_ele s' = n_ele s \<and> head s' = head s \<and>
    compare s' = compare s \<and> sl_freed s' = sl_freed s"
proof -
  define l where "l = get_random_level draws (max_levels s) (current_max s)"
  define a where "a = sl_brk s"
  have l: "l \<le> max_levels s - 1" "l \<le> current_max s + 1" using get_random_level_bound rep by (auto simp: l_def sl_rep_def)
  define s1 where "s1 = set_node s a \<lparr>sn_level = l, sn_key = None, sn_next = replicate (l + 1) None, sn_ele = [None]\<rparr> \<lparr>sl_brk := Suc a\<rparr>"
  define s2 where "s2 = (if l > current_max s then s1\<lparr>current_max := l\<rparr> else s1)"
  define ptr1 where "ptr1 = (if l > current_max s then ptr[l := Some (head s)] else ptr)"
  have new: "a \<notin> set (head s # as @ bs)" using rep by (auto simp: sl_rep_def a_def)
  have nodes2: "nodes s2 = (nodes s)(a \<mapsto> \<lparr>sn_level = l, sn_key = None, sn_next = replicate (l + 1) None, sn_ele = [None]\<rparr>)"
    by (simp add: s2_def s1_def set_node_def)
  have lvl2: "lvl s2 = (lvl s)(a := l)" and ok2: "node_ok s2 a" by (auto simp: lvl_def node_ok_def nodes2)
  have oth2: "nx s2 x i = nx s x i" "node_ok s2 x = node_ok s x" if "x \<noteq> a" for x i using that by (auto simp: nx_def node_ok_def nodes2)
  have preds1: "\<exists>p. get_ptr ptr1 j = Some p \<and> is_pred (lvl s) j (head s # as) p" if "j \<le> l" for j
  proof (cases "l > current_max s \<and> j = l")
    case True
    have "lvl s b < l" if "b \<in> set as" for b using sl_rep_max [OF rep, of b] that True by simp
    then have "is_pred (lvl s) l (head s # as) (head s)" using l rep is_predI [of l "lvl s" "head s" as "[]"] by (simp add: sl_rep_def)
    then show ?thesis using True l pr rep by (auto simp: ptr1_def get_ptr_def preds_def sl_rep_def)
  next
    case False
    then have "j \<le> current_max s" "j \<noteq> l \<or> \<not> l > current_max s" using that l(2) by auto
    moreover from this have "get_ptr ptr1 j = get_ptr ptr j" by (auto simp: ptr1_def get_ptr_def)
    ultimately show ?thesis using pr by (simp add: preds_def)
  qed
  define pre where "pre j = the (get_ptr ptr1 j)" for j
  have pre: "get_ptr ptr1 j = Some (pre j)" "is_pred (lvl s) j (head s # as) (pre j)" if "j \<le> l" for j using preds1 [OF that] by (auto simp: pre_def)
  have links2: "\<forall>i \<in> set [0..<l + 1]. \<exists>p. get_ptr ptr1 i = Some p \<and> p \<noteq> a \<and> node_ok s2 p \<and> i \<le> lvl s2 p \<and> i \<le> lvl s2 a"
  proof
    fix i assume "i \<in> set [0..<l + 1]"
    then have i: "i \<le> l" by auto
    have m: "pre i \<in> set (head s # as)" "i \<le> lvl s (pre i)" using is_pred_mem [OF pre(2) [OF i]] by auto
    then have "pre i \<noteq> a" using new by auto
    moreover have "node_ok s (pre i)" using m(1) sl_rep_nodes [OF rep, of "pre i"] by auto
    ultimately show "\<exists>p. get_ptr ptr1 i = Some p \<and> p \<noteq> a \<and> node_ok s2 p \<and> i \<le> lvl s2 p \<and> i \<le> lvl s2 a"
      using pre(1) [OF i] m i oth2 lvl2 by auto
  qed
  obtain s3 where s3: "link_levels s2 ptr1 a [0..<l + 1] = Some s3" "shape s3 = shape s2"
    "\<forall>x i. nx s3 x i = (if i \<in> set [0..<l + 1] then if x = a then nx s2 (the (get_ptr ptr1 i)) i else if get_ptr ptr1 i = Some x then Some a else nx s2 x i else nx s2 x i)"
    using link_levels_result [OF _ links2 ok2] by auto
  have lvl3: "lvl s3 = (lvl s)(a := l)" using shape_nodes(1) [OF s3(2)] lvl2 by auto
  have "links ((lvl s)(a := l)) (nx s3) ((head s # as) @ a # bs)"
  proof (rule links_insert [where nx = "nx s" and pr = pre])
    show "links (lvl s) (nx s) ((head s # as) @ bs)" "distinct ((head s # as) @ bs)" "a \<notin> set ((head s # as) @ bs)"
      using rep new by (auto simp: sl_rep_def)
    show "\<forall>i \<le> l. is_pred (lvl s) i (head s # as) (pre i)" using pre(2) by blast
    fix x i assume x: "x \<in> set (a # (head s # as) @ bs)" "i \<le> ((lvl s)(a := l)) x"
    have "i \<le> l \<Longrightarrow> pre i \<noteq> a" using pre(2) is_pred_mem new by fastforce
    then show "nx s3 x i = (if x = a then nx s (pre i) i else if i \<le> l \<and> pre i = x then Some a else nx s x i)"
      using s3(3) x oth2 pre(1) [of i] by (auto simp: less_Suc_eq_le)
  qed
  then have links3: "links (lvl s3) (nx s3) (head s # as @ a # bs)" by (simp add: lvl3)
  obtain n where n: "nodes s3 a = Some n" "sn_ele n = [None]" "sn_level n = l" "length (sn_next n) = Suc l"
    using shape_node [OF s3(2), of a] by (auto simp: nodes2)
  define s4 where "s4 = set_node s3 a (n\<lparr>sn_key := key, sn_ele := data # tl (sn_ele n)\<rparr>)"
  have nodes4: "nodes s4 = (nodes s3)(a \<mapsto> n\<lparr>sn_key := key, sn_ele := [data]\<rparr>)" by (simp add: s4_def set_node_def n)
  have same: "lvl s4 = lvl s3" "nx s4 = nx s3" "dom (nodes s4) = dom (nodes s3)" "node_ok s4 x = node_ok s3 x" for x
    using n by (auto simp: nodes4 lvl_def nx_def node_ok_def fun_eq_iff)
  have f4: "max_levels s4 = max_levels s" "current_max s4 = max (current_max s) l" "allow_dups s4 = allow_dups s" "n_keys s4 = n_keys s" "n_ele s4 = n_ele s"
    "head s4 = head s" "compare s4 = compare s" "sl_brk s4 = Suc a" "sl_freed s4 = sl_freed s"
    using shape_fields [OF s3(2)] by (auto simp: s4_def set_node_def s2_def s1_def)
  have dom4: "dom (nodes s4) = insert a (set (head s # as @ bs))" using same(3) shape_nodes(3) [OF s3(2)] rep by (simp add: nodes2 sl_rep_def)
  have ok4: "node_ok s4 x" if "x \<in> set (head s # as @ a # bs)" for x
    using that ok2 oth2(2) [of x] sl_rep_nodes [OF rep, of x] shape_nodes(2) [OF s3(2), of x] same(4) by (cases "x = a") auto
  have lvl4: "lvl s4 = (lvl s)(a := l)" by (simp add: same lvl3)
  have "links (lvl s4) (nx s4) (head s # as @ a # bs)" using links3 same by simp
  then have "sl_rep s4 (as @ a # bs)"
    using rep new dom4 ok4 l unfolding sl_rep_def f4 lvl4 by (auto simp: a_def less_SucI max.coboundedI1)
  moreover have "info s4 = (info s)(a \<mapsto> (key, [data]))"
  proof
    fix x
    show "info s4 x = ((info s)(a \<mapsto> (key, [data]))) x"
    proof (cases "x = a")
      case False
      have "map_option sn_key (nodes s3 x) = map_option sn_key (nodes s x)" "map_option sn_ele (nodes s3 x) = map_option sn_ele (nodes s x)"
        using shape_nodes(5,6) [OF s3(2), of x] False by (auto simp: nodes2)
      then show ?thesis using False by (cases "nodes s x"; cases "nodes s3 x") (auto simp: info_def nodes4)
    qed (simp add: info_def nodes4)
  qed
  moreover have "pos_tbx_sl_insert s ptr draws key data = Some (a, s4, ptr1)"
  proof -
    have "set_ptrs ptr (Some (head s)) [current_max s + 1..<l + 1] = Some ptr1" if "l > current_max s"
    proof -
      have "l = current_max s + 1" using that l(2) by simp
      then show ?thesis using that l pr rep by (auto simp: ptr1_def set_ptr_def preds_def sl_rep_def)
    qed
    moreover have "\<not> l > current_max s \<Longrightarrow> ptr1 = ptr" by (simp add: ptr1_def)
    ultimately show ?thesis using s3(1) n(1)
      by (auto simp: pos_tbx_sl_insert_def create_skiplist_node_def Let_def set_node_def s4_def s2_def s1_def a_def simp flip: l_def split: if_splits)
  qed
  moreover have "\<exists>p. get_ptr ptr1 j = Some p \<and> is_pred (lvl s) j (head s # as) p" if "j \<le> lvl s4 a" for j using preds1 that by (simp add: lvl4)
  moreover have "\<forall>x. x \<noteq> a \<longrightarrow> lvl s4 x = lvl s x" by (simp add: lvl4)
  ultimately show ?thesis using f4 unfolding a_def [symmetric] by blast
qed

lemma lower_max_result:
  assumes "node_ok s (head s)" "m \<le> lvl s (head s)"
  shows "\<exists>k \<le> m. lower_max s m = Some k \<and> (\<forall>i. k < i \<and> i \<le> m \<longrightarrow> nx s (head s) i = None)"
  using assms
proof (induction m)
  case (Suc m)
  have nxt: "sl_next s (head s) (Suc m) = Some (nx s (head s) (Suc m))" using sl_next_ok Suc.prems by blast
  show ?case
  proof (cases "nx s (head s) (Suc m)")
    case None
    obtain k where k: "k \<le> m" "lower_max s m = Some k" "\<forall>i. k < i \<and> i \<le> m \<longrightarrow> nx s (head s) i = None" using Suc.IH Suc.prems by auto
    then have "k \<le> Suc m \<and> lower_max s (Suc m) = Some k \<and> (\<forall>i. k < i \<and> i \<le> Suc m \<longrightarrow> nx s (head s) i = None)"
      using None nxt by (auto simp: le_Suc_eq)
    then show ?thesis by blast
  next
    case (Some b)
    then show ?thesis using nxt by auto
  qed
qed simp

lemma remove_node_result:
  assumes rep: "sl_rep s (as @ b # bs)" and pr: "preds s ptr as" and b: "nodes s b = Some n"
  shows "\<exists>s'. remove_node s ptr b = Some s' \<and> sl_rep s' (as @ bs) \<and> info s' = (info s)(b := None) \<and>
    (\<forall>a. a \<noteq> b \<longrightarrow> lvl s' a = lvl s a) \<and> max_levels s' = max_levels s \<and> allow_dups s' = allow_dups s \<and> n_keys s' = n_keys s - 1 \<and> n_ele s' = n_ele s \<and>
    head s' = head s \<and> compare s' = compare s \<and> sl_brk s' = sl_brk s \<and> sl_freed s' = sl_freed s @ freed_eles (sn_ele n)"
proof -
  have okb: "node_ok s b" "lvl s b = sn_level n" using sl_rep_nodes [OF rep, of b] b by (auto simp: lvl_def)
  have lb: "sn_level n \<le> current_max s" using rep okb(2) by (auto simp: sl_rep_def)
  define pre where "pre j = the (get_ptr ptr j)" for j
  have pre: "get_ptr ptr j = Some (pre j)" "is_pred (lvl s) j (head s # as) (pre j)" if "j \<le> lvl s b" for j
    using pr that lb okb(2) by (auto simp: preds_def pre_def dest!: spec [of _ j])
  have d: "distinct (head s # as @ b # bs)" using rep by (simp add: sl_rep_def)
  have "\<forall>i \<in> set [0..<sn_level n + 1]. \<exists>p. get_ptr ptr i = Some p \<and> p \<noteq> b \<and> node_ok s p \<and> i \<le> lvl s p \<and> i \<le> lvl s b"
  proof
    fix i assume "i \<in> set [0..<sn_level n + 1]"
    then have i: "i \<le> lvl s b" using okb(2) by auto
    have m: "pre i \<in> set (head s # as)" "i \<le> lvl s (pre i)" using is_pred_mem [OF pre(2) [OF i]] by auto
    then show "\<exists>p. get_ptr ptr i = Some p \<and> p \<noteq> b \<and> node_ok s p \<and> i \<le> lvl s p \<and> i \<le> lvl s b"
      using pre(1) [OF i] i d sl_rep_nodes [OF rep, of "pre i"] by auto
  qed
  then obtain s1 where s1: "unlink_levels s ptr b [0..<sn_level n + 1] = Some s1" "shape s1 = shape s"
    "\<forall>x i. nx s1 x i = (if i \<in> set [0..<sn_level n + 1] \<and> get_ptr ptr i = Some x then nx s b i else nx s x i)"
    using unlink_levels_result [OF _ _ okb(1), of "[0..<sn_level n + 1]" ptr] by auto
  note f1 = shape_fields [OF s1(2)] and n1 = shape_nodes [OF s1(2)]
  have lvl1: "lvl s1 = lvl s" using n1(1) by auto
  have links1: "links (lvl s) (nx s1) ((head s # as) @ bs)"
  proof (rule links_remove [where nx = "nx s" and pr = pre and n = b])
    show "links (lvl s) (nx s) ((head s # as) @ b # bs)" "distinct ((head s # as) @ b # bs)" using rep by (auto simp: sl_rep_def)
    show "\<forall>i \<le> lvl s b. is_pred (lvl s) i (head s # as) (pre i)" using pre(2) by blast
    show "nx s1 x i = (if i \<le> lvl s b \<and> pre i = x then nx s b i else nx s x i)" for x i
      using s1(3) pre(1) [of i] okb(2) by (auto simp: less_Suc_eq_le)
  qed
  obtain m where m: "m \<le> current_max s" "(if sn_level n = current_max s1 then lower_max s1 (current_max s1) else Some (current_max s1)) = Some m"
    "\<forall>i. m < i \<and> i \<le> current_max s \<longrightarrow> nx s1 (head s) i = None"
  proof (cases "sn_level n = current_max s")
    case True
    have "node_ok s1 (head s1)" "current_max s1 \<le> lvl s1 (head s1)" using rep n1(2) f1 lvl1 by (auto simp: sl_rep_def)
    then obtain k where "k \<le> current_max s1" "lower_max s1 (current_max s1) = Some k" "\<forall>i. k < i \<and> i \<le> current_max s1 \<longrightarrow> nx s1 (head s1) i = None"
      using lower_max_result by blast
    then show ?thesis using that True f1(2,6) by simp
  next
    case False
    then show ?thesis by (intro that [of "current_max s"]) (use f1(2) in auto)
  qed
  have low: "lvl s x \<le> m" if x: "x \<in> set (as @ bs)" for x
  proof (rule ccontr)
    assume gt: "\<not> lvl s x \<le> m"
    have le: "lvl s x \<le> current_max s" "current_max s \<le> lvl s (head s)" using rep x by (auto simp: sl_rep_def)
    then have "nx s1 (head s) (lvl s x) = find (\<lambda>b. lvl s x \<le> lvl s b) (as @ bs)" using links1 by simp
    moreover have "nx s1 (head s) (lvl s x) = None" using m(3) gt le(1) by simp
    ultimately have "find (\<lambda>b. lvl s x \<le> lvl s b) (as @ bs) = None" by simp
    then show False using x unfolding find_None_iff by blast
  qed
  obtain n' where n': "nodes s1 b = Some n'" "sn_ele n' = sn_ele n" using shape_node [OF s1(2) b] by auto
  define s2 where "s2 = s1\<lparr>current_max := m, n_keys := n_keys s1 - 1\<rparr>"
  define s3 where "s3 = (data_free s2 (freed_eles (sn_ele n)))\<lparr>nodes := (nodes s2)(b := None)\<rparr>"
  have r: "remove_node s ptr b = Some s3" unfolding remove_node_def using b s1(1) m(2) n' by (simp add: destroy_skiplist_node_def s2_def s3_def)
  have nodes3: "nodes s3 = (nodes s1)(b := None)" by (simp add: s3_def s2_def data_free_def)
  have oth: "x \<noteq> b \<Longrightarrow> lvl s3 x = lvl s x" "x \<noteq> b \<Longrightarrow> nx s3 x = nx s1 x" "x \<noteq> b \<Longrightarrow> node_ok s3 x = node_ok s x" for x
    using n1(1,2) by (auto simp: lvl_def nx_def node_ok_def nodes3 fun_eq_iff)
  have nb: "b \<notin> set (head s # as @ bs)" using d by auto
  have f3: "max_levels s3 = max_levels s" "current_max s3 = m" "allow_dups s3 = allow_dups s" "n_keys s3 = n_keys s - 1" "n_ele s3 = n_ele s"
    "head s3 = head s" "compare s3 = compare s" "sl_brk s3 = sl_brk s" "sl_freed s3 = sl_freed s @ freed_eles (sn_ele n)"
    using f1 by (auto simp: s3_def s2_def data_free_def)
  have "links (lvl s3) (nx s3) (head s # as @ bs)"
  proof -
    have "find (\<lambda>b. i \<le> lvl s3 b) q = find (\<lambda>b. i \<le> lvl s b) q" if "set q \<subseteq> set (head s # as @ bs)" for i q
      using that nb oth(1) by (intro find_cong_set) (metis subsetD)
    moreover have "x \<in> set (head s # as @ bs) \<Longrightarrow> lvl s3 x = lvl s x \<and> nx s3 x = nx s1 x" for x using nb oth by metis
    ultimately show ?thesis using links1 unfolding links_split
      by (metis append_Cons in_set_conv_decomp set_append Un_upper2 set_subset_Cons subset_trans)
  qed
  moreover have "dom (nodes s3) = set (head s # as @ bs)" using n1(3) rep nb unfolding nodes3 by (auto simp: sl_rep_def)
  moreover have "\<forall>x \<in> set (head s # as @ bs). x < sl_brk s \<and> node_ok s3 x \<and> lvl s3 x = lvl s x"
  proof
    fix x assume x: "x \<in> set (head s # as @ bs)"
    then have "x \<noteq> b" using nb by auto
    moreover have "x < sl_brk s" "node_ok s x" using rep x by (auto simp: sl_rep_def)
    ultimately show "x < sl_brk s \<and> node_ok s3 x \<and> lvl s3 x = lvl s x" using oth(1,3) [of x] by simp
  qed
  moreover have "0 < max_levels s" "max_levels s \<le> SKIPLIST_MAX_LEVEL" "m < max_levels s" "lvl s (head s) = max_levels s - 1"
    using rep m(1) by (auto simp: sl_rep_def)
  ultimately have "sl_rep s3 (as @ bs)" using low d unfolding sl_rep_def f3 by auto
  moreover have "info s3 = (info s)(b := None)"
  proof
    fix x show "info s3 x = ((info s)(b := None)) x"
      using n1(5,6) [of x] by (cases "nodes s x"; cases "nodes s1 x") (auto simp: info_def nodes3)
  qed
  ultimately show ?thesis using r f3 oth(1) by blast
qed

end
