(* ===== verification/Skiplist_Map.thy ===== *)
theory Skiplist_Map
  imports Skiplist
begin

text \<open>
  Skip lists as ordered maps: the operations of \<^verbatim>\<open>toolbox/skiplist.c\<close> refine operations on a sorted list of keys, each
  with its data, for every comparison of keys that is a total preorder and for all random levels.
\<close>

section \<open>The specification\<close>

text \<open>A list of keys with their data, smallest key first.\<close>

record ('k, 'd) smap =
  sm_compare :: "'k \<Rightarrow> 'k \<Rightarrow> int"
  sm_dups :: bool
  sm_items :: "('k \<times> 'd option list) list"
  sm_freed :: "'d option list"

datatype ('k, 'd) sl_op =
  Sl_insert "nat \<Rightarrow> bool" 'k "'d option"
| Sl_remove 'k "'d option"
| Sl_search 'k
| Sl_first
| Sl_last
| Sl_key_count
| Sl_element_count
| Sl_empty

datatype ('k, 'd) sl_result = R_int int | R_data "'d option" | R_key "'k option" | R_unit

definition items_lt :: "('k \<Rightarrow> 'k \<Rightarrow> int) \<Rightarrow> 'k \<Rightarrow> ('k \<times> 'e) list \<Rightarrow> ('k \<times> 'e) list" where
  "items_lt cmp k xs = takeWhile (\<lambda>x. cmp (fst x) k < 0) xs"

definition items_ge :: "('k \<Rightarrow> 'k \<Rightarrow> int) \<Rightarrow> 'k \<Rightarrow> ('k \<times> 'e) list \<Rightarrow> ('k \<times> 'e) list" where
  "items_ge cmp k xs = dropWhile (\<lambda>x. cmp (fst x) k < 0) xs"

text \<open>The entry of a key, with the entries before and after it.\<close>

definition items_at :: "('k \<Rightarrow> 'k \<Rightarrow> int) \<Rightarrow> 'k \<Rightarrow> ('k \<times> 'e) list \<Rightarrow> ('k \<times> 'e) option" where
  "items_at cmp k xs = (case items_ge cmp k xs of [] \<Rightarrow> None | x # _ \<Rightarrow> if cmp (fst x) k = 0 then Some x else None)"

fun sm_step :: "('k, 'd) sl_op \<Rightarrow> ('k, 'd) smap \<Rightarrow> (('k, 'd) sl_result \<times> ('k, 'd) smap) option" where
  "sm_step (Sl_insert draws k d) m =
     (let lt = items_lt (sm_compare m) k (sm_items m); ge = items_ge (sm_compare m) k (sm_items m) in
      case items_at (sm_compare m) k (sm_items m) of
        None \<Rightarrow> Some (R_int 0, m\<lparr>sm_items := lt @ (k, [d]) # ge\<rparr>)
      | Some (k', es) \<Rightarrow>
          if sm_dups m then Some (R_int 0, m\<lparr>sm_items := lt @ (k', hd es # d # tl es) # tl ge\<rparr>)
          else Some (R_int 0, m\<lparr>sm_items := lt @ (k', d # tl es) # tl ge, sm_freed := sm_freed m @ [hd es]\<rparr>))"
| "sm_step (Sl_remove k d) m =
     (let lt = items_lt (sm_compare m) k (sm_items m); ge = items_ge (sm_compare m) k (sm_items m) in
      case items_at (sm_compare m) k (sm_items m) of
        None \<Rightarrow> Some (R_int 1, m)
      | Some (k', es) \<Rightarrow>
          (case d of
             None \<Rightarrow> Some (R_int 0, m\<lparr>sm_items := lt @ tl ge, sm_freed := sm_freed m @ freed_eles es\<rparr>)
           | Some _ \<Rightarrow>
               if d \<notin> set es then Some (R_int 1, m)
               else Some (R_int 0, m\<lparr>sm_items := lt @ (if remove1 d es = [] then [] else [(k', remove1 d es)]) @ tl ge, sm_freed := sm_freed m @ [d]\<rparr>)))"
| "sm_step (Sl_search k) m =
     Some (R_data (case items_at (sm_compare m) k (sm_items m) of None \<Rightarrow> None | Some (k', es) \<Rightarrow> hd es), m)"
| "sm_step Sl_first m = Some (R_key (if sm_items m = [] then None else Some (fst (hd (sm_items m)))), m)"
| "sm_step Sl_last m = Some (R_key (if sm_items m = [] then None else Some (fst (last (sm_items m)))), m)"
| "sm_step Sl_key_count m = Some (R_int (int (length (sm_items m))), m)"
| "sm_step Sl_element_count m = Some (R_int (int (sum_list (map (length \<circ> snd) (sm_items m)))), m)"
| "sm_step Sl_empty m = Some (R_unit, m\<lparr>sm_items := [], sm_freed := sm_freed m @ concat (map (freed_eles \<circ> snd) (sm_items m))\<rparr>)"

fun sl_step :: "('k, 'd) sl_op \<Rightarrow> ('k, 'd) tbx_sl_t \<Rightarrow> (('k, 'd) sl_result \<times> ('k, 'd) tbx_sl_t) option" where
  "sl_step (Sl_insert draws k d) s = do { (r, s) \<leftarrow> tbx_sl_insert s draws (Some k) d; Some (R_int r, s) }"
| "sl_step (Sl_remove k d) s = do { (r, s) \<leftarrow> tbx_sl_remove s (Some k) d; Some (R_int r, s) }"
| "sl_step (Sl_search k) s = do { d \<leftarrow> tbx_sl_search_compare s k (compare s); Some (R_data d, s) }"
| "sl_step Sl_first s = do { k \<leftarrow> tbx_sl_first_key s; Some (R_key k, s) }"
| "sl_step Sl_last s = do { k \<leftarrow> tbx_sl_key_last s; Some (R_key k, s) }"
| "sl_step Sl_key_count s = Some (R_int (tbx_sl_key_count s), s)"
| "sl_step Sl_element_count s = Some (R_int (skiplist_element_count s), s)"
| "sl_step Sl_empty s = do { s \<leftarrow> tbx_sl_empty s; Some (R_unit, s) }"

section \<open>Refinement\<close>

definition keyed :: "('k, 'd) tbx_sl_t \<Rightarrow> nat \<Rightarrow> bool" where
  "keyed s a \<longleftrightarrow> (\<exists>k es. info s a = Some (Some k, es) \<and> es \<noteq> [])"

definition entry :: "('k, 'd) tbx_sl_t \<Rightarrow> nat \<Rightarrow> 'k \<times> 'd option list" where
  "entry s a = (case info s a of Some (Some k, es) \<Rightarrow> (k, es) | _ \<Rightarrow> undefined)"

abbreviation items :: "('k, 'd) tbx_sl_t \<Rightarrow> nat list \<Rightarrow> ('k \<times> 'd option list) list" where
  "items s ns \<equiv> map (entry s) ns"

definition key_lt :: "('k \<Rightarrow> 'k \<Rightarrow> int) \<Rightarrow> 'k \<times> 'e \<Rightarrow> 'k \<times> 'e \<Rightarrow> bool" where
  "key_lt cmp x y \<longleftrightarrow> cmp (fst x) (fst y) < 0"

definition sl_ordered :: "('k, 'd) tbx_sl_t \<Rightarrow> nat list \<Rightarrow> bool" where
  "sl_ordered s ns \<longleftrightarrow> sl_rep s ns \<and> key_compare (compare s) \<and> (\<forall>a \<in> set ns. keyed s a) \<and> sorted_wrt (key_lt (compare s)) (items s ns)"

definition counted :: "('k, 'd) tbx_sl_t \<Rightarrow> nat list \<Rightarrow> bool" where
  "counted s ns \<longleftrightarrow> n_keys s = int (length ns) \<and> n_ele s = int (sum_list (map (length \<circ> snd) (items s ns)))"

lemma keyed_node: "keyed s a \<Longrightarrow> \<exists>n. nodes s a = Some n \<and> sn_key n = Some (fst (entry s a)) \<and> sn_ele n = snd (entry s a) \<and> sn_ele n \<noteq> []"
  by (auto simp: keyed_def entry_def info_def)

lemma keyed_cong: "info s a = info t a \<Longrightarrow> keyed s a = keyed t a"
  by (simp add: keyed_def)

lemma entry_cong: "info s a = info t a \<Longrightarrow> entry s a = entry t a"
  by (simp add: entry_def)

lemma entry_upd: "info s a = Some (Some k, es) \<Longrightarrow> entry s a = (k, es)"
  by (simp add: entry_def)

lemma sorted_split:
  assumes cmp: "key_compare cmp" and "sorted_wrt (key_lt cmp) xs"
  shows "\<forall>x \<in> set (items_lt cmp k xs). cmp (fst x) k < 0" "\<forall>x \<in> set (items_ge cmp k xs). 0 \<le> cmp (fst x) k" "items_lt cmp k xs @ items_ge cmp k xs = xs"
proof -
  show "\<forall>x \<in> set (items_lt cmp k xs). cmp (fst x) k < 0" by (auto simp: items_lt_def dest: set_takeWhileD)
  show eq: "items_lt cmp k xs @ items_ge cmp k xs = xs" by (simp add: items_lt_def items_ge_def)
  show "\<forall>x \<in> set (items_ge cmp k xs). 0 \<le> cmp (fst x) k"
  proof (cases "items_ge cmp k xs")
    case (Cons y ys)
    then have y: "0 \<le> cmp (fst y) k" by (auto simp: items_ge_def dropWhile_eq_Cons_conv)
    have "sorted_wrt (key_lt cmp) (items_lt cmp k xs @ items_ge cmp k xs)" using assms(2) eq by simp
    then have "\<forall>x \<in> set ys. key_lt cmp y x" using Cons by (simp add: sorted_wrt_append)
    moreover have "0 \<le> cmp (fst x) k" if "cmp (fst y) (fst x) < 0" for x
      using key_compare.lt_trans [OF cmp that, of k] y by linarith
    ultimately show ?thesis using Cons y by (auto simp: key_lt_def)
  qed simp
qed

text \<open>The place of a key: nodes before it and nodes from there on.\<close>

lemma key_split:
  assumes "sl_ordered s ns"
  obtains as bs where "ns = as @ bs" "items s as = items_lt (compare s) k (items s ns)" "items s bs = items_ge (compare s) k (items s ns)"
    "\<forall>b \<in> set as. compare s (fst (entry s b)) k < 0" "\<forall>b \<in> set bs. 0 \<le> compare s (fst (entry s b)) k"
    "\<forall>b \<in> set ns. compare_node s (compare s) (Some k) f b = Some (compare s (fst (entry s b)) k)"
proof -
  let ?lt = "items_lt (compare s) k (items s ns)" and ?ge = "items_ge (compare s) k (items s ns)"
  have cmp: "key_compare (compare s)" "sorted_wrt (key_lt (compare s)) (items s ns)" using assms by (auto simp: sl_ordered_def)
  note sp = sorted_split [OF cmp, of k]
  define n where "n = length ?lt"
  have "take n (items s ns) = ?lt" "drop n (items s ns) = ?ge"
    unfolding n_def by (subst (2) sp(3) [symmetric], simp)+
  then have i: "items s (take n ns) = ?lt" "items s (drop n ns) = ?ge" by (simp_all add: take_map drop_map)
  show ?thesis
  proof (rule that [of "take n ns" "drop n ns"])
    show "\<forall>b \<in> set (take n ns). compare s (fst (entry s b)) k < 0" using sp(1) unfolding i(1) [symmetric] by simp
    show "\<forall>b \<in> set (drop n ns). 0 \<le> compare s (fst (entry s b)) k" using sp(2) unfolding i(2) [symmetric] by simp
    show "\<forall>b \<in> set ns. compare_node s (compare s) (Some k) f b = Some (compare s (fst (entry s b)) k)"
    proof
      fix b assume "b \<in> set ns"
      then obtain n where "nodes s b = Some n" "sn_key n = Some (fst (entry s b))" using assms keyed_node by (fastforce simp: sl_ordered_def)
      then show "compare_node s (compare s) (Some k) f b = Some (compare s (fst (entry s b)) k)" by (simp add: compare_node_def)
    qed
  qed (use i in simp_all)
qed

text \<open>A search for a key.\<close>

lemma find_key_ordered:
  assumes "sl_ordered s ns"
  obtains as bs ptr c where "ns = as @ bs" "items s as = items_lt (compare s) k (items s ns)" "items s bs = items_ge (compare s) k (items s ns)"
    "find_key s no_ptr (Some k) f = Some (ptr, c)" "preds s ptr as" "ptr_next s ptr = Some (case bs of [] \<Rightarrow> None | b # _ \<Rightarrow> Some b)"
    "c = 0 \<longleftrightarrow> items_at (compare s) k (items s ns) \<noteq> None" "c = 0 \<Longrightarrow> \<exists>b bs'. bs = b # bs' \<and> items_at (compare s) k (items s ns) = Some (entry s b)"
    "get_ptr ptr 0 = Some (last (head s # as))"
proof -
  obtain as bs where ab: "ns = as @ bs" "items s as = items_lt (compare s) k (items s ns)" "items s bs = items_ge (compare s) k (items s ns)"
    "\<forall>b \<in> set as. compare s (fst (entry s b)) k < 0" "\<forall>b \<in> set bs. 0 \<le> compare s (fst (entry s b)) k"
    "\<forall>b \<in> set ns. compare_node s (compare s) (Some k) f b = Some (compare s (fst (entry s b)) k)" using key_split [OF assms] by blast
  have rep: "sl_rep s (as @ bs)" using assms ab(1) by (simp add: sl_ordered_def)
  obtain ptr c where r: "find_key s no_ptr (Some k) f = Some (ptr, c)" "preds s ptr as" "case bs of [] \<Rightarrow> c < 0 | b # _ \<Rightarrow> c = compare s (fst (entry s b)) k"
    using find_key_result [OF rep ab(6) [unfolded ab(1)] ab(4,5)] unfolding find_key_def by blast
  show ?thesis
  proof (rule that [OF ab(1-3) r(1,2)])
    show "c = 0 \<longleftrightarrow> items_at (compare s) k (items s ns) \<noteq> None" unfolding items_at_def ab(3) [symmetric] using r(3) by (cases bs) auto
    show "c = 0 \<Longrightarrow> \<exists>b bs'. bs = b # bs' \<and> items_at (compare s) k (items s ns) = Some (entry s b)"
      unfolding items_at_def ab(3) [symmetric] using r(3) by (cases bs) auto
  qed (use preds_next [OF rep r(2)] in auto)
qed

text \<open>Counters and the log of freed data do not matter for the structure.\<close>

lemma count_update [simp]:
  "lvl (s\<lparr>n_keys := x\<rparr>) = lvl s" "nx (s\<lparr>n_keys := x\<rparr>) = nx s" "node_ok (s\<lparr>n_keys := x\<rparr>) = node_ok s" "info (s\<lparr>n_keys := x\<rparr>) = info s"
  "lvl (s\<lparr>n_ele := y\<rparr>) = lvl s" "nx (s\<lparr>n_ele := y\<rparr>) = nx s" "node_ok (s\<lparr>n_ele := y\<rparr>) = node_ok s" "info (s\<lparr>n_ele := y\<rparr>) = info s"
  "lvl (data_free s d) = lvl s" "nx (data_free s d) = nx s" "node_ok (data_free s d) = node_ok s" "info (data_free s d) = info s"
  by (simp_all add: fun_eq_iff lvl_def nx_def node_ok_def info_def data_free_def)

lemma data_free_simps [simp]:
  "max_levels (data_free s d) = max_levels s" "current_max (data_free s d) = current_max s" "allow_dups (data_free s d) = allow_dups s"
  "n_keys (data_free s d) = n_keys s" "n_ele (data_free s d) = n_ele s" "head (data_free s d) = head s" "compare (data_free s d) = compare s"
  "nodes (data_free s d) = nodes s" "sl_brk (data_free s d) = sl_brk s" "sl_freed (data_free s d) = sl_freed s @ d"
  by (simp_all add: data_free_def)

lemma sl_rep_update [simp]: "sl_rep (s\<lparr>n_keys := x\<rparr>) = sl_rep s" "sl_rep (s\<lparr>n_ele := y\<rparr>) = sl_rep s" "sl_rep (data_free s d) = sl_rep s"
    "preds (s\<lparr>n_keys := x\<rparr>) = preds s" "preds (s\<lparr>n_ele := y\<rparr>) = preds s" "preds (data_free s d) = preds s"
  by (simp_all add: fun_eq_iff sl_rep_def preds_def)

lemma set_ele_result:
  assumes "sl_rep s ns" "nodes s b = Some n" "es \<noteq> []"
  shows "sl_rep (set_node s b (n\<lparr>sn_ele := es\<rparr>)) ns" "info (set_node s b (n\<lparr>sn_ele := es\<rparr>)) = (info s)(b \<mapsto> (sn_key n, es))"
    "lvl (set_node s b (n\<lparr>sn_ele := es\<rparr>)) = lvl s" "preds (set_node s b (n\<lparr>sn_ele := es\<rparr>)) = preds s"
proof -
  let ?s = "set_node s b (n\<lparr>sn_ele := es\<rparr>)"
  have "b \<in> set (head s # ns)" using assms(1,2) unfolding sl_rep_def by (metis domI)
  then have ok: "node_ok s b" by (rule sl_rep_nodes [OF assms(1)])
  show l: "lvl ?s = lvl s" using assms(2) by (auto simp: lvl_def set_node_def fun_eq_iff)
  have "nx ?s = nx s" using assms(2) by (auto simp: nx_def set_node_def fun_eq_iff)
  moreover have "node_ok ?s = node_ok s" using assms(2,3) ok by (auto simp: node_ok_def set_node_def fun_eq_iff)
  moreover have "dom (nodes ?s) = dom (nodes s)" using assms(2) by (auto simp: set_node_def)
  ultimately show "sl_rep ?s ns" using assms(1) l by (simp add: sl_rep_def set_node_def)
  show "info ?s = (info s)(b \<mapsto> (sn_key n, es))" by (auto simp: info_def set_node_def fun_eq_iff)
  show "preds ?s = preds s" unfolding preds_def l by (simp add: set_node_def)
qed

lemma set_node_simps [simp]:
  "max_levels (set_node s b n) = max_levels s" "current_max (set_node s b n) = current_max s" "allow_dups (set_node s b n) = allow_dups s"
  "n_keys (set_node s b n) = n_keys s" "n_ele (set_node s b n) = n_ele s" "head (set_node s b n) = head s" "compare (set_node s b n) = compare s"
  "sl_brk (set_node s b n) = sl_brk s" "sl_freed (set_node s b n) = sl_freed s" "nodes (set_node s b n) = (nodes s)(b \<mapsto> n)"
  by (simp_all add: set_node_def)

text \<open>Order of the entries after each kind of change.\<close>

lemma sorted_keys: "sorted_wrt (key_lt cmp) xs = sorted_wrt (\<lambda>a b. cmp a b < 0) (map fst xs)"
  by (simp add: sorted_wrt_map key_lt_def [abs_def])

lemma sorted_insert:
  assumes cmp: "key_compare cmp" and "sorted_wrt (key_lt cmp) xs" "items_at cmp k xs = None"
  shows "sorted_wrt (key_lt cmp) (items_lt cmp k xs @ (k, e) # items_ge cmp k xs)"
proof -
  note sp = sorted_split [OF cmp assms(2), of k]
  have s: "sorted_wrt (key_lt cmp) (items_lt cmp k xs @ items_ge cmp k xs)" using assms(2) sp(3) by simp
  have gt: "cmp k (fst x) < 0" if x: "x \<in> set (items_ge cmp k xs)" for x
  proof (cases "items_ge cmp k xs")
    case (Cons y ys)
    have "0 \<le> cmp (fst y) k" "cmp (fst y) k \<noteq> 0" using sp(2) Cons assms(3) by (auto simp: items_at_def split: if_splits)
    then have y: "cmp k (fst y) < 0" using key_compare.anti [OF cmp, of k "fst y"] by linarith
    have "x = y \<or> cmp (fst y) (fst x) < 0" using s Cons x by (auto simp: sorted_wrt_append key_lt_def)
    then show ?thesis using y key_compare.lt_trans [OF cmp] by blast
  qed (use x in simp)
  show ?thesis using s sp(1) gt unfolding sorted_wrt_append sorted_wrt.simps key_lt_def
    by (auto intro: key_compare.lt_trans [OF cmp])
qed

lemma items_cong: "(\<And>a. a \<in> set ns \<Longrightarrow> info s a = info t a) \<Longrightarrow> items s ns = items t ns"
  by (auto intro: entry_cong)

lemma sl_ordered_distinct: "sl_ordered s ns \<Longrightarrow> distinct ns \<and> (\<forall>a \<in> set ns. a < sl_brk s)"
  by (auto simp: sl_ordered_def sl_rep_def)

text \<open>Replacing the data of one entry.\<close>

lemma set_ele_ordered:
  assumes ok: "sl_ordered s (as @ b # bs)" and n: "nodes s b = Some n" and es: "es \<noteq> []"
  shows "sl_ordered (set_node s b (n\<lparr>sn_ele := es\<rparr>)) (as @ b # bs)" (is "sl_ordered ?s _")
    and "items (set_node s b (n\<lparr>sn_ele := es\<rparr>)) (as @ b # bs) = items s as @ (fst (entry s b), es) # items s bs"
proof -
  have rep: "sl_rep s (as @ b # bs)" "keyed s b" using ok by (auto simp: sl_ordered_def)
  note r = set_ele_result [OF rep(1) n es]
  have key: "sn_key n = Some (fst (entry s b))" using keyed_node [OF rep(2)] n by auto
  have "a \<in> set (as @ bs) \<Longrightarrow> a \<noteq> b" for a using sl_ordered_distinct [OF ok] by auto
  then have oth: "a \<in> set (as @ bs) \<Longrightarrow> info ?s a = info s a" for a unfolding r(2) by simp
  have b: "info ?s b = Some (Some (fst (entry s b)), es)" unfolding r(2) by (simp add: key)
  have "items ?s as = items s as" "items ?s bs = items s bs" using oth by (intro items_cong; simp)+
  then show i: "items ?s (as @ b # bs) = items s as @ (fst (entry s b), es) # items s bs" using entry_upd [OF b] by simp
  have "\<forall>a \<in> set (as @ b # bs). keyed ?s a" using ok b oth es keyed_cong [of ?s _ s] by (auto simp: sl_ordered_def keyed_def)
  moreover have "sorted_wrt (key_lt (compare s)) (items ?s (as @ b # bs))" using ok unfolding i sl_ordered_def sorted_keys by simp
  ultimately show "sl_ordered ?s (as @ b # bs)" using r(1) ok by (simp add: sl_ordered_def)
qed

lemma ordered_update [simp]:
  "sl_ordered (s\<lparr>n_ele := y\<rparr>) = sl_ordered s" "sl_ordered (s\<lparr>n_keys := x\<rparr>) = sl_ordered s" "sl_ordered (data_free s d) = sl_ordered s"
  "entry (s\<lparr>n_ele := y\<rparr>) = entry s" "entry (s\<lparr>n_keys := x\<rparr>) = entry s" "entry (data_free s d) = entry s"
  by (simp_all add: fun_eq_iff sl_ordered_def keyed_def entry_def [abs_def])

text \<open>Adding and removing an entry.\<close>

lemma pos_insert_ordered:
  assumes ok: "sl_ordered s (as @ bs)" and pr: "preds s ptr as"
    and sorted: "sorted_wrt (key_lt (compare s)) (items s as @ (k, [d]) # items s bs)"
  shows "\<exists>s' ptr'. pos_tbx_sl_insert s ptr draws (Some k) d = Some (sl_brk s, s', ptr') \<and> sl_ordered s' (as @ sl_brk s # bs) \<and>
    items s' (as @ sl_brk s # bs) = items s as @ (k, [d]) # items s bs \<and> info s' = (info s)(sl_brk s \<mapsto> (Some k, [d])) \<and>
    (\<forall>a. a \<noteq> sl_brk s \<longrightarrow> lvl s' a = lvl s a) \<and> (\<forall>j \<le> lvl s' (sl_brk s). \<exists>p. get_ptr ptr' j = Some p \<and> is_pred (lvl s) j (head s # as) p) \<and>
    allow_dups s' = allow_dups s \<and> n_keys s' = n_keys s \<and> n_ele s' = n_ele s \<and> head s' = head s \<and> compare s' = compare s \<and> sl_freed s' = sl_freed s"
proof -
  have rep: "sl_rep s (as @ bs)" using ok by (simp add: sl_ordered_def)
  obtain s' ptr' where r: "pos_tbx_sl_insert s ptr draws (Some k) d = Some (sl_brk s, s', ptr')" "sl_rep s' (as @ sl_brk s # bs)"
    "info s' = (info s)(sl_brk s \<mapsto> (Some k, [d]))" "\<forall>a. a \<noteq> sl_brk s \<longrightarrow> lvl s' a = lvl s a"
    "\<forall>j \<le> lvl s' (sl_brk s). \<exists>p. get_ptr ptr' j = Some p \<and> is_pred (lvl s) j (head s # as) p"
    "allow_dups s' = allow_dups s" "n_keys s' = n_keys s" "n_ele s' = n_ele s" "head s' = head s" "compare s' = compare s" "sl_freed s' = sl_freed s"
    using pos_insert_result [OF rep pr, of draws "Some k" d] by blast
  have "a \<in> set (as @ bs) \<Longrightarrow> a \<noteq> sl_brk s" for a using sl_ordered_distinct [OF ok] by auto
  then have oth: "a \<in> set (as @ bs) \<Longrightarrow> info s' a = info s a" for a unfolding r(3) by simp
  have new: "info s' (sl_brk s) = Some (Some k, [d])" unfolding r(3) by simp
  have "items s' as = items s as" "items s' bs = items s bs" using oth by (intro items_cong; simp)+
  then have i: "items s' (as @ sl_brk s # bs) = items s as @ (k, [d]) # items s bs" using entry_upd [OF new] by simp
  have "\<forall>a \<in> set (as @ sl_brk s # bs). keyed s' a" using ok new oth keyed_cong [of s' _ s] by (auto simp: sl_ordered_def keyed_def)
  then have "sl_ordered s' (as @ sl_brk s # bs)" using r(2) ok sorted unfolding sl_ordered_def i r(10) by blast
  then show ?thesis using r i by blast
qed

lemma remove_node_ordered:
  assumes ok: "sl_ordered s (as @ b # bs)" and pr: "preds s ptr as" and b: "nodes s b = Some n"
  shows "\<exists>s'. remove_node s ptr b = Some s' \<and> sl_ordered s' (as @ bs) \<and> items s' (as @ bs) = items s (as @ bs) \<and> info s' = (info s)(b := None) \<and>
    (\<forall>a. a \<noteq> b \<longrightarrow> lvl s' a = lvl s a) \<and> allow_dups s' = allow_dups s \<and> n_keys s' = n_keys s - 1 \<and> n_ele s' = n_ele s \<and> head s' = head s \<and>
    compare s' = compare s \<and> sl_brk s' = sl_brk s \<and> sl_freed s' = sl_freed s @ freed_eles (sn_ele n)"
proof -
  have rep: "sl_rep s (as @ b # bs)" using ok by (simp add: sl_ordered_def)
  obtain s' where r: "remove_node s ptr b = Some s'" "sl_rep s' (as @ bs)" "info s' = (info s)(b := None)"
    "\<forall>a. a \<noteq> b \<longrightarrow> lvl s' a = lvl s a" "allow_dups s' = allow_dups s" "n_keys s' = n_keys s - 1" "n_ele s' = n_ele s" "head s' = head s"
    "compare s' = compare s" "sl_brk s' = sl_brk s" "sl_freed s' = sl_freed s @ freed_eles (sn_ele n)"
    using remove_node_result [OF rep pr b] by blast
  have "a \<in> set (as @ bs) \<Longrightarrow> a \<noteq> b" for a using sl_ordered_distinct [OF ok] by auto
  then have oth: "a \<in> set (as @ bs) \<Longrightarrow> info s' a = info s a" for a unfolding r(3) by simp
  then have i: "items s' (as @ bs) = items s (as @ bs)" by (rule items_cong)
  have "\<forall>a \<in> set (as @ bs). keyed s' a" using ok oth keyed_cong [of s' _ s] by (auto simp: sl_ordered_def)
  moreover have "sorted_wrt (key_lt (compare s)) (items s' (as @ bs))" using ok unfolding i sl_ordered_def by (auto simp: sorted_wrt_append)
  ultimately have "sl_ordered s' (as @ bs)" using r(2) ok unfolding sl_ordered_def r(9) by blast
  then show ?thesis using r i by blast
qed

definition sl_inv :: "('k, 'd) tbx_sl_t \<Rightarrow> nat list \<Rightarrow> bool" where
  "sl_inv s ns \<longleftrightarrow> sl_ordered s ns \<and> counted s ns"

definition sl_map :: "('k, 'd) tbx_sl_t \<Rightarrow> nat list \<Rightarrow> ('k, 'd) smap" where
  "sl_map s ns = \<lparr>sm_compare = compare s, sm_dups = allow_dups s, sm_items = items s ns, sm_freed = sl_freed s\<rparr>"

lemma entry_node: "sl_ordered s (as @ b # bs) \<Longrightarrow> \<exists>n. nodes s b = Some n \<and> sn_key n = Some (fst (entry s b)) \<and> sn_ele n = snd (entry s b) \<and> sn_ele n \<noteq> []"
  by (intro keyed_node) (simp add: sl_ordered_def)

lemma insert_refines:
  assumes inv: "sl_inv s ns" and m: "sm_step (Sl_insert draws k d) (sl_map s ns) = Some (r, m)"
  shows "\<exists>s' ns'. sl_step (Sl_insert draws k d) s = Some (r, s') \<and> sl_inv s' ns' \<and> sl_map s' ns' = m"
proof -
  have ord: "sl_ordered s ns" and cnt: "counted s ns" using inv by (auto simp: sl_inv_def)
  obtain as bs ptr c where ab: "ns = as @ bs" "items s as = items_lt (compare s) k (items s ns)" "items s bs = items_ge (compare s) k (items s ns)"
    and f: "find_key s no_ptr (Some k) 0 = Some (ptr, c)" "preds s ptr as" "ptr_next s ptr = Some (case bs of [] \<Rightarrow> None | b # _ \<Rightarrow> Some b)"
      "c = 0 \<longleftrightarrow> items_at (compare s) k (items s ns) \<noteq> None" "c = 0 \<Longrightarrow> \<exists>b bs'. bs = b # bs' \<and> items_at (compare s) k (items s ns) = Some (entry s b)"
      "get_ptr ptr 0 = Some (last (head s # as))"
    by (rule find_key_ordered [OF ord, of k 0]) blast
  show ?thesis
  proof (cases "c = 0")
    case False
    then have none: "items_at (compare s) k (items s ns) = None" using f(4) by blast
    define s1 where "s1 = s\<lparr>n_keys := n_keys s + 1, n_ele := n_ele s + 1\<rparr>"
    have s1: "sl_ordered s1 (as @ bs)" "preds s1 ptr as" "entry s1 = entry s" "compare s1 = compare s" using ord f(2) ab(1) by (auto simp: s1_def)
    have "sorted_wrt (key_lt (compare s)) (items s as @ (k, [d]) # items s bs)"
      unfolding ab(2,3) by (rule sorted_insert [OF _ _ none]) (use ord in \<open>simp_all add: sl_ordered_def\<close>)
    then obtain s' ptr' where r': "pos_tbx_sl_insert s1 ptr draws (Some k) d = Some (sl_brk s1, s', ptr')" "sl_ordered s' (as @ sl_brk s1 # bs)"
      "items s' (as @ sl_brk s1 # bs) = items s as @ (k, [d]) # items s bs" "allow_dups s' = allow_dups s1" "n_keys s' = n_keys s1" "n_ele s' = n_ele s1"
      "compare s' = compare s1" "sl_freed s' = sl_freed s1"
      using pos_insert_ordered [OF s1(1,2), of k d draws] unfolding s1(3,4) by blast
    have "tbx_sl_insert s draws (Some k) d = Some (0, s')" using f(1) False r'(1) by (simp add: tbx_sl_insert_def s1_def)
    moreover have "counted s' (as @ sl_brk s1 # bs)" using cnt r'(5,6) unfolding counted_def r'(3) ab(1) by (simp add: s1_def)
    moreover have "r = R_int 0" "m = sl_map s' (as @ sl_brk s1 # bs)"
      using m none r'(4,7,8) unfolding sl_map_def r'(3) ab(2,3) by (simp_all add: s1_def)
    ultimately show ?thesis using r'(2) by (auto simp: sl_inv_def)
  next
    case True
    then obtain b bs' where b: "bs = b # bs'" "items_at (compare s) k (items s ns) = Some (entry s b)" using f(5) by blast
    have ord': "sl_ordered s (as @ b # bs')" using ord ab(1) b(1) by simp
    obtain n where n: "nodes s b = Some n" "sn_ele n = snd (entry s b)" "sn_ele n \<noteq> []" using entry_node [OF ord'] by blast
    have ge: "items_ge (compare s) k (items s ns) = entry s b # items s bs'" using ab(3) b(1) by simp
    have cnt': "n_keys s = int (length (as @ b # bs'))" "n_ele s = int (sum_list (map (length \<circ> snd) (items s (as @ b # bs'))))" using cnt ab(1) b(1) by (auto simp: counted_def)
    define es where "es = (if allow_dups s then hd (sn_ele n) # d # tl (sn_ele n) else d # tl (sn_ele n))"
    define s' where "s' = (if allow_dups s then (set_node s b (n\<lparr>sn_ele := es\<rparr>))\<lparr>n_ele := n_ele s + 1\<rparr> else set_node (data_free s [hd (sn_ele n)]) b (n\<lparr>sn_ele := es\<rparr>))"
    have es: "es \<noteq> []" "int (length es) = int (length (sn_ele n)) + (if allow_dups s then 1 else 0)" using n(3) by (auto simp: es_def)
    have ord0: "sl_ordered (data_free s [hd (sn_ele n)]) (as @ b # bs')" using ord' by simp
    have r': "sl_ordered s' (as @ b # bs')" "items s' (as @ b # bs') = items s as @ (fst (entry s b), es) # items s bs'"
      using set_ele_ordered [OF ord' n(1) es(1)] set_ele_ordered [OF ord0 _ es(1), of n] n(1) by (auto simp: s'_def)
    have "tbx_sl_insert s draws (Some k) d = Some (0, s')" using f(1,3) True b(1) n(1) by (simp add: tbx_sl_insert_def s'_def es_def)
    moreover have "counted s' (as @ b # bs')" using cnt' es(2) n(2) unfolding counted_def r'(2) by (simp add: s'_def)
    moreover have "r = R_int 0" "m = sl_map s' (as @ b # bs')"
      using m b(2) n(2) unfolding sl_map_def r'(2) by (auto simp: Let_def ge es_def s'_def ab(2) split: prod.splits if_splits)
    ultimately show ?thesis using r'(1) by (auto simp: sl_inv_def)
  qed
qed

lemma set_node_n_ele: "set_node (s\<lparr>n_ele := x\<rparr>) b n = (set_node s b n)\<lparr>n_ele := x\<rparr>"
  by (simp add: set_node_def)

text \<open>A node goes away with its last element.\<close>

lemma remove_entry:
  assumes ord: "sl_ordered s (as @ b # bs)" and cnt: "counted s (as @ b # bs)" and pr: "preds s ptr as" and n: "nodes s b = Some n"
  shows "\<exists>s'. remove_node (set_node (data_free s fr) b (n\<lparr>sn_ele := [None]\<rparr>)\<lparr>n_ele := n_ele s - int (length (sn_ele n))\<rparr>) ptr b = Some s' \<and>
    sl_inv s' (as @ bs) \<and> sl_map s' (as @ bs) = (sl_map s ns)\<lparr>sm_items := items s as @ items s bs, sm_freed := sl_freed s @ fr\<rparr>"
proof -
  obtain k' where e: "entry s b = (k', sn_ele n)" using entry_node [OF ord] n by (cases "entry s b") auto
  define s1 where "s1 = set_node (data_free s fr) b (n\<lparr>sn_ele := [None]\<rparr>)\<lparr>n_ele := n_ele s - int (length (sn_ele n))\<rparr>"
  have ord0: "sl_ordered (data_free s fr) (as @ b # bs)" "nodes (data_free s fr) b = Some n" using ord n by auto
  have i1: "sl_ordered s1 (as @ b # bs)" "items s1 (as @ b # bs) = items s as @ (k', [None]) # items s bs"
    using set_ele_ordered [OF ord0, of "[None]"] e by (auto simp: s1_def)
  have rep: "sl_rep (data_free s fr) (as @ b # bs)" using ord0(1) by (simp add: sl_ordered_def)
  have "preds s1 ptr as" using pr set_ele_result(4) [OF rep, of b n "[None]"] n by (simp add: s1_def)
  moreover have "nodes s1 b = Some (n\<lparr>sn_ele := [None]\<rparr>)" by (simp add: s1_def)
  ultimately obtain s' where s': "remove_node s1 ptr b = Some s'" "sl_ordered s' (as @ bs)" "items s' (as @ bs) = items s1 (as @ bs)"
    "allow_dups s' = allow_dups s1" "n_keys s' = n_keys s1 - 1" "n_ele s' = n_ele s1" "compare s' = compare s1"
    "sl_freed s' = sl_freed s1 @ freed_eles (sn_ele (n\<lparr>sn_ele := [None]\<rparr>))"
    using remove_node_ordered [OF i1(1)] by blast
  have i2: "items s' (as @ bs) = items s as @ items s bs" using i1(2) s'(3) by simp
  have "counted s' (as @ bs)" using cnt s'(5,6) e unfolding counted_def i2 by (simp add: s1_def)
  moreover have "sl_map s' (as @ bs) = (sl_map s ns)\<lparr>sm_items := items s as @ items s bs, sm_freed := sl_freed s @ fr\<rparr>"
    using s'(4,7,8) unfolding sl_map_def i2 by (simp add: s1_def freed_eles_def)
  ultimately show ?thesis using s'(1,2) by (auto simp: sl_inv_def s1_def)
qed

lemma remove_refines:
  assumes inv: "sl_inv s ns" and m: "sm_step (Sl_remove k d) (sl_map s ns) = Some (r, m)"
  shows "\<exists>s' ns'. sl_step (Sl_remove k d) s = Some (r, s') \<and> sl_inv s' ns' \<and> sl_map s' ns' = m"
proof -
  have ord: "sl_ordered s ns" and cnt: "counted s ns" using inv by (auto simp: sl_inv_def)
  obtain as bs ptr c where ab: "ns = as @ bs" "items s as = items_lt (compare s) k (items s ns)" "items s bs = items_ge (compare s) k (items s ns)"
    and f: "find_key s no_ptr (Some k) 0 = Some (ptr, c)" "preds s ptr as" "ptr_next s ptr = Some (case bs of [] \<Rightarrow> None | b # _ \<Rightarrow> Some b)"
      "c = 0 \<longleftrightarrow> items_at (compare s) k (items s ns) \<noteq> None" "c = 0 \<Longrightarrow> \<exists>b bs'. bs = b # bs' \<and> items_at (compare s) k (items s ns) = Some (entry s b)"
      "get_ptr ptr 0 = Some (last (head s # as))"
    by (rule find_key_ordered [OF ord, of k 0]) blast
  show ?thesis
  proof (cases "c = 0")
    case False
    then have "items_at (compare s) k (items s ns) = None" using f(4) by blast
    then have "r = R_int 1" "m = sl_map s ns" using m by (simp_all add: sl_map_def)
    moreover have "tbx_sl_remove s (Some k) d = Some (1, s)" using f(1) False by (simp add: tbx_sl_remove_def)
    ultimately show ?thesis using inv by auto
  next
    case True
    then obtain b bs' where b: "bs = b # bs'" "items_at (compare s) k (items s ns) = Some (entry s b)" using f(5) by blast
    have ord': "sl_ordered s (as @ b # bs')" using ord ab(1) b(1) by simp
    obtain n where n: "nodes s b = Some n" "sn_ele n = snd (entry s b)" "sn_ele n \<noteq> []" using entry_node [OF ord'] by blast
    have ge: "items_ge (compare s) k (items s ns) = entry s b # items s bs'" using ab(3) b(1) by simp
    have cnt': "n_keys s = int (length (as @ b # bs'))" "n_ele s = int (sum_list (map (length \<circ> snd) (items s (as @ b # bs'))))"
      using cnt ab(1) b(1) by (auto simp: counted_def)
    obtain k' es where e: "entry s b = (k', es)" "sn_ele n = es" using n(2) by (cases "entry s b") auto
    have found: "find_key s no_ptr (Some k) 0 = Some (ptr, 0)" "ptr_next s ptr = Some (Some b)" using f(1,3) True b(1) by auto
    have mi: "sm_items (sl_map s ns) = items s ns" "sm_compare (sl_map s ns) = compare s" "sm_freed (sl_map s ns) = sl_freed s" by (simp_all add: sl_map_def)
    have cnt0: "counted s (as @ b # bs')" using cnt ab(1) b(1) by simp
    note drop = remove_entry [OF ord' cnt0 f(2) n(1), of _ ns, unfolded e(2)]
    show ?thesis
    proof (cases d)
      case None
      obtain s' where s': "remove_node (set_node (data_free s (freed_eles es)) b (n\<lparr>sn_ele := [None]\<rparr>)\<lparr>n_ele := n_ele s - int (length es)\<rparr>) ptr b = Some s'"
        "sl_inv s' (as @ bs')" "sl_map s' (as @ bs') = (sl_map s ns)\<lparr>sm_items := items s as @ items s bs', sm_freed := sl_freed s @ freed_eles es\<rparr>" using drop by blast
      have "tbx_sl_remove s (Some k) None = Some (0, s')" using found n(1) e s'(1) by (simp add: tbx_sl_remove_def)
      moreover have "r = R_int 0" "m = sl_map s' (as @ bs')" using m None b(2) e ge s'(3) ab(2) by (auto simp: Let_def mi)
      ultimately show ?thesis using None s'(2) by auto
    next
      case (Some x)
      show ?thesis
      proof (cases "Some x \<in> set es")
        case False
        then have "tbx_sl_remove s (Some k) d = Some (1, s)" using found n(1,3) e Some by (cases es) (auto simp: tbx_sl_remove_def)
        moreover have "r = R_int 1" "m = sl_map s ns" using m Some b(2) e False by (auto simp: Let_def mi)
        ultimately show ?thesis using inv by auto
      next
        case True
        show ?thesis
        proof (cases "remove1 (Some x) es = []")
          case last: True
          then have es: "es = [Some x]" using True by (cases es) (auto split: if_splits)
          obtain s' where s': "remove_node (set_node (data_free s [Some x]) b (n\<lparr>sn_ele := [None]\<rparr>)\<lparr>n_ele := n_ele s - int (length es)\<rparr>) ptr b = Some s'"
            "sl_inv s' (as @ bs')" "sl_map s' (as @ bs') = (sl_map s ns)\<lparr>sm_items := items s as @ items s bs', sm_freed := sl_freed s @ [Some x]\<rparr>" using drop by blast
          have "tbx_sl_remove s (Some k) d = Some (0, s')" using found n(1) e s'(1) Some es by (simp add: tbx_sl_remove_def set_node_n_ele)
          moreover have "r = R_int 0" "m = sl_map s' (as @ bs')" using m Some b(2) e ge s'(3) ab(2) es by (auto simp: Let_def mi)
          ultimately show ?thesis using s'(2) by auto
        next
          case False
          define s' where "s' = set_node ((data_free s [Some x])\<lparr>n_ele := n_ele s - 1\<rparr>) b (n\<lparr>sn_ele := remove1 (Some x) es\<rparr>)"
          have ord0: "sl_ordered ((data_free s [Some x])\<lparr>n_ele := n_ele s - 1\<rparr>) (as @ b # bs')" using ord' by simp
          have r': "sl_ordered s' (as @ b # bs')" "items s' (as @ b # bs') = items s as @ (k', remove1 (Some x) es) # items s bs'"
            using set_ele_ordered [OF ord0 _ False, of n] n(1) e by (auto simp: s'_def)
          have "hd es = Some x \<Longrightarrow> remove1 (Some x) es = tl es" "hd es \<noteq> Some x \<Longrightarrow> remove1 (Some x) es = hd es # remove1 (Some x) (tl es)"
            using n(3) e by (cases es; simp)+
          moreover have "hd es \<noteq> Some x \<Longrightarrow> Some x \<in> set (tl es)" using True by (cases es) auto
          ultimately have "tbx_sl_remove s (Some k) d = Some (0, s')"
            using found n(1) e Some False by (auto simp: tbx_sl_remove_def Let_def s'_def set_node_def data_free_def)
          moreover have "int (length (remove1 (Some x) es)) = int (length es) - 1" using True length_pos_if_in_set [OF True] by (simp add: length_remove1 of_nat_diff Suc_leI)
          then have "counted s' (as @ b # bs')" using cnt' e unfolding counted_def r'(2) by (simp add: s'_def)
          moreover have "r = R_int 0" "m = sl_map s' (as @ b # bs')"
            using m Some b(2) e ge ab(2) True False unfolding sl_map_def r'(2) by (auto simp: Let_def s'_def)
          ultimately show ?thesis using r'(1) by (auto simp: sl_inv_def)
        qed
      qed
    qed
  qed
qed

lemma search_refines:
  assumes inv: "sl_inv s ns"
  shows "tbx_sl_search_compare s k (compare s) = Some (case items_at (compare s) k (items s ns) of None \<Rightarrow> None | Some (k', es) \<Rightarrow> hd es)"
proof -
  have ord: "sl_ordered s ns" using inv by (simp add: sl_inv_def)
  obtain as bs ptr c where ab: "ns = as @ bs" "items s as = items_lt (compare s) k (items s ns)" "items s bs = items_ge (compare s) k (items s ns)"
    and f: "find_key s no_ptr (Some k) 0 = Some (ptr, c)" "preds s ptr as" "ptr_next s ptr = Some (case bs of [] \<Rightarrow> None | b # _ \<Rightarrow> Some b)"
      "c = 0 \<longleftrightarrow> items_at (compare s) k (items s ns) \<noteq> None" "c = 0 \<Longrightarrow> \<exists>b bs'. bs = b # bs' \<and> items_at (compare s) k (items s ns) = Some (entry s b)"
      "get_ptr ptr 0 = Some (last (head s # as))"
    by (rule find_key_ordered [OF ord, of k 0]) blast
  obtain p where p: "get_ptr ptr 0 = Some p" "sl_next s p 0 = Some (case bs of [] \<Rightarrow> None | b # _ \<Rightarrow> Some b)" using f(3,6) by (auto simp: ptr_next_def)
  then have it: "\<exists>it. tbx_sl_iter_search_compare s (Some k) (compare s) 0 = Some it \<and> it_sn it = (case bs of [] \<Rightarrow> None | b # _ \<Rightarrow> Some b)"
    using f(1) by (auto simp: tbx_sl_iter_search_compare_def find_key_def)
  show ?thesis
  proof (cases bs)
    case Nil
    then show ?thesis using it ab(3) by (auto simp: tbx_sl_search_compare_def items_at_def)
  next
    case (Cons b bs')
    then have "sl_ordered s (as @ b # bs')" using ord ab(1) by simp
    then obtain n where n: "nodes s b = Some n" "sn_key n = Some (fst (entry s b))" "sn_ele n = snd (entry s b)" using entry_node by blast
    have "items_ge (compare s) k (items s ns) = entry s b # items s bs'" using ab(3) Cons by simp
    then show ?thesis using it n Cons by (auto simp: tbx_sl_search_compare_def items_at_def split: prod.splits)
  qed
qed

text \<open>NULL as the key finds the end that the fixed result of the comparison points to.\<close>

lemma find_fixed:
  assumes "sl_rep s ns" "if f < 0 then as = ns \<and> bs = [] else as = [] \<and> bs = ns"
  shows "\<exists>ptr c. find_key s no_ptr None f = Some (ptr, c) \<and> preds s ptr as"
proof -
  have "\<exists>ptr c. find_key_compare s no_ptr None (compare s) f = Some (ptr, c) \<and> preds s ptr as \<and> (case bs of [] \<Rightarrow> c < 0 | b # _ \<Rightarrow> c = f)"
    by (rule find_key_result [where bs = bs and ck = "\<lambda>_. f"]) (use assms in \<open>auto simp: compare_node_def split: if_splits\<close>)
  then show ?thesis unfolding find_key_def by blast
qed

lemma first_refines:
  assumes inv: "sl_inv s ns"
  shows "tbx_sl_first_key s = Some (if items s ns = [] then None else Some (fst (hd (items s ns))))"
proof (cases ns)
  case Nil
  then show ?thesis using inv by (simp add: tbx_sl_first_key_def sl_inv_def counted_def)
next
  case (Cons a ns')
  have rep: "sl_rep s ([] @ ns)" using inv by (simp add: sl_inv_def sl_ordered_def)
  obtain ptr c where f: "find_key s no_ptr None 1 = Some (ptr, c)" "preds s ptr []" using find_fixed [of s ns 1 "[]" ns] rep by auto
  have "sl_ordered s ([] @ a # ns')" using inv Cons by (simp add: sl_inv_def)
  then obtain n where "nodes s a = Some n" "sn_key n = Some (fst (entry s a))" using entry_node by blast
  moreover have "n_keys s > 0" using inv Cons by (simp add: sl_inv_def counted_def)
  ultimately show ?thesis using f(1) preds_next(1) [OF rep f(2)] Cons by (simp add: tbx_sl_first_key_def)
qed

lemma last_refines:
  assumes inv: "sl_inv s ns"
  shows "tbx_sl_key_last s = Some (if items s ns = [] then None else Some (fst (last (items s ns))))"
proof (cases ns rule: rev_cases)
  case Nil
  then show ?thesis using inv by (simp add: tbx_sl_key_last_def sl_inv_def counted_def)
next
  case (snoc ns' a)
  have rep: "sl_rep s (ns @ [])" using inv by (simp add: sl_inv_def sl_ordered_def)
  obtain ptr c where f: "find_key s no_ptr None (-1) = Some (ptr, c)" "preds s ptr ns" using find_fixed [of s ns "-1" ns "[]"] rep by auto
  have "sl_ordered s (ns' @ a # [])" using inv snoc by (simp add: sl_inv_def)
  then obtain n where "nodes s a = Some n" "sn_key n = Some (fst (entry s a))" using entry_node by blast
  moreover have "n_keys s > 0" using inv snoc by (simp add: sl_inv_def counted_def)
  ultimately show ?thesis using f(1) preds_next(2) [OF rep f(2)] snoc by (simp add: tbx_sl_key_last_def)
qed

lemma destroy_chain_result:
  assumes "distinct q" "\<forall>a \<in> set q. node_ok s a" "\<forall>p a r. q = p @ a # r \<longrightarrow> nx s a 0 = (case r of [] \<Rightarrow> None | b # _ \<Rightarrow> Some b)"
  shows "destroy_chain s (case q of [] \<Rightarrow> None | b # _ \<Rightarrow> Some b) =
    Some (s\<lparr>nodes := (\<lambda>a. if a \<in> set q then None else nodes s a), sl_freed := sl_freed s @ concat (map (\<lambda>a. freed_eles (sn_ele (the (nodes s a)))) q)\<rparr>)"
  using assms
proof (induction q arbitrary: s)
  case Nil
  show ?case by (subst destroy_chain.simps) simp
next
  case (Cons a q)
  obtain n where n: "nodes s a = Some n" using Cons.prems(2) by (auto simp: node_ok_def)
  have nx: "sl_next s a 0 = Some (case q of [] \<Rightarrow> None | b # _ \<Rightarrow> Some b)"
    using sl_next_ok [of s a 0] Cons.prems(2) Cons.prems(3) [rule_format, of "[]" a q] by simp
  define s1 where "s1 = (data_free s (freed_eles (sn_ele n)))\<lparr>nodes := (nodes s)(a := None)\<rparr>"
  have d: "destroy_skiplist_node s a = Some s1" using n by (simp add: destroy_skiplist_node_def s1_def)
  have oth: "x \<noteq> a \<Longrightarrow> node_ok s1 x = node_ok s x" "x \<noteq> a \<Longrightarrow> nx s1 x i = nx s x i" "x \<noteq> a \<Longrightarrow> nodes s1 x = nodes s x" for x i
    by (auto simp: node_ok_def nx_def s1_def)
  have ne: "x \<in> set q \<Longrightarrow> x \<noteq> a" for x using Cons.prems(1) by auto
  have IH: "destroy_chain s1 (case q of [] \<Rightarrow> None | b # _ \<Rightarrow> Some b) =
    Some (s1\<lparr>nodes := (\<lambda>a. if a \<in> set q then None else nodes s1 a), sl_freed := sl_freed s1 @ concat (map (\<lambda>a. freed_eles (sn_ele (the (nodes s1 a)))) q)\<rparr>)"
  proof (rule Cons.IH)
    show "\<forall>x \<in> set q. node_ok s1 x" using Cons.prems(2) by (simp add: oth(1) ne)
    show "\<forall>p x r. q = p @ x # r \<longrightarrow> nx s1 x 0 = (case r of [] \<Rightarrow> None | b # _ \<Rightarrow> Some b)"
    proof (intro allI impI)
      fix p x r assume q: "q = p @ x # r"
      then have "nx s x 0 = (case r of [] \<Rightarrow> None | b # _ \<Rightarrow> Some b)" using Cons.prems(3) [rule_format, of "a # p" x r] by simp
      moreover have "x \<noteq> a" using Cons.prems(1) q by auto
      ultimately show "nx s1 x 0 = (case r of [] \<Rightarrow> None | b # _ \<Rightarrow> Some b)" using oth(2) by simp
    qed
  qed (use Cons.prems(1) in simp)
  have mp: "map (\<lambda>x. freed_eles (sn_ele (the (nodes s1 x)))) q = map (\<lambda>x. freed_eles (sn_ele (the (nodes s x)))) q" by (simp add: oth(3) ne)
  have fn: "(\<lambda>x. if x \<in> set q then None else nodes s1 x) = (\<lambda>x. if x \<in> set (a # q) then None else nodes s x)" by (auto simp: s1_def)
  have "destroy_chain s (Some a) = destroy_chain s1 (case q of [] \<Rightarrow> None | b # _ \<Rightarrow> Some b)" using nx d by (subst destroy_chain.simps) simp
  then show ?case unfolding IH mp fn by (simp add: s1_def data_free_def n)
qed

lemma empty_refines:
  assumes inv: "sl_inv s ns"
  shows "\<exists>s'. tbx_sl_empty s = Some s' \<and> sl_inv s' [] \<and> sl_map s' [] = (sl_map s ns)\<lparr>sm_items := [], sm_freed := sl_freed s @ concat (map (freed_eles \<circ> snd) (items s ns))\<rparr>"
proof -
  have rep: "sl_rep s ns" and cmp: "key_compare (compare s)" and keyed: "\<forall>a \<in> set ns. keyed s a" using inv by (auto simp: sl_inv_def sl_ordered_def)
  have ok: "node_ok s (head s)" and lv: "lvl s (head s) = max_levels s - 1" "0 < max_levels s" and new: "head s \<notin> set ns" "distinct ns" "dom (nodes s) = insert (head s) (set ns)"
    using rep by (auto simp: sl_rep_def)
  obtain n where n: "nodes s (head s) = Some n" "length (sn_next n) = max_levels s" "sn_level n = max_levels s - 1" "sn_ele n \<noteq> []" using ok lv by (auto simp: node_ok_def lvl_def)
  define s1 where "s1 = set_node (s\<lparr>n_keys := 0, n_ele := 0, current_max := 0\<rparr>) (head s) (n\<lparr>sn_next := replicate (max_levels s) None\<rparr>)"
  have oth: "x \<noteq> head s \<Longrightarrow> node_ok s1 x = node_ok s x" "x \<noteq> head s \<Longrightarrow> nx s1 x i = nx s x i" "x \<noteq> head s \<Longrightarrow> nodes s1 x = nodes s x" for x i
    by (auto simp: node_ok_def nx_def s1_def)
  have ne: "x \<in> set ns \<Longrightarrow> x \<noteq> head s" for x using new(1) by auto
  have links: "links (lvl s) (nx s) ns" using rep by (simp add: sl_rep_def)
  define s' where "s' = s1\<lparr>nodes := (\<lambda>a. if a \<in> set ns then None else nodes s1 a), sl_freed := sl_freed s1 @ concat (map (\<lambda>a. freed_eles (sn_ele (the (nodes s1 a)))) ns)\<rparr>"
  have "destroy_chain s1 (case ns of [] \<Rightarrow> None | b # _ \<Rightarrow> Some b) = Some s'"
    unfolding s'_def
  proof (rule destroy_chain_result [OF new(2)])
    show "\<forall>a \<in> set ns. node_ok s1 a" using rep by (simp add: sl_rep_def oth(1) ne)
    show "\<forall>p a r. ns = p @ a # r \<longrightarrow> nx s1 a 0 = (case r of [] \<Rightarrow> None | b # _ \<Rightarrow> Some b)"
    proof (intro allI impI)
      fix p a r assume "ns = p @ a # r"
      then show "nx s1 a 0 = (case r of [] \<Rightarrow> None | b # _ \<Rightarrow> Some b)" using linksD [of "lvl s" "nx s" p a r 0] links ne [of a] oth(2) [of a 0] by (auto split: list.split)
    qed
  qed
  moreover have "sl_next s (head s) 0 = Some (case ns of [] \<Rightarrow> None | b # _ \<Rightarrow> Some b)" using sl_rep_next [OF rep, of "[]"] by simp
  ultimately have r: "tbx_sl_empty s = Some s'" using n by (simp add: tbx_sl_empty_def Let_def s1_def)
  have nodes': "nodes s' = (\<lambda>a. if a = head s then Some (n\<lparr>sn_next := replicate (max_levels s) None\<rparr>) else None)"
  proof
    fix a show "nodes s' a = (if a = head s then Some (n\<lparr>sn_next := replicate (max_levels s) None\<rparr>) else None)"
      using new(1,3) by (cases "a = head s") (auto simp: s'_def s1_def dom_def set_eq_iff)
  qed
  have "sl_rep s' []" using rep n lv unfolding sl_rep_def nodes' by (auto simp: s'_def s1_def node_ok_def lvl_def nx_def nodes' split: if_splits)
  moreover have mp: "map (\<lambda>a. freed_eles (sn_ele (the (nodes s1 a)))) ns = map (freed_eles \<circ> snd) (items s ns)"
  proof -
    have "sn_ele (the (nodes s1 a)) = snd (entry s a)" if "a \<in> set ns" for a using keyed_node [of s a] keyed that oth(3) [OF ne [OF that]] by auto
    then show ?thesis by simp
  qed
  have "sl_freed s' = sl_freed s1 @ concat (map (freed_eles \<circ> snd) (items s ns))" unfolding s'_def mp by simp
  then have "sl_freed s' = sl_freed s @ concat (map (freed_eles \<circ> snd) (items s ns))" by (simp add: s1_def)
  moreover have "compare s' = compare s" "allow_dups s' = allow_dups s" "n_keys s' = 0" "n_ele s' = 0" by (simp_all add: s'_def s1_def)
  ultimately show ?thesis using r cmp by (auto simp: sl_inv_def sl_ordered_def counted_def sl_map_def)
qed

section \<open>Sequences of operations\<close>

text \<open>The nodes in order, found by following the links of level 0.\<close>

primrec walk :: "('k, 'd) tbx_sl_t \<Rightarrow> nat \<Rightarrow> nat option \<Rightarrow> nat list" where
  "walk s 0 p = []"
| "walk s (Suc n) p = (case p of None \<Rightarrow> [] | Some a \<Rightarrow> a # walk s n (nx s a 0))"

definition sl_nodes :: "('k, 'd) tbx_sl_t \<Rightarrow> nat list" where
  "sl_nodes s = walk s (sl_brk s) (nx s (head s) 0)"

definition sl_okay :: "('k, 'd) tbx_sl_t \<Rightarrow> bool" where
  "sl_okay s \<longleftrightarrow> sl_inv s (sl_nodes s)"

definition sl_abs :: "('k, 'd) tbx_sl_t \<Rightarrow> ('k, 'd) smap" where
  "sl_abs s = sl_map s (sl_nodes s)"

lemma walk_links: "links (lvl s) (nx s) q \<Longrightarrow> length q \<le> n \<Longrightarrow> walk s n (case q of [] \<Rightarrow> None | a # _ \<Rightarrow> Some a) = q"
proof (induction q arbitrary: n)
  case Nil
  then show ?case by (cases n) auto
next
  case (Cons a q)
  then obtain m where m: "n = Suc m" by (cases n) auto
  have "nx s a 0 = (case q of [] \<Rightarrow> None | b # _ \<Rightarrow> Some b)" using linksD [of "lvl s" "nx s" "[]" a q 0] Cons.prems(1) by (auto split: list.split)
  then show ?case using Cons m by simp
qed

lemma sl_nodes_eq: "sl_rep s ns \<Longrightarrow> sl_nodes s = ns"
proof -
  assume rep: "sl_rep s ns"
  then have ns: "distinct ns" "set ns \<subseteq> {..<sl_brk s}" and l: "links (lvl s) (nx s) (head s # ns)" by (auto simp: sl_rep_def)
  have "length ns = card (set ns)" using ns(1) by (simp add: distinct_card)
  also have "\<dots> \<le> sl_brk s" using card_mono [OF _ ns(2)] by simp
  finally have "length ns \<le> sl_brk s" .
  moreover have "nx s (head s) 0 = (case ns of [] \<Rightarrow> None | b # _ \<Rightarrow> Some b)" using linksD [of "lvl s" "nx s" "[]" "head s" ns 0] l by (auto split: list.split)
  ultimately show ?thesis using walk_links [of s ns "sl_brk s"] l by (simp add: sl_nodes_def)
qed

lemma sl_inv_okay: "sl_inv s ns \<Longrightarrow> sl_okay s \<and> sl_abs s = sl_map s ns"
  using sl_nodes_eq [of s ns] by (simp add: sl_okay_def sl_abs_def sl_inv_def sl_ordered_def)

interpretation skiplist: data_refinement sl_step sm_step sl_abs sl_okay
proof
  fix s :: "('k, 'd) tbx_sl_t" and x r a
  assume ok: "sl_okay s" and spec: "sm_step x (sl_abs s) = Some (r, a)"
  define ns where "ns = sl_nodes s"
  have inv: "sl_inv s ns" and m: "sm_step x (sl_map s ns) = Some (r, a)" using ok spec by (auto simp: sl_okay_def sl_abs_def ns_def)
  have "\<exists>s' ns'. sl_step x s = Some (r, s') \<and> sl_inv s' ns' \<and> sl_map s' ns' = a"
  proof (cases x)
    case (Sl_insert draws k d)
    then show ?thesis using insert_refines [OF inv] m by blast
  next
    case (Sl_remove k d)
    then show ?thesis using remove_refines [OF inv] m by blast
  next
    case (Sl_search k)
    then show ?thesis using search_refines [OF inv, of k] inv m by (auto simp: sl_map_def)
  next
    case Sl_first
    then show ?thesis using first_refines [OF inv] inv m by (auto simp: sl_map_def)
  next
    case Sl_last
    then show ?thesis using last_refines [OF inv] inv m by (auto simp: sl_map_def)
  next
    case Sl_key_count
    then show ?thesis using inv m by (auto simp: sl_map_def sl_inv_def counted_def tbx_sl_key_count_def)
  next
    case Sl_element_count
    then show ?thesis using inv m by (auto simp: sl_map_def sl_inv_def counted_def skiplist_element_count_def)
  next
    case Sl_empty
    then show ?thesis using empty_refines [OF inv] m by (auto simp: sl_map_def)
  qed
  then show "\<exists>s'. sl_step x s = Some (r, s') \<and> sl_okay s' \<and> sl_abs s' = a" using sl_inv_okay by blast
qed

lemma sm_step_total: "\<exists>r m'. sm_step x m = Some (r, m')"
  by (cases x) (auto simp: Let_def split: option.splits prod.splits)

lemma sm_run_total: "\<exists>rs m'. run_ops sm_step xs m = Some (rs, m')"
proof (induction xs arbitrary: m)
  case (Cons x xs)
  obtain r m1 where "sm_step x m = Some (r, m1)" using sm_step_total by blast
  moreover obtain rs m2 where "run_ops sm_step xs m1 = Some (rs, m2)" using Cons.IH by blast
  ultimately show ?case by simp
qed simp

lemma init_okay:
  fixes cmp :: "'k \<Rightarrow> 'k \<Rightarrow> int"
  assumes "key_compare cmp" "0 < levels" "levels \<le> SKIPLIST_MAX_LEVEL"
  shows "\<exists>s :: ('k, 'd) tbx_sl_t. tbx_sl_init_full levels dups cmp = Some s \<and> sl_okay s \<and> sl_abs s = \<lparr>sm_compare = cmp, sm_dups = dups, sm_items = [], sm_freed = []\<rparr>"
proof -
  obtain s :: "('k, 'd) tbx_sl_t" where s: "tbx_sl_init_full levels dups cmp = Some s" using assms(2) by (simp add: tbx_sl_init_full_def create_skiplist_node_def)
  then have "sl_rep s []" using assms(2,3)
    by (auto simp: tbx_sl_init_full_def create_skiplist_node_def sl_rep_def node_ok_def lvl_def nx_def set_node_def split: if_splits)
  moreover have "compare s = cmp" "n_keys s = 0" "n_ele s = 0" "allow_dups s = dups" "sl_freed s = []"
    using s assms(2) by (auto simp: tbx_sl_init_full_def create_skiplist_node_def)
  ultimately have "sl_inv s []" "sl_map s [] = \<lparr>sm_compare = cmp, sm_dups = dups, sm_items = [], sm_freed = []\<rparr>"
    using assms(1) by (auto simp: sl_inv_def sl_ordered_def counted_def sl_map_def)
  then show ?thesis using s sl_inv_okay [of s "[]"] by auto
qed

lemma sl_run_refines:
  assumes "sl_okay s"
  shows "\<exists>rs s' m. run_ops sm_step ops (sl_abs s) = Some (rs, m) \<and> run_ops sl_step ops s = Some (rs, s') \<and> sl_okay s' \<and> sl_abs s' = m"
proof -
  obtain rs m where m: "run_ops sm_step ops (sl_abs s) = Some (rs, m)" using sm_run_total by blast
  then show ?thesis using skiplist.run_simulates [OF assms m] by auto
qed

text \<open>
  C3: A new skip list with at most 32 levels behaves, for every sequence of inserts, removals, searches, questions for the
  first and the last key, counts and emptyings, and for all random levels, like a sorted list of keys with their data:
  all results agree, exactly the data that leave the list are freed, and no access is undefined.
\<close>

theorem skiplist_refines_map:
  fixes cmp :: "'k \<Rightarrow> 'k \<Rightarrow> int" and ops :: "('k, 'd) sl_op list"
  assumes "key_compare cmp" "0 < levels" "levels \<le> SKIPLIST_MAX_LEVEL"
  shows "\<exists>s rs s' m. tbx_sl_init_full levels dups cmp = Some s \<and>
    run_ops sm_step ops \<lparr>sm_compare = cmp, sm_dups = dups, sm_items = [], sm_freed = []\<rparr> = Some (rs, m) \<and>
    run_ops sl_step ops s = Some (rs, s') \<and> sl_okay s' \<and> sl_abs s' = m"
proof -
  obtain s :: "('k, 'd) tbx_sl_t" where s: "tbx_sl_init_full levels dups cmp = Some s" "sl_okay s" "sl_abs s = \<lparr>sm_compare = cmp, sm_dups = dups, sm_items = [], sm_freed = []\<rparr>"
    using init_okay [OF assms] by blast
  then show ?thesis using sl_run_refines [OF s(2), of ops] by auto
qed

theorem skiplist_refines_map_witness:
  "\<exists>s rs s' m. tbx_sl_init_full 16 True (skiplist_compare_fn_int 1) = Some s \<and>
    run_ops sm_step [Sl_insert (\<lambda>i. i < 2) 5 (Some ''a''), Sl_insert (\<lambda>i. False) 3 (Some ''b''), Sl_search 5]
      \<lparr>sm_compare = skiplist_compare_fn_int 1, sm_dups = True, sm_items = [], sm_freed = []\<rparr> = Some (rs, m) \<and>
    run_ops sl_step [Sl_insert (\<lambda>i. i < 2) 5 (Some ''a''), Sl_insert (\<lambda>i. False) 3 (Some ''b''), Sl_search 5] s = Some (rs, s') \<and> sl_okay s' \<and> sl_abs s' = m"
  by (rule skiplist_refines_map [OF cmp_int.key_compare_axioms]) (simp_all add: SKIPLIST_MAX_LEVEL_def)

section \<open>Iteration\<close>

text \<open>All pairs that an iterator returns, with at most \<open>n\<close> calls.\<close>

primrec iter_all :: "nat \<Rightarrow> ('k, 'd) tbx_sl_t \<Rightarrow> tbx_sl_iter_t \<Rightarrow> ('k option \<times> 'd option) list option" where
  "iter_all 0 s it = None"
| "iter_all (Suc n) s it =
     (case tbx_sl_next s it of
        None \<Rightarrow> None
      | Some (r, k, d, it) \<Rightarrow> if r \<noteq> 0 then Some [] else map_option ((#) (k, d)) (iter_all n s it))"

definition item_pairs :: "('k \<times> 'd option list) \<Rightarrow> ('k option \<times> 'd option) list" where
  "item_pairs x = map (Pair (Some (fst x))) (snd x)"

text \<open>An iterator inside the chain of a node, or behind its end.\<close>

definition iter_at :: "('k, 'd) tbx_sl_t \<Rightarrow> tbx_sl_iter_t \<Rightarrow> nat \<Rightarrow> nat \<Rightarrow> bool" where
  "iter_at s it a j \<longleftrightarrow> it_sn it = Some a \<and> it_ele it = (if j < length (snd (entry s a)) then Some (a, j) else None) \<and>
     j \<le> length (snd (entry s a)) \<and> length (it_ptr it) = SKIPLIST_MAX_LEVEL"

lemma ptrs_from_result:
  assumes "node_ok s a" "\<forall>i \<in> set is. i \<le> lvl s a" "lvl s a < length ptr"
  shows "\<exists>ptr'. ptrs_from s a ptr is = Some ptr' \<and> length ptr' = length ptr"
  using assms
proof (induction "is" arbitrary: ptr)
  case (Cons i "is")
  then have "sl_next s a i = Some (nx s a i)" "set_ptr ptr i (nx s a i) = Some (ptr[i := nx s a i])" using sl_next_ok by (auto simp: set_ptr_def)
  then show ?case using Cons.IH [of "ptr[i := nx s a i]"] Cons.prems by auto
qed simp

lemma next_get_result:
  assumes ord: "sl_ordered s (p @ a # q)" and "iter_at s it a j" "j < length (snd (entry s a))"
  shows "\<exists>it'. next_get s it = Some (0, Some (fst (entry s a)), snd (entry s a) ! j, it') \<and> iter_at s it' a (j + 1)"
proof -
  obtain n where "nodes s a = Some n" "sn_key n = Some (fst (entry s a))" "sn_ele n = snd (entry s a)" using entry_node [OF ord] by blast
  then show ?thesis using assms(2,3) by (auto simp: next_get_def iter_at_def ele_at_def)
qed

lemma iter_all_result:
  assumes "sl_ordered s (p @ a # q)" "iter_at s it a j" "n = length (drop j (item_pairs (entry s a)) @ concat (map item_pairs (items s q)))"
  shows "iter_all (Suc n) s it = Some (drop j (item_pairs (entry s a)) @ concat (map item_pairs (items s q)))"
  using assms
proof (induction n arbitrary: p a q it j)
  case 0
  then have j: "j = length (snd (entry s a))" by (auto simp: item_pairs_def iter_at_def)
  have "q = []"
  proof (rule ccontr)
    assume "q \<noteq> []"
    then obtain b q' where "q = b # q'" by (cases q) auto
    then show False using 0 entry_node [of s "p @ [a]" b q'] by (auto simp: item_pairs_def)
  qed
  moreover have rep: "sl_rep s (p @ a # q)" using 0 by (simp add: sl_ordered_def)
  ultimately have "sl_next s a 0 = Some None" using sl_rep_next [OF rep, of "head s # p" a q] by simp
  moreover obtain n where "nodes s a = Some n" using sl_rep_nodes [OF rep, of a] by (auto simp: node_ok_def)
  ultimately have "\<exists>it'. tbx_sl_next s it = Some (1, None, None, it')" using 0 j by (auto simp: tbx_sl_next_def iter_at_def)
  then show ?case using 0 by auto
next
  case (Suc n)
  show ?case
  proof (cases "j < length (snd (entry s a))")
    case True
    obtain it' where it': "next_get s it = Some (0, Some (fst (entry s a)), snd (entry s a) ! j, it')" "iter_at s it' a (j + 1)"
      using next_get_result [OF Suc.prems(1,2) True] by blast
    have "tbx_sl_next s it = next_get s it" using Suc.prems(2) True by (simp add: tbx_sl_next_def iter_at_def)
    moreover have "drop j (item_pairs (entry s a)) = (Some (fst (entry s a)), snd (entry s a) ! j) # drop (j + 1) (item_pairs (entry s a))"
      using True by (simp add: item_pairs_def drop_map flip: Cons_nth_drop_Suc)
    ultimately show ?thesis using it' Suc.IH [OF Suc.prems(1) it'(2)] Suc.prems(3) by simp
  next
    case False
    then have j: "j = length (snd (entry s a))" "it_ele it = None" "it_sn it = Some a" "length (it_ptr it) = SKIPLIST_MAX_LEVEL" using Suc.prems(2) by (auto simp: iter_at_def)
    then obtain b q' where q: "q = b # q'" using Suc.prems(3) by (cases q) (auto simp: item_pairs_def)
    have rep: "sl_rep s (p @ a # q)" using Suc.prems(1) by (simp add: sl_ordered_def)
    have nxt: "sl_next s a 0 = Some (Some b)" using sl_rep_next [OF rep, of "head s # p" a q] q by simp
    have ok: "node_ok s a" "lvl s a < length (it_ptr it)" using sl_rep_nodes [OF rep, of a] sl_rep_lvl [OF rep, of a] rep j(4) by (auto simp: sl_rep_def)
    obtain sn where n: "nodes s a = Some sn" "sn_level sn = lvl s a" using ok(1) by (auto simp: node_ok_def lvl_def)
    obtain ptr where ptr: "ptrs_from s a (it_ptr it) [0..<sn_level sn + 1] = Some ptr" "length ptr = SKIPLIST_MAX_LEVEL"
      using ptrs_from_result [OF ok(1) _ ok(2), of "[0..<sn_level sn + 1]"] n(2) j(4) by auto
    have ord: "sl_ordered s ((p @ [a]) @ b # q')" using Suc.prems(1) q by simp
    have ne: "0 < length (snd (entry s b))" using entry_node [OF ord] by auto
    then have at: "iter_at s (it\<lparr>it_sn := Some b, it_ele := Some (b, 0), it_ptr := ptr\<rparr>) b 0" using ptr(2) by (simp add: iter_at_def)
    obtain it' where it': "next_get s (it\<lparr>it_sn := Some b, it_ele := Some (b, 0), it_ptr := ptr\<rparr>) = Some (0, Some (fst (entry s b)), snd (entry s b) ! 0, it')"
      "iter_at s it' b 1" using next_get_result [OF ord at ne] by auto
    have "tbx_sl_next s it = Some (0, Some (fst (entry s b)), snd (entry s b) ! 0, it')" using j n(1) nxt ptr(1) it'(1) by (simp add: tbx_sl_next_def)
    moreover have "item_pairs (entry s b) = (Some (fst (entry s b)), snd (entry s b) ! 0) # drop 1 (item_pairs (entry s b))"
      using ne by (cases "snd (entry s b)") (auto simp: item_pairs_def)
    moreover from this have eq: "drop j (item_pairs (entry s a)) @ concat (map item_pairs (items s q)) =
        (Some (fst (entry s b)), snd (entry s b) ! 0) # drop 1 (item_pairs (entry s b)) @ concat (map item_pairs (items s q'))"
      using q j(1) by (simp add: item_pairs_def)
    moreover have "iter_all (Suc n) s it' = Some (drop 1 (item_pairs (entry s b)) @ concat (map item_pairs (items s q')))"
      using Suc.IH [OF ord it'(2)] Suc.prems(3) unfolding eq by simp
    ultimately show ?thesis unfolding eq by (subst iter_all.simps) simp
  qed
qed

text \<open>
  C16: An iterator that is started at a key returns the pairs of all keys that are not smaller, smallest key first and the
  data of a key in the order of its chain, and then reports the end.
\<close>

theorem skiplist_iterates:
  assumes "sl_okay s"
  shows "\<exists>it. tbx_sl_iter_search_compare s (Some k) (compare s) 0 = Some it \<and>
    (let xs = concat (map item_pairs (items_ge (compare s) k (sm_items (sl_abs s)))) in iter_all (length xs + 1) s it = Some xs)"
proof -
  define ns where "ns = sl_nodes s"
  have ord: "sl_ordered s ns" and abs: "sm_items (sl_abs s) = items s ns" using assms by (simp_all add: sl_okay_def sl_inv_def sl_abs_def sl_map_def ns_def)
  obtain as bs ptr c where ab: "ns = as @ bs" "items s as = items_lt (compare s) k (items s ns)" "items s bs = items_ge (compare s) k (items s ns)"
    and f: "find_key s no_ptr (Some k) 0 = Some (ptr, c)" "preds s ptr as" "ptr_next s ptr = Some (case bs of [] \<Rightarrow> None | b # _ \<Rightarrow> Some b)"
      "c = 0 \<longleftrightarrow> items_at (compare s) k (items s ns) \<noteq> None" "c = 0 \<Longrightarrow> \<exists>b bs'. bs = b # bs' \<and> items_at (compare s) k (items s ns) = Some (entry s b)"
      "get_ptr ptr 0 = Some (last (head s # as))"
    by (rule find_key_ordered [OF ord, of k 0]) blast
  obtain p where p: "get_ptr ptr 0 = Some p" "sl_next s p 0 = Some (case bs of [] \<Rightarrow> None | b # _ \<Rightarrow> Some b)" using f(3,6) by (auto simp: ptr_next_def)
  define it where "it = \<lparr>it_ele = map_option (\<lambda>a. (a, 0)) (case bs of [] \<Rightarrow> None | b # _ \<Rightarrow> Some b), it_curr = None, it_prev = None,
    it_sn = (case bs of [] \<Rightarrow> None | b # _ \<Rightarrow> Some b), it_ptr = ptr\<rparr>"
  have it: "tbx_sl_iter_search_compare s (Some k) (compare s) 0 = Some it" using p f(1) by (simp add: tbx_sl_iter_search_compare_def find_key_def it_def)
  define xs where "xs = concat (map item_pairs (items s bs))"
  have "iter_all (length xs + 1) s it = Some xs"
  proof (cases bs)
    case Nil
    then show ?thesis by (simp add: xs_def it_def tbx_sl_next_def)
  next
    case (Cons b bs')
    then have ord': "sl_ordered s (as @ b # bs')" using ord ab(1) by simp
    then have "iter_at s it b 0" using entry_node [OF ord'] f(2) Cons by (auto simp: iter_at_def it_def preds_def)
    then show ?thesis using iter_all_result [OF ord', of it 0 "length xs"] Cons by (simp add: xs_def)
  qed
  then show ?thesis using it unfolding abs ab(3) [symmetric] xs_def [symmetric] Let_def by blast
qed

text \<open>A list with the keys 3 and 5, and the data a, c and b.\<close>

definition ex_ops :: "(int, string) sl_op list" where
  "ex_ops = [Sl_insert (\<lambda>i. i < 2) 5 (Some ''b''), Sl_insert (\<lambda>i. False) 3 (Some ''a''), Sl_insert (\<lambda>i. False) 3 (Some ''c'')]"

definition ex_sl :: "(int, string) tbx_sl_t" where
  "ex_sl = snd (the (run_ops sl_step ex_ops (the (tbx_sl_init_full 16 True (skiplist_compare_fn_int 1)))))"

lemma ex_sl_ok: "sl_okay ex_sl" "compare ex_sl = skiplist_compare_fn_int 1" "sm_items (sl_abs ex_sl) = [(3, [Some ''a'', Some ''c'']), (5, [Some ''b''])]"
proof -
  let ?m = "\<lparr>sm_compare = skiplist_compare_fn_int 1, sm_dups = True, sm_items = [(3, [Some ''a'', Some ''c'']), (5, [Some ''b''])], sm_freed = []\<rparr>"
  obtain s where s: "tbx_sl_init_full 16 True (skiplist_compare_fn_int 1) = Some s" "sl_okay s"
    "sl_abs s = \<lparr>sm_compare = skiplist_compare_fn_int 1, sm_dups = True, sm_items = ([] :: (int \<times> string option list) list), sm_freed = []\<rparr>"
    using init_okay [OF cmp_int.key_compare_axioms, of 16 True] by (auto simp: SKIPLIST_MAX_LEVEL_def)
  have "run_ops sm_step ex_ops (sl_abs s) = Some ([R_int 0, R_int 0, R_int 0], ?m)"
    by (simp add: s(3) ex_ops_def items_at_def items_lt_def items_ge_def skiplist_compare_fn_int_def)
  then obtain s' where "run_ops sl_step ex_ops s = Some ([R_int 0, R_int 0, R_int 0], s')" "sl_okay s'" "sl_abs s' = ?m"
    using sl_run_refines [OF s(2), of ex_ops] by auto
  moreover from this have "sm_compare (sl_abs s') = skiplist_compare_fn_int 1" by simp
  ultimately show "sl_okay ex_sl" "compare ex_sl = skiplist_compare_fn_int 1" "sm_items (sl_abs ex_sl) = [(3, [Some ''a'', Some ''c'']), (5, [Some ''b''])]"
    using s(1) by (simp_all add: ex_sl_def sl_abs_def sl_map_def)
qed

theorem skiplist_iterates_witness:
  "\<exists>it. tbx_sl_iter_search_compare ex_sl (Some 3) (compare ex_sl) 0 = Some it \<and> iter_all 4 ex_sl it = Some [(Some 3, Some ''a''), (Some 3, Some ''c''), (Some 5, Some ''b'')]"
  using skiplist_iterates [OF ex_sl_ok(1), of 3] by (simp add: ex_sl_ok(2,3) items_ge_def skiplist_compare_fn_int_def item_pairs_def Let_def eval_nat_numeral del: iter_all.simps)

section \<open>Typing of the memory\<close>

text \<open>
  Every node has as many links as its level says and a chain of data, its level is one of the list, and every link leads to a node
  that exists and has that level.
\<close>

definition typed_node :: "('k, 'd) tbx_sl_t \<Rightarrow> ('k, 'd) tbx_sl_node_t \<Rightarrow> bool" where
  "typed_node s n \<longleftrightarrow> length (sn_next n) = Suc (sn_level n) \<and> sn_level n < max_levels s \<and> sn_ele n \<noteq> [] \<and>
     list_all (\<lambda>(i, p). case p of None \<Rightarrow> True | Some b \<Rightarrow> (case nodes s b of None \<Rightarrow> False | Some m \<Rightarrow> i \<le> sn_level m)) (enumerate 0 (sn_next n))"

lemma sl_rep_typed:
  assumes rep: "sl_rep s ns" and n: "nodes s a = Some n"
  shows "typed_node s n"
proof -
  have a: "a \<in> set (head s # ns)" using rep n by (auto simp: sl_rep_def)
  then obtain p q where pq: "head s # ns = p @ a # q" using split_list by metis
  have ok: "length (sn_next n) = Suc (sn_level n)" "sn_ele n \<noteq> []" "sn_level n < max_levels s" using sl_rep_nodes [OF rep a] sl_rep_lvl [OF rep a] n by (auto simp: node_ok_def lvl_def)
  have "\<exists>m. nodes s b = Some m \<and> i \<le> sn_level m" if i: "i < length (sn_next n)" "sn_next n ! i = Some b" for i b
  proof -
    have "nx s a i = find (\<lambda>b. i \<le> lvl s b) q" using linksD [of "lvl s" "nx s" p a q i] rep pq i(1) ok(1) n by (simp add: sl_rep_def lvl_def)
    then have "find (\<lambda>b. i \<le> lvl s b) q = Some b" using i n by (simp add: nx_def)
    then have "i \<le> lvl s b" "b \<in> set (head s # ns)" using pq by (auto simp: find_Some_iff)
    then show ?thesis using sl_rep_nodes [OF rep, of b] by (auto simp: node_ok_def lvl_def)
  qed
  then show ?thesis using ok by (fastforce simp: typed_node_def list_all_iff in_set_enumerate_eq split: option.split)
qed

text \<open>
  C17: After every sequence of operations on a new skip list all nodes are well typed: each has the links that its level calls
  for, and no link dangles.
\<close>

theorem skiplist_typed:
  fixes cmp :: "'k \<Rightarrow> 'k \<Rightarrow> int" and ops :: "('k, 'd) sl_op list"
  assumes "key_compare cmp" "0 < levels" "levels \<le> SKIPLIST_MAX_LEVEL"
  shows "\<exists>s rs s'. tbx_sl_init_full levels dups cmp = Some s \<and> run_ops sl_step ops s = Some (rs, s') \<and> (\<forall>a n. nodes s' a = Some n \<longrightarrow> typed_node s' n)"
proof -
  obtain s :: "('k, 'd) tbx_sl_t" where s: "tbx_sl_init_full levels dups cmp = Some s" "sl_okay s" using init_okay [OF assms] by blast
  then obtain rs s' where r: "run_ops sl_step ops s = Some (rs, s')" "sl_okay s'" using sl_run_refines [of s ops] by blast
  then have "sl_rep s' (sl_nodes s')" by (simp add: sl_okay_def sl_inv_def sl_ordered_def)
  then show ?thesis using s(1) r(1) sl_rep_typed by blast
qed

theorem skiplist_typed_witness:
  "\<exists>s rs s'. tbx_sl_init_full 16 True (skiplist_compare_fn_int 1) = Some s \<and>
     run_ops sl_step [Sl_insert (\<lambda>i. i < 2) 5 (Some ''a''), Sl_insert (\<lambda>i. False) 3 (Some ''b''), Sl_remove 5 None] s = Some (rs, s') \<and>
     (\<forall>a n. nodes s' a = Some n \<longrightarrow> typed_node s' n)"
  by (rule skiplist_typed [OF cmp_int.key_compare_axioms]) (simp_all add: SKIPLIST_MAX_LEVEL_def)

section \<open>Where the code differs from its comments\<close>

text \<open>\<^verbatim>\<open>tbx_sl_new\<close> takes the 0 of a successful initialisation as a failure.\<close>

lemma tbx_sl_new_null: "tbx_sl_new = Some None"
  by (simp add: tbx_sl_new_def tbx_sl_init_def tbx_sl_init_full_def create_skiplist_node_def tbx_sl_fini_def tbx_sl_empty_def
      sl_next_def destroy_chain.simps destroy_skiplist_node_def Let_def)

text \<open>Removing the first of several data of a key through an iterator frees the data that stay.\<close>

lemma iter_remove_frees_kept:
  assumes "it_curr it = Some (a, 0)" "it_sn it = Some a" "nodes s a = Some n" "sn_ele n = d0 # d1 # ds"
  shows "\<exists>s' it' n'. iter_tbx_sl_remove s it = Some (0, s', it') \<and> sl_freed s' = sl_freed s @ [d1] \<and> nodes s' a = Some n' \<and> sn_ele n' = d1 # ds"
  using assms by (simp add: iter_tbx_sl_remove_def)

text \<open>Removing the second node through an iterator does not take it out of its level: its address is read after it was freed.\<close>

lemma iter_remove_second_node:
  assumes s: "nodes s 0 = Some \<lparr>sn_level = 0, sn_key = None, sn_next = [Some 1], sn_ele = [None]\<rparr>"
      "nodes s 1 = Some \<lparr>sn_level = 0, sn_key = Some k1, sn_next = [Some 2], sn_ele = [d1]\<rparr>"
      "nodes s 2 = Some \<lparr>sn_level = 0, sn_key = Some k2, sn_next = [None], sn_ele = [d2]\<rparr>" "head s = 0" "current_max s = 0"
    and it: "tbx_sl_iter_search_compare s None cmp 0 = Some it" "tbx_sl_next s it = Some (0, x1, y1, it1)" "tbx_sl_next s it1 = Some (0, x2, y2, it2)"
  shows "iter_tbx_sl_remove s it2 = None"
proof -
  have ptr: "length no_ptr = 32" "no_ptr \<noteq> []" "no_ptr[0 := v] ! 0 = v" for v by (simp_all add: no_ptr_def SKIPLIST_MAX_LEVEL_def)
  have f: "find_key_compare s no_ptr None cmp 0 = Some (no_ptr[0 := Some 0], 0)"
  proof -
    have "find_level s cmp None 0 0 0 0 = Some (0, 0)" by (subst find_level.simps) simp
    then have "find_level s cmp None 0 0 0 (-1) = Some (0, 0)" using s by (subst find_level.simps) (simp add: sl_next_def compare_node_def)
    then show ?thesis using s ptr by (simp add: find_key_compare_def set_ptr_def)
  qed
  have "it = \<lparr>it_ele = Some (1, 0), it_curr = None, it_prev = None, it_sn = Some 1, it_ptr = no_ptr[0 := Some 0]\<rparr>"
    using it(1) f s ptr by (simp add: tbx_sl_iter_search_compare_def get_ptr_def sl_next_def)
  then have "it1 = \<lparr>it_ele = None, it_curr = Some (1, 0), it_prev = None, it_sn = Some 1, it_ptr = no_ptr[0 := Some 0]\<rparr>"
    using it(2) s by (simp add: tbx_sl_next_def next_get_def ele_at_def)
  then have "it2 = \<lparr>it_ele = None, it_curr = Some (2, 0), it_prev = Some (1, 0), it_sn = Some 2, it_ptr = no_ptr[0 := Some 2]\<rparr>"
    using it(3) s ptr by (simp add: tbx_sl_next_def next_get_def ele_at_def sl_next_def set_ptr_def)
  then show ?thesis using s ptr
    by (simp add: iter_tbx_sl_remove_def remove_node_def get_ptr_def sl_next_def set_next_def set_node_def destroy_skiplist_node_def ptr_next_def)
qed

end
