(* ===== verification/Interval_Skiplist.thy ===== *)
theory Interval_Skiplist
  imports Skiplist_Map
begin

text \<open>
  \<^verbatim>\<open>toolbox/interval_skiplist.c\<close>: intervals with data, kept in a skip list of their end points.  The end point of an interval
  where it starts lists it, the links that lie inside of it are marked with it, and points are kept apart.  The record of an end
  point, which only its node points to, is the data of its node.  For intervals that do not meet each other, which is how the
  segments use the structure, inserting, removing and searching are shown to be those of a sorted list of intervals.
\<close>

section \<open>The structures\<close>

text \<open>The chains of data are lists.\<close>

record 'd tbx_isl_node_t =
  edge :: "'d list list"
  point :: "'d list"
  start :: "'d list"
  n_end :: int

record ('k, 'd) tbx_isl_t =
  isl_sl :: "('k, 'd tbx_isl_node_t) tbx_sl_t"
  n_intervals :: int
  isl_freed :: "'d list"

type_synonym ('k, 'd) isl_list = "('k, 'd tbx_isl_node_t) tbx_sl_t"

definition isln_of :: "('k, 'd) isl_list \<Rightarrow> nat \<Rightarrow> 'd tbx_isl_node_t option option" where
  "isln_of sl a = do { n \<leftarrow> nodes sl a; Some (hd (sn_ele n)) }"

definition isln_at :: "('k, 'd) isl_list \<Rightarrow> nat \<Rightarrow> 'd tbx_isl_node_t option" where
  "isln_at sl a = do { x \<leftarrow> isln_of sl a; x }"

definition set_isln :: "('k, 'd) isl_list \<Rightarrow> nat \<Rightarrow> 'd tbx_isl_node_t \<Rightarrow> ('k, 'd) isl_list option" where
  "set_isln sl a x = do { n \<leftarrow> nodes sl a; Some (set_node sl a (n\<lparr>sn_ele := Some x # tl (sn_ele n)\<rparr>)) }"

definition get_edge :: "'d tbx_isl_node_t \<Rightarrow> nat \<Rightarrow> 'd list option" where
  "get_edge x i = (if i < length (edge x) then Some (edge x ! i) else None)"

definition key_at :: "('k, 'd) isl_list \<Rightarrow> nat \<Rightarrow> 'k option" where
  "key_at sl a = do { n \<leftarrow> nodes sl a; sn_key n }"

section \<open>The operations\<close>

definition append_isl_data :: "'d list \<Rightarrow> 'd \<Rightarrow> 'd list" where
  "append_isl_data ds d = d # ds"

definition copy_isl_data :: "'d list \<Rightarrow> 'd list \<Rightarrow> 'd list" where
  "copy_isl_data src dest = fold (\<lambda>d dest. append_isl_data dest d) src dest"

definition remove_isl_data :: "'d list \<Rightarrow> 'd \<Rightarrow> int \<times> 'd list" where
  "remove_isl_data ds d = (if d \<in> set ds then (0, remove1 d ds) else (1, ds))"

definition isl_node_is_empty :: "'d tbx_isl_node_t \<Rightarrow> bool" where
  "isl_node_is_empty x \<longleftrightarrow> point x = [] \<and> start x = [] \<and> \<not> n_end x > 0"

definition create_isl_node :: "'d tbx_isl_node_t" where
  "create_isl_node = \<lparr>edge = [], point = [], start = [], n_end = 0\<rparr>"

definition add_isl_node_level :: "'d tbx_isl_node_t \<Rightarrow> nat \<Rightarrow> 'd tbx_isl_node_t" where
  "add_isl_node_level x level = x\<lparr>edge := replicate (level + 1) []\<rparr>"

definition tbx_isl_new_full :: "nat \<Rightarrow> ('k \<Rightarrow> 'k \<Rightarrow> int) \<Rightarrow> ('k, 'd) tbx_isl_t option" where
  "tbx_isl_new_full maxlevels cmp = do { sl \<leftarrow> tbx_sl_init_full maxlevels True cmp; Some \<lparr>isl_sl = sl, n_intervals = 0, isl_freed = []\<rparr> }"

definition tbx_isl_new :: "('k \<Rightarrow> 'k \<Rightarrow> int) \<Rightarrow> ('k, 'd) tbx_isl_t option" where
  "tbx_isl_new cmp = tbx_isl_new_full 16 cmp"

definition tbx_isl_key_first :: "('k, 'd) tbx_isl_t \<Rightarrow> 'k option option" where
  "tbx_isl_key_first il = tbx_sl_first_key (isl_sl il)"

definition tbx_isl_key_last :: "('k, 'd) tbx_isl_t \<Rightarrow> 'k option option" where
  "tbx_isl_key_last il = tbx_sl_key_last (isl_sl il)"

text \<open>The node of an end point, which is made when there is none: it takes over the marks of the links that it cuts.\<close>

primrec copy_edges :: "('k, 'd) isl_list \<Rightarrow> nat option list \<Rightarrow> nat \<Rightarrow> nat list \<Rightarrow> ('k, 'd) isl_list option" where
  "copy_edges sl ptr a [] = Some sl"
| "copy_edges sl ptr a (i # is) = do {
     sl \<leftarrow> (case get_ptr ptr i of
              None \<Rightarrow> Some sl
            | Some p \<Rightarrow>
                if p = head sl then Some sl
                else do {
                  x \<leftarrow> isln_at sl p;
                  src \<leftarrow> get_edge x i;
                  y \<leftarrow> isln_at sl a;
                  dest \<leftarrow> get_edge y i;
                  set_isln sl a (y\<lparr>edge := (edge y)[i := copy_isl_data src dest]\<rparr>)
                });
     copy_edges sl ptr a is
   }"

definition isl_key_node :: "('k, 'd) isl_list \<Rightarrow> (nat \<Rightarrow> bool) \<Rightarrow> 'k \<Rightarrow> (nat \<times> ('k, 'd) isl_list) option" where
  "isl_key_node sl draws k = do {
     (ptr, cmp) \<leftarrow> find_key sl no_ptr (Some k) 0;
     if cmp \<noteq> 0 then do {
       (a, sl, ptr) \<leftarrow> pos_tbx_sl_insert sl ptr draws (Some k) (Some create_isl_node);
       n \<leftarrow> nodes sl a;
       sl \<leftarrow> set_isln sl a (add_isl_node_level create_isl_node (sn_level n));
       sl \<leftarrow> copy_edges sl ptr a [0..<sn_level n + 1];
       Some (a, sl)
     } else do {
       nx \<leftarrow> ptr_next sl ptr;
       a \<leftarrow> nx;
       Some (a, sl)
     }
   }"

text \<open>From the start of an interval to its end along the highest links inside of it, which are marked.\<close>

primrec tag_edge :: "('k, 'd) isl_list \<Rightarrow> nat \<Rightarrow> 'k \<Rightarrow> 'd \<Rightarrow> nat \<Rightarrow> (nat \<times> ('k, 'd) isl_list) option" where
  "tag_edge sl sn hi d 0 = Some (0, sl)"
| "tag_edge sl sn hi d (Suc i) = do {
     nx \<leftarrow> sl_next sl sn i;
     case nx of
       None \<Rightarrow> tag_edge sl sn hi d i
     | Some b \<Rightarrow> do {
         kb \<leftarrow> key_at sl b;
         if compare sl kb hi < 1 then do {
           x \<leftarrow> isln_at sl sn;
           e \<leftarrow> get_edge x i;
           sl \<leftarrow> set_isln sl sn (x\<lparr>edge := (edge x)[i := append_isl_data e d]\<rparr>);
           Some (i, sl)
         } else tag_edge sl sn hi d i
       }
   }"

partial_function (option) insert_walk :: "('k, 'd) isl_list \<Rightarrow> nat \<Rightarrow> nat \<Rightarrow> 'k \<Rightarrow> 'd \<Rightarrow> ('k, 'd) isl_list option" where
  "insert_walk sl sn sn_hi hi d =
     (if sn = sn_hi then Some sl
      else do {
        n \<leftarrow> nodes sl sn;
        (i, sl) \<leftarrow> tag_edge sl sn hi d (sn_level n + 1);
        nx \<leftarrow> sl_next sl sn i;
        case nx of None \<Rightarrow> Some sl | Some b \<Rightarrow> insert_walk sl b sn_hi hi d
      })"

definition tbx_isl_insert ::
  "('k, 'd) tbx_isl_t \<Rightarrow> (nat \<Rightarrow> bool) \<Rightarrow> (nat \<Rightarrow> bool) \<Rightarrow> 'k \<Rightarrow> 'k \<Rightarrow> 'd \<Rightarrow> (int \<times> ('k, 'd) tbx_isl_t) option" where
  "tbx_isl_insert il draws_hi draws_lo lo hi d = do {
     let il = il\<lparr>n_intervals := n_intervals il + 1\<rparr>;
     (sn_hi, sl) \<leftarrow> isl_key_node (isl_sl il) draws_hi hi;
     (sn, sl) \<leftarrow> isl_key_node sl draws_lo lo;
     x \<leftarrow> isln_at sl sn;
     if compare sl lo hi = 0 then do {
       sl \<leftarrow> set_isln sl sn (x\<lparr>point := append_isl_data (point x) d\<rparr>);
       Some (0, il\<lparr>isl_sl := sl\<rparr>)
     } else do {
       sl \<leftarrow> set_isln sl sn (x\<lparr>start := append_isl_data (start x) d\<rparr>);
       y \<leftarrow> isln_at sl sn_hi;
       sl \<leftarrow> set_isln sl sn_hi (y\<lparr>n_end := n_end y + 1\<rparr>);
       sl \<leftarrow> insert_walk sl sn sn_hi hi d;
       Some (0, il\<lparr>isl_sl := sl\<rparr>)
     }
   }"

text \<open>
  Removing: as \<^verbatim>\<open>found\<close> is never set, the inner loop goes through all levels of a node and the outer one through all nodes of
  the interval.
\<close>

primrec untag_edges :: "('k, 'd) isl_list \<Rightarrow> nat \<Rightarrow> 'k \<Rightarrow> 'd \<Rightarrow> nat \<Rightarrow> ('k, 'd) isl_list option" where
  "untag_edges sl sn hi d 0 = Some sl"
| "untag_edges sl sn hi d (Suc i) = do {
     nx \<leftarrow> sl_next sl sn i;
     case nx of
       None \<Rightarrow> untag_edges sl sn hi d i
     | Some b \<Rightarrow> do {
         kb \<leftarrow> key_at sl b;
         if compare sl kb hi < 1 then do {
           x \<leftarrow> isln_at sl sn;
           e \<leftarrow> get_edge x i;
           sl \<leftarrow> set_isln sl sn (x\<lparr>edge := (edge x)[i := snd (remove_isl_data e d)]\<rparr>);
           untag_edges sl sn hi d i
         } else untag_edges sl sn hi d i
       }
   }"

partial_function (option) remove_walk :: "('k, 'd) isl_list \<Rightarrow> nat \<Rightarrow> 'k \<Rightarrow> 'd \<Rightarrow> (('k, 'd) isl_list \<times> nat) option" where
  "remove_walk sl sn hi d = do {
     k \<leftarrow> key_at sl sn;
     if \<not> compare sl k hi < 0 then Some (sl, sn)
     else do {
       n \<leftarrow> nodes sl sn;
       sl \<leftarrow> untag_edges sl sn hi d (sn_level n + 1);
       nx \<leftarrow> sl_next sl sn 0;
       case nx of None \<Rightarrow> Some (sl, sn) | Some b \<Rightarrow> remove_walk sl b hi d
     }
   }"

definition remove_if_empty :: "('k, 'd) isl_list \<Rightarrow> nat \<Rightarrow> 'k \<Rightarrow> ('k, 'd) isl_list option" where
  "remove_if_empty sl a k = do {
     x \<leftarrow> isln_at sl a;
     if isl_node_is_empty x then do { (r, sl) \<leftarrow> tbx_sl_remove sl (Some k) None; Some sl } else Some sl
   }"

definition tbx_isl_remove :: "('k, 'd) tbx_isl_t \<Rightarrow> 'k \<Rightarrow> 'k \<Rightarrow> 'd \<Rightarrow> (int \<times> ('k, 'd) tbx_isl_t) option" where
  "tbx_isl_remove il lo hi d = do {
     (ptr, cmp) \<leftarrow> find_key (isl_sl il) no_ptr (Some lo) 0;
     nx \<leftarrow> ptr_next (isl_sl il) ptr;
     if cmp \<noteq> 0 then Some (1, il)
     else do {
       sn_lo \<leftarrow> nx;
       let il = il\<lparr>n_intervals := n_intervals il - 1\<rparr>;
       let sl = isl_sl il;
       x \<leftarrow> isln_at sl sn_lo;
       if compare sl lo hi = 0 then do {
         let (err, ds) = remove_isl_data (point x) d;
         sl \<leftarrow> set_isln sl sn_lo (x\<lparr>point := ds\<rparr>);
         sl \<leftarrow> remove_if_empty sl sn_lo lo;
         Some (err, il\<lparr>isl_sl := sl, isl_freed := isl_freed il @ [d]\<rparr>)
       } else do {
         let (err, ds) = remove_isl_data (start x) d;
         sl \<leftarrow> set_isln sl sn_lo (x\<lparr>start := ds\<rparr>);
         (sl, sn) \<leftarrow> remove_walk sl sn_lo hi d;
         y \<leftarrow> isln_at sl sn;
         sl \<leftarrow> set_isln sl sn (y\<lparr>n_end := n_end y - 1\<rparr>);
         sl \<leftarrow> remove_if_empty sl sn hi;
         sl \<leftarrow> (if sn \<noteq> sn_lo then remove_if_empty sl sn_lo lo else Some sl);
         Some (err, il\<lparr>isl_sl := sl, isl_freed := isl_freed il @ [d]\<rparr>)
       }
     }
   }"

text \<open>Tearing down: the records of the end points are freed with their chains, then the skip list.\<close>

definition remove_isl_node :: "nat \<Rightarrow> 'd tbx_isl_node_t \<Rightarrow> unit option" where
  "remove_isl_node level x = (if level < length (edge x) then Some () else None)"

partial_function (option) isl_del_walk :: "('k, 'd) isl_list \<Rightarrow> nat option \<Rightarrow> unit option" where
  "isl_del_walk sl sn =
     (case sn of
        None \<Rightarrow> Some ()
      | Some a \<Rightarrow> do { x \<leftarrow> isln_at sl a; n \<leftarrow> nodes sl a; _ \<leftarrow> remove_isl_node (sn_level n) x; nx \<leftarrow> sl_next sl a 0; isl_del_walk sl nx })"

definition tbx_isl_del :: "('k, 'd) tbx_isl_t \<Rightarrow> ('k, 'd) isl_list option" where
  "tbx_isl_del il = do { sn \<leftarrow> sl_next (isl_sl il) (head (isl_sl il)) 0; _ \<leftarrow> isl_del_walk (isl_sl il) sn; tbx_sl_fini (isl_sl il) }"

section \<open>Iterators\<close>

text \<open>\<open>ii_ele\<close> is the rest of the chain that is being returned.\<close>

record ('k, 'd) tbx_isl_iter_t =
  ii_lo :: "'k option"
  ii_hi :: "'k option"
  ii_sn :: "nat option"
  ii_ele :: "'d list"
  ii_ptr :: "nat option list"
  ii_mode :: int
  ii_level :: nat
  ii_finished :: int

text \<open>\<open>ii_level\<close> is \<^verbatim>\<open>ptr_level + 1\<close>.\<close>

definition tbx_isl_iter_search :: "('k, 'd) tbx_isl_t \<Rightarrow> 'k option \<Rightarrow> 'k option \<Rightarrow> ('k, 'd) tbx_isl_iter_t option" where
  "tbx_isl_iter_search il lo hi = do {
     (ptr, cmp) \<leftarrow> find_key (isl_sl il) no_ptr lo 1;
     let it = \<lparr>ii_lo = lo, ii_hi = hi, ii_sn = None, ii_ele = [], ii_ptr = ptr, ii_mode = 0, ii_level = current_max (isl_sl il) + 1, ii_finished = -1\<rparr>;
     case get_ptr ptr 0 of
       None \<Rightarrow> Some (it\<lparr>ii_finished := 1\<rparr>)
     | Some p \<Rightarrow> do { nx \<leftarrow> sl_next (isl_sl il) p 0; Some (it\<lparr>ii_sn := nx\<rparr>) }
   }"

text \<open>The marks of the links over the start of the search, from level \<open>i - 1\<close> down: the level and the chain found.\<close>

primrec scan_edges :: "('k, 'd) isl_list \<Rightarrow> nat option list \<Rightarrow> nat \<Rightarrow> (nat \<times> 'd list) option option" where
  "scan_edges sl ptr 0 = Some None"
| "scan_edges sl ptr (Suc i) =
     (case get_ptr ptr i of
        None \<Rightarrow> scan_edges sl ptr i
      | Some p \<Rightarrow> do {
          x \<leftarrow> isln_of sl p;
          (case x of
             None \<Rightarrow> scan_edges sl ptr i
           | Some x \<Rightarrow> do {
               e \<leftarrow> get_edge x i;
               if e \<noteq> [] then Some (Some (i, e)) else scan_edges sl ptr i
             })
        })"

text \<open>
  The nodes from the start on: the node where it stopped with its chain and the mode, or the mode, the last comparison and the
  node at the end.
\<close>

datatype 'd scan_result = Scan_found nat "'d list" int | Scan_end int int "nat option"

partial_function (option) scan_nodes :: "('k, 'd) isl_list \<Rightarrow> 'k option \<Rightarrow> nat option \<Rightarrow> int \<Rightarrow> int \<Rightarrow> 'd scan_result option" where
  "scan_nodes sl hi sn mode cmp =
     (case sn of
        None \<Rightarrow> Some (Scan_end mode cmp None)
      | Some a \<Rightarrow> do {
          cmp \<leftarrow> (case hi of None \<Rightarrow> Some (-1) | Some hi \<Rightarrow> do { k \<leftarrow> key_at sl a; Some (compare sl k hi) });
          if cmp > -1 then Some (Scan_end (-2) cmp (Some a))
          else do {
            x \<leftarrow> isln_at sl a;
            if mode \<le> 0 \<and> point x \<noteq> [] then Some (Scan_found a (point x) 1)
            else if mode \<le> 1 \<and> start x \<noteq> [] then Some (Scan_found a (start x) 2)
            else do { nx \<leftarrow> sl_next sl a 0; scan_nodes sl hi nx 0 cmp }
          }
        })"

definition tbx_isl_next :: "('k, 'd) tbx_isl_t \<Rightarrow> ('k, 'd) tbx_isl_iter_t \<Rightarrow> ('d option \<times> ('k, 'd) tbx_isl_iter_t) option" where
  "tbx_isl_next il it =
     (if ii_finished it = 1 then Some (None, it)
      else case ii_ele it of
        d # ds \<Rightarrow> Some (Some d, it\<lparr>ii_ele := ds\<rparr>)
      | [] \<Rightarrow> do {
          e \<leftarrow> scan_edges (isl_sl il) (ii_ptr it) (ii_level it);
          (case e of
             Some (i, e) \<Rightarrow> Some (Some (hd e), it\<lparr>ii_level := i, ii_ele := tl e\<rparr>)
           | None \<Rightarrow> do {
               let it = (if ii_level it > 0 then it\<lparr>ii_level := 0, ii_mode := 0\<rparr> else it);
               r \<leftarrow> (if ii_mode it \<ge> 0 then scan_nodes (isl_sl il) (ii_hi it) (ii_sn it) (ii_mode it) (-100)
                     else Some (Scan_end (ii_mode it) (-100) None));
               (case r of
                  Scan_found a e mode \<Rightarrow> Some (Some (hd e), it\<lparr>ii_ele := tl e, ii_mode := mode, ii_sn := Some a\<rparr>)
                | Scan_end mode cmp sn \<Rightarrow>
                    if cmp = 0 then do {
                      a \<leftarrow> sn;
                      x \<leftarrow> isln_at (isl_sl il) a;
                      if mode = -2 \<and> point x \<noteq> [] then Some (Some (hd (point x)), it\<lparr>ii_ele := tl (point x), ii_mode := -3\<rparr>)
                      else if (mode = -2 \<or> mode = -3) \<and> start x \<noteq> [] then Some (Some (hd (start x)), it\<lparr>ii_ele := tl (start x), ii_mode := -4\<rparr>)
                      else Some (None, it\<lparr>ii_mode := (if mode = -2 \<or> mode = -3 then -4 else mode), ii_finished := 1\<rparr>)
                    } else Some (None, it\<lparr>ii_mode := mode, ii_finished := 1\<rparr>))
             })
        })"

partial_function (option) range_count :: "('k, 'd) tbx_isl_t \<Rightarrow> ('k, 'd) tbx_isl_iter_t \<Rightarrow> int \<Rightarrow> int option" where
  "range_count il it n = do {
     (d, it) \<leftarrow> tbx_isl_next il it;
     case d of None \<Rightarrow> Some n | Some d \<Rightarrow> range_count il it (n + 1)
   }"

definition tbx_isl_range_count :: "('k, 'd) tbx_isl_t \<Rightarrow> 'k option \<Rightarrow> 'k option \<Rightarrow> int option" where
  "tbx_isl_range_count il lo hi = do { it \<leftarrow> tbx_isl_iter_search il lo hi; range_count il it 0 }"

declare insert_walk.simps [code] remove_walk.simps [code] isl_del_walk.simps [code] scan_nodes.simps [code] range_count.simps [code]

section \<open>Nodes and their records\<close>

text \<open>What the links and the order of the list depend on.\<close>

definition same_links :: "('k, 'd) isl_list \<Rightarrow> ('k, 'd) isl_list \<Rightarrow> bool" where
  "same_links sl sl' \<longleftrightarrow> lvl sl' = lvl sl \<and> nx sl' = nx sl \<and> compare sl' = compare sl \<and> head sl' = head sl \<and> n_keys sl' = n_keys sl \<and>
     max_levels sl' = max_levels sl \<and> current_max sl' = current_max sl"

lemma same_links_refl [simp]: "same_links sl sl"
  by (simp add: same_links_def)

lemma same_links_trans: "same_links s t \<Longrightarrow> same_links t u \<Longrightarrow> same_links s u"
  by (simp add: same_links_def)

lemma ordered_node: "sl_ordered sl ns \<Longrightarrow> a \<in> set ns \<Longrightarrow> \<exists>n. nodes sl a = Some n \<and> sn_key n = Some (fst (entry sl a)) \<and> sn_ele n = snd (entry sl a)"
  using keyed_node [of sl a] by (auto simp: sl_ordered_def)

lemma isln_at_entry:
  assumes "sl_ordered sl ns" "a \<in> set ns" "entry sl a = (k, [Some x])"
  shows "isln_at sl a = Some x" "isln_of sl a = Some (Some x)" "key_at sl a = Some k"
  using ordered_node [OF assms(1,2)] assms(3) by (auto simp: isln_at_def isln_of_def key_at_def)

lemma ordered_split: "sl_ordered sl ns \<Longrightarrow> a \<in> set ns \<Longrightarrow> \<exists>as bs. ns = as @ a # bs"
  by (meson split_list)

lemma set_isln_result:
  assumes ord: "sl_ordered sl ns" and a: "a \<in> set ns" and e: "entry sl a = (k, [Some x])"
  shows "\<exists>sl'. set_isln sl a y = Some sl' \<and> sl_ordered sl' ns \<and> entry sl' a = (k, [Some y]) \<and> (\<forall>b. b \<noteq> a \<longrightarrow> info sl' b = info sl b) \<and> same_links sl sl'"
proof -
  obtain n where n: "nodes sl a = Some n" "sn_ele n = [Some x]" "sn_key n = Some k" using ordered_node [OF ord a] e by auto
  obtain as bs where ns: "ns = as @ a # bs" using split_list [OF a] by blast
  define sl' where "sl' = set_node sl a (n\<lparr>sn_ele := [Some y]\<rparr>)"
  have rep: "sl_rep sl ns" using ord by (simp add: sl_ordered_def)
  have "set_isln sl a y = Some sl'" using n by (simp add: set_isln_def sl'_def)
  moreover have "sl_ordered sl' ns" using set_ele_ordered(1) [OF ord [unfolded ns] n(1), of "[Some y]"] by (simp add: sl'_def ns)
  moreover have i: "info sl' = (info sl)(a \<mapsto> (Some k, [Some y]))" using set_ele_result(2) [OF rep n(1), of "[Some y]"] n(3) by (simp add: sl'_def)
  then have "entry sl' a = (k, [Some y])" by (simp add: entry_def)
  moreover have "lvl sl' = lvl sl" using set_ele_result(3) [OF rep n(1)] by (simp add: sl'_def)
  moreover have "nx sl' = nx sl" using n(1) by (auto simp: sl'_def nx_def fun_eq_iff)
  ultimately show ?thesis using i by (auto simp: same_links_def sl'_def)
qed

lemma set_isln_same:
  assumes "sl_ordered sl ns" "a \<in> set ns" "entry sl a = (k, [Some x])"
  shows "set_isln sl a x = Some sl"
proof -
  obtain n where n: "nodes sl a = Some n" "sn_ele n = [Some x]" using ordered_node [OF assms(1,2)] assms(3) by auto
  then have "n\<lparr>sn_ele := Some x # tl (sn_ele n)\<rparr> = n" by simp
  then show ?thesis using n(1) by (simp add: set_isln_def set_node_def fun_upd_idem)
qed

lemma entries_eq: "(\<forall>b. b \<noteq> a \<longrightarrow> info t b = info s b) \<Longrightarrow> b \<noteq> a \<Longrightarrow> entry t b = entry s b"
  by (intro entry_cong) simp

lemma find_key_at:
  assumes ord: "sl_ordered sl (as @ bs)" and "\<forall>a \<in> set as. compare sl (fst (entry sl a)) k < 0" "\<forall>b \<in> set bs. 0 \<le> compare sl (fst (entry sl b)) k"
  shows "\<exists>ptr c. find_key sl no_ptr (Some k) f = Some (ptr, c) \<and> preds sl ptr as \<and> ptr_next sl ptr = Some (case bs of [] \<Rightarrow> None | b # _ \<Rightarrow> Some b) \<and>
    (case bs of [] \<Rightarrow> c < 0 | b # _ \<Rightarrow> c = compare sl (fst (entry sl b)) k)"
proof -
  have rep: "sl_rep sl (as @ bs)" using ord by (simp add: sl_ordered_def)
  have "\<forall>b \<in> set (as @ bs). compare_node sl (compare sl) (Some k) f b = Some (compare sl (fst (entry sl b)) k)"
    using ordered_node [OF ord] by (fastforce simp: compare_node_def)
  from find_key_result [OF rep this assms(2,3)] show ?thesis using preds_next(1) [OF rep] by (auto simp: find_key_def)
qed

text \<open>A node in the list is the place of its key.\<close>

lemma key_place:
  assumes ord: "sl_ordered sl (as @ b # bs)" and k: "compare sl (fst (entry sl b)) k = 0"
  shows "\<forall>a \<in> set as. compare sl (fst (entry sl a)) k < 0" "\<forall>c \<in> set (b # bs). 0 \<le> compare sl (fst (entry sl c)) k"
proof -
  have cmp: "key_compare (compare sl)" and s: "\<forall>a \<in> set as. compare sl (fst (entry sl a)) (fst (entry sl b)) < 0" "\<forall>c \<in> set bs. compare sl (fst (entry sl b)) (fst (entry sl c)) < 0"
    using ord by (auto simp: sl_ordered_def sorted_wrt_append key_lt_def)
  show "\<forall>a \<in> set as. compare sl (fst (entry sl a)) k < 0" using s(1) key_compare.lt_le_trans [OF cmp] k by fastforce
  show "\<forall>c \<in> set (b # bs). 0 \<le> compare sl (fst (entry sl c)) k"
  proof
    fix c assume "c \<in> set (b # bs)"
    then show "0 \<le> compare sl (fst (entry sl c)) k" using s(2) k key_compare.lt_trans [OF cmp, of "fst (entry sl b)" "fst (entry sl c)" k] by fastforce
  qed
qed

lemma sl_remove_at:
  assumes ord: "sl_ordered sl (as @ b # bs)" and k: "compare sl (fst (entry sl b)) k = 0"
  shows "\<exists>sl'. tbx_sl_remove sl (Some k) None = Some (0, sl') \<and> sl_ordered sl' (as @ bs) \<and> (\<forall>a. a \<noteq> b \<longrightarrow> info sl' a = info sl a \<and> lvl sl' a = lvl sl a) \<and>
    n_keys sl' = n_keys sl - 1 \<and> head sl' = head sl \<and> compare sl' = compare sl"
proof -
  obtain ptr where f: "find_key sl no_ptr (Some k) 0 = Some (ptr, 0)" "preds sl ptr as" "ptr_next sl ptr = Some (Some b)"
    using find_key_at [OF ord key_place [OF ord k], of 0] k by auto
  obtain n where n: "nodes sl b = Some n" using ordered_node [OF ord, of b] by auto
  define fr where "fr = freed_eles (sn_ele n)"
  define s1 where "s1 = set_node (data_free sl fr) b (n\<lparr>sn_ele := [None]\<rparr>)\<lparr>n_ele := n_ele sl - int (length (sn_ele n))\<rparr>"
  have ord0: "sl_ordered (data_free sl fr) (as @ b # bs)" "nodes (data_free sl fr) b = Some n" using ord n by auto
  have rep: "sl_rep (data_free sl fr) (as @ b # bs)" using ord0(1) by (simp add: sl_ordered_def)
  note se = set_ele_result [OF rep ord0(2), of "[None]"]
  have s1: "sl_ordered s1 (as @ b # bs)" using set_ele_ordered(1) [OF ord0, of "[None]"] by (simp add: s1_def)
  have "preds s1 ptr as" "nodes s1 b = Some (n\<lparr>sn_ele := [None]\<rparr>)" using f(2) se(4) by (simp_all add: s1_def)
  then obtain s' where s': "remove_node s1 ptr b = Some s'" "sl_ordered s' (as @ bs)" "info s' = (info s1)(b := None)" "\<forall>a. a \<noteq> b \<longrightarrow> lvl s' a = lvl s1 a"
    "n_keys s' = n_keys s1 - 1" "head s' = head s1" "compare s' = compare s1" using remove_node_ordered [OF s1] by blast
  have "tbx_sl_remove sl (Some k) None = Some (0, s')" using f(1,3) n s'(1) by (simp add: tbx_sl_remove_def s1_def fr_def)
  moreover have "info s1 = (info sl)(b \<mapsto> (sn_key n, [None]))" "lvl s1 = lvl sl" using se(2,3) by (simp_all add: s1_def)
  ultimately show ?thesis using s' by (auto simp: s1_def)
qed

section \<open>Disjoint intervals\<close>

text \<open>
  The nodes of a list of intervals with their data.  A point has one node; the start of any other interval lists it and the
  highest link from there to the end is marked.
\<close>

definition isl_plain :: "nat \<Rightarrow> 'd tbx_isl_node_t" where
  "isl_plain l = \<lparr>edge = replicate (Suc l) [], point = [], start = [], n_end = 0\<rparr>"

fun isl_nodes :: "('k, 'd) isl_list \<Rightarrow> nat list \<Rightarrow> ('k \<times> 'k \<times> 'd) list \<Rightarrow> bool" where
  "isl_nodes sl [] [] = True"
| "isl_nodes sl (a # ns) ((lo, hi, d) # ivs) \<longleftrightarrow>
     (if compare sl lo hi = 0 then lo = hi \<and> entry sl a = (hi, [Some ((isl_plain (lvl sl a))\<lparr>point := [d]\<rparr>)]) \<and> isl_nodes sl ns ivs
      else (case ns of
              [] \<Rightarrow> False
            | b # ns \<Rightarrow>
                entry sl a = (lo, [Some ((isl_plain (lvl sl a))\<lparr>start := [d], edge := (replicate (Suc (lvl sl a)) [])[min (lvl sl a) (lvl sl b) := [d]]\<rparr>)]) \<and>
                entry sl b = (hi, [Some ((isl_plain (lvl sl b))\<lparr>n_end := 1\<rparr>)]) \<and> isl_nodes sl ns ivs))"
| "isl_nodes sl _ _ = False"

lemma isl_nodes_Nil [simp]: "isl_nodes sl ns [] \<longleftrightarrow> ns = []"
  by (cases ns) auto

lemma isl_nodes_cong:
  assumes "compare t = compare s" "\<And>a. a \<in> set ns \<Longrightarrow> info t a = info s a \<and> lvl t a = lvl s a"
  shows "isl_nodes t ns ivs = isl_nodes s ns ivs"
  using assms
proof (induction s ns ivs rule: isl_nodes.induct)
  case (2 sl a ns lo hi d ivs)
  have e: "entry t x = entry sl x" "lvl t x = lvl sl x" if "x \<in> set (a # ns)" for x using 2(4) [OF that] entry_cong [of t x sl] by auto
  show ?case
  proof (cases ns)
    case Nil
    then show ?thesis using 2 e [of a] by simp
  next
    case (Cons b ns')
    then show ?thesis using 2 e [of a] e [of b] by auto
  qed
qed auto

lemma isl_nodes_append:
  "isl_nodes sl ns ivs \<Longrightarrow> isl_nodes sl ms jvs \<Longrightarrow> isl_nodes sl (ns @ ms) (ivs @ jvs)"
  by (induction sl ns ivs rule: isl_nodes.induct) (auto split: list.splits if_splits)

lemma isl_nodes_split:
  "isl_nodes sl ns (xs @ ys) \<Longrightarrow> \<exists>as bs. ns = as @ bs \<and> isl_nodes sl as xs \<and> isl_nodes sl bs ys"
proof (induction xs arbitrary: ns)
  case Nil
  then show ?case by (intro exI [of _ "[]"] exI [of _ ns]) simp
next
  case (Cons x xs)
  obtain lo hi d where x: "x = (lo, hi, d)" by (cases x) auto
  obtain a ms where ns: "ns = a # ms" using Cons.prems by (cases ns) auto
  show ?case
  proof (cases "compare sl lo hi = 0")
    case True
    then obtain as bs where "ms = as @ bs" "isl_nodes sl as xs" "isl_nodes sl bs ys" using Cons.IH [of ms] Cons.prems x ns by auto
    then show ?thesis using Cons.prems x ns True by (intro exI [of _ "a # as"] exI [of _ bs]) auto
  next
    case False
    then obtain b ks where ms: "ms = b # ks" "isl_nodes sl ks (xs @ ys)" using Cons.prems x ns by (cases ms) auto
    then obtain as bs where "ks = as @ bs" "isl_nodes sl as xs" "isl_nodes sl bs ys" using Cons.IH [of ks] by auto
    then show ?thesis using Cons.prems x ns ms False by (intro exI [of _ "a # b # as"] exI [of _ bs]) auto
  qed
qed

text \<open>The keys of the nodes are the ends of the intervals.\<close>

lemma isl_nodes_keys: "isl_nodes sl ns ivs \<Longrightarrow> a \<in> set ns \<Longrightarrow> \<exists>lo hi d. (lo, hi, d) \<in> set ivs \<and> (fst (entry sl a) = lo \<or> fst (entry sl a) = hi)"
proof (induction sl ns ivs rule: isl_nodes.induct)
  case (2 sl a' ns lo hi d ivs)
  show ?case
  proof (cases "compare sl lo hi = 0")
    case True
    then show ?thesis using 2 by (cases "a = a'") fastforce+
  next
    case False
    then show ?thesis using 2 by (cases ns) (auto; blast)+
  qed
qed auto

text \<open>The link over a place that lies behind all of the intervals bears no mark.\<close>

lemma isl_nodes_quiet:
  "isl_nodes sl ns ivs \<Longrightarrow> ns = u @ p # v \<Longrightarrow> i \<le> lvl sl p \<Longrightarrow> \<forall>b \<in> set v. lvl sl b < i \<Longrightarrow>
     \<exists>k x. entry sl p = (k, [Some x]) \<and> get_edge x i = Some []"
proof (induction sl ns ivs arbitrary: u rule: isl_nodes.induct)
  case (2 sl a ns lo hi d ivs)
  have plain: "get_edge (isl_plain (lvl sl p)) i = Some []" "get_edge ((isl_plain (lvl sl p))\<lparr>point := ds\<rparr>) i = Some []"
    "get_edge ((isl_plain (lvl sl p))\<lparr>n_end := m\<rparr>) i = Some []" for ds m using 2(5) by (simp_all add: get_edge_def isl_plain_def less_Suc_eq_le del: replicate_Suc)
  show ?case
  proof (cases "compare sl lo hi = 0")
    case True
    show ?thesis
    proof (cases u)
      case Nil
      then show ?thesis using 2(3,4) True plain by auto
    next
      case (Cons u0 us)
      then show ?thesis using 2(1) [OF True, of us] 2(3-6) True by auto
    qed
  next
    case False
    then obtain b ms where ns: "ns = b # ms" using 2(3) by (cases ns) auto
    consider "u = []" | "u = [a]" | us where "u = a # b # us" using 2(4) ns by (cases u rule: list.exhaust; cases "tl u"; auto)
    then show ?thesis
    proof cases
      case 1
      then have "lvl sl b < i" "p = a" using 2(4,6) ns by auto
      then show ?thesis using 2(3,5) ns False by (auto simp: get_edge_def less_Suc_eq_le simp del: replicate_Suc)
    next
      case 2
      then show ?thesis using "2.prems"(1,2) ns False plain by auto
    next
      case 3
      then show ?thesis using 2(2) [OF False ns, of us] 2(3-6) ns False by auto
    qed
  qed
qed auto

section \<open>Inserting\<close>

definition isl_inv :: "('k, 'd) isl_list \<Rightarrow> nat list \<Rightarrow> ('k \<times> 'k \<times> 'd) list \<Rightarrow> bool" where
  "isl_inv sl ns ivs \<longleftrightarrow> sl_ordered sl ns \<and> isl_nodes sl ns ivs \<and> info sl (head sl) = Some (None, [None]) \<and> n_keys sl \<le> 0"

lemma isl_inv_head: "sl_ordered sl ns \<Longrightarrow> head sl \<notin> set ns"
  by (auto simp: sl_ordered_def sl_rep_def)

lemma copy_edges_empty:
  assumes "sl_ordered sl ns" "a \<in> set ns" "entry sl a = (k, [Some y])"
    "\<forall>i \<in> set is. get_edge y i = Some [] \<and> (\<exists>p. get_ptr ptr i = Some p \<and> (p = head sl \<or> p \<in> set ns \<and> (\<exists>k x. entry sl p = (k, [Some x]) \<and> get_edge x i = Some [])))"
  shows "copy_edges sl ptr a is = Some sl"
  using assms(4)
proof (induction "is")
  case (Cons i "is")
  obtain p where p: "get_ptr ptr i = Some p" "p = head sl \<or> p \<in> set ns \<and> (\<exists>k x. entry sl p = (k, [Some x]) \<and> get_edge x i = Some [])" using Cons.prems by auto
  have y: "get_edge y i = Some []" "isln_at sl a = Some y" using Cons.prems isln_at_entry(1) [OF assms(1-3)] by auto
  then have same: "y\<lparr>edge := (edge y)[i := []]\<rparr> = y" by (simp add: get_edge_def list_update_same_conv split: if_splits)
  show ?case
  proof (cases "p = head sl")
    case True
    then show ?thesis using p Cons by simp
  next
    case False
    then obtain k' x where "isln_at sl p = Some x" "get_edge x i = Some []" using p(2) isln_at_entry(1) [OF assms(1)] by blast
    then show ?thesis using p(1) False y same set_isln_same [OF assms(1-3)] Cons by (simp add: copy_isl_data_def)
  qed
qed simp

lemma is_pred_cong: "\<forall>x \<in> set as. lv' x = lv x \<Longrightarrow> is_pred lv' i as p = is_pred lv i as p"
proof -
  assume h: "\<forall>x \<in> set as. lv' x = lv x"
  have "(i \<le> lv' p \<and> (\<forall>b \<in> set v. lv' b < i)) = (i \<le> lv p \<and> (\<forall>b \<in> set v. lv b < i))" if "as = u @ p # v" for u v using h that by simp
  then show ?thesis unfolding is_pred_def by blast
qed

text \<open>A place that bears no marks.\<close>

definition quiet :: "('k, 'd) isl_list \<Rightarrow> nat list \<Rightarrow> bool" where
  "quiet sl as \<longleftrightarrow> (\<forall>u p v i. as = u @ p # v \<and> i \<le> lvl sl p \<and> (\<forall>b \<in> set v. lvl sl b < i) \<longrightarrow> (\<exists>k x. entry sl p = (k, [Some x]) \<and> get_edge x i = Some []))"

lemma quiet_cong: "\<forall>a \<in> set as. info t a = info s a \<and> lvl t a = lvl s a \<Longrightarrow> quiet t as = quiet s as"
proof -
  assume h: "\<forall>a \<in> set as. info t a = info s a \<and> lvl t a = lvl s a"
  have "entry t p = entry s p \<and> lvl t p = lvl s p \<and> (\<forall>b \<in> set v. lvl t b = lvl s b)" if "as = u @ p # v" for u p v
    using h that entry_cong [of t p s] by auto
  then show ?thesis unfolding quiet_def by (metis (no_types, lifting))
qed

lemma quiet_pred:
  assumes "quiet sl as" "is_pred (lvl sl) i (head sl # as) p"
  shows "p = head sl \<or> p \<in> set as \<and> (\<exists>k x. entry sl p = (k, [Some x]) \<and> get_edge x i = Some [])"
proof -
  obtain u v where uv: "head sl # as = u @ p # v" "i \<le> lvl sl p" "\<forall>b \<in> set v. lvl sl b < i" using assms(2) by (auto simp: is_pred_def)
  show ?thesis
  proof (cases u)
    case Nil
    then show ?thesis using uv(1) by simp
  next
    case (Cons u0 us)
    then have "as = us @ p # v" using uv(1) by simp
    then show ?thesis using assms(1) uv(2,3) unfolding quiet_def by auto
  qed
qed

text \<open>The node of a new end point.\<close>

lemma isl_key_node_new:
  assumes ord: "sl_ordered sl (as @ bs)" and as: "\<forall>a \<in> set as. compare sl (fst (entry sl a)) k < 0" and bs: "\<forall>b \<in> set bs. compare sl k (fst (entry sl b)) < 0"
    and q: "quiet sl as"
  shows "\<exists>a sl'. isl_key_node sl draws k = Some (a, sl') \<and> sl_ordered sl' (as @ a # bs) \<and> a \<notin> set (head sl # as @ bs) \<and>
    entry sl' a = (k, [Some (isl_plain (lvl sl' a))]) \<and> (\<forall>b. b \<noteq> a \<longrightarrow> info sl' b = info sl b \<and> lvl sl' b = lvl sl b) \<and>
    compare sl' = compare sl \<and> head sl' = head sl \<and> n_keys sl' = n_keys sl"
proof -
  have cmp: "key_compare (compare sl)" using ord by (simp add: sl_ordered_def)
  have bs': "\<forall>b \<in> set bs. 0 < compare sl (fst (entry sl b)) k" using bs key_compare.anti [OF cmp] by blast
  then have ge: "\<forall>b \<in> set bs. 0 \<le> compare sl (fst (entry sl b)) k" by (simp add: order_less_imp_le)
  obtain ptr c where f: "find_key sl no_ptr (Some k) 0 = Some (ptr, c)" "preds sl ptr as" "case bs of [] \<Rightarrow> c < 0 | b # _ \<Rightarrow> c = compare sl (fst (entry sl b)) k"
    using find_key_at [OF ord as ge, of 0] by blast
  have c: "c \<noteq> 0" using f(3) bs' by (cases bs) auto
  have "\<forall>a \<in> set as. \<forall>b \<in> set bs. key_lt (compare sl) (entry sl a) (entry sl b)" using ord by (auto simp: sl_ordered_def sorted_wrt_append)
  then have "sorted_wrt (key_lt (compare sl)) (items sl as @ (k, [Some create_isl_node]) # items sl bs)"
    using ord as bs by (auto simp: sl_ordered_def sorted_wrt_append key_lt_def)
  then obtain s1 ptr' where r: "pos_tbx_sl_insert sl ptr draws (Some k) (Some create_isl_node) = Some (sl_brk sl, s1, ptr')" "sl_ordered s1 (as @ sl_brk sl # bs)"
    "info s1 = (info sl)(sl_brk sl \<mapsto> (Some k, [Some create_isl_node]))" "\<forall>a. a \<noteq> sl_brk sl \<longrightarrow> lvl s1 a = lvl sl a"
    "\<forall>j \<le> lvl s1 (sl_brk sl). \<exists>p. get_ptr ptr' j = Some p \<and> is_pred (lvl sl) j (head sl # as) p"
    "n_keys s1 = n_keys sl" "head s1 = head sl" "compare s1 = compare sl" using pos_insert_ordered [OF ord f(2)] by blast
  define a where "a = sl_brk sl"
  have new: "a \<notin> set (head sl # as @ bs)" using ord by (auto simp: sl_ordered_def sl_rep_def a_def)
  have ea: "entry s1 a = (k, [Some create_isl_node])" using r(3) by (simp add: entry_def a_def)
  have mem: "a \<in> set (as @ a # bs)" by simp
  have ord1: "sl_ordered s1 (as @ a # bs)" using r(2) by (simp add: a_def)
  obtain n where n: "nodes s1 a = Some n" using ordered_node [OF ord1 mem] by blast
  then have lv: "sn_level n = lvl s1 a" by (simp add: lvl_def)
  obtain s2 where s2: "set_isln s1 a (add_isl_node_level create_isl_node (sn_level n)) = Some s2" "sl_ordered s2 (as @ a # bs)"
    "entry s2 a = (k, [Some (add_isl_node_level create_isl_node (sn_level n))])" "\<forall>b. b \<noteq> a \<longrightarrow> info s2 b = info s1 b" "same_links s1 s2"
    using set_isln_result [OF ord1 mem ea] by blast
  have plain: "add_isl_node_level create_isl_node (sn_level n) = isl_plain (lvl s2 a)"
    using s2(5) lv by (simp add: add_isl_node_level_def create_isl_node_def isl_plain_def same_links_def)
  have old: "b \<noteq> a \<Longrightarrow> info s2 b = info sl b \<and> lvl s2 b = lvl sl b" for b using s2(4,5) r(3,4) by (simp add: a_def same_links_def)
  then have q2: "quiet s2 as" using q quiet_cong [of as s2 sl] new by (metis Un_iff list.set_intros(2) set_append)
  have "copy_edges s2 ptr' a [0..<sn_level n + 1] = Some s2"
  proof (rule copy_edges_empty [OF s2(2) mem s2(3)], intro ballI conjI)
    fix i assume "i \<in> set [0..<sn_level n + 1]"
    then have i: "i \<le> lvl s1 a" using lv by auto
    then show "get_edge (add_isl_node_level create_isl_node (sn_level n)) i = Some []"
      by (simp add: get_edge_def add_isl_node_level_def lv less_Suc_eq_le del: replicate_Suc)
    obtain p where p: "get_ptr ptr' i = Some p" "is_pred (lvl sl) i (head sl # as) p" using r(5) i by (auto simp: a_def)
    have hd: "head s2 = head sl" using s2(5) r(7) by (simp add: same_links_def)
    have "is_pred (lvl s2) i (head s2 # as) p"
    proof -
      have "x \<noteq> a" if "x \<in> set (head sl # as)" for x using new that by auto
      then have "\<forall>x \<in> set (head sl # as). lvl s2 x = lvl sl x" using old by blast
      then show ?thesis using p(2) is_pred_cong [of "head sl # as" "lvl s2" "lvl sl"] unfolding hd by blast
    qed
    from quiet_pred [OF q2 this] show "\<exists>p. get_ptr ptr' i = Some p \<and> (p = head s2 \<or> p \<in> set (as @ a # bs) \<and> (\<exists>k x. entry s2 p = (k, [Some x]) \<and> get_edge x i = Some []))"
      using p(1) by auto
  qed
  then have "isl_key_node sl draws k = Some (a, s2)" using f(1) c r(1) n s2(1) by (simp add: isl_key_node_def a_def)
  moreover have "compare s2 = compare sl" "head s2 = head sl" "n_keys s2 = n_keys sl" using s2(5) r(6-8) by (simp_all add: same_links_def)
  ultimately show ?thesis using s2(2,3) plain new old by auto
qed

lemma isl_key_node_old:
  assumes ord: "sl_ordered sl (as @ b # bs)" and k: "compare sl (fst (entry sl b)) k = 0"
  shows "isl_key_node sl draws k = Some (b, sl)"
  using find_key_at [OF ord key_place [OF ord k], of 0] k by (auto simp: isl_key_node_def)

text \<open>Marking the highest link to the end when no other end point is in between.\<close>

lemma sl_next_place:
  assumes ord: "sl_ordered sl (as @ l # h # bs)" and i: "i \<le> lvl sl l"
  shows "sl_next sl l i = Some (if i \<le> lvl sl h then Some h else find (\<lambda>b. i \<le> lvl sl b) bs)"
proof -
  have rep: "sl_rep sl (as @ l # h # bs)" using ord by (simp add: sl_ordered_def)
  have "links (lvl sl) (nx sl) ((head sl # as) @ l # h # bs)" using rep by (simp add: sl_rep_def)
  then have "nx sl l i = find (\<lambda>b. i \<le> lvl sl b) (h # bs)" using i by (rule linksD)
  moreover have "node_ok sl l" using sl_rep_nodes [OF rep, of l] by simp
  ultimately show ?thesis using sl_next_ok [of sl l i] i by simp
qed

lemma tag_edge_adjacent:
  assumes ord: "sl_ordered sl (as @ l # h # bs)" and h: "compare sl (fst (entry sl h)) hi = 0" and l: "entry sl l = (k, [Some x])" "length (edge x) = Suc (lvl sl l)"
    and m: "min (lvl sl l) (lvl sl h) < m" "m \<le> Suc (lvl sl l)"
  defines "j \<equiv> min (lvl sl l) (lvl sl h)"
  shows "tag_edge sl l hi d m = map_option (Pair j) (set_isln sl l (x\<lparr>edge := (edge x)[j := d # edge x ! j]\<rparr>))"
  using m
proof (induction m)
  case (Suc i)
  have ord': "sl_ordered sl ((as @ [l]) @ h # bs)" using ord by simp
  have cmp: "key_compare (compare sl)" using ord by (simp add: sl_ordered_def)
  have nxt: "sl_next sl l i = Some (if i \<le> lvl sl h then Some h else find (\<lambda>b. i \<le> lvl sl b) bs)" using sl_next_place [OF ord, of i] Suc.prems(2) by simp
  show ?case
  proof (cases "i \<le> lvl sl h")
    case True
    then have i: "i = j" using Suc.prems by (simp add: j_def)
    obtain n where "nodes sl h = Some n" "sn_key n = Some (fst (entry sl h))" using ordered_node [OF ord, of h] by auto
    then have "key_at sl h = Some (fst (entry sl h))" by (simp add: key_at_def)
    moreover have "isln_at sl l = Some x" using isln_at_entry(1) [OF ord _ l(1)] by simp
    moreover have "get_edge x i = Some (edge x ! i)" using Suc.prems(2) l(2) by (simp add: get_edge_def)
    ultimately show ?thesis using nxt True h i by (cases "set_isln sl l (x\<lparr>edge := (edge x)[j := d # edge x ! j]\<rparr>)") (simp_all add: append_isl_data_def)
  next
    case False
    then have "j < i" using Suc.prems by (simp add: j_def)
    then have IH: "tag_edge sl l hi d i = map_option (Pair j) (set_isln sl l (x\<lparr>edge := (edge x)[j := d # edge x ! j]\<rparr>))" using Suc.IH Suc.prems by (simp add: j_def)
    show ?thesis
    proof (cases "find (\<lambda>b. i \<le> lvl sl b) bs")
      case None
      then show ?thesis using nxt False IH by simp
    next
      case (Some b)
      then have b: "b \<in> set bs" by (auto simp: find_Some_iff)
      obtain n where "nodes sl b = Some n" "sn_key n = Some (fst (entry sl b))" using ordered_node [OF ord, of b] b by auto
      then have "key_at sl b = Some (fst (entry sl b))" by (simp add: key_at_def)
      moreover have "compare sl (fst (entry sl h)) (fst (entry sl b)) < 0" using ord b by (auto simp: sl_ordered_def sorted_wrt_append key_lt_def)
      then have "compare sl hi (fst (entry sl b)) < 0" using key_compare.le_lt_trans [OF cmp] key_compare.sym0 [OF cmp] h by (metis order_refl)
      then have "\<not> compare sl (fst (entry sl b)) hi < 1" using key_compare.anti [OF cmp, of hi "fst (entry sl b)"] by simp
      ultimately show ?thesis using nxt False Some IH by simp
    qed
  qed
qed simp

lemma isl_nodes_le:
  assumes "key_compare (compare sl)"
  shows "isl_nodes sl ns ivs \<Longrightarrow> sorted_wrt (key_lt (compare sl)) (items sl ns) \<Longrightarrow> (l, h, e) \<in> set ivs \<Longrightarrow> compare sl l h \<le> 0"
  using assms
proof (induction sl ns ivs rule: isl_nodes.induct)
  case (2 sl a ns lo hi d ivs)
  show ?case
  proof (cases "compare sl lo hi = 0")
    case True
    then show ?thesis using 2 by auto
  next
    case False
    then obtain b ms where ns: "ns = b # ms" using 2(3) by (cases ns) auto
    then have "compare sl lo hi < 0" using 2(3,4) False by (auto simp: key_lt_def)
    then show ?thesis using 2 ns False by auto
  qed
qed auto

text \<open>The nodes of the intervals before and after a range.\<close>

lemma isl_place:
  assumes inv: "isl_inv sl ns (xs @ ys)" and le: "compare sl lo hi \<le> 0" and xs: "\<forall>(l, h, e) \<in> set xs. compare sl h lo < 0" and ys: "\<forall>(l, h, e) \<in> set ys. compare sl hi l < 0"
  obtains as bs where "ns = as @ bs" "isl_nodes sl as xs" "isl_nodes sl bs ys" "\<forall>a \<in> set as. compare sl (fst (entry sl a)) lo < 0 \<and> compare sl (fst (entry sl a)) hi < 0"
    "\<forall>b \<in> set bs. compare sl hi (fst (entry sl b)) < 0 \<and> compare sl lo (fst (entry sl b)) < 0" "quiet sl as"
proof -
  have ord: "sl_ordered sl ns" and nodes: "isl_nodes sl ns (xs @ ys)" using inv by (auto simp: isl_inv_def)
  have cmp: "key_compare (compare sl)" and sorted: "sorted_wrt (key_lt (compare sl)) (items sl ns)" using ord by (auto simp: sl_ordered_def)
  obtain as bs where ab: "ns = as @ bs" "isl_nodes sl as xs" "isl_nodes sl bs ys" using isl_nodes_split [OF nodes] by blast
  have ends: "(l, h, e) \<in> set (xs @ ys) \<Longrightarrow> compare sl l h \<le> 0" for l h e using isl_nodes_le [OF cmp nodes sorted] by blast
  note lt = key_compare.le_lt_trans [OF cmp] key_compare.lt_le_trans [OF cmp]
  have "compare sl (fst (entry sl a)) lo < 0" if a: "a \<in> set as" for a
  proof -
    obtain l h e where "(l, h, e) \<in> set xs" "fst (entry sl a) = l \<or> fst (entry sl a) = h" using isl_nodes_keys [OF ab(2) a] by blast
    then show ?thesis using xs ends [of l h e] lt(1) [of l h lo] by auto
  qed
  then have "\<forall>a \<in> set as. compare sl (fst (entry sl a)) lo < 0 \<and> compare sl (fst (entry sl a)) hi < 0" using le lt(2) by blast
  moreover have "compare sl hi (fst (entry sl b)) < 0" if b: "b \<in> set bs" for b
  proof -
    obtain l h e where "(l, h, e) \<in> set ys" "fst (entry sl b) = l \<or> fst (entry sl b) = h" using isl_nodes_keys [OF ab(3) b] by blast
    then show ?thesis using ys ends [of l h e] lt(2) [of hi l h] by auto
  qed
  then have "\<forall>b \<in> set bs. compare sl hi (fst (entry sl b)) < 0 \<and> compare sl lo (fst (entry sl b)) < 0" using le lt(1) by blast
  moreover have "quiet sl as" unfolding quiet_def using isl_nodes_quiet [OF ab(2)] by blast
  ultimately show ?thesis using that ab by blast
qed

text \<open>Putting the nodes of one interval between those of others.\<close>

lemma isl_nodes_glue:
  assumes "isl_nodes t ms zs" "isl_nodes s as xs" "isl_nodes s bs ys" "compare t = compare s" "\<And>a. a \<in> set (as @ bs) \<Longrightarrow> info t a = info s a \<and> lvl t a = lvl s a"
  shows "isl_nodes t (as @ ms @ bs) (xs @ zs @ ys)"
proof -
  have "isl_nodes t as xs" "isl_nodes t bs ys" using assms isl_nodes_cong [of t s as xs] isl_nodes_cong [of t s bs ys] by auto
  then show ?thesis using assms(1) by (intro isl_nodes_append)
qed

lemma isl_insert_point:
  assumes inv: "isl_inv sl ns (xs @ ys)" and c: "compare sl lo hi = 0" and xs: "\<forall>(l, h, e) \<in> set xs. compare sl h lo < 0" and ys: "\<forall>(l, h, e) \<in> set ys. compare sl hi l < 0"
    and sl: "isl_sl il = sl"
  shows "\<exists>sl' ns'. tbx_isl_insert il dh dl lo hi d = Some (0, il\<lparr>n_intervals := n_intervals il + 1, isl_sl := sl'\<rparr>) \<and> isl_inv sl' ns' (xs @ (hi, hi, d) # ys) \<and> compare sl' = compare sl"
proof -
  have ord: "sl_ordered sl ns" and cmp: "key_compare (compare sl)" using inv by (auto simp: isl_inv_def sl_ordered_def)
  obtain as bs where ab: "ns = as @ bs" "isl_nodes sl as xs" "isl_nodes sl bs ys" "\<forall>a \<in> set as. compare sl (fst (entry sl a)) lo < 0 \<and> compare sl (fst (entry sl a)) hi < 0"
    "\<forall>b \<in> set bs. compare sl hi (fst (entry sl b)) < 0 \<and> compare sl lo (fst (entry sl b)) < 0" "quiet sl as"
    by (rule isl_place [OF inv _ xs ys]) (use c in simp)
  obtain a s1 where s1: "isl_key_node sl dh hi = Some (a, s1)" "sl_ordered s1 (as @ a # bs)" "a \<notin> set (head sl # as @ bs)" "entry s1 a = (hi, [Some (isl_plain (lvl s1 a))])"
    "\<forall>b. b \<noteq> a \<longrightarrow> info s1 b = info sl b \<and> lvl s1 b = lvl sl b" "compare s1 = compare sl" "head s1 = head sl" "n_keys s1 = n_keys sl"
    using isl_key_node_new [of sl as bs hi dh] ord ab by auto
  have "compare s1 (fst (entry s1 a)) lo = 0" using s1(4,6) c key_compare.sym0 [OF cmp] by simp
  then have k2: "isl_key_node s1 dl lo = Some (a, s1)" by (rule isl_key_node_old [OF s1(2)])
  have mem: "a \<in> set (as @ a # bs)" by simp
  obtain s2 where s2: "set_isln s1 a ((isl_plain (lvl s1 a))\<lparr>point := [d]\<rparr>) = Some s2" "sl_ordered s2 (as @ a # bs)"
    "entry s2 a = (hi, [Some ((isl_plain (lvl s1 a))\<lparr>point := [d]\<rparr>)])" "\<forall>b. b \<noteq> a \<longrightarrow> info s2 b = info s1 b" "same_links s1 s2"
    using set_isln_result [OF s1(2) mem s1(4)] by blast
  have f: "compare s2 = compare sl" "head s2 = head sl" "n_keys s2 = n_keys sl" "lvl s2 = lvl s1" using s2(5) s1(6-8) by (simp_all add: same_links_def)
  have old: "b \<in> set (head sl # as @ bs) \<Longrightarrow> info s2 b = info sl b \<and> lvl s2 b = lvl sl b" for b using s1(3,5) s2(4) f(4) by metis
  have "isl_nodes s2 [a] [(hi, hi, d)]" using s2(3) f(1,4) key_compare.refl0 [OF cmp] by simp
  then have "isl_nodes s2 (as @ [a] @ bs) (xs @ [(hi, hi, d)] @ ys)" by (rule isl_nodes_glue [OF _ ab(2,3) f(1)]) (use old in auto)
  moreover have "info s2 (head s2) = Some (None, [None])" using old [of "head sl"] inv f(2) by (simp add: isl_inv_def)
  ultimately have "isl_inv s2 (as @ a # bs) (xs @ (hi, hi, d) # ys)" using s2(2) f(3) inv by (simp add: isl_inv_def)
  moreover have "isln_at s1 a = Some (isl_plain (lvl s1 a))" using isln_at_entry(1) [OF s1(2) mem s1(4)] .
  then have "tbx_isl_insert il dh dl lo hi d = Some (0, il\<lparr>n_intervals := n_intervals il + 1, isl_sl := s2\<rparr>)"
    using sl s1(1,6) k2 s2(1) c by (simp add: tbx_isl_insert_def Let_def append_isl_data_def isl_plain_def)
  ultimately show ?thesis using f(1) by blast
qed

lemma isl_insert_proper:
  assumes inv: "isl_inv sl ns (xs @ ys)" and c: "compare sl lo hi < 0" and xs: "\<forall>(l, h, e) \<in> set xs. compare sl h lo < 0" and ys: "\<forall>(l, h, e) \<in> set ys. compare sl hi l < 0"
    and sl: "isl_sl il = sl"
  shows "\<exists>sl' ns'. tbx_isl_insert il dh dl lo hi d = Some (0, il\<lparr>n_intervals := n_intervals il + 1, isl_sl := sl'\<rparr>) \<and> isl_inv sl' ns' (xs @ (lo, hi, d) # ys) \<and> compare sl' = compare sl"
proof -
  have ord: "sl_ordered sl ns" and cmp: "key_compare (compare sl)" using inv by (auto simp: isl_inv_def sl_ordered_def)
  obtain as bs where ab: "ns = as @ bs" "isl_nodes sl as xs" "isl_nodes sl bs ys" "\<forall>a \<in> set as. compare sl (fst (entry sl a)) lo < 0 \<and> compare sl (fst (entry sl a)) hi < 0"
    "\<forall>b \<in> set bs. compare sl hi (fst (entry sl b)) < 0 \<and> compare sl lo (fst (entry sl b)) < 0" "quiet sl as"
    by (rule isl_place [OF inv _ xs ys]) (use c in simp)
  obtain h s1 where s1: "isl_key_node sl dh hi = Some (h, s1)" "sl_ordered s1 (as @ h # bs)" "h \<notin> set (head sl # as @ bs)" "entry s1 h = (hi, [Some (isl_plain (lvl s1 h))])"
    "\<forall>b. b \<noteq> h \<longrightarrow> info s1 b = info sl b \<and> lvl s1 b = lvl sl b" "compare s1 = compare sl" "head s1 = head sl" "n_keys s1 = n_keys sl"
    using isl_key_node_new [of sl as bs hi dh] ord ab by auto
  have old1: "b \<in> set (head sl # as @ bs) \<Longrightarrow> info s1 b = info sl b \<and> lvl s1 b = lvl sl b \<and> entry s1 b = entry sl b" for b using s1(3,5) entry_cong [of s1 b sl] by metis
  have q1: "quiet s1 as" using ab(6) quiet_cong [of as s1 sl] old1 by simp
  have as1: "\<forall>a \<in> set as. compare s1 (fst (entry s1 a)) lo < 0" using ab(4) old1 s1(6) by simp
  have bs1: "\<forall>b \<in> set (h # bs). compare s1 lo (fst (entry s1 b)) < 0" using ab(5) old1 s1(4,6) c by simp
  obtain l s2 where s2: "isl_key_node s1 dl lo = Some (l, s2)" "sl_ordered s2 (as @ l # h # bs)" "l \<notin> set (head s1 # as @ h # bs)" "entry s2 l = (lo, [Some (isl_plain (lvl s2 l))])"
    "\<forall>b. b \<noteq> l \<longrightarrow> info s2 b = info s1 b \<and> lvl s2 b = lvl s1 b" "compare s2 = compare s1" "head s2 = head s1" "n_keys s2 = n_keys s1"
    using isl_key_node_new [OF s1(2) as1 bs1 q1, of dl] by blast
  have lh: "l \<noteq> h" and mem: "l \<in> set (as @ l # h # bs)" "h \<in> set (as @ l # h # bs)" using s2(3) by auto
  obtain s3 where s3: "set_isln s2 l ((isl_plain (lvl s2 l))\<lparr>start := [d]\<rparr>) = Some s3" "sl_ordered s3 (as @ l # h # bs)"
    "entry s3 l = (lo, [Some ((isl_plain (lvl s2 l))\<lparr>start := [d]\<rparr>)])" "\<forall>b. b \<noteq> l \<longrightarrow> info s3 b = info s2 b" "same_links s2 s3"
    using set_isln_result [OF s2(2) mem(1) s2(4)] by blast
  have h3: "entry s3 h = (hi, [Some (isl_plain (lvl s2 h))])" using s1(4) s2(5) lh entries_eq [OF s3(4), of h] entry_cong [of s2 h s1] by simp
  obtain s4 where s4: "set_isln s3 h ((isl_plain (lvl s2 h))\<lparr>n_end := 1\<rparr>) = Some s4" "sl_ordered s4 (as @ l # h # bs)"
    "entry s4 h = (hi, [Some ((isl_plain (lvl s2 h))\<lparr>n_end := 1\<rparr>)])" "\<forall>b. b \<noteq> h \<longrightarrow> info s4 b = info s3 b" "same_links s3 s4"
    using set_isln_result [OF s3(2) mem(2) h3] by blast
  have l4: "entry s4 l = (lo, [Some ((isl_plain (lvl s2 l))\<lparr>start := [d]\<rparr>)])" using s3(3) entries_eq [OF s4(4) lh] by simp
  have f4: "lvl s4 = lvl s2" "compare s4 = compare sl" using s3(5) s4(5) s2(6) s1(6) by (simp_all add: same_links_def)
  define j where "j = min (lvl s2 l) (lvl s2 h)"
  define x where "x = (isl_plain (lvl s2 l))\<lparr>start := [d], edge := (replicate (Suc (lvl s2 l)) [])[j := [d]]\<rparr>"
  obtain s5 where s5: "set_isln s4 l x = Some s5" "sl_ordered s5 (as @ l # h # bs)" "entry s5 l = (lo, [Some x])" "\<forall>b. b \<noteq> l \<longrightarrow> info s5 b = info s4 b" "same_links s4 s5"
    using set_isln_result [OF s4(2) mem(1) l4] by blast
  have walk: "insert_walk s4 l h hi d = Some s5"
  proof -
    have "j \<le> lvl s2 l" by (simp add: j_def)
    then have x': "((isl_plain (lvl s2 l))\<lparr>start := [d]\<rparr>)\<lparr>edge := (edge ((isl_plain (lvl s2 l))\<lparr>start := [d]\<rparr>))[j := d # edge ((isl_plain (lvl s2 l))\<lparr>start := [d]\<rparr>) ! j]\<rparr> = x"
      by (simp add: x_def isl_plain_def less_Suc_eq_le del: replicate_Suc)
    have hk: "compare s4 (fst (entry s4 h)) hi = 0" using s4(3) key_compare.refl0 [OF cmp] f4(2) by simp
    have len: "length (edge ((isl_plain (lvl s2 l))\<lparr>start := [d]\<rparr>)) = Suc (lvl s4 l)" by (simp add: isl_plain_def f4(1))
    have "tag_edge s4 l hi d (Suc (lvl s2 l)) = map_option (Pair j) (set_isln s4 l x)"
      by (rule tag_edge_adjacent [OF s4(2) hk l4 len, of "Suc (lvl s4 l)" d, unfolded f4(1), folded j_def, unfolded x']) (simp_all add: j_def)
    then have "tag_edge s4 l hi d (Suc (lvl s4 l)) = Some (j, s5)" using s5(1) f4(1) by simp
    moreover obtain n where "nodes s4 l = Some n" using ordered_node [OF s4(2) mem(1)] by blast
    moreover have "sl_next s5 l j = Some (Some h)" using sl_next_place [OF s5(2), of j] s5(5) f4(1) by (simp add: same_links_def j_def)
    moreover have "insert_walk s5 h h hi d = Some s5" by (subst insert_walk.simps) simp
    ultimately show ?thesis using lh by (subst insert_walk.simps) (simp add: lvl_def del: tag_edge.simps)
  qed
  have f: "compare s5 = compare sl" "head s5 = head sl" "n_keys s5 = n_keys sl" "lvl s5 = lvl s2" using s5(5) s4(5) s3(5) s2(6-8) s1(6-8) by (simp_all add: same_links_def)
  have old: "info s5 b = info sl b \<and> lvl s5 b = lvl sl b" if "b \<in> set (head sl # as @ bs)" for b
  proof -
    have "b \<noteq> h" "b \<noteq> l" using that s1(3,7) s2(3) by auto
    then show ?thesis using s1(5) s2(5) s3(4) s4(4) s5(4) f(4) by simp
  qed
  have "entry s5 h = (hi, [Some ((isl_plain (lvl s2 h))\<lparr>n_end := 1\<rparr>)])" using s4(3) entries_eq [OF s5(4) lh [symmetric]] by simp
  then have "isl_nodes s5 [l, h] [(lo, hi, d)]" using s5(3) f(1,4) c by (simp add: x_def j_def)
  then have "isl_nodes s5 (as @ [l, h] @ bs) (xs @ [(lo, hi, d)] @ ys)" by (rule isl_nodes_glue [OF _ ab(2,3) f(1)]) (use old in auto)
  moreover have "info s5 (head s5) = Some (None, [None])" using old [of "head sl"] inv f(2) by (simp add: isl_inv_def)
  ultimately have "isl_inv s5 (as @ l # h # bs) (xs @ (lo, hi, d) # ys)" using s5(2) f(3) inv by (simp add: isl_inv_def)
  moreover have "isln_at s2 l = Some (isl_plain (lvl s2 l))" "isln_at s3 h = Some (isl_plain (lvl s2 h))"
    using isln_at_entry(1) [OF s2(2) mem(1) s2(4)] isln_at_entry(1) [OF s3(2) mem(2) h3] by auto
  then have "tbx_isl_insert il dh dl lo hi d = Some (0, il\<lparr>n_intervals := n_intervals il + 1, isl_sl := s5\<rparr>)"
    using sl s1(1,6) s2(1,6) s3(1) s4(1) walk c by (simp add: tbx_isl_insert_def Let_def append_isl_data_def isl_plain_def)
  ultimately show ?thesis using f(1) by blast
qed

section \<open>Removing\<close>

text \<open>The marks on the links from a node to the next end point go away.\<close>

lemma untag_edges_adjacent:
  assumes "sl_ordered sl (as @ l # h # bs)" "compare sl (fst (entry sl h)) hi = 0" "entry sl l = (k, [Some x])" "length (edge x) = Suc (lvl sl l)" "m \<le> Suc (lvl sl l)"
  shows "\<exists>sl' x'. untag_edges sl l hi d m = Some sl' \<and> sl_ordered sl' (as @ l # h # bs) \<and> entry sl' l = (k, [Some x']) \<and>
    x' = x\<lparr>edge := edge x'\<rparr> \<and> length (edge x') = length (edge x) \<and> (\<forall>i < length (edge x). edge x' ! i = (if i < m \<and> i \<le> lvl sl h then remove1 d (edge x ! i) else edge x ! i)) \<and>
    (\<forall>b. b \<noteq> l \<longrightarrow> info sl' b = info sl b) \<and> same_links sl sl'"
  using assms
proof (induction m arbitrary: sl x)
  case (Suc i)
  note ord = Suc.prems(1) and h = Suc.prems(2) and l = Suc.prems(3,4)
  have mem: "l \<in> set (as @ l # h # bs)" and lh: "l \<noteq> h" using sl_ordered_distinct [OF ord] by auto
  have cmp: "key_compare (compare sl)" using ord by (simp add: sl_ordered_def)
  have nxt: "sl_next sl l i = Some (if i \<le> lvl sl h then Some h else find (\<lambda>b. i \<le> lvl sl b) bs)" using sl_next_place [OF ord, of i] Suc.prems(5) by simp
  have key: "key_at sl b = Some (fst (entry sl b))" if "b \<in> set (h # bs)" for b using ordered_node [OF ord, of b] that by (auto simp: key_at_def)
  show ?case
  proof (cases "i \<le> lvl sl h")
    case True
    let ?y = "x\<lparr>edge := (edge x)[i := remove1 d (edge x ! i)]\<rparr>"
    obtain s1 where s1: "set_isln sl l ?y = Some s1" "sl_ordered s1 (as @ l # h # bs)" "entry s1 l = (k, [Some ?y])" "\<forall>b. b \<noteq> l \<longrightarrow> info s1 b = info sl b" "same_links sl s1"
      using set_isln_result [OF ord mem l(1)] by blast
    have rm: "snd (remove_isl_data (edge x ! i) d) = remove1 d (edge x ! i)" by (auto simp: remove_isl_data_def remove1_idem)
    have "untag_edges sl l hi d (Suc i) = untag_edges s1 l hi d i"
      using nxt True key [of h] h isln_at_entry(1) [OF ord mem l(1)] Suc.prems(4,5) s1(1) rm by (simp add: get_edge_def)
    moreover have "compare s1 (fst (entry s1 h)) hi = 0" using h entries_eq [OF s1(4), of h] lh s1(5) by (simp add: same_links_def)
    moreover have "length (edge ?y) = Suc (lvl s1 l)" "i \<le> Suc (lvl s1 l)" using l(2) Suc.prems(5) s1(5) by (simp_all add: same_links_def)
    ultimately obtain sl' x' where r: "untag_edges sl l hi d (Suc i) = Some sl'" "sl_ordered sl' (as @ l # h # bs)" "entry sl' l = (k, [Some x'])" "x' = ?y\<lparr>edge := edge x'\<rparr>"
      "length (edge x') = length (edge ?y)" "\<forall>j < length (edge ?y). edge x' ! j = (if j < i \<and> j \<le> lvl s1 h then remove1 d (edge ?y ! j) else edge ?y ! j)"
      "\<forall>b. b \<noteq> l \<longrightarrow> info sl' b = info s1 b" "same_links s1 sl'"
      using Suc.IH [OF s1(2) _ s1(3)] by metis
    have "edge x' ! j = (if j < Suc i \<and> j \<le> lvl sl h then remove1 d (edge x ! j) else edge x ! j)" if "j < length (edge x)" for j
      using r(6) that True s1(5) by (cases "j = i") (auto simp: same_links_def)
    then show ?thesis using r s1(4) same_links_trans [OF s1(5) r(8)] by auto
  next
    case False
    have "untag_edges sl l hi d (Suc i) = untag_edges sl l hi d i"
    proof (cases "find (\<lambda>b. i \<le> lvl sl b) bs")
      case None
      then show ?thesis using nxt False by simp
    next
      case (Some b)
      then have b: "b \<in> set bs" by (auto simp: find_Some_iff)
      have "compare sl (fst (entry sl h)) (fst (entry sl b)) < 0" using ord b by (auto simp: sl_ordered_def sorted_wrt_append key_lt_def)
      then have "compare sl hi (fst (entry sl b)) < 0" using key_compare.le_lt_trans [OF cmp] key_compare.sym0 [OF cmp] h by (metis order_refl)
      then have "\<not> compare sl (fst (entry sl b)) hi < 1" using key_compare.anti [OF cmp, of hi "fst (entry sl b)"] by simp
      then show ?thesis using nxt False Some key [of b] b by simp
    qed
    moreover obtain sl' x' where r: "untag_edges sl l hi d i = Some sl'" "sl_ordered sl' (as @ l # h # bs)" "entry sl' l = (k, [Some x'])" "x' = x\<lparr>edge := edge x'\<rparr>"
      "length (edge x') = length (edge x)" "\<forall>j < length (edge x). edge x' ! j = (if j < i \<and> j \<le> lvl sl h then remove1 d (edge x ! j) else edge x ! j)"
      "\<forall>b. b \<noteq> l \<longrightarrow> info sl' b = info sl b" "same_links sl sl'"
      using Suc.IH [OF ord h l] Suc.prems(5) by auto
    moreover have "edge x' ! j = (if j < Suc i \<and> j \<le> lvl sl h then remove1 d (edge x ! j) else edge x ! j)" if "j < length (edge x)" for j
      using r(6) that False by (cases "j = i") auto
    ultimately show ?thesis by auto
  qed
qed (intro exI conjI; auto simp: same_links_def)

text \<open>A node without contents is taken out of the list.\<close>

lemma remove_if_empty_result:
  assumes ord: "sl_ordered sl (as @ b # bs)" and e: "entry sl b = (k', [Some x])" "isl_node_is_empty x" and k: "compare sl k' k = 0"
  shows "\<exists>sl'. remove_if_empty sl b k = Some sl' \<and> sl_ordered sl' (as @ bs) \<and> (\<forall>a. a \<noteq> b \<longrightarrow> info sl' a = info sl a \<and> lvl sl' a = lvl sl a) \<and>
    n_keys sl' = n_keys sl - 1 \<and> head sl' = head sl \<and> compare sl' = compare sl"
proof -
  obtain sl' where "tbx_sl_remove sl (Some k) None = Some (0, sl')" "sl_ordered sl' (as @ bs)" "\<forall>a. a \<noteq> b \<longrightarrow> info sl' a = info sl a \<and> lvl sl' a = lvl sl a"
    "n_keys sl' = n_keys sl - 1" "head sl' = head sl" "compare sl' = compare sl" using sl_remove_at [OF ord, of k] e(1) k by auto
  then show ?thesis using isln_at_entry(1) [OF ord _ e(1)] e(2) by (simp add: remove_if_empty_def)
qed

lemma isl_nodes_cut:
  assumes "isl_nodes s as xs" "isl_nodes s bs ys" "compare t = compare s" "\<And>a. a \<in> set (as @ bs) \<Longrightarrow> info t a = info s a \<and> lvl t a = lvl s a"
  shows "isl_nodes t (as @ bs) (xs @ ys)"
  using isl_nodes_glue [of t "[]" "[]", OF _ assms(1-3)] assms(4) by simp

lemma isl_remove_point:
  assumes inv: "isl_inv sl ns (xs @ (p, p, d) # ys)" and lo: "compare sl p lo = 0" and c: "compare sl lo hi = 0" and sl: "isl_sl il = sl"
  shows "\<exists>sl' ns'. tbx_isl_remove il lo hi d = Some (0, il\<lparr>n_intervals := n_intervals il - 1, isl_sl := sl', isl_freed := isl_freed il @ [d]\<rparr>) \<and>
    isl_inv sl' ns' (xs @ ys) \<and> compare sl' = compare sl"
proof -
  have ord: "sl_ordered sl ns" and cmp: "key_compare (compare sl)" and nodes: "isl_nodes sl ns (xs @ (p, p, d) # ys)" using inv by (auto simp: isl_inv_def sl_ordered_def)
  obtain as cs where ac: "ns = as @ cs" "isl_nodes sl as xs" "isl_nodes sl cs ((p, p, d) # ys)" using isl_nodes_split [OF nodes] by blast
  then obtain a bs where ab: "cs = a # bs" "entry sl a = (p, [Some ((isl_plain (lvl sl a))\<lparr>point := [d]\<rparr>)])" "isl_nodes sl bs ys"
    using key_compare.refl0 [OF cmp, of p] by (cases cs) auto
  have ord': "sl_ordered sl (as @ a # bs)" using ord ac(1) ab(1) by simp
  have mem: "a \<in> set (as @ a # bs)" and na: "a \<notin> set (head sl # as @ bs)" using sl_ordered_distinct [OF ord'] isl_inv_head [OF ord'] by auto
  obtain ptr where f: "find_key sl no_ptr (Some lo) 0 = Some (ptr, 0)" "ptr_next sl ptr = Some (Some a)"
    using find_key_at [OF ord' key_place [OF ord', of lo], of 0] ab(2) lo by auto
  obtain s1 where s1: "set_isln sl a (isl_plain (lvl sl a)) = Some s1" "sl_ordered s1 (as @ a # bs)" "entry s1 a = (p, [Some (isl_plain (lvl sl a))])"
    "\<forall>b. b \<noteq> a \<longrightarrow> info s1 b = info sl b" "same_links sl s1" using set_isln_result [OF ord' mem ab(2)] by blast
  have "compare s1 p lo = 0" using lo s1(5) by (simp add: same_links_def)
  then obtain s2 where s2: "remove_if_empty s1 a lo = Some s2" "sl_ordered s2 (as @ bs)" "\<forall>b. b \<noteq> a \<longrightarrow> info s2 b = info s1 b \<and> lvl s2 b = lvl s1 b"
    "n_keys s2 = n_keys s1 - 1" "head s2 = head s1" "compare s2 = compare s1"
    using remove_if_empty_result [OF s1(2,3), of lo] by (auto simp: isl_node_is_empty_def isl_plain_def)
  have f2: "compare s2 = compare sl" "head s2 = head sl" "n_keys s2 = n_keys sl - 1" using s1(5) s2(4-6) by (simp_all add: same_links_def)
  have old: "info s2 b = info sl b \<and> lvl s2 b = lvl sl b" if "b \<in> set (head sl # as @ bs)" for b
    using that na s1(4,5) s2(3) by (cases "b = a") (auto simp: same_links_def)
  have "isl_nodes s2 (as @ bs) (xs @ ys)" by (rule isl_nodes_cut [OF ac(2) ab(3) f2(1)]) (use old in auto)
  then have "isl_inv s2 (as @ bs) (xs @ ys)" using s2(2) f2 inv old [of "head sl"] by (simp add: isl_inv_def)
  moreover have x: "isln_at sl a = Some ((isl_plain (lvl sl a))\<lparr>point := [d]\<rparr>)" using isln_at_entry(1) [OF ord' mem ab(2)] .
  have "tbx_isl_remove il lo hi d = Some (0, il\<lparr>n_intervals := n_intervals il - 1, isl_sl := s2, isl_freed := isl_freed il @ [d]\<rparr>)"
    using sl f c x s1(1) s2(1) by (simp add: tbx_isl_remove_def Let_def remove_isl_data_def isl_plain_def)
  ultimately show ?thesis using f2(1) by blast
qed

lemma isl_remove_proper:
  assumes inv: "isl_inv sl ns (xs @ (l, h, d) # ys)" and lo: "compare sl l lo = 0" and hi: "compare sl h hi = 0" and c: "compare sl lo hi < 0" and sl: "isl_sl il = sl"
  shows "\<exists>sl' ns'. tbx_isl_remove il lo hi d = Some (0, il\<lparr>n_intervals := n_intervals il - 1, isl_sl := sl', isl_freed := isl_freed il @ [d]\<rparr>) \<and>
    isl_inv sl' ns' (xs @ ys) \<and> compare sl' = compare sl"
proof -
  have ord: "sl_ordered sl ns" and cmp: "key_compare (compare sl)" and nodes: "isl_nodes sl ns (xs @ (l, h, d) # ys)" using inv by (auto simp: isl_inv_def sl_ordered_def)
  have lh: "compare sl l h < 0" using lo hi c key_compare.sym0 [OF cmp] key_compare.le_lt_trans [OF cmp] key_compare.lt_le_trans [OF cmp] by (metis order_refl)
  obtain as cs where ac: "ns = as @ cs" "isl_nodes sl as xs" "isl_nodes sl cs ((l, h, d) # ys)" using isl_nodes_split [OF nodes] by blast
  then obtain a b bs where ab: "cs = a # b # bs" "entry sl a = (l, [Some ((isl_plain (lvl sl a))\<lparr>start := [d], edge := (replicate (Suc (lvl sl a)) [])[min (lvl sl a) (lvl sl b) := [d]]\<rparr>)])"
    "entry sl b = (h, [Some ((isl_plain (lvl sl b))\<lparr>n_end := 1\<rparr>)])" "isl_nodes sl bs ys" using lh by (cases cs; cases "tl cs") auto
  define x where "x = (isl_plain (lvl sl a))\<lparr>start := [d], edge := (replicate (Suc (lvl sl a)) [])[min (lvl sl a) (lvl sl b) := [d]]\<rparr>"
  have ea: "entry sl a = (l, [Some x])" using ab(2) by (simp add: x_def)
  have ord': "sl_ordered sl (as @ a # b # bs)" using ord ac(1) ab(1) by simp
  have mem: "a \<in> set (as @ a # b # bs)" and na: "a \<notin> set (head sl # as @ b # bs)" "b \<notin> set (head sl # as @ bs)" using sl_ordered_distinct [OF ord'] isl_inv_head [OF ord'] by auto
  obtain ptr where f: "find_key sl no_ptr (Some lo) 0 = Some (ptr, 0)" "ptr_next sl ptr = Some (Some a)"
    using find_key_at [OF ord' key_place [OF ord', of lo], of 0] ab(2) lo by auto
  obtain s1 where s1: "set_isln sl a (x\<lparr>start := []\<rparr>) = Some s1" "sl_ordered s1 (as @ a # b # bs)" "entry s1 a = (l, [Some (x\<lparr>start := []\<rparr>)])"
    "\<forall>b. b \<noteq> a \<longrightarrow> info s1 b = info sl b" "same_links sl s1" using set_isln_result [OF ord' mem ea] by blast
  have eb1: "entry s1 b = (h, [Some ((isl_plain (lvl sl b))\<lparr>n_end := 1\<rparr>)])" using ab(3) entries_eq [OF s1(4), of b] na by auto
  have f1: "compare s1 = compare sl" "head s1 = head sl" "n_keys s1 = n_keys sl" "lvl s1 = lvl sl" using s1(5) by (simp_all add: same_links_def)
  have len: "length (edge (x\<lparr>start := []\<rparr>)) = Suc (lvl s1 a)" by (simp add: x_def isl_plain_def f1 del: replicate_Suc)
  have hk: "compare s1 (fst (entry s1 b)) hi = 0" using eb1 hi f1 by simp
  obtain s2 y where s2: "untag_edges s1 a hi d (Suc (lvl s1 a)) = Some s2" "sl_ordered s2 (as @ a # b # bs)" "entry s2 a = (l, [Some y])" "y = x\<lparr>start := [], edge := edge y\<rparr>"
    "\<forall>b. b \<noteq> a \<longrightarrow> info s2 b = info s1 b" "same_links s1 s2"
    using untag_edges_adjacent [OF s1(2) hk s1(3) len, of "Suc (lvl s1 a)" d] by auto
  have f2: "compare s2 = compare sl" "head s2 = head sl" "n_keys s2 = n_keys sl" "lvl s2 = lvl sl" using s2(6) f1 by (simp_all add: same_links_def)
  have eb2: "entry s2 b = (h, [Some ((isl_plain (lvl sl b))\<lparr>n_end := 1\<rparr>)])" using eb1 entries_eq [OF s2(5), of b] na by auto
  have memb: "b \<in> set (as @ a # b # bs)" by simp
  have walk: "remove_walk s1 a hi d = Some (s2, b)"
  proof -
    have "compare sl l hi < 0" using lo c key_compare.le_lt_trans [OF cmp, of l lo hi] by simp
    moreover obtain n where "nodes s1 a = Some n" using ordered_node [OF s1(2) mem] by blast
    moreover have "sl_next s2 a 0 = Some (Some b)" using sl_next_place [OF s2(2), of 0] by simp
    moreover have "remove_walk s2 b hi d = Some (s2, b)"
      using isln_at_entry(3) [OF s2(2) memb eb2] hi f2(1) by (subst remove_walk.simps) simp
    ultimately show ?thesis using isln_at_entry(3) [OF s1(2) mem s1(3)] s2(1) f1(1) by (subst remove_walk.simps) (simp add: lvl_def del: untag_edges.simps)
  qed
  obtain s3 where s3: "set_isln s2 b (isl_plain (lvl sl b)) = Some s3" "sl_ordered s3 (as @ a # b # bs)" "entry s3 b = (h, [Some (isl_plain (lvl sl b))])"
    "\<forall>c. c \<noteq> b \<longrightarrow> info s3 c = info s2 c" "same_links s2 s3" using set_isln_result [OF s2(2) memb eb2] by blast
  have ord3: "sl_ordered s3 ((as @ [a]) @ b # bs)" using s3(2) by simp
  have "compare s3 h hi = 0" using hi s3(5) f2(1) by (simp add: same_links_def)
  then obtain s4 where s4: "remove_if_empty s3 b hi = Some s4" "sl_ordered s4 ((as @ [a]) @ bs)" "\<forall>c. c \<noteq> b \<longrightarrow> info s4 c = info s3 c \<and> lvl s4 c = lvl s3 c"
    "n_keys s4 = n_keys s3 - 1" "head s4 = head s3" "compare s4 = compare s3"
    using remove_if_empty_result [OF ord3 s3(3), of hi] by (auto simp: isl_node_is_empty_def isl_plain_def)
  have ba: "a \<noteq> b" using na by auto
  have f4: "compare s4 = compare sl" "head s4 = head sl" "n_keys s4 = n_keys sl - 1" using s3(5) s4(4-6) f2 by (simp_all add: same_links_def)
  have ea4: "entry s4 a = (l, [Some y])" using s2(3) s3(4) s4(3) ba entry_cong [of s4 a s2] by simp
  have ord4: "sl_ordered s4 (as @ a # bs)" using s4(2) by simp
  have "point y = []" "start y = []" "n_end y = 0" by (subst s2(4), simp add: x_def isl_plain_def)+
  then obtain s5 where s5: "remove_if_empty s4 a lo = Some s5" "sl_ordered s5 (as @ bs)" "\<forall>c. c \<noteq> a \<longrightarrow> info s5 c = info s4 c \<and> lvl s5 c = lvl s4 c"
    "n_keys s5 = n_keys s4 - 1" "head s5 = head s4" "compare s5 = compare s4"
    using remove_if_empty_result [OF ord4 ea4, of lo] lo f4(1) by (auto simp: isl_node_is_empty_def)
  have f5: "compare s5 = compare sl" "head s5 = head sl" "n_keys s5 = n_keys sl - 2" using s5(4-6) f4 by simp_all
  have old: "info s5 c = info sl c \<and> lvl s5 c = lvl sl c" if "c \<in> set (head sl # as @ bs)" for c
  proof -
    have "c \<noteq> a" "c \<noteq> b" using that na by auto
    then show ?thesis using s1(4) s2(5) s3(4,5) s4(3) s5(3) f2(4) by (simp add: same_links_def)
  qed
  have "isl_nodes s5 (as @ bs) (xs @ ys)" by (rule isl_nodes_cut [OF ac(2) ab(4) f5(1)]) (use old in auto)
  then have "isl_inv s5 (as @ bs) (xs @ ys)" using s5(2) f5 inv old [of "head sl"] by (simp add: isl_inv_def)
  moreover have "isln_at sl a = Some x" "isln_at s2 b = Some ((isl_plain (lvl sl b))\<lparr>n_end := 1\<rparr>)"
    using isln_at_entry(1) [OF ord' mem ea] isln_at_entry(1) [OF s2(2) memb eb2] by auto
  then have "tbx_isl_remove il lo hi d = Some (0, il\<lparr>n_intervals := n_intervals il - 1, isl_sl := s5, isl_freed := isl_freed il @ [d]\<rparr>)"
    using sl f c s1(1) walk s3(1) s4(1) s5(1) ba by (simp add: tbx_isl_remove_def Let_def remove_isl_data_def x_def isl_plain_def)
  ultimately show ?thesis using f5(1) by blast
qed

end
