(* ===== verification/Interval_Search.thy ===== *)
theory Interval_Search
  imports Interval_Skiplist
begin

text \<open>
  Searching in an interval skip list and the contract of the whole: \<^verbatim>\<open>tbx_isl_iter_search\<close> and \<^verbatim>\<open>tbx_isl_next\<close> return the
  intervals that overlap a range, and the operations refine those of a sorted list of disjoint intervals.  At the end two
  things that go wrong: the first and the last key, and removing from intervals that overlap.
\<close>

section \<open>Searching\<close>

text \<open>All data that an iterator returns, by calls of \<^verbatim>\<open>tbx_isl_next\<close> until it returns NULL.\<close>

partial_function (option) isl_collect :: "('k, 'd) tbx_isl_t \<Rightarrow> ('k, 'd) tbx_isl_iter_t \<Rightarrow> 'd list option" where
  "isl_collect il it = do {
     (d, it) \<leftarrow> tbx_isl_next il it;
     case d of None \<Rightarrow> Some [] | Some d \<Rightarrow> do { ds \<leftarrow> isl_collect il it; Some (d # ds) }
   }"

declare isl_collect.simps [code]

lemma range_count_collect: "isl_collect il it = Some ds \<Longrightarrow> range_count il it n = Some (n + int (length ds))"
proof -
  assume "isl_collect il it = Some ds"
  then have "\<forall>n. range_count il it n = Some (n + int (length ds))"
  proof (rule isl_collect.raw_induct [rotated])
    fix rec il it ds
    assume IH: "\<And>il it ds. rec il it = Some ds \<Longrightarrow> \<forall>n. range_count il it n = Some (n + int (length ds))"
      and "(do { (d, it) \<leftarrow> tbx_isl_next il it; case d of None \<Rightarrow> Some [] | Some d \<Rightarrow> do { ds \<leftarrow> rec il it; Some (d # ds) } }) = Some ds"
    then obtain d it' where n: "tbx_isl_next il it = Some (d, it')" "(case d of None \<Rightarrow> Some [] | Some d \<Rightarrow> do { ds \<leftarrow> rec il it'; Some (d # ds) }) = Some ds"
      by (auto simp: bind_Some_iff)
    show "\<forall>n. range_count il it n = Some (n + int (length ds))"
    proof (cases d)
      case None
      then show ?thesis using n by (subst range_count.simps) simp
    next
      case (Some e)
      then obtain es where "rec il it' = Some es" "ds = e # es" using n(2) by (auto simp: bind_Some_iff)
      then show ?thesis using n(1) Some IH [of il it' es] by (subst range_count.simps) (simp add: algebra_simps)
    qed
  qed
  then show ?thesis by simp
qed

text \<open>The place of a key against a bound that may be missing.\<close>

definition under :: "('k \<Rightarrow> 'k \<Rightarrow> int) \<Rightarrow> 'k \<Rightarrow> 'k option \<Rightarrow> bool" where
  "under cmp k lo \<longleftrightarrow> (case lo of None \<Rightarrow> False | Some l \<Rightarrow> cmp k l < 0)"

definition against :: "('k \<Rightarrow> 'k \<Rightarrow> int) \<Rightarrow> 'k \<Rightarrow> 'k option \<Rightarrow> int" where
  "against cmp k hi = (case hi of None \<Rightarrow> -1 | Some h \<Rightarrow> cmp k h)"

lemma key_place_bound:
  assumes ord: "sl_ordered sl (as @ bs)" and as: "\<forall>a \<in> set as. under (compare sl) (fst (entry sl a)) lo" and bs: "\<forall>b \<in> set bs. \<not> under (compare sl) (fst (entry sl b)) lo"
  shows "\<exists>ptr c. find_key sl no_ptr lo 1 = Some (ptr, c) \<and> preds sl ptr as"
proof (cases lo)
  case None
  then have "as = []" using as by (cases as) (auto simp: under_def)
  moreover have "sl_rep sl (as @ bs)" using ord by (simp add: sl_ordered_def)
  ultimately show ?thesis using None find_fixed [of sl "as @ bs" 1 "[]" bs] by auto
next
  case (Some l)
  have "\<forall>a \<in> set as. compare sl (fst (entry sl a)) l < 0" "\<forall>b \<in> set bs. 0 \<le> compare sl (fst (entry sl b)) l" using as bs Some by (auto simp: under_def)
  from find_key_at [OF ord this, of 1] show ?thesis using Some by auto
qed

lemma scan_nodes_at:
  assumes ord: "sl_ordered sl (as @ a # bs)" and e: "entry sl a = (k, [Some x])"
  shows "scan_nodes sl hi (Some a) m c =
    (if against (compare sl) k hi > -1 then Some (Scan_end (-2) (against (compare sl) k hi) (Some a))
     else if m \<le> 0 \<and> point x \<noteq> [] then Some (Scan_found a (point x) 1)
     else if m \<le> 1 \<and> start x \<noteq> [] then Some (Scan_found a (start x) 2)
     else scan_nodes sl hi (case bs of [] \<Rightarrow> None | b # _ \<Rightarrow> Some b) 0 (against (compare sl) k hi))"
proof -
  have "sl_rep sl (as @ a # bs)" using ord by (simp add: sl_ordered_def)
  then have "sl_next sl a 0 = Some (case bs of [] \<Rightarrow> None | b # _ \<Rightarrow> Some b)" by (rule sl_rep_next [of _ _ "head sl # as"]) simp
  moreover have "isln_at sl a = Some x" "key_at sl a = Some k" using isln_at_entry [OF ord _ e] by auto
  ultimately show ?thesis by (subst scan_nodes.simps) (cases hi; simp add: against_def)
qed

lemma against_cases:
  obtains "against cmp k hi \<le> -1" | "against cmp k hi = 0" | "against cmp k hi > 0"
  by linarith

text \<open>An iterator that has returned the marks and goes over the nodes.\<close>

definition scanning :: "('k, 'd) isl_list \<Rightarrow> ('k, 'd) tbx_isl_iter_t \<Rightarrow> nat list \<Rightarrow> bool" where
  "scanning sl it bs \<longleftrightarrow> ii_finished it \<noteq> 1 \<and> ii_ele it = [] \<and> scan_edges sl (ii_ptr it) (ii_level it) = Some None \<and> (ii_level it > 0 \<or> 0 \<le> ii_mode it) \<and>
     (\<exists>c < 0. scan_nodes sl (ii_hi it) (ii_sn it) (if ii_level it > 0 then 0 else ii_mode it) (-100) = scan_nodes sl (ii_hi it) (case bs of [] \<Rightarrow> None | b # _ \<Rightarrow> Some b) 0 c)"

lemma scanning_Nil: "isl_sl il = sl \<Longrightarrow> scanning sl it [] \<Longrightarrow> isl_collect il it = Some []"
  by (subst isl_collect.simps) (auto simp: scanning_def tbx_isl_next_def Let_def scan_nodes.simps [of _ _ None])

lemma scanning_stop:
  assumes "isl_sl il = sl" "scanning sl it (b # bs)" "sl_ordered sl (as @ b # bs)" "entry sl b = (k, [Some x])"
    "against (compare sl) k (ii_hi it) > 0 \<or> against (compare sl) k (ii_hi it) = 0 \<and> point x = [] \<and> start x = []"
  shows "isl_collect il it = Some []"
proof -
  have "isln_at sl b = Some x" using isln_at_entry(1) [OF assms(3) _ assms(4)] by simp
  then show ?thesis using assms(1,2,5) by (subst isl_collect.simps) (auto simp: scanning_def tbx_isl_next_def Let_def scan_nodes_at [OF assms(3,4)])
qed

lemma scanning_skip:
  assumes "scanning sl it (b # bs)" "sl_ordered sl (as @ b # bs)" "entry sl b = (k, [Some x])" "against (compare sl) k (ii_hi it) \<le> -1" "point x = []" "start x = []"
  shows "scanning sl it bs"
  using assms(1,4-6) unfolding scanning_def
  by (auto simp: scan_nodes_at [OF assms(2,3)] intro!: exI [of _ "against (compare sl) k (ii_hi it)"])

lemma scanning_found:
  assumes sl: "isl_sl il = sl" and s: "scanning sl it (b # bs)" and ord: "sl_ordered sl (as @ b # bs)" and e: "entry sl b = (k, [Some x])"
    and c: "against (compare sl) k (ii_hi it) \<le> -1" and x: "point x @ start x = [d]"
  shows "\<exists>it'. tbx_isl_next il it = Some (Some d, it') \<and> scanning sl it' bs \<and> ii_hi it' = ii_hi it"
proof -
  define m where "m = (if point x \<noteq> [] then 1 else 2 :: int)"
  define it' where "it' = it\<lparr>ii_ele := [], ii_level := 0, ii_mode := m, ii_sn := Some b\<rparr>"
  have "tbx_isl_next il it = Some (Some d, it')"
    using sl s c x by (auto simp: scanning_def tbx_isl_next_def Let_def scan_nodes_at [OF ord e] it'_def m_def append_eq_Cons_conv)
  moreover have "scanning sl it' bs" using s c x by (auto simp: scanning_def it'_def m_def scan_nodes_at [OF ord e] append_eq_Cons_conv intro!: exI [of _ "against (compare sl) k (ii_hi it)"])
  ultimately show ?thesis by (auto simp: it'_def)
qed

lemma scanning_last:
  assumes sl: "isl_sl il = sl" and s: "scanning sl it (b # bs)" and ord: "sl_ordered sl (as @ b # bs)" and e: "entry sl b = (k, [Some x])"
    and c: "against (compare sl) k (ii_hi it) = 0" and x: "point x @ start x = [d]"
  shows "isl_collect il it = Some [d]"
proof -
  define it' where "it' = it\<lparr>ii_ele := [], ii_level := 0, ii_mode := (if point x \<noteq> [] then -3 else -4)\<rparr>"
  have "isln_at sl b = Some x" using isln_at_entry(1) [OF ord _ e] by simp
  moreover have "scan_nodes sl (ii_hi it) (ii_sn it) (if ii_level it > 0 then 0 else ii_mode it) (-100) = Some (Scan_end (-2) 0 (Some b))"
    using s c by (auto simp: scanning_def scan_nodes_at [OF ord e])
  moreover have "ii_finished it \<noteq> 1" "ii_ele it = []" "scan_edges sl (ii_ptr it) (ii_level it) = Some None" "ii_level it > 0 \<or> 0 \<le> ii_mode it" using s by (auto simp: scanning_def)
  ultimately have "tbx_isl_next il it = Some (Some d, it')"
    using sl x by (cases "point x") (auto simp: tbx_isl_next_def Let_def it'_def)
  moreover have "isl_collect il it' = Some []" using s sl by (subst isl_collect.simps) (simp add: it'_def tbx_isl_next_def scanning_def)
  ultimately show ?thesis by (subst isl_collect.simps) simp
qed

lemma isl_nodes_starts: "isl_nodes sl ns ivs \<Longrightarrow> (l, h, d) \<in> set ivs \<Longrightarrow> \<exists>a \<in> set ns. fst (entry sl a) = l"
proof (induction sl ns ivs rule: isl_nodes.induct)
  case (2 sl a ns lo hi e ivs)
  show ?case
  proof (cases "compare sl lo hi = 0")
    case True
    then show ?thesis using 2 by fastforce
  next
    case False
    then show ?thesis using 2 by (cases ns) auto
  qed
qed auto

lemma against_mono: "key_compare cmp \<Longrightarrow> cmp k l < 0 \<Longrightarrow> 0 \<le> against cmp k hi \<Longrightarrow> 0 < against cmp l hi"
proof (cases hi)
  case (Some h)
  assume "key_compare cmp" "cmp k l < 0" "0 \<le> against cmp k hi"
  then show ?thesis using key_compare.lt_le_trans [of cmp k l h] Some by (force simp: against_def)
qed (simp add: against_def)

lemma later_starts:
  assumes ord: "sl_ordered sl (as @ b # bs)" and nodes: "isl_nodes sl bs ys" and b: "0 \<le> against (compare sl) (fst (entry sl b)) hi"
  shows "filter (\<lambda>y. against (compare sl) (fst y) hi \<le> 0) ys = []"
proof -
  have cmp: "key_compare (compare sl)" using ord by (simp add: sl_ordered_def)
  have "\<not> against (compare sl) l hi \<le> 0" if m: "(l, h', d) \<in> set ys" for l h' d
  proof -
    obtain c where "c \<in> set bs" "fst (entry sl c) = l" using isl_nodes_starts [OF nodes m] by blast
    then have "compare sl (fst (entry sl b)) l < 0" using ord by (auto simp: sl_ordered_def sorted_wrt_append key_lt_def)
    then show ?thesis using against_mono [OF cmp _ b] by fastforce
  qed
  then show ?thesis by (auto simp: filter_empty_conv)
qed

lemma scanning_end:
  assumes sl: "isl_sl il = sl" and s: "scanning sl it (b # ks)" and ord: "sl_ordered sl (as @ b # ks)" and nodes: "isl_nodes sl ks ys"
    and b: "entry sl b = (h, [Some ((isl_plain (lvl sl b))\<lparr>n_end := 1\<rparr>)])"
    and go: "scanning sl it ks \<Longrightarrow> isl_collect il it = Some (map (\<lambda>y. snd (snd y)) (filter (\<lambda>y. against (compare sl) (fst y) (ii_hi it) \<le> 0) ys))"
  shows "isl_collect il it = Some (map (\<lambda>y. snd (snd y)) (filter (\<lambda>y. against (compare sl) (fst y) (ii_hi it) \<le> 0) ys))"
proof (cases "against (compare sl) h (ii_hi it) \<le> -1")
  case True
  then show ?thesis using go scanning_skip [OF s ord b] by (simp add: isl_plain_def)
next
  case False
  then have "against (compare sl) h (ii_hi it) > 0 \<or> against (compare sl) h (ii_hi it) = 0" by linarith
  then show ?thesis using scanning_stop [OF sl s ord b] later_starts [OF ord nodes, of "ii_hi it"] b by (auto simp: isl_plain_def)
qed

text \<open>The nodes give the intervals that start in the range, in their order.\<close>

lemma scanning_collect:
  "isl_sl il = sl \<Longrightarrow> sl_ordered sl (as @ bs) \<Longrightarrow> isl_nodes sl bs ys \<Longrightarrow> scanning sl it bs \<Longrightarrow>
     isl_collect il it = Some (map (\<lambda>y. snd (snd y)) (filter (\<lambda>y. against (compare sl) (fst y) (ii_hi it) \<le> 0) ys))"
proof (induction ys arbitrary: as bs it)
  case Nil
  then show ?case using scanning_Nil by simp
next
  case (Cons y ys)
  obtain l h d where y: "y = (l, h, d)" by (cases y) auto
  let ?in = "\<lambda>y. against (compare sl) (fst y) (ii_hi it) \<le> 0"
  obtain a ms where bs: "bs = a # ms" using Cons.prems(3) by (cases bs) (auto simp: y)
  note ord = Cons.prems(2) [unfolded bs] and s = Cons.prems(4) [unfolded bs] and nodes = Cons.prems(3) [unfolded bs y]
  obtain x where a: "entry sl a = (l, [Some x])" "point x @ start x = [d]" using nodes by (auto simp: isl_plain_def split: list.splits if_splits)
  have rest: "filter ?in ys = []" if c: "0 \<le> against (compare sl) l (ii_hi it)" 
  proof (cases "compare sl l h = 0")
    case True
    then show ?thesis using later_starts [OF ord, of ys "ii_hi it"] nodes c a(1) by auto
  next
    case False
    then obtain b ks where ms: "ms = b # ks" "isl_nodes sl ks ys" using nodes by (cases ms) auto
    have "sl_ordered sl ((as @ [a]) @ b # ks)" using ord ms(1) by simp
    moreover have "compare sl l (fst (entry sl b)) < 0" using ord ms(1) a(1) by (auto simp: sl_ordered_def sorted_wrt_append key_lt_def)
    moreover have cmp: "key_compare (compare sl)" using ord by (simp add: sl_ordered_def)
    ultimately show ?thesis using later_starts [of sl "as @ [a]" b ks ys "ii_hi it"] ms(2) against_mono [OF cmp _ c] by fastforce
  qed
  show ?case
  proof (rule against_cases [of "compare sl" l "ii_hi it"])
    assume c: "against (compare sl) l (ii_hi it) \<le> -1"
    obtain it' where n: "tbx_isl_next il it = Some (Some d, it')" "scanning sl it' ms" "ii_hi it' = ii_hi it"
      using scanning_found [OF Cons.prems(1) s ord a(1) c a(2)] by blast
    have ord1: "sl_ordered sl ((as @ [a]) @ ms)" using ord by simp
    have "isl_collect il it' = Some (map (\<lambda>y. snd (snd y)) (filter ?in ys))"
    proof (cases "compare sl l h = 0")
      case True
      then show ?thesis using Cons.IH [OF Cons.prems(1) ord1 _ n(2)] nodes n(3) by simp
    next
      case False
      then obtain b ks where ms: "ms = b # ks" "isl_nodes sl ks ys" "entry sl b = (h, [Some ((isl_plain (lvl sl b))\<lparr>n_end := 1\<rparr>)])" using nodes by (cases ms) auto
      have ord2: "sl_ordered sl ((as @ [a]) @ b # ks)" "sl_ordered sl ((as @ [a, b]) @ ks)" using ord1 ms(1) by simp_all
      show ?thesis using scanning_end [OF Cons.prems(1) n(2) [unfolded ms(1)] ord2(1) ms(2,3)] Cons.IH [OF Cons.prems(1) ord2(2) ms(2)] n(3) by simp
    qed
    then show ?thesis using n(1) c by (subst isl_collect.simps) (simp add: y)
  next
    assume "against (compare sl) l (ii_hi it) = 0"
    then show ?thesis using scanning_last [OF Cons.prems(1) s ord a(1) _ a(2)] rest by (simp add: y)
  next
    assume "against (compare sl) l (ii_hi it) > 0"
    then show ?thesis using scanning_stop [OF Cons.prems(1) s ord a(1)] rest by (simp add: y)
  qed
qed

text \<open>The marks over a place between the intervals, and over a place inside one.\<close>

lemma scan_edges_level:
  assumes "sl_ordered sl ns" "p \<in> set ns" "entry sl p = (k, [Some x])" "get_edge x i = Some e" "get_ptr ptr i = Some p"
  shows "scan_edges sl ptr (Suc i) = (if e \<noteq> [] then Some (Some (i, e)) else scan_edges sl ptr i)"
  using assms(4,5) isln_at_entry(2) [OF assms(1-3)] by simp

lemma scan_edges_head: "info sl (head sl) = Some (None, [None]) \<Longrightarrow> get_ptr ptr i = Some (head sl) \<Longrightarrow> scan_edges sl ptr (Suc i) = scan_edges sl ptr i"
  by (auto simp: info_def isln_of_def)

lemma scan_edges_quiet:
  assumes "quiet sl as" "sl_ordered sl ns" "set as \<subseteq> set ns" "info sl (head sl) = Some (None, [None])" "is_pred (lvl sl) i (head sl # as) p" "get_ptr ptr i = Some p"
  shows "scan_edges sl ptr (Suc i) = scan_edges sl ptr i"
  using quiet_pred [OF assms(1,5)]
proof (elim disjE conjE exE)
  assume "p = head sl"
  then show ?thesis using scan_edges_head [OF assms(4)] assms(6) by blast
next
  fix k x
  assume "p \<in> set as" "entry sl p = (k, [Some x])" "get_edge x i = Some []"
  then show ?thesis using scan_edges_level [OF assms(2), of p k x i "[]" ptr] assms(3,6) by auto
qed

lemma scan_edges_between:
  assumes inv: "isl_inv sl ns ivs" and q: "quiet sl as" "set as \<subseteq> set ns" "preds sl ptr as"
  shows "m \<le> Suc (current_max sl) \<Longrightarrow> scan_edges sl ptr m = Some None"
proof (induction m)
  case (Suc i)
  obtain p where p: "get_ptr ptr i = Some p" "is_pred (lvl sl) i (head sl # as) p" using q(3) Suc.prems by (auto simp: preds_def)
  show ?case using scan_edges_quiet [OF q(1) _ q(2) _ p(2,1)] inv Suc by (simp add: isl_inv_def del: scan_edges.simps)
qed simp

lemma is_pred_snoc:
  assumes "is_pred lv i (q @ [a]) p"
  shows "if i \<le> lv a then p = a else is_pred lv i q p"
proof -
  obtain u v where uv: "q @ [a] = u @ p # v" "i \<le> lv p" "\<forall>b \<in> set v. lv b < i" using assms by (auto simp: is_pred_def)
  show ?thesis
  proof (cases v rule: rev_cases)
    case Nil
    then show ?thesis using uv by auto
  next
    case (snoc w b)
    then have "q = u @ p # w" "b = a" using uv(1) by auto
    then show ?thesis using uv(2,3) snoc by (auto simp: is_pred_def)
  qed
qed

lemma scan_edges_inside:
  assumes inv: "isl_inv sl ns ivs" and q: "quiet sl as" "set (as @ [a]) \<subseteq> set ns" "preds sl ptr (as @ [a])"
    and a: "entry sl a = (k, [Some x])" "edge x = (replicate (Suc (lvl sl a)) [])[j := [d]]" "j \<le> lvl sl a"
  shows "m \<le> Suc (current_max sl) \<Longrightarrow> scan_edges sl ptr m = Some (if j < m then Some (j, [d]) else None)"
proof (induction m)
  case (Suc i)
  have ord: "sl_ordered sl ns" and hd: "info sl (head sl) = Some (None, [None])" using inv by (auto simp: isl_inv_def)
  obtain p where p: "get_ptr ptr i = Some p" "is_pred (lvl sl) i ((head sl # as) @ [a]) p" using q(3) Suc.prems by (auto simp: preds_def)
  show ?case
  proof (cases "i \<le> lvl sl a")
    case True
    then have "p = a" using is_pred_snoc [OF p(2)] by simp
    moreover have "get_edge x i = Some (if i = j then [d] else [])" using True a(2,3) by (auto simp: get_edge_def nth_list_update less_Suc_eq_le simp del: replicate_Suc)
    ultimately show ?thesis using scan_edges_level [OF ord _ a(1), of i _ ptr] p(1) q(2) Suc by (auto simp: less_Suc_eq simp del: scan_edges.simps)
  next
    case False
    then have "is_pred (lvl sl) i (head sl # as) p" using is_pred_snoc [OF p(2)] by simp
    then have "scan_edges sl ptr (Suc i) = scan_edges sl ptr i" using scan_edges_quiet [OF q(1) ord _ hd _ p(1)] q(2) by auto
    then show ?thesis using Suc False a(3) by (auto simp: less_Suc_eq simp del: scan_edges.simps)
  qed
qed simp

text \<open>The place of the start of a search: between two intervals, or inside one (or at its end).\<close>

lemma under_le: "key_compare cmp \<Longrightarrow> cmp k l \<le> 0 \<Longrightarrow> under cmp l lo \<Longrightarrow> under cmp k lo"
  using key_compare.le_lt_trans [of cmp k l] by (cases lo) (auto simp: under_def)

lemma ordered_later:
  assumes "sl_ordered sl (as @ b # bs)" "\<not> under (compare sl) (fst (entry sl b)) lo"
  shows "\<forall>c \<in> set (b # bs). \<not> under (compare sl) (fst (entry sl c)) lo"
proof -
  have "key_compare (compare sl)" "\<forall>c \<in> set bs. compare sl (fst (entry sl b)) (fst (entry sl c)) < 0" using assms(1) by (auto simp: sl_ordered_def sorted_wrt_append key_lt_def)
  then show ?thesis using assms(2) under_le [of "compare sl" "fst (entry sl b)"] by (auto dest: less_imp_le)
qed

lemma isl_nodes_hd: "isl_nodes sl ns ((l, h, d) # ys) \<Longrightarrow> \<exists>a ms. ns = a # ms \<and> fst (entry sl a) = l"
  by (cases ns) (auto split: if_splits list.splits)

lemma isl_nodes_under:
  assumes inv: "isl_inv sl ns (xs @ ys)" and "isl_nodes sl as xs" "\<forall>y \<in> set xs. under (compare sl) (fst (snd y)) lo"
  shows "\<forall>a \<in> set as. under (compare sl) (fst (entry sl a)) lo"
proof
  fix a assume "a \<in> set as"
  then obtain l h e where x: "(l, h, e) \<in> set xs" "fst (entry sl a) = l \<or> fst (entry sl a) = h" using isl_nodes_keys [OF assms(2)] by blast
  have ord: "sl_ordered sl ns" and nodes: "isl_nodes sl ns (xs @ ys)" using inv by (auto simp: isl_inv_def)
  have cmp: "key_compare (compare sl)" and sorted: "sorted_wrt (key_lt (compare sl)) (items sl ns)" using ord by (auto simp: sl_ordered_def)
  have "compare sl l h \<le> 0" using isl_nodes_le [OF cmp nodes sorted, of l h e] x(1) by simp
  moreover have "under (compare sl) h lo" using assms(3) x(1) by force
  ultimately show "under (compare sl) (fst (entry sl a)) lo" using x(2) under_le [OF cmp] by auto
qed

lemma isl_search_place:
  assumes inv: "isl_inv sl ns ivs"
  obtains (between) xs ys as bs where "ivs = xs @ ys" "ns = as @ bs" "isl_nodes sl as xs" "isl_nodes sl bs ys"
      "\<forall>y \<in> set xs. under (compare sl) (fst (snd y)) lo" "\<forall>b \<in> set bs. \<not> under (compare sl) (fst (entry sl b)) lo"
  | (inside) xs l h d ys as a b bs where "ivs = xs @ (l, h, d) # ys" "ns = as @ a # b # bs" "isl_nodes sl as xs" "isl_nodes sl (a # b # bs) ((l, h, d) # ys)" "compare sl l h \<noteq> 0"
      "\<forall>y \<in> set xs. under (compare sl) (fst (snd y)) lo" "under (compare sl) l lo" "\<not> under (compare sl) h lo"
proof -
  have ord: "sl_ordered sl ns" and nodes: "isl_nodes sl ns ivs" using inv by (auto simp: isl_inv_def)
  let ?b = "\<lambda>y. under (compare sl) (fst (snd y)) lo"
  define xs zs where "xs = takeWhile ?b ivs" "zs = dropWhile ?b ivs"
  have iv: "ivs = xs @ zs" and xb: "\<forall>y \<in> set xs. ?b y" by (auto simp: xs_zs_def dest: set_takeWhileD)
  obtain as bs where ab: "ns = as @ bs" "isl_nodes sl as xs" "isl_nodes sl bs zs" using isl_nodes_split [of sl ns xs zs] nodes iv by auto
  show thesis
  proof (cases zs)
    case Nil
    then show ?thesis using between [OF iv ab xb] ab(3) by simp
  next
    case (Cons y ys)
    obtain l h d where y: "y = (l, h, d)" by (cases y) auto
    have hb: "\<not> under (compare sl) h lo" using hd_dropWhile [of ?b ivs] Cons y by (simp flip: xs_zs_def)
    obtain a ms where a: "bs = a # ms" "fst (entry sl a) = l" using isl_nodes_hd [of sl bs l h d ys] ab(3) Cons y by auto
    show ?thesis
    proof (cases "under (compare sl) l lo")
      case True
      then have ne: "compare sl l h \<noteq> 0" using hb ab(3) Cons y a(1) by auto
      then obtain b ks where "ms = b # ks" using ab(3) Cons y a(1) by (cases ms) auto
      then show ?thesis using inside [OF _ _ ab(2) _ ne xb True hb] iv ab(1,3) Cons y a(1) by auto
    next
      case False
      then show ?thesis using between [OF iv ab xb] ordered_later [of sl as a ms lo] ord ab(1) a by auto
    qed
  qed
qed

text \<open>The intervals that overlap a range, whose bounds may be missing.\<close>

definition overlaps :: "('k \<Rightarrow> 'k \<Rightarrow> int) \<Rightarrow> 'k option \<Rightarrow> 'k option \<Rightarrow> 'k \<times> 'k \<times> 'd \<Rightarrow> bool" where
  "overlaps cmp lo hi y \<longleftrightarrow> \<not> under cmp (fst (snd y)) lo \<and> against cmp (fst y) hi \<le> 0"

definition overlapping :: "('k \<Rightarrow> 'k \<Rightarrow> int) \<Rightarrow> 'k option \<Rightarrow> 'k option \<Rightarrow> ('k \<times> 'k \<times> 'd) list \<Rightarrow> 'd list" where
  "overlapping cmp lo hi ivs = map (\<lambda>y. snd (snd y)) (filter (overlaps cmp lo hi) ivs)"

definition range_ok :: "('k \<Rightarrow> 'k \<Rightarrow> int) \<Rightarrow> 'k option \<Rightarrow> 'k option \<Rightarrow> bool" where
  "range_ok cmp lo hi \<longleftrightarrow> (case (lo, hi) of (Some l, Some h) \<Rightarrow> cmp l h \<le> 0 | _ \<Rightarrow> True)"

lemma isl_iter_search_result:
  assumes ord: "sl_ordered sl (as @ bs)" and sl: "isl_sl il = sl" and as: "\<forall>a \<in> set as. under (compare sl) (fst (entry sl a)) lo" and bs: "\<forall>b \<in> set bs. \<not> under (compare sl) (fst (entry sl b)) lo"
  shows "\<exists>ptr. preds sl ptr as \<and> tbx_isl_iter_search il lo hi = Some \<lparr>ii_lo = lo, ii_hi = hi, ii_sn = (case bs of [] \<Rightarrow> None | b # _ \<Rightarrow> Some b), ii_ele = [],
    ii_ptr = ptr, ii_mode = 0, ii_level = current_max sl + 1, ii_finished = -1\<rparr>"
proof -
  obtain ptr c where f: "find_key sl no_ptr lo 1 = Some (ptr, c)" "preds sl ptr as" using key_place_bound [OF ord as bs] by blast
  have "sl_rep sl (as @ bs)" using ord by (simp add: sl_ordered_def)
  note n = preds_next [OF this f(2)]
  then show ?thesis using sl f by (auto simp: tbx_isl_iter_search_def ptr_next_def)
qed

lemma ordered_starts:
  assumes "isl_nodes sl bs ys" "\<forall>b \<in> set bs. \<not> under (compare sl) (fst (entry sl b)) lo" "sl_ordered sl (as @ bs)"
  shows "\<forall>y \<in> set ys. \<not> under (compare sl) (fst (snd y)) lo"
proof
  fix y assume y: "y \<in> set ys"
  obtain l h d where e: "y = (l, h, d)" by (cases y) auto
  have cmp: "key_compare (compare sl)" and sorted: "sorted_wrt (key_lt (compare sl)) (items sl bs)" using assms(3) by (auto simp: sl_ordered_def sorted_wrt_append)
  have "compare sl l h \<le> 0" using isl_nodes_le [OF cmp assms(1) sorted] y e by blast
  moreover have "\<not> under (compare sl) l lo" using isl_nodes_starts [OF assms(1)] y e assms(2) by blast
  ultimately show "\<not> under (compare sl) (fst (snd y)) lo" using under_le [OF cmp] e by auto
qed

lemma isl_search_collect:
  assumes inv: "isl_inv sl ns ivs" and sl: "isl_sl il = sl" and r: "range_ok (compare sl) lo hi"
  shows "\<exists>it. tbx_isl_iter_search il lo hi = Some it \<and> isl_collect il it = Some (overlapping (compare sl) lo hi ivs)"
proof (rule isl_search_place [OF inv, of lo])
  fix xs ys as bs
  assume iv: "ivs = xs @ ys" and ns: "ns = as @ bs" and nodes: "isl_nodes sl as xs" "isl_nodes sl bs ys" and xb: "\<forall>y \<in> set xs. under (compare sl) (fst (snd y)) lo"
    and bs: "\<forall>b \<in> set bs. \<not> under (compare sl) (fst (entry sl b)) lo"
  have ord: "sl_ordered sl (as @ bs)" using inv ns by (simp add: isl_inv_def)
  obtain ptr where p: "preds sl ptr as" and it: "tbx_isl_iter_search il lo hi = Some \<lparr>ii_lo = lo, ii_hi = hi, ii_sn = (case bs of [] \<Rightarrow> None | b # _ \<Rightarrow> Some b), ii_ele = [],
      ii_ptr = ptr, ii_mode = 0, ii_level = current_max sl + 1, ii_finished = -1\<rparr>" (is "_ = Some ?it")
    using isl_iter_search_result [OF ord sl isl_nodes_under [OF inv [unfolded iv] nodes(1) xb] bs] by blast
  have "quiet sl as" unfolding quiet_def using isl_nodes_quiet [OF nodes(1)] by blast
  from scan_edges_between [OF inv this _ p, of "Suc (current_max sl)"] have "scanning sl ?it bs" using ns by (auto simp: scanning_def intro!: exI [of _ "-100"] simp del: scan_edges.simps)
  from scanning_collect [OF sl ord nodes(2) this] show ?thesis
    using it xb ordered_starts [OF nodes(2) bs ord] by (auto simp: iv overlapping_def overlaps_def filter_empty_conv cong: filter_cong)
next
  fix xs l h d ys as a b bs
  assume iv: "ivs = xs @ (l, h, d) # ys" and ns: "ns = as @ a # b # bs" and nodes: "isl_nodes sl as xs" "isl_nodes sl (a # b # bs) ((l, h, d) # ys)" and ne: "compare sl l h \<noteq> 0"
    and xb: "\<forall>y \<in> set xs. under (compare sl) (fst (snd y)) lo" and l: "under (compare sl) l lo" and h: "\<not> under (compare sl) h lo"
  define j where "j = min (lvl sl a) (lvl sl b)"
  have a: "entry sl a = (l, [Some ((isl_plain (lvl sl a))\<lparr>start := [d], edge := (replicate (Suc (lvl sl a)) [])[j := [d]]\<rparr>)])"
    and b: "entry sl b = (h, [Some ((isl_plain (lvl sl b))\<lparr>n_end := 1\<rparr>)])" and ys: "isl_nodes sl bs ys" using nodes(2) ne by (auto simp: j_def)
  have ord: "sl_ordered sl ((as @ [a]) @ b # bs)" using inv ns by (simp add: isl_inv_def)
  have cmp: "key_compare (compare sl)" using ord by (simp add: sl_ordered_def)
  have later: "\<forall>c \<in> set (b # bs). \<not> under (compare sl) (fst (entry sl c)) lo" by (rule ordered_later [OF ord]) (simp add: b h)
  have "\<forall>c \<in> set (as @ [a]). under (compare sl) (fst (entry sl c)) lo" using isl_nodes_under [OF inv [unfolded iv] nodes(1) xb] a l by auto
  then obtain ptr where p: "preds sl ptr (as @ [a])" and it: "tbx_isl_iter_search il lo hi = Some \<lparr>ii_lo = lo, ii_hi = hi, ii_sn = Some b, ii_ele = [],
      ii_ptr = ptr, ii_mode = 0, ii_level = current_max sl + 1, ii_finished = -1\<rparr>" (is "_ = Some ?it")
    using isl_iter_search_result [OF ord sl _ later, of hi] by auto
  have q: "quiet sl as" unfolding quiet_def using isl_nodes_quiet [OF nodes(1)] by blast
  have e: "m \<le> Suc (current_max sl) \<Longrightarrow> scan_edges sl ptr m = Some (if j < m then Some (j, [d]) else None)" for m
    by (rule scan_edges_inside [OF inv q _ p a]) (auto simp: ns j_def)
  have j: "j \<le> current_max sl" using sl_rep_max [of sl "as @ a # b # bs" a] ord by (simp add: j_def sl_ordered_def)
  let ?it1 = "?it\<lparr>ii_level := j, ii_ele := []\<rparr>"
  have first: "tbx_isl_next il ?it = Some (Some d, ?it1)" using sl e [of "Suc (current_max sl)"] j by (simp add: tbx_isl_next_def del: scan_edges.simps)
  have s: "scanning sl ?it1 (b # bs)" using e [of j] j by (auto simp: scanning_def intro!: exI [of _ "-100"])
  have ord2: "sl_ordered sl ((as @ [a, b]) @ bs)" using ord by simp
  have rest: "isl_collect il ?it1 = Some (map (\<lambda>y. snd (snd y)) (filter (\<lambda>y. against (compare sl) (fst y) hi \<le> 0) ys))"
    using scanning_end [OF sl s ord ys b] scanning_collect [OF sl ord2 ys, of ?it1] by simp
  have "against (compare sl) l hi \<le> 0" using l r key_compare.lt_le_trans [OF cmp, of l]
    by (cases hi; cases lo) (auto simp: under_def against_def range_ok_def dest: less_imp_le)
  moreover have "\<forall>y \<in> set ys. \<not> under (compare sl) (fst (snd y)) lo" using ordered_starts [OF ys _ ord2] later by simp
  ultimately have "overlapping (compare sl) lo hi ivs = d # map (\<lambda>y. snd (snd y)) (filter (\<lambda>y. against (compare sl) (fst y) hi \<le> 0) ys)"
    using xb h by (auto simp: iv overlapping_def overlaps_def filter_empty_conv cong: filter_cong)
  then show ?thesis using it first rest by (intro exI [of _ ?it] conjI, simp, subst isl_collect.simps) simp
qed

section \<open>A sorted list of intervals\<close>

record ('k, 'd) ivset =
  iv_compare :: "'k \<Rightarrow> 'k \<Rightarrow> int"
  iv_list :: "('k \<times> 'k \<times> 'd) list"
  iv_freed :: "'d list"

datatype ('k, 'd) isl_op =
    Isl_insert "nat \<Rightarrow> bool" "nat \<Rightarrow> bool" 'k 'k 'd
  | Isl_remove 'k 'k 'd
  | Isl_search "'k option" "'k option"
  | Isl_range_count "'k option" "'k option"

datatype 'd isl_res = Isl_code int | Isl_data "'d list"

definition same_interval :: "('k \<Rightarrow> 'k \<Rightarrow> int) \<Rightarrow> 'k \<Rightarrow> 'k \<Rightarrow> 'd \<Rightarrow> 'k \<times> 'k \<times> 'd \<Rightarrow> bool" where
  "same_interval cmp lo hi d y \<longleftrightarrow> cmp (fst y) lo = 0 \<and> cmp (fst (snd y)) hi = 0 \<and> snd (snd y) = d"

definition end_point :: "('k \<Rightarrow> 'k \<Rightarrow> int) \<Rightarrow> 'k \<Rightarrow> 'k \<times> 'k \<times> 'd \<Rightarrow> bool" where
  "end_point cmp k y \<longleftrightarrow> cmp (fst y) k = 0 \<or> cmp (fst (snd y)) k = 0"

text \<open>
  Inserting is specified for an interval that meets none of the others; removing for an interval of the list, and for a start
  that is no end point, which is refused.
\<close>

definition iv_step :: "('k, 'd) isl_op \<Rightarrow> ('k, 'd) ivset \<Rightarrow> ('d isl_res \<times> ('k, 'd) ivset) option" where
  "iv_step x m = (let cmp = iv_compare m; ivs = iv_list m in
     case x of
       Isl_insert dh dl lo hi d \<Rightarrow>
         if cmp lo hi \<le> 0 \<and> overlapping cmp (Some lo) (Some hi) ivs = [] then
           Some (Isl_code 0, m\<lparr>iv_list := takeWhile (\<lambda>y. cmp (fst (snd y)) lo < 0) ivs @ (if cmp lo hi = 0 then hi else lo, hi, d) # dropWhile (\<lambda>y. cmp (fst (snd y)) lo < 0) ivs\<rparr>)
         else None
     | Isl_remove lo hi d \<Rightarrow>
         if cmp lo hi \<le> 0 \<and> (\<exists>y \<in> set ivs. same_interval cmp lo hi d y) then
           Some (Isl_code 0, m\<lparr>iv_list := filter (\<lambda>y. \<not> same_interval cmp lo hi d y) ivs, iv_freed := iv_freed m @ [d]\<rparr>)
         else if \<not> (\<exists>y \<in> set ivs. end_point cmp lo y) then Some (Isl_code 1, m)
         else None
     | Isl_search lo hi \<Rightarrow> if range_ok cmp lo hi then Some (Isl_data (overlapping cmp lo hi ivs), m) else None
     | Isl_range_count lo hi \<Rightarrow> if range_ok cmp lo hi then Some (Isl_code (int (length (overlapping cmp lo hi ivs))), m) else None)"

fun isl_step :: "('k, 'd) isl_op \<Rightarrow> ('k, 'd) tbx_isl_t \<Rightarrow> ('d isl_res \<times> ('k, 'd) tbx_isl_t) option" where
  "isl_step (Isl_insert dh dl lo hi d) il = map_option (\<lambda>(r, il). (Isl_code r, il)) (tbx_isl_insert il dh dl lo hi d)"
| "isl_step (Isl_remove lo hi d) il = map_option (\<lambda>(r, il). (Isl_code r, il)) (tbx_isl_remove il lo hi d)"
| "isl_step (Isl_search lo hi) il = do { it \<leftarrow> tbx_isl_iter_search il lo hi; ds \<leftarrow> isl_collect il it; Some (Isl_data ds, il) }"
| "isl_step (Isl_range_count lo hi) il = do { n \<leftarrow> tbx_isl_range_count il lo hi; Some (Isl_code n, il) }"

text \<open>The intervals that the nodes stand for.\<close>

fun isl_parse :: "('k, 'd) isl_list \<Rightarrow> nat list \<Rightarrow> ('k \<times> 'k \<times> 'd) list" where
  "isl_parse sl [] = []"
| "isl_parse sl (a # ns) =
     (case snd (entry sl a) of
        [Some x] \<Rightarrow>
          if point x \<noteq> [] then (fst (entry sl a), fst (entry sl a), hd (point x)) # isl_parse sl ns
          else (case ns of [] \<Rightarrow> [] | b # ms \<Rightarrow> (fst (entry sl a), fst (entry sl b), hd (start x)) # isl_parse sl ms)
      | _ \<Rightarrow> [])"

lemma isl_parse_eq: "isl_nodes sl ns ivs \<Longrightarrow> isl_parse sl ns = ivs"
  by (induction sl ns ivs rule: isl_nodes.induct) (auto simp: isl_plain_def split: list.splits if_splits)

definition isl_abs :: "('k, 'd) tbx_isl_t \<Rightarrow> ('k, 'd) ivset" where
  "isl_abs il = \<lparr>iv_compare = compare (isl_sl il), iv_list = isl_parse (isl_sl il) (sl_nodes (isl_sl il)), iv_freed = isl_freed il\<rparr>"

definition isl_okay :: "('k, 'd) tbx_isl_t \<Rightarrow> bool" where
  "isl_okay il \<longleftrightarrow> isl_inv (isl_sl il) (sl_nodes (isl_sl il)) (iv_list (isl_abs il)) \<and> n_intervals il = int (length (iv_list (isl_abs il)))"

lemma isl_inv_okay:
  assumes "isl_inv (isl_sl il) ns ivs" "n_intervals il = int (length ivs)"
  shows "isl_okay il \<and> isl_abs il = \<lparr>iv_compare = compare (isl_sl il), iv_list = ivs, iv_freed = isl_freed il\<rparr>"
proof -
  have "sl_nodes (isl_sl il) = ns" "isl_parse (isl_sl il) ns = ivs" using assms(1) sl_nodes_eq isl_parse_eq by (auto simp: isl_inv_def sl_ordered_def)
  then show ?thesis using assms by (simp add: isl_okay_def isl_abs_def)
qed

text \<open>The intervals are disjoint and in their order.\<close>

lemma isl_nodes_disjoint:
  "isl_nodes sl ns ivs \<Longrightarrow> sorted_wrt (key_lt (compare sl)) (items sl ns) \<Longrightarrow> sorted_wrt (\<lambda>y z. compare sl (fst (snd y)) (fst z) < 0) ivs"
proof (induction sl ns ivs rule: isl_nodes.induct)
  case (2 sl a ns lo hi d ivs)
  show ?case
  proof (cases "compare sl lo hi = 0")
    case True
    then have "isl_nodes sl ns ivs" "fst (entry sl a) = hi" using 2(3) by auto
    moreover have "\<forall>c \<in> set ns. compare sl (fst (entry sl a)) (fst (entry sl c)) < 0" using 2(4) by (simp add: key_lt_def)
    ultimately show ?thesis using 2(1,4) True isl_nodes_starts [of sl ns ivs] by fastforce
  next
    case False
    then obtain b ms where ns: "ns = b # ms" "isl_nodes sl ms ivs" "fst (entry sl b) = hi" using 2(3) by (cases ns) auto
    moreover have "\<forall>c \<in> set ms. compare sl (fst (entry sl b)) (fst (entry sl c)) < 0" using 2(4) ns(1) by (simp add: key_lt_def)
    ultimately show ?thesis using 2(2) [OF False ns(1,2)] 2(4) isl_nodes_starts [of sl ms ivs] by fastforce
  qed
qed auto

lemma isl_inv_intervals:
  assumes "isl_inv sl ns ivs"
  shows "sorted_wrt (\<lambda>y z. compare sl (fst (snd y)) (fst z) < 0) ivs" "\<forall>y \<in> set ivs. compare sl (fst y) (fst (snd y)) \<le> 0" "key_compare (compare sl)"
proof -
  have nodes: "isl_nodes sl ns ivs" and cmp: "key_compare (compare sl)" and sorted: "sorted_wrt (key_lt (compare sl)) (items sl ns)" using assms by (auto simp: isl_inv_def sl_ordered_def)
  show "sorted_wrt (\<lambda>y z. compare sl (fst (snd y)) (fst z) < 0) ivs" using isl_nodes_disjoint [OF nodes sorted] .
  show "\<forall>y \<in> set ivs. compare sl (fst y) (fst (snd y)) \<le> 0" using isl_nodes_le [OF cmp nodes sorted] by auto
qed (use assms in \<open>simp add: isl_inv_def sl_ordered_def\<close>)

lemma intervals_after:
  assumes cmp: "key_compare cmp"
  shows "sorted_wrt (\<lambda>y z. cmp (fst (snd y)) (fst z) < 0) ivs \<Longrightarrow> \<forall>y \<in> set ivs. cmp (fst y) (fst (snd y)) \<le> 0 \<Longrightarrow> overlapping cmp (Some lo) (Some hi) ivs = [] \<Longrightarrow>
    \<forall>y \<in> set (dropWhile (\<lambda>y. cmp (fst (snd y)) lo < 0) ivs). cmp hi (fst y) < 0"
proof (induction ivs)
  case (Cons x ivs)
  have no: "\<forall>y \<in> set (x # ivs). \<not> overlaps cmp (Some lo) (Some hi) y" using Cons.prems(3) by (auto simp: overlapping_def filter_empty_conv split: if_splits)
  show ?case
  proof (cases "cmp (fst (snd x)) lo < 0")
    case True
    have "overlapping cmp (Some lo) (Some hi) ivs = []" using no by (simp add: overlapping_def filter_empty_conv)
    then show ?thesis using Cons.IH Cons.prems(1,2) True by simp
  next
    case False
    have "cmp hi (fst y) < 0" if y: "y \<in> set (x # ivs)" for y
    proof -
      have "y = x \<or> cmp (fst (snd x)) (fst (snd y)) < 0"
        using Cons.prems(1,2) y key_compare.lt_le_trans [OF cmp, of "fst (snd x)" "fst y" "fst (snd y)"] by auto
      then have "\<not> cmp (fst (snd y)) lo < 0" using False key_compare.lt_trans [OF cmp, of "fst (snd x)" "fst (snd y)" lo] by auto
      then have "0 < cmp (fst y) hi" using no y by (auto simp: overlaps_def under_def against_def)
      then show ?thesis using key_compare.anti [OF cmp, of hi "fst y"] by simp
    qed
    then show ?thesis using False by simp
  qed
qed simp

lemma insert_interval_refines:
  assumes ok: "isl_okay il" and spec: "iv_step (Isl_insert dh dl lo hi d) (isl_abs il) = Some (r, m)"
  shows "\<exists>il'. isl_step (Isl_insert dh dl lo hi d) il = Some (r, il') \<and> isl_okay il' \<and> isl_abs il' = m"
proof -
  define sl ns ivs where "sl = isl_sl il" "ns = sl_nodes sl" "ivs = iv_list (isl_abs il)"
  have inv: "isl_inv sl ns ivs" and n: "n_intervals il = int (length ivs)" using ok by (auto simp: isl_okay_def sl_ns_ivs_def)
  have c: "iv_compare (isl_abs il) = compare sl" "iv_freed (isl_abs il) = isl_freed il" by (simp_all add: isl_abs_def sl_ns_ivs_def)
  have sl: "isl_sl il = sl" by (simp add: sl_ns_ivs_def(1))
  note iv = isl_inv_intervals [OF inv]
  define xs ys where "xs = takeWhile (\<lambda>y. compare sl (fst (snd y)) lo < 0) ivs" "ys = dropWhile (\<lambda>y. compare sl (fst (snd y)) lo < 0) ivs"
  let ?new = "(if compare sl lo hi = 0 then hi else lo, hi, d)"
  have sp: "(if compare sl lo hi \<le> 0 \<and> overlapping (compare sl) (Some lo) (Some hi) ivs = [] then Some (Isl_code 0, (isl_abs il)\<lparr>iv_list := xs @ ?new # ys\<rparr>) else None) = Some (r, m)"
    using spec unfolding iv_step_def Let_def c(1) sl_ns_ivs_def(3) [symmetric] isl_op.case xs_ys_def .
  then have le: "compare sl lo hi \<le> 0" and no: "overlapping (compare sl) (Some lo) (Some hi) ivs = []" by (metis option.distinct(1))+
  have r: "r = Isl_code 0" "m = (isl_abs il)\<lparr>iv_list := xs @ ?new # ys\<rparr>" using sp le no by simp_all
  have ivs: "ivs = xs @ ys" by (simp add: xs_ys_def)
  have xs: "\<forall>(l, h, e) \<in> set xs. compare sl h lo < 0" by (auto simp: xs_ys_def dest!: set_takeWhileD)
  have ys: "\<forall>(l, h, e) \<in> set ys. compare sl hi l < 0" using intervals_after [OF iv(3,1,2) no] by (auto simp: xs_ys_def)
  have "\<exists>sl' ns'. tbx_isl_insert il dh dl lo hi d = Some (0, il\<lparr>n_intervals := n_intervals il + 1, isl_sl := sl'\<rparr>) \<and> isl_inv sl' ns' (xs @ ?new # ys) \<and> compare sl' = compare sl"
  proof (cases "compare sl lo hi = 0")
    case True
    then show ?thesis using isl_insert_point [OF inv [unfolded ivs] True xs ys sl, of dh dl d] by simp
  next
    case False
    then show ?thesis using isl_insert_proper [OF inv [unfolded ivs] _ xs ys sl, of dh dl d] le by simp
  qed
  then obtain sl' ns' where s: "tbx_isl_insert il dh dl lo hi d = Some (0, il\<lparr>n_intervals := n_intervals il + 1, isl_sl := sl'\<rparr>)" "isl_inv sl' ns' (xs @ ?new # ys)" "compare sl' = compare sl" by blast
  then show ?thesis using isl_inv_okay [of "il\<lparr>n_intervals := n_intervals il + 1, isl_sl := sl'\<rparr>" ns' "xs @ ?new # ys"] n c r by (simp add: ivs isl_abs_def)
qed

lemma remove_missing:
  assumes inv: "isl_inv sl ns ivs" and sl: "isl_sl il = sl" and no: "\<not> (\<exists>y \<in> set ivs. end_point (compare sl) lo y)"
  shows "tbx_isl_remove il lo hi d = Some (1, il)"
proof -
  have ord: "sl_ordered sl ns" and nodes: "isl_nodes sl ns ivs" using inv by (auto simp: isl_inv_def)
  obtain as bs where ab: "ns = as @ bs" "\<forall>a \<in> set as. compare sl (fst (entry sl a)) lo < 0" "\<forall>b \<in> set bs. 0 \<le> compare sl (fst (entry sl b)) lo"
    using key_split [OF ord, of lo 0] by blast
  obtain ptr c where f: "find_key sl no_ptr (Some lo) 0 = Some (ptr, c)" "ptr_next sl ptr = Some (case bs of [] \<Rightarrow> None | b # _ \<Rightarrow> Some b)"
      "case bs of [] \<Rightarrow> c < 0 | b # _ \<Rightarrow> c = compare sl (fst (entry sl b)) lo"
    using find_key_at [OF ord [unfolded ab(1)] ab(2,3)] by blast
  have "c \<noteq> 0"
  proof (cases bs)
    case (Cons b ks)
    obtain l h e where "(l, h, e) \<in> set ivs" "fst (entry sl b) = l \<or> fst (entry sl b) = h" using isl_nodes_keys [OF nodes, of b] Cons ab(1) by auto
    then show ?thesis using f(3) Cons no by (auto simp: end_point_def)
  qed (use f(3) in simp)
  then show ?thesis using f(1,2) sl by (simp add: tbx_isl_remove_def)
qed

lemma isl_nodes_point: "isl_nodes sl ns ivs \<Longrightarrow> (l, h, d) \<in> set ivs \<Longrightarrow> compare sl l h = 0 \<Longrightarrow> l = h"
proof (induction sl ns ivs rule: isl_nodes.induct)
  case (2 sl a ns lo hi e ivs)
  show ?case
  proof (cases "compare sl lo hi = 0")
    case True
    then show ?thesis using 2 by auto
  next
    case False
    then show ?thesis using 2 by (cases ns) auto
  qed
qed auto

lemma same_interval_unique:
  assumes cmp: "key_compare cmp" and s: "sorted_wrt (\<lambda>y z. cmp (fst (snd y)) (fst z) < 0) (xs @ (l, h, d) # ys)" and le: "\<forall>y \<in> set (xs @ (l, h, d) # ys). cmp (fst y) (fst (snd y)) \<le> 0"
    and d: "same_interval cmp lo hi d (l, h, d)"
  shows "filter (\<lambda>y. \<not> same_interval cmp lo hi d y) (xs @ (l, h, d) # ys) = xs @ ys"
proof -
  note tr = key_compare.le_lt_trans [OF cmp] key_compare.lt_le_trans [OF cmp]
  have l: "cmp l lo = 0" using d by (simp add: same_interval_def)
  then have lo: "cmp lo l = 0" using key_compare.sym0 [OF cmp] by simp
  have xs: "cmp (fst y) lo \<noteq> 0" if y: "y \<in> set xs" for y
  proof -
    have "cmp (fst (snd y)) l < 0" "cmp (fst y) (fst (snd y)) \<le> 0" using s le y by (auto simp: sorted_wrt_append)
    then show ?thesis using tr(1) [of "fst y" "fst (snd y)" l] tr(2) [of "fst y" l lo] l by simp
  qed
  have ys: "cmp (fst y) lo \<noteq> 0" if y: "y \<in> set ys" for y
  proof -
    have "cmp h (fst y) < 0" "cmp l h \<le> 0" using s le y by (auto simp: sorted_wrt_append)
    then show ?thesis using tr(1) [of l h "fst y"] tr(1) [of lo l "fst y"] lo key_compare.sym0 [OF cmp, of lo "fst y"] by simp
  qed
  have "y \<in> set xs \<union> set ys \<Longrightarrow> \<not> same_interval cmp lo hi d y" for y unfolding same_interval_def using xs [of y] ys [of y] by blast
  then show ?thesis using d by (simp add: filter_id_conv)
qed

lemma remove_stored:
  assumes inv: "isl_inv sl ns ivs" and sl: "isl_sl il = sl" and le: "compare sl lo hi \<le> 0" and y: "y \<in> set ivs" "same_interval (compare sl) lo hi d y"
  shows "\<exists>sl' ns'. tbx_isl_remove il lo hi d = Some (0, il\<lparr>n_intervals := n_intervals il - 1, isl_sl := sl', isl_freed := isl_freed il @ [d]\<rparr>) \<and>
    isl_inv sl' ns' (filter (\<lambda>y. \<not> same_interval (compare sl) lo hi d y) ivs) \<and> compare sl' = compare sl \<and>
    length ivs = Suc (length (filter (\<lambda>y. \<not> same_interval (compare sl) lo hi d y) ivs))"
proof -
  note iv = isl_inv_intervals [OF inv]
  obtain l h where lh: "y = (l, h, d)" "compare sl l lo = 0" "compare sl h hi = 0" using y(2) by (cases y) (auto simp: same_interval_def)
  obtain xs ys where ivs: "ivs = xs @ (l, h, d) # ys" using split_list [OF y(1)] lh(1) by blast
  have f: "filter (\<lambda>y. \<not> same_interval (compare sl) lo hi d y) ivs = xs @ ys"
    unfolding ivs by (rule same_interval_unique [OF iv(3) iv(1,2) [unfolded ivs]]) (use y(2) lh(1) in simp)
  have "\<exists>sl' ns'. tbx_isl_remove il lo hi d = Some (0, il\<lparr>n_intervals := n_intervals il - 1, isl_sl := sl', isl_freed := isl_freed il @ [d]\<rparr>) \<and>
    isl_inv sl' ns' (xs @ ys) \<and> compare sl' = compare sl"
  proof (cases "compare sl lo hi = 0")
    case True
    have "compare sl l h = 0"
    proof (rule antisym)
      note sym = key_compare.sym0 [OF iv(3)] and tr = key_compare.le_trans [OF iv(3)]
      show "compare sl l h \<le> 0" using lh True sym [of h hi] tr [of l lo hi] tr [of l hi h] by simp
      have "compare sl h l \<le> 0" using lh True sym [of l lo] sym [of lo hi] tr [of h hi lo] tr [of h lo l] by simp
      then show "0 \<le> compare sl l h" using key_compare.anti [OF iv(3), of l h] by linarith
    qed
    then have "l = h" using isl_nodes_point [of sl ns ivs l h d] inv y(1) lh(1) by (simp add: isl_inv_def)
    then show ?thesis using isl_remove_point [OF inv [unfolded ivs [folded \<open>l = h\<close>]] lh(2) True sl] by simp
  next
    case False
    then show ?thesis using isl_remove_proper [OF inv [unfolded ivs] lh(2,3) _ sl] le by simp
  qed
  then show ?thesis unfolding f by (simp add: ivs)
qed

lemma remove_interval_refines:
  assumes ok: "isl_okay il" and spec: "iv_step (Isl_remove lo hi d) (isl_abs il) = Some (r, m)"
  shows "\<exists>il'. isl_step (Isl_remove lo hi d) il = Some (r, il') \<and> isl_okay il' \<and> isl_abs il' = m"
proof -
  define sl ns ivs where "sl = isl_sl il" "ns = sl_nodes sl" "ivs = iv_list (isl_abs il)"
  have inv: "isl_inv sl ns ivs" and n: "n_intervals il = int (length ivs)" using ok by (auto simp: isl_okay_def sl_ns_ivs_def)
  have c: "iv_compare (isl_abs il) = compare sl" "iv_freed (isl_abs il) = isl_freed il" and sl: "isl_sl il = sl" by (simp_all add: isl_abs_def sl_ns_ivs_def(1))
  let ?rest = "filter (\<lambda>y. \<not> same_interval (compare sl) lo hi d y) ivs"
  have sp: "(if compare sl lo hi \<le> 0 \<and> (\<exists>y \<in> set ivs. same_interval (compare sl) lo hi d y) then
      Some (Isl_code 0, (isl_abs il)\<lparr>iv_list := ?rest, iv_freed := isl_freed il @ [d]\<rparr>)
    else if \<not> (\<exists>y \<in> set ivs. end_point (compare sl) lo y) then Some (Isl_code 1, isl_abs il) else None) = Some (r, m)"
    using spec unfolding iv_step_def Let_def c sl_ns_ivs_def(3) [symmetric] isl_op.case .
  show ?thesis
  proof (cases "compare sl lo hi \<le> 0 \<and> (\<exists>y \<in> set ivs. same_interval (compare sl) lo hi d y)")
    case True
    then have r: "r = Isl_code 0" "m = (isl_abs il)\<lparr>iv_list := ?rest, iv_freed := isl_freed il @ [d]\<rparr>" using sp by simp_all
    obtain sl' ns' where s: "tbx_isl_remove il lo hi d = Some (0, il\<lparr>n_intervals := n_intervals il - 1, isl_sl := sl', isl_freed := isl_freed il @ [d]\<rparr>)"
      "isl_inv sl' ns' ?rest" "compare sl' = compare sl" "length ivs = Suc (length ?rest)" using remove_stored [OF inv sl] True by blast
    from s(2) have i: "isl_inv (isl_sl (il\<lparr>n_intervals := n_intervals il - 1, isl_sl := sl', isl_freed := isl_freed il @ [d]\<rparr>)) ns' ?rest" by simp
    show ?thesis using isl_inv_okay [OF i] s(1,3,4) n c r by (simp add: isl_abs_def)
  next
    case False
    then have e: "\<not> (\<exists>y \<in> set ivs. end_point (compare sl) lo y)" "r = Isl_code 1" "m = isl_abs il" using sp by (auto split: if_split_asm)
    then show ?thesis using remove_missing [OF inv sl e(1)] ok by simp
  qed
qed

interpretation intervals: data_refinement isl_step iv_step isl_abs isl_okay
proof
  fix il :: "('k, 'd) tbx_isl_t" and x r m
  assume ok: "isl_okay il" and spec: "iv_step x (isl_abs il) = Some (r, m)"
  define sl where "sl = isl_sl il"
  have inv: "isl_inv sl (sl_nodes sl) (iv_list (isl_abs il))" and c: "iv_compare (isl_abs il) = compare sl" and sl: "isl_sl il = sl" using ok by (auto simp: isl_okay_def sl_def isl_abs_def)
  show "\<exists>il'. isl_step x il = Some (r, il') \<and> isl_okay il' \<and> isl_abs il' = m"
  proof (cases x)
    case (Isl_insert dh dl lo hi d)
    then show ?thesis using insert_interval_refines [OF ok] spec by simp
  next
    case (Isl_remove lo hi d)
    then show ?thesis using remove_interval_refines [OF ok] spec by simp
  next
    case (Isl_search lo hi)
    then have r: "range_ok (compare sl) lo hi" "r = Isl_data (overlapping (compare sl) lo hi (iv_list (isl_abs il)))" "m = isl_abs il"
      using spec c by (auto simp: iv_step_def Let_def split: if_split_asm)
    then show ?thesis using isl_search_collect [OF inv sl r(1)] ok Isl_search by auto
  next
    case (Isl_range_count lo hi)
    then have r: "range_ok (compare sl) lo hi" "r = Isl_code (int (length (overlapping (compare sl) lo hi (iv_list (isl_abs il)))))" "m = isl_abs il"
      using spec c by (auto simp: iv_step_def Let_def split: if_split_asm)
    then show ?thesis using isl_search_collect [OF inv sl r(1)] ok Isl_range_count range_count_collect by (fastforce simp: tbx_isl_range_count_def)
  qed
qed

section \<open>The interval skip list as a list of intervals\<close>

lemma isl_new_okay:
  fixes cmp :: "'k \<Rightarrow> 'k \<Rightarrow> int"
  assumes "key_compare cmp"
  shows "\<exists>il :: ('k, 'd) tbx_isl_t. tbx_isl_new cmp = Some il \<and> isl_okay il \<and> isl_abs il = \<lparr>iv_compare = cmp, iv_list = [], iv_freed = []\<rparr>"
proof -
  obtain s :: "('k, 'd) isl_list" where s: "tbx_sl_init_full 16 True cmp = Some s" "sl_okay s" "sl_abs s = \<lparr>sm_compare = cmp, sm_dups = True, sm_items = [], sm_freed = []\<rparr>"
    using init_okay [OF assms, of 16 True] by (auto simp: SKIPLIST_MAX_LEVEL_def)
  have "sl_inv s (sl_nodes s)" "sl_nodes s = []" "compare s = cmp" using s(2,3) by (auto simp: sl_okay_def sl_abs_def sl_map_def)
  moreover have "info s (head s) = Some (None, [None])" "n_keys s = 0" using s(1) by (auto simp: tbx_sl_init_full_def create_skiplist_node_def info_def split: if_splits)
  ultimately have "isl_inv s [] []" by (simp add: isl_inv_def sl_inv_def)
  then show ?thesis using s(1) isl_inv_okay [of "\<lparr>isl_sl = s, n_intervals = 0, isl_freed = []\<rparr>" "[]" "[]"] \<open>compare s = cmp\<close>
    by (simp add: tbx_isl_new_def tbx_isl_new_full_def)
qed

text \<open>
  C4: A new interval skip list behaves, for all random levels and every sequence of operations that inserts only intervals that
  meet none of those present and removes only intervals that are present, like a sorted list of disjoint intervals: a search
  terminates and returns the data of exactly the intervals that overlap the range, each once and in order, the count is their
  number, removing frees exactly the data given, and no access is undefined.
\<close>

theorem interval_skiplist_refines:
  fixes cmp :: "'k \<Rightarrow> 'k \<Rightarrow> int" and ops :: "('k, 'd) isl_op list"
  assumes "key_compare cmp" "run_ops iv_step ops \<lparr>iv_compare = cmp, iv_list = [], iv_freed = []\<rparr> = Some (rs, m)"
  shows "\<exists>il il'. tbx_isl_new cmp = Some il \<and> run_ops isl_step ops il = Some (rs, il') \<and> isl_okay il' \<and> isl_abs il' = m"
proof -
  obtain il :: "('k, 'd) tbx_isl_t" where "tbx_isl_new cmp = Some il" "isl_okay il" "isl_abs il = \<lparr>iv_compare = cmp, iv_list = [], iv_freed = []\<rparr>"
    using isl_new_okay [OF assms(1)] by blast
  then show ?thesis using intervals.run_simulates [of il ops rs m] assms(2) by auto
qed

theorem interval_skiplist_refines_witness:
  "\<exists>il il' :: (int, char) tbx_isl_t. tbx_isl_new (skiplist_compare_fn_int 1) = Some il \<and>
     run_ops isl_step [Isl_insert (\<lambda>i. i < 1) (\<lambda>i. False) 5 9 CHR ''a'', Isl_insert (\<lambda>i. False) (\<lambda>i. i < 2) 12 12 CHR ''b'', Isl_search (Some 9) (Some 20),
       Isl_remove 5 9 CHR ''a'', Isl_range_count None None] il = Some ([Isl_code 0, Isl_code 0, Isl_data ''ab'', Isl_code 0, Isl_code 1], il') \<and>
     isl_okay il' \<and> isl_abs il' = \<lparr>iv_compare = skiplist_compare_fn_int 1, iv_list = [(12, 12, CHR ''b'')], iv_freed = [CHR ''a'']\<rparr>"
  by (rule interval_skiplist_refines [OF cmp_int.key_compare_axioms])
    (simp add: iv_step_def overlapping_def overlaps_def under_def against_def skiplist_compare_fn_int_def same_interval_def range_ok_def)

text \<open>The first and the last key are never given, since the number of keys is not counted up.\<close>

lemma isl_keys_missing: "isl_okay il \<Longrightarrow> tbx_isl_key_first il = Some None \<and> tbx_isl_key_last il = Some None"
  by (simp add: isl_okay_def isl_inv_def tbx_isl_key_first_def tbx_isl_key_last_def tbx_sl_first_key_def tbx_sl_key_last_def)

text \<open>
  Intervals that overlap: the node of an end point that is removed takes the marks of its links with it.  After B = [5, 6],
  C = [7, 8] and A = [1, 10] are inserted and B is removed again, the search for [9, 9] no longer finds A.
\<close>

definition isl_put :: "(int, char) tbx_isl_t option \<Rightarrow> nat \<Rightarrow> nat \<Rightarrow> int \<Rightarrow> int \<Rightarrow> char \<Rightarrow> (int, char) tbx_isl_t option" where
  "isl_put ol dh dl lo hi d = do { l \<leftarrow> ol; (r, l) \<leftarrow> tbx_isl_insert l (\<lambda>i. i < dh) (\<lambda>i. i < dl) lo hi d; Some l }"

definition ex_overlap :: "(int, char) tbx_isl_t option" where
  "ex_overlap = isl_put (isl_put (isl_put (tbx_isl_new (skiplist_compare_fn_int 1)) 0 1 5 6 CHR ''B'') 0 0 7 8 CHR ''C'') 1 0 1 10 CHR ''A''"

lemma remove_loses_overlap:
  "(do { il \<leftarrow> ex_overlap; tbx_isl_range_count il (Some 9) (Some 9) }) = Some 1 \<and>
   (do { il \<leftarrow> ex_overlap; (r, il) \<leftarrow> tbx_isl_remove il 5 6 CHR ''B''; tbx_isl_range_count il (Some 9) (Some 9) }) = Some 0"
  by code_simp

end
