(* ===== verification/Seg_Lun.thy ===== *)
theory Seg_Lun
  imports Segment Data_Service Tbuf
begin

text \<open>
  The striped segment of \<^verbatim>\<open>lio/segment/lun.c\<close>: a file laid out in rows over \<^verbatim>\<open>n_devices\<close> allocations each.  A row is cut into
  stripes of one chunk per device, and the devices are rotated by \<^verbatim>\<open>n_shift\<close> from stripe to stripe.  A request is taken apart into one
  operation per device, with the list of the places in the allocation and the list of the places in the buffer.  The buffers
  are those of \<^verbatim>\<open>toolbox/transfer_buffer.c\<close>, and \<^verbatim>\<open>lio/blacklist.c\<close> decides which resources are skipped.  The
  interval skip list of the rows is the list of its rows in the order of their offsets.  What the data service does with an
  operation and how long it takes are arguments.  \<open>None\<close> is undefined behaviour or a loop that does not end.
\<close>

section \<open>The blacklist\<close>

record lio_blacklist_ibp_rid_t =
  rs_added :: int
  recheck_time :: int

record lio_blacklist_t =
  bl_table :: "string \<rightharpoonup> lio_blacklist_ibp_rid_t"
  min_bandwidth :: int
  min_io_time :: int
  bl_timeout :: int

definition blacklist_remove_rs_added :: "lio_blacklist_t \<Rightarrow> lio_blacklist_t" where
  "blacklist_remove_rs_added bl =
     bl\<lparr>bl_table := (\<lambda>k. case bl_table bl k of None \<Rightarrow> None | Some r \<Rightarrow> if rs_added r > 0 then None else Some r)\<rparr>"

definition blacklist_add :: "lio_blacklist_t \<Rightarrow> int \<Rightarrow> string \<Rightarrow> int \<Rightarrow> lio_blacklist_t" where
  "blacklist_add bl now rid added =
     (case bl_table bl rid of
        None \<Rightarrow> bl\<lparr>bl_table := (bl_table bl)(rid \<mapsto>
          \<lparr>rs_added = added, recheck_time = now + (if added = 0 then bl_timeout bl else apr_time_from_sec 7200)\<rparr>)\<rparr>
      | Some r \<Rightarrow>
          if added = 1 then bl\<lparr>bl_table := (bl_table bl)(rid \<mapsto> \<lparr>rs_added = added, recheck_time = now + apr_time_from_sec 7200\<rparr>)\<rparr>
          else bl)"

definition blacklist_check :: "lio_blacklist_t \<Rightarrow> int \<Rightarrow> string \<Rightarrow> bool \<times> lio_blacklist_t" where
  "blacklist_check bl now rid =
     (case bl_table bl rid of
        None \<Rightarrow> (False, bl)
      | Some r \<Rightarrow> if recheck_time r < now then (False, bl\<lparr>bl_table := (bl_table bl)(rid := None)\<rparr>) else (True, bl))"

section \<open>The structures\<close>

record seglun_block_t =
  data :: "nat option"
  d_size :: int
  d_max_size :: int
  rid_key :: string
  cap_offset :: int
  read_err_count :: nat
  write_err_count :: nat

record seglun_row_t =
  block :: "seglun_block_t list"
  seg_offset :: int
  seg_end :: int
  block_len :: int
  row_len :: int
  rwop_index :: int

record lio_seglun_priv_t =
  used_size :: int
  total_size :: int
  max_block_size :: int
  excess_block_size :: int
  max_row_size :: int
  chunk_size :: int
  stripe_size :: int
  grow_count :: nat
  n_devices :: nat
  n_shift :: nat
  hard_errors :: nat
  grow_break :: int
  isl :: "seglun_row_t list"

text \<open>The operation on one device of a row: the extents in the allocation, the elements of the buffer and the number of bytes.\<close>

record lun_rw_row_t =
  ex_iov :: "(int \<times> int) list"
  rw_iov :: "tbx_iovec_t list"
  rw_len :: int

definition rw_empty :: lun_rw_row_t where
  "rw_empty = \<lparr>ex_iov = [], rw_iov = [], rw_len = 0\<rparr>"

section \<open>Taking a request on a row apart\<close>

text \<open>The elements of the buffer behind the bytes of one chunk.\<close>

partial_function (option) chunk_iov ::
  "tbx_tbuf_t \<Rightarrow> int \<Rightarrow> int \<Rightarrow> tbx_tbuf_var_t \<Rightarrow> tbx_iovec_t list \<Rightarrow> (tbx_tbuf_var_t \<times> tbx_iovec_t list) option" where
  "chunk_iov tb pos nleft tbv vs =
     (if nleft > 0 then do {
        (err, tbv) \<leftarrow> tbx_tbuf_next tb (to_size pos) tbv;
        let vs = vs @ buffer tbv;
        let nleft = nleft - int (nbytes tbv);
        let pos = pos + int (nbytes tbv);
        let tbv = tbv\<lparr>nbytes := to_size nleft\<rparr>;
        if err = TBUFFER_OK then chunk_iov tb pos nleft tbv vs else Some (tbv, vs)
      } else Some (tbv, vs))"

text \<open>The chunk of device \<open>i\<close> in a stripe.  The state of a device is its \<^verbatim>\<open>offset\<close>, its \<^verbatim>\<open>len\<close> and its entry of \<^verbatim>\<open>rw_buf\<close>.\<close>

type_synonym lun_dev = "int \<times> int \<times> lun_rw_row_t"

definition stripe_dev ::
  "lio_seglun_priv_t \<Rightarrow> tbx_tbuf_t \<Rightarrow> int \<Rightarrow> int \<Rightarrow> int \<Rightarrow> int \<Rightarrow> nat \<Rightarrow> tbx_tbuf_var_t \<Rightarrow> lun_dev \<Rightarrow> (tbx_tbuf_var_t \<times> lun_dev) option" where
  "stripe_dev s tb lo hi bpos ss i tbv d =
     (let (offset, len, rwb) = d;
          stripe_shift = ss * int (n_shift s);
          stripe_off = ss * stripe_size s;
          dev = (int i + stripe_shift) mod int (n_devices s);
          chunk_off = stripe_off + dev * chunk_size s;
          chunk_end = chunk_off + chunk_size s - 1 in
      if chunk_end \<ge> lo \<and> chunk_off \<le> hi then do {
        let begin' = (if chunk_off < lo then lo - chunk_off else 0);
        let end' = (if chunk_end > hi then hi - chunk_off else chunk_size s - 1);
        let nb = end' - begin' + 1;
        let offset = (if offset = -1 then ss * chunk_size s + begin' else offset);
        let len = len + nb;
        let pos = bpos + chunk_off + begin' - lo;
        (tbv, vs) \<leftarrow> chunk_iov tb pos nb (tbv\<lparr>nbytes := to_size nb\<rparr>) (rw_iov rwb);
        Some (tbv, offset, len, rwb\<lparr>rw_iov := vs\<rparr>)
      } else Some (tbv, d))"

fun stripe_devs ::
  "lio_seglun_priv_t \<Rightarrow> tbx_tbuf_t \<Rightarrow> int \<Rightarrow> int \<Rightarrow> int \<Rightarrow> int \<Rightarrow> nat \<Rightarrow> tbx_tbuf_var_t \<Rightarrow> lun_dev list \<Rightarrow> (tbx_tbuf_var_t \<times> lun_dev list) option" where
  "stripe_devs s tb lo hi bpos ss i tbv [] = Some (tbv, [])"
| "stripe_devs s tb lo hi bpos ss i tbv (d # ds) = do {
     (tbv, d) \<leftarrow> stripe_dev s tb lo hi bpos ss i tbv d;
     (tbv, ds) \<leftarrow> stripe_devs s tb lo hi bpos ss (Suc i) tbv ds;
     Some (tbv, d # ds)
   }"

text \<open>The loop over the stripes.  In the code \<^verbatim>\<open>stripe_off\<close> and \<^verbatim>\<open>stripe_shift\<close> are counted up along with \<^verbatim>\<open>ss\<close>.\<close>

partial_function (option) stripe_loop ::
  "lio_seglun_priv_t \<Rightarrow> tbx_tbuf_t \<Rightarrow> int \<Rightarrow> int \<Rightarrow> int \<Rightarrow> int \<Rightarrow> tbx_tbuf_var_t \<Rightarrow> lun_dev list \<Rightarrow> lun_dev list option" where
  "stripe_loop s tb lo hi bpos ss tbv ds =
     (if ss * stripe_size s \<le> hi then do {
        (tbv, ds) \<leftarrow> stripe_devs s tb lo hi bpos ss 0 tbv ds;
        stripe_loop s tb lo hi bpos (ss + 1) tbv ds
      } else Some ds)"

definition add_extent :: "lun_dev \<Rightarrow> lun_rw_row_t" where
  "add_extent d = (case d of (offset, len, rwb) \<Rightarrow>
     if offset \<ge> 0 then rwb\<lparr>ex_iov := ex_iov rwb @ [(offset, len)], rw_len := rw_len rwb + len\<rparr> else rwb)"

definition lun_row_decompose ::
  "lio_seglun_priv_t \<Rightarrow> lun_rw_row_t list \<Rightarrow> int \<Rightarrow> tbx_tbuf_t \<Rightarrow> int \<Rightarrow> int \<Rightarrow> lun_rw_row_t list option" where
  "lun_row_decompose s rw_buf start tb bpos rwlen =
     (if stripe_size s = 0 \<or> n_devices s = 0 then None
      else do {
        let lo = start;
        let hi = lo + rwlen - 1;
        let ss = lo div stripe_size s;
        ds \<leftarrow> stripe_loop s tb lo hi bpos ss tbx_tbuf_var_init (map (\<lambda>rwb. (-1, 0, rwb)) rw_buf);
        Some (map add_extent ds)
      })"

declare chunk_iov.simps [code] stripe_loop.simps [code]

section \<open>The layout of a row\<close>

text \<open>The device that holds a byte of a row, and the place of the byte in its allocation.\<close>

definition lun_dev_of :: "lio_seglun_priv_t \<Rightarrow> int \<Rightarrow> nat" where
  "lun_dev_of s x = nat ((x mod stripe_size s div chunk_size s - x div stripe_size s * int (n_shift s)) mod int (n_devices s))"

definition lun_pos :: "lio_seglun_priv_t \<Rightarrow> int \<Rightarrow> int" where
  "lun_pos s x = x div stripe_size s * chunk_size s + x mod chunk_size s"

text \<open>The sizes fit together.\<close>

definition lun_sizes :: "lio_seglun_priv_t \<Rightarrow> bool" where
  "lun_sizes s \<longleftrightarrow> 0 < chunk_size s \<and> 0 < n_devices s \<and> stripe_size s = int (n_devices s) * chunk_size s"

lemma lun_sizes_pos: "lun_sizes s \<Longrightarrow> 0 < stripe_size s \<and> 0 < chunk_size s \<and> 0 < int (n_devices s)"
  by (simp add: lun_sizes_def)

text \<open>Inside a stripe the bytes of a device are those of one chunk.\<close>

definition chunk_start :: "lio_seglun_priv_t \<Rightarrow> int \<Rightarrow> nat \<Rightarrow> int" where
  "chunk_start s ss i = ss * stripe_size s + (int i + ss * int (n_shift s)) mod int (n_devices s) * chunk_size s"

lemma mod_shift_iff:
  fixes a b i n :: int
  assumes "0 < n" "0 \<le> a" "a < n" "0 \<le> i" "i < n"
  shows "(a - b) mod n = i \<longleftrightarrow> (i + b) mod n = a"
proof
  assume h: "(a - b) mod n = i"
  have "(i + b) mod n = ((a - b) mod n + b) mod n" using h by simp
  also have "\<dots> = a mod n" by (simp add: mod_add_left_eq)
  finally show "(i + b) mod n = a" using assms by simp
next
  assume h: "(i + b) mod n = a"
  have "(a - b) mod n = ((i + b) mod n - b) mod n" using h by simp
  also have "\<dots> = i mod n" by (simp add: mod_diff_left_eq)
  finally show "(a - b) mod n = i" using assms by simp
qed

lemma lun_dev_chunk:
  assumes sz: "lun_sizes s" and i: "i < n_devices s" and x: "ss * stripe_size s \<le> x" "x < (ss + 1) * stripe_size s"
  shows "lun_dev_of s x = i \<longleftrightarrow> chunk_start s ss i \<le> x \<and> x < chunk_start s ss i + chunk_size s"
proof -
  let ?S = "stripe_size s" and ?c = "chunk_size s" and ?n = "int (n_devices s)"
  note pos = lun_sizes_pos [OF sz]
  have S: "?S = ?n * ?c" using sz by (simp add: lun_sizes_def)
  define r where "r = x - ss * ?S"
  have r: "0 \<le> r" "r < ?S" "x div ?S = ss" using x pos
    by (auto simp: r_def algebra_simps intro!: int_div_pos_eq [of x ?S ss "x - ss * ?S"])
  then have r4: "x mod ?S = r" by (simp add: r_def flip: minus_mult_div_eq_mod)
  define a where "a = r div ?c"
  have a: "0 \<le> a" using r(1) pos by (simp add: a_def pos_imp_zdiv_nonneg_iff)
  have a2: "a < ?n"
  proof (rule ccontr)
    assume "\<not> a < ?n"
    then have "?n * ?c \<le> a * ?c" using pos by (intro mult_right_mono) auto
    moreover have "a * ?c + r mod ?c = r" "0 \<le> r mod ?c" using pos by (simp_all add: a_def)
    ultimately show False using r(2) S by linarith
  qed
  have "lun_dev_of s x = i \<longleftrightarrow> (a - ss * int (n_shift s)) mod ?n = int i"
    using pos by (auto simp: lun_dev_of_def r(3) r4 a_def nat_eq_iff)
  also have "\<dots> \<longleftrightarrow> (int i + ss * int (n_shift s)) mod ?n = a" using mod_shift_iff [of ?n a "int i" "ss * int (n_shift s)"] pos a a2 i by simp
  also have "\<dots> \<longleftrightarrow> chunk_start s ss i \<le> x \<and> x < chunk_start s ss i + ?c"
  proof -
    let ?d = "(int i + ss * int (n_shift s)) mod ?n"
    have "?d = a \<longleftrightarrow> ?d * ?c \<le> r \<and> r < ?d * ?c + ?c"
    proof
      assume "?d * ?c \<le> r \<and> r < ?d * ?c + ?c"
      then have "r div ?c = ?d" using pos by (intro int_div_pos_eq [of r ?c ?d "r - ?d * ?c"]) (auto simp: algebra_simps)
      then show "?d = a" by (simp add: a_def)
    next
      assume "?d = a"
      moreover have "a * ?c + r mod ?c = r" "0 \<le> r mod ?c" "r mod ?c < ?c" using pos by (simp_all add: a_def)
      then have "a * ?c \<le> r \<and> r < a * ?c + ?c" by linarith
      ultimately show "?d * ?c \<le> r \<and> r < ?d * ?c + ?c" by simp
    qed
    then show ?thesis by (auto simp: chunk_start_def r_def)
  qed
  finally show ?thesis .
qed

lemma lun_pos_chunk:
  assumes sz: "lun_sizes s" and x: "chunk_start s ss i \<le> x" "x < chunk_start s ss i + chunk_size s"
  shows "lun_pos s x = ss * chunk_size s + (x - chunk_start s ss i)"
proof -
  let ?S = "stripe_size s" and ?c = "chunk_size s" and ?n = "int (n_devices s)"
  define d where "d = (int i + ss * int (n_shift s)) mod int (n_devices s)"
  note pos = lun_sizes_pos [OF sz]
  have S: "?S = ?n * ?c" using sz by (simp add: lun_sizes_def)
  define r where "r = x - chunk_start s ss i"
  have r: "0 \<le> r" "r < ?c" "x = ss * ?S + d * ?c + r" using x by (auto simp: r_def chunk_start_def d_def)
  have dn: "0 \<le> d" "d < ?n" using pos by (simp_all add: d_def)
  have "d * ?c + r < ?S"
  proof -
    have "(d + 1) * ?c \<le> ?n * ?c" using dn pos by (intro mult_right_mono) auto
    then show ?thesis using r(2) S by (simp add: algebra_simps)
  qed
  then have "x div ?S = ss" using r dn pos by (intro int_div_pos_eq [of x ?S ss "d * ?c + r"]) auto
  moreover have "x mod ?c = r"
    using r pos S by (intro int_mod_pos_eq [of x ?c "ss * ?n + d" r]) (auto simp: algebra_simps)
  ultimately show ?thesis by (simp add: lun_pos_def r_def)
qed

section \<open>What the operations of the devices stand for\<close>

lemma upto_append: "i \<le> j \<Longrightarrow> j \<le> k + 1 \<Longrightarrow> [i..k] = [i..j - 1] @ [j..k]"
  using upto_split1 [of i j k] by (cases "j = k + 1") auto

lemma filter_upto: "filter (\<lambda>x. a \<le> x \<and> x \<le> b) [p..q] = [max a p..min b q]"
  by (rule sorted_distinct_set_unique) (auto intro: sorted_wrt_filter)

lemma map_add_upto: "map (\<lambda>x. x + k) [i..j] = [i + k..j + (k::int)]"
proof (induction "nat (j - i + 1)" arbitrary: i)
  case (Suc n)
  then have "map (\<lambda>x. x + k) [i + 1..j] = [i + 1 + k..j + k]" by simp
  moreover have "[i..j] = i # [i + 1..j]" "[i + k..j + k] = (i + k) # [i + 1 + k..j + k]"
    using Suc(2) upto_rec1 [of i j] upto_rec1 [of "i + k" "j + k"] by (simp_all add: algebra_simps)
  ultimately show ?case by simp
qed simp

lemma upto_byte_slice:
  assumes "0 \<le> b" "nat (b + (j - i)) < length as" "i \<le> j"
  shows "byte_slice as (nat b) (nat (j - i + 1)) = map (\<lambda>x. as ! nat (b + (x - i))) [i..j]"
  using assms by (intro nth_equalityI) (auto simp: byte_slice_def nat_add_distrib nat_diff_distrib' algebra_simps)

lemma chunk_iov_result:
  assumes wf: "tbuf_wf tb"
  shows "var_ok tb tbv \<Longrightarrow> pos + n \<le> length (tbuf_addrs tb) \<Longrightarrow>
    \<exists>tbv' vs'. chunk_iov tb (int pos) (int n) (tbv\<lparr>nbytes := n\<rparr>) vs = Some (tbv', vs') \<and> var_ok tb tbv' \<and>
      vec_addrs vs' = vec_addrs vs @ byte_slice (tbuf_addrs tb) pos n \<and> (0 < n \<longrightarrow> length vs < length vs') \<and> length vs \<le> length vs'"
proof (induction n arbitrary: pos tbv vs rule: less_induct)
  case (less n)
  show ?case
  proof (cases "n = 0")
    case True
    then show ?thesis using less.prems by (subst chunk_iov.simps) (simp add: byte_slice_def var_ok_def)
  next
    case False
    then have n: "0 < n" by simp
    obtain tbv1 where t: "tbx_tbuf_next tb pos (tbv\<lparr>nbytes := n\<rparr>) = Some (TBUFFER_OK, tbv1)" "var_ok tb tbv1" "block_at tbv1 (tbuf_addrs tb) pos n"
      using vec_buffer.answers [OF wf less.prems(1) n less.prems(2)] by blast
    let ?k = "nbytes tbv1"
    have k: "0 < ?k" "?k \<le> n" and sl: "vec_addrs (buffer tbv1) = byte_slice (tbuf_addrs tb) pos ?k" using t(3) by (auto simp: block_at_def byte_slice_def)
    have ne: "buffer tbv1 \<noteq> []" using arg_cong [OF sl, of length] k less.prems(2) by (auto simp: byte_slice_length)
    have len: "length (tbuf_addrs tb) < 2 ^ 31" using vec_buffer.fits [OF wf] .
    have sz: "to_size (int pos) = pos" "to_size (int n - int ?k) = n - ?k" using len less.prems(2) k by (simp_all add: to_size_id nat_diff_distrib')
    obtain tbv' vs' where r: "chunk_iov tb (int (pos + ?k)) (int (n - ?k)) (tbv1\<lparr>nbytes := n - ?k\<rparr>) (vs @ buffer tbv1) = Some (tbv', vs')" "var_ok tb tbv'"
      "vec_addrs vs' = vec_addrs (vs @ buffer tbv1) @ byte_slice (tbuf_addrs tb) (pos + ?k) (n - ?k)" "length (vs @ buffer tbv1) \<le> length vs'"
      using less.IH [of "n - ?k" tbv1 "pos + ?k" "vs @ buffer tbv1"] k t(2) less.prems(2) by auto
    have "chunk_iov tb (int pos) (int n) (tbv\<lparr>nbytes := n\<rparr>) vs = Some (tbv', vs')"
      using n t(1) r(1) k sz by (subst chunk_iov.simps) (simp add: of_nat_diff)
    moreover have "vec_addrs vs' = vec_addrs vs @ byte_slice (tbuf_addrs tb) pos n" using r(3) sl byte_slice_split [OF k(2)] by simp
    ultimately show ?thesis using r(2,4) ne by (cases "buffer tbv1") auto
  qed
qed

text \<open>
  The state of a device after the bytes \<open>P\<close> of the row, which are all of them that it holds up to some place: one extent, and
  the places in the buffer in the same order.
\<close>

definition dev_state :: "lio_seglun_priv_t \<Rightarrow> nat option list \<Rightarrow> int \<Rightarrow> int \<Rightarrow> int list \<Rightarrow> lun_rw_row_t \<Rightarrow> lun_dev \<Rightarrow> bool" where
  "dev_state s as lo bpos P r0 d \<longleftrightarrow> (case d of (off, len, r) \<Rightarrow>
     len = int (length P) \<and> off = (if P = [] then -1 else lun_pos s (hd P)) \<and> (P \<noteq> [] \<longrightarrow> map (lun_pos s) P = [off..off + len - 1]) \<and>
     ex_iov r = ex_iov r0 \<and> rw_len r = rw_len r0 \<and> vec_addrs (rw_iov r) = vec_addrs (rw_iov r0) @ map (\<lambda>x. as ! nat (bpos + (x - lo))) P \<and>
     length (rw_iov r0) \<le> length (rw_iov r) \<and> (P \<noteq> [] \<longrightarrow> length (rw_iov r0) < length (rw_iov r)))"

definition dev_part :: "lio_seglun_priv_t \<Rightarrow> nat \<Rightarrow> int \<Rightarrow> int \<Rightarrow> int list" where
  "dev_part s i lo hi = filter (\<lambda>x. lun_dev_of s x = i) [lo..hi]"

lemma chunk_start_bounds:
  assumes sz: "lun_sizes s"
  shows "ss * stripe_size s \<le> chunk_start s ss i" "chunk_start s ss i + chunk_size s \<le> (ss + 1) * stripe_size s"
proof -
  define d where "d = (int i + ss * int (n_shift s)) mod int (n_devices s)"
  note pos = lun_sizes_pos [OF sz]
  have d: "0 \<le> d" "d < int (n_devices s)" using pos by (simp_all add: d_def)
  then have "0 \<le> d * chunk_size s" "(d + 1) * chunk_size s \<le> int (n_devices s) * chunk_size s" using pos by (auto intro: mult_right_mono)
  then show "ss * stripe_size s \<le> chunk_start s ss i" "chunk_start s ss i + chunk_size s \<le> (ss + 1) * stripe_size s"
    using sz by (simp_all add: chunk_start_def d_def lun_sizes_def algebra_simps)
qed

lemma dev_part_stripe:
  assumes sz: "lun_sizes s" and i: "i < n_devices s" and ss: "ss * stripe_size s \<le> hi" "lo < (ss + 1) * stripe_size s" "lo \<le> hi"
  shows "dev_part s i lo (min hi ((ss + 1) * stripe_size s - 1)) =
    dev_part s i lo (min hi (ss * stripe_size s - 1)) @ [max (chunk_start s ss i) lo..min (chunk_start s ss i + chunk_size s - 1) hi]"
proof -
  let ?a = "ss * stripe_size s" and ?b = "min hi ((ss + 1) * stripe_size s - 1)" and ?c = "chunk_start s ss i"
  note pos = lun_sizes_pos [OF sz]
  have ab: "?a \<le> ?b" "lo \<le> ?b" using ss pos by (auto simp: algebra_simps)
  note c = chunk_start_bounds [OF sz, of ss i]
  have sp: "[lo..?b] = [lo..?a - 1] @ [max lo ?a..?b]" using ab upto_append [of lo ?a ?b] by (cases "lo \<le> ?a") auto
  have f: "filter (\<lambda>x. lun_dev_of s x = i) [max lo ?a..?b] = filter (\<lambda>x. ?c \<le> x \<and> x \<le> ?c + chunk_size s - 1) [max lo ?a..?b]"
    by (rule filter_cong) (use lun_dev_chunk [OF sz i, of ss] in auto)
  also have "\<dots> = [max ?c lo..min (?c + chunk_size s - 1) hi]"
    unfolding filter_upto using c by (intro arg_cong2 [of _ _ _ _ upto]) auto
  finally have "dev_part s i lo ?b = dev_part s i lo (?a - 1) @ [max ?c lo..min (?c + chunk_size s - 1) hi]"
    unfolding dev_part_def sp by simp
  moreover have "min hi (?a - 1) = ?a - 1" using ss(1) by simp
  ultimately show ?thesis by simp
qed

lemma lun_pos_nonneg: "lun_sizes s \<Longrightarrow> 0 \<le> x \<Longrightarrow> 0 \<le> lun_pos s x"
  using lun_sizes_pos [of s] by (auto simp: lun_pos_def pos_imp_zdiv_nonneg_iff intro!: add_nonneg_nonneg mult_nonneg_nonneg)

lemma lun_pos_upto:
  assumes sz: "lun_sizes s" and x: "chunk_start s ss i \<le> a" "b < chunk_start s ss i + chunk_size s"
  shows "map (lun_pos s) [a..b] = [ss * chunk_size s + (a - chunk_start s ss i)..ss * chunk_size s + (b - chunk_start s ss i)]"
proof -
  have "map (lun_pos s) [a..b] = map (\<lambda>x. x + (ss * chunk_size s - chunk_start s ss i)) [a..b]"
    using lun_pos_chunk [OF sz, of ss i] x by (intro map_cong) auto
  also have "\<dots> = [a + (ss * chunk_size s - chunk_start s ss i)..b + (ss * chunk_size s - chunk_start s ss i)]" by (rule map_add_upto)
  finally show ?thesis by (simp add: algebra_simps)
qed

lemma dev_state_extend:
  assumes sz: "lun_sizes s" and st: "dev_state s as lo bpos P r0 (off, len, r)" and lo: "0 \<le> lo" "\<forall>x \<in> set P. lo \<le> x"
    and X: "chunk_start s ss i \<le> a" "b < chunk_start s ss i + chunk_size s" "a \<le> b" "lo \<le> a"
    and glue: "P \<noteq> [] \<longrightarrow> off + len = ss * chunk_size s \<and> a = chunk_start s ss i"
    and vs: "vec_addrs vs = vec_addrs (rw_iov r) @ map (\<lambda>x. as ! nat (bpos + (x - lo))) [a..b]" "length (rw_iov r) < length vs"
  defines "off' \<equiv> (if off = -1 then ss * chunk_size s + (a - chunk_start s ss i) else off)" and "len' \<equiv> len + (b - a + 1)"
  shows "dev_state s as lo bpos (P @ [a..b]) r0 (off', len', r\<lparr>rw_iov := vs\<rparr>)" "off' + len' = ss * chunk_size s + (b - chunk_start s ss i) + 1"
proof -
  note pos = lun_sizes_pos [OF sz]
  have ne: "[a..b] \<noteq> []" using X(3) by simp
  have m: "map (lun_pos s) [a..b] = [ss * chunk_size s + (a - chunk_start s ss i)..ss * chunk_size s + (b - chunk_start s ss i)]" using lun_pos_upto [OF sz X(1,2)] .
  have old: "len = int (length P)" "off = (if P = [] then -1 else lun_pos s (hd P))" "P \<noteq> [] \<longrightarrow> map (lun_pos s) P = [off..off + len - 1]" "ex_iov r = ex_iov r0 \<and> rw_len r = rw_len r0"
    "vec_addrs (rw_iov r) = vec_addrs (rw_iov r0) @ map (\<lambda>x. as ! nat (bpos + (x - lo))) P" "length (rw_iov r0) \<le> length (rw_iov r)"
    using st by (auto simp: dev_state_def)
  have off: "off = -1 \<longleftrightarrow> P = []"
  proof (cases "P = []")
    case False
    then have "0 \<le> hd P" using lo by (metis hd_in_set order_trans)
    then show ?thesis using old(2) False lun_pos_nonneg [OF sz, of "hd P"] by auto
  qed (use old(2) in simp)
  show sum: "off' + len' = ss * chunk_size s + (b - chunk_start s ss i) + 1" using off old(1) glue by (auto simp: off'_def len'_def)
  have hd: "lun_pos s a = ss * chunk_size s + (a - chunk_start s ss i)" using lun_pos_chunk [OF sz X(1)] X(2,3) by simp
  have "map (lun_pos s) (P @ [a..b]) = [off'..off' + len' - 1]"
  proof (cases "P = []")
    case True
    then have "off' = ss * chunk_size s + (a - chunk_start s ss i)" "off' + len' - 1 = ss * chunk_size s + (b - chunk_start s ss i)" using off sum by (simp_all add: off'_def)
    then show ?thesis unfolding True append_Nil m by (simp only:)
  next
    case False
    then have "[off'..off' + len' - 1] = [off..off + len - 1] @ [off + len..off' + len' - 1]"
      using off old(1) X(3) glue upto_append [of off "off + len" "off' + len' - 1"] by (simp add: off'_def len'_def)
    then show ?thesis using False m old(3) glue sum by simp
  qed
  moreover have "off' = lun_pos s (hd (P @ [a..b]))" using off old(2) hd X(3) by (auto simp: off'_def upto_rec1)
  moreover have "len' = int (length (P @ [a..b]))" using old(1) X(3) by (simp add: len'_def)
  ultimately show "dev_state s as lo bpos (P @ [a..b]) r0 (off', len', r\<lparr>rw_iov := vs\<rparr>)"
    unfolding dev_state_def prod.case using ne old(4-6) vs by simp
qed

lemma stripe_dev_result:
  assumes sz: "lun_sizes s" and wf: "tbuf_wf tb" and v: "var_ok tb tbv" and i: "i < n_devices s" and lo: "0 \<le> lo" "lo \<le> hi" and ss: "ss * stripe_size s \<le> hi" "lo < (ss + 1) * stripe_size s"
    and b: "0 \<le> bpos" "nat (bpos + (hi - lo)) < length (tbuf_addrs tb)"
    and st: "dev_state s (tbuf_addrs tb) lo bpos (dev_part s i lo (min hi (ss * stripe_size s - 1))) r0 (off, len, r)"
    and glue: "dev_part s i lo (min hi (ss * stripe_size s - 1)) \<noteq> [] \<longrightarrow> off + len = ss * chunk_size s"
  shows "\<exists>tbv' off' len' r'. stripe_dev s tb lo hi bpos ss i tbv (off, len, r) = Some (tbv', off', len', r') \<and> var_ok tb tbv' \<and>
    dev_state s (tbuf_addrs tb) lo bpos (dev_part s i lo (min hi ((ss + 1) * stripe_size s - 1))) r0 (off', len', r') \<and>
    ((ss + 1) * stripe_size s \<le> hi \<and> dev_part s i lo (min hi ((ss + 1) * stripe_size s - 1)) \<noteq> [] \<longrightarrow> off' + len' = (ss + 1) * chunk_size s)"
proof -
  let ?P = "dev_part s i lo (min hi (ss * stripe_size s - 1))" and ?c = "chunk_start s ss i" and ?as = "tbuf_addrs tb"
  note pos = lun_sizes_pos [OF sz]
  define x y where "x = max ?c lo" "y = min (?c + chunk_size s - 1) hi"
  have P: "dev_part s i lo (min hi ((ss + 1) * stripe_size s - 1)) = ?P @ [x..y]" using dev_part_stripe [OF sz i ss lo(2)] by (simp add: x_y_def)
  have mem: "\<forall>z \<in> set ?P. lo \<le> z \<and> z < ss * stripe_size s" by (auto simp: dev_part_def)
  have ch: "ss * stripe_size s + (int i + ss * int (n_shift s)) mod int (n_devices s) * chunk_size s = ?c" by (simp add: chunk_start_def)
  note c = chunk_start_bounds [OF sz, of ss i]
  show ?thesis
  proof (cases "?c + chunk_size s - 1 \<ge> lo \<and> ?c \<le> hi")
    case True
    then have xy: "x \<le> y" "lo \<le> x" "?c \<le> x" "y < ?c + chunk_size s" "y \<le> hi" using lo pos by (auto simp: x_y_def)
    have len31: "length ?as < 2 ^ 31" using vec_buffer.fits [OF wf] .
    have nb: "y - x + 1 = int (nat (y - x + 1))" "bpos + x - lo = int (nat (bpos + (x - lo)))" using xy b(1) by simp_all
    have fit: "nat (bpos + (x - lo)) + nat (y - x + 1) \<le> length ?as" using b xy by linarith
    then obtain tbv' vs where r: "chunk_iov tb (int (nat (bpos + (x - lo)))) (int (nat (y - x + 1))) (tbv\<lparr>nbytes := nat (y - x + 1)\<rparr>) (rw_iov r) = Some (tbv', vs)" "var_ok tb tbv'"
      "vec_addrs vs = vec_addrs (rw_iov r) @ byte_slice ?as (nat (bpos + (x - lo))) (nat (y - x + 1))" "0 < nat (y - x + 1) \<longrightarrow> length (rw_iov r) < length vs"
      using chunk_iov_result [OF wf v, of "nat (bpos + (x - lo))" "nat (y - x + 1)" "rw_iov r"] by auto
    have "byte_slice ?as (nat (bpos + (x - lo))) (nat (y - x + 1)) = map (\<lambda>z. ?as ! nat (bpos + (x - lo) + (z - x))) [x..y]"
      using upto_byte_slice [of "bpos + (x - lo)" y x ?as] xy b by auto
    then have vs: "vec_addrs vs = vec_addrs (rw_iov r) @ map (\<lambda>z. ?as ! nat (bpos + (z - lo))) [x..y]" "length (rw_iov r) < length vs"
      using r(3,4) xy(1) by (simp_all add: algebra_simps)
    define off' len' where "off' = (if off = -1 then ss * chunk_size s + (x - ?c) else off)" "len' = len + (y - x + 1)"
    have gl: "?P \<noteq> [] \<longrightarrow> off + len = ss * chunk_size s \<and> x = ?c"
    proof
      assume ne: "?P \<noteq> []"
      then have "lo < ss * stripe_size s" using mem by (metis hd_in_set order_le_less_trans)
      then show "off + len = ss * chunk_size s \<and> x = ?c" using glue ne c(1) by (simp add: x_y_def)
    qed
    have lem: "\<forall>z \<in> set ?P. lo \<le> z" using mem by blast
    note e = dev_state_extend [OF sz st lo(1) lem xy(3,4,1,2) gl vs, folded off'_len'_def]
    have "stripe_dev s tb lo hi bpos ss i tbv (off, len, r) = Some (tbv', off', len', r\<lparr>rw_iov := vs\<rparr>)"
    proof -
      have bg: "(if ?c < lo then lo - ?c else 0) = x - ?c" "(if ?c + chunk_size s - 1 > hi then hi - ?c else chunk_size s - 1) = y - ?c" by (auto simp: x_y_def)
      have ts: "to_size (y - x + 1) = nat (y - x + 1)" using fit len31 xy(1) by (simp add: to_size_id)
      have ar: "bpos + ?c + (x - ?c) - lo = bpos + x - lo" "y - ?c - (x - ?c) + 1 = y - x + 1" by simp_all
      have r1: "chunk_iov tb (bpos + x - lo) (y - x + 1) (tbv\<lparr>nbytes := nat (y - x + 1)\<rparr>) (rw_iov r) = Some (tbv', vs)"
        unfolding nb(2) by (subst nb(1)) (rule r(1))
      show ?thesis unfolding stripe_dev_def Let_def prod.case ch bg ar ts r1 off'_len'_def using True by simp
    qed
    moreover have "off' + len' = (ss + 1) * chunk_size s" if "(ss + 1) * stripe_size s \<le> hi"
    proof -
      have "y = ?c + chunk_size s - 1" using that c(2) by (simp add: x_y_def)
      then show ?thesis using e(2) by (simp add: algebra_simps)
    qed
    ultimately show ?thesis using r(2) e(1) unfolding P by blast
  next
    case False
    then have xy: "[x..y] = []" by (auto simp: x_y_def)
    have "stripe_dev s tb lo hi bpos ss i tbv (off, len, r) = Some (tbv, off, len, r)"
      unfolding stripe_dev_def Let_def prod.case ch if_not_P [OF False] by (rule refl)
    moreover have "?P = []" if "(ss + 1) * stripe_size s \<le> hi"
    proof (rule ccontr)
      assume ne: "?P \<noteq> []"
      then have "lo < ss * stripe_size s" using mem by (metis hd_in_set order_le_less_trans)
      then have "hi < ?c" using False c(1) pos by linarith
      then show False using that c(2) pos by linarith
    qed
    ultimately show ?thesis using v st unfolding P xy by auto
  qed
qed

text \<open>One stripe, and all of them.\<close>

definition devs_state :: "lio_seglun_priv_t \<Rightarrow> nat option list \<Rightarrow> int \<Rightarrow> int \<Rightarrow> int \<Rightarrow> int \<Rightarrow> nat \<Rightarrow> lun_rw_row_t \<Rightarrow> lun_dev \<Rightarrow> bool" where
  "devs_state s as lo hi bpos ss i r0 d \<longleftrightarrow> dev_state s as lo bpos (dev_part s i lo (min hi (ss * stripe_size s - 1))) r0 d \<and>
     (ss * stripe_size s \<le> hi \<and> dev_part s i lo (min hi (ss * stripe_size s - 1)) \<noteq> [] \<longrightarrow> fst d + fst (snd d) = ss * chunk_size s)"

lemma stripe_devs_result:
  assumes sz: "lun_sizes s" and wf: "tbuf_wf tb" and lo: "0 \<le> lo" "lo \<le> hi" and ss: "ss * stripe_size s \<le> hi" "lo < (ss + 1) * stripe_size s"
    and b: "0 \<le> bpos" "nat (bpos + (hi - lo)) < length (tbuf_addrs tb)"
  shows "var_ok tb tbv \<Longrightarrow> i + length ds = n_devices s \<Longrightarrow> length rs = length ds \<Longrightarrow>
    (\<forall>j < length ds. devs_state s (tbuf_addrs tb) lo hi bpos ss (i + j) (rs ! j) (ds ! j)) \<Longrightarrow>
    \<exists>tbv' ds'. stripe_devs s tb lo hi bpos ss i tbv ds = Some (tbv', ds') \<and> var_ok tb tbv' \<and> length ds' = length ds \<and>
      (\<forall>j < length ds. devs_state s (tbuf_addrs tb) lo hi bpos (ss + 1) (i + j) (rs ! j) (ds' ! j))"
proof (induction ds arbitrary: i tbv rs)
  case (Cons d ds)
  obtain off len r where d: "d = (off, len, r)" by (cases d) auto
  have st: "devs_state s (tbuf_addrs tb) lo hi bpos ss i (rs ! 0) (off, len, r)" using Cons.prems(4) d by fastforce
  obtain tbv1 off' len' r' where r1: "stripe_dev s tb lo hi bpos ss i tbv d = Some (tbv1, off', len', r')" "var_ok tb tbv1"
    "devs_state s (tbuf_addrs tb) lo hi bpos (ss + 1) i (rs ! 0) (off', len', r')"
    using stripe_dev_result [OF sz wf Cons.prems(1) _ lo ss b, of i "rs ! 0" off len r] st ss(1) Cons.prems(2) unfolding d by (fastforce simp: devs_state_def)
  obtain r0 rs' where rs: "rs = r0 # rs'" using Cons.prems(3) by (cases rs) auto
  have "\<forall>j < length ds. devs_state s (tbuf_addrs tb) lo hi bpos ss (Suc i + j) (rs' ! j) (ds ! j)"
  proof (intro allI impI)
    fix j assume "j < length ds"
    then show "devs_state s (tbuf_addrs tb) lo hi bpos ss (Suc i + j) (rs' ! j) (ds ! j)" using Cons.prems(4) [rule_format, of "Suc j"] by (simp add: rs)
  qed
  then obtain tbv2 ds' where r2: "stripe_devs s tb lo hi bpos ss (Suc i) tbv1 ds = Some (tbv2, ds')" "var_ok tb tbv2" "length ds' = length ds"
    "\<forall>j < length ds. devs_state s (tbuf_addrs tb) lo hi bpos (ss + 1) (Suc i + j) (rs' ! j) (ds' ! j)"
    using Cons.IH [OF r1(2), of "Suc i" rs'] Cons.prems(2,3) rs by auto
  have "devs_state s (tbuf_addrs tb) lo hi bpos (ss + 1) (i + j) (rs ! j) (((off', len', r') # ds') ! j)" if "j < length (d # ds)" for j
    using that r1(3) r2(4) rs by (cases j) auto
  then show ?case using r1(1) r2(1-3) by auto
qed auto

lemma stripe_loop_result:
  assumes sz: "lun_sizes s" and wf: "tbuf_wf tb" and lo: "0 \<le> lo" "lo \<le> hi" and b: "0 \<le> bpos" "nat (bpos + (hi - lo)) < length (tbuf_addrs tb)"
    and n: "length rs = n_devices s"
  shows "var_ok tb tbv \<Longrightarrow> length ds = n_devices s \<Longrightarrow> lo < (ss + 1) * stripe_size s \<Longrightarrow>
    (\<forall>j < n_devices s. devs_state s (tbuf_addrs tb) lo hi bpos ss j (rs ! j) (ds ! j)) \<Longrightarrow>
    \<exists>ds'. stripe_loop s tb lo hi bpos ss tbv ds = Some ds' \<and> length ds' = n_devices s \<and>
      (\<forall>j < n_devices s. dev_state s (tbuf_addrs tb) lo bpos (dev_part s j lo hi) (rs ! j) (ds' ! j))"
proof (induction "nat (hi - ss * stripe_size s + 1)" arbitrary: ss tbv ds rule: less_induct)
  case less
  note pos = lun_sizes_pos [OF sz]
  show ?case
  proof (cases "ss * stripe_size s \<le> hi")
    case True
    obtain tbv' ds' where r: "stripe_devs s tb lo hi bpos ss 0 tbv ds = Some (tbv', ds')" "var_ok tb tbv'" "length ds' = length ds"
      "\<forall>j < length ds. devs_state s (tbuf_addrs tb) lo hi bpos (ss + 1) j (rs ! j) (ds' ! j)"
      using stripe_devs_result [OF sz wf lo True less.prems(3) b less.prems(1), of 0 ds rs] less.prems(2,4) n by auto
    have m: "nat (hi - (ss + 1) * stripe_size s + 1) < nat (hi - ss * stripe_size s + 1)" "lo < (ss + 1 + 1) * stripe_size s"
      using True pos less.prems(3) by (auto simp: algebra_simps)
    have "\<exists>ds2. stripe_loop s tb lo hi bpos (ss + 1) tbv' ds' = Some ds2 \<and> length ds2 = n_devices s \<and>
        (\<forall>j < n_devices s. dev_state s (tbuf_addrs tb) lo bpos (dev_part s j lo hi) (rs ! j) (ds2 ! j))"
      by (rule less.hyps [OF m(1) r(2) _ m(2)]) (use r(3,4) less.prems(2) in auto)
    then show ?thesis using True r(1) by (subst stripe_loop.simps) simp
  next
    case False
    then have "min hi (ss * stripe_size s - 1) = hi" by simp
    then show ?thesis using False less.prems(2,4) by (subst stripe_loop.simps) (simp add: devs_state_def)
  qed
qed

text \<open>
  An entry of the table stands for a list of pairs of a place in the row and a place in the buffer: it has those of its device,
  in their order.
\<close>

definition ext_offs :: "(int \<times> int) list \<Rightarrow> int list" where
  "ext_offs es = concat (map (\<lambda>(off, len). [off..off + len - 1]) es)"

definition dev_pairs :: "lio_seglun_priv_t \<Rightarrow> nat \<Rightarrow> (int \<times> int) list \<Rightarrow> (int \<times> int) list" where
  "dev_pairs s i Q = filter (\<lambda>q. lun_dev_of s (fst q) = i) Q"

definition stands_for :: "lio_seglun_priv_t \<Rightarrow> nat option list \<Rightarrow> nat \<Rightarrow> (int \<times> int) list \<Rightarrow> lun_rw_row_t \<Rightarrow> bool" where
  "stands_for s as i Q r \<longleftrightarrow> ext_offs (ex_iov r) = map (lun_pos s \<circ> fst) (dev_pairs s i Q) \<and>
     vec_addrs (rw_iov r) = map (\<lambda>q. as ! nat (snd q)) (dev_pairs s i Q) \<and> rw_len r = int (length (dev_pairs s i Q)) \<and>
     (ex_iov r = [] \<longleftrightarrow> dev_pairs s i Q = []) \<and> length (ex_iov r) \<le> length (rw_iov r)"

definition row_pairs :: "int \<Rightarrow> int \<Rightarrow> int \<Rightarrow> (int \<times> int) list" where
  "row_pairs lo hi bpos = map (\<lambda>x. (x, bpos + (x - lo))) [lo..hi]"

lemma dev_pairs_simps [simp]: "dev_pairs s i [] = []" "dev_pairs s i (Q @ R) = dev_pairs s i Q @ dev_pairs s i R"
  by (simp_all add: dev_pairs_def)

lemma dev_pairs_row: "dev_pairs s i (row_pairs lo hi bpos) = map (\<lambda>x. (x, bpos + (x - lo))) (dev_part s i lo hi)"
  by (simp add: dev_pairs_def row_pairs_def dev_part_def filter_map o_def)

lemma stands_for_empty: "stands_for s as i [] rw_empty"
  by (simp add: stands_for_def rw_empty_def ext_offs_def)

lemma add_extent_stands_for:
  assumes sz: "lun_sizes s" and lo: "0 \<le> lo" and r: "stands_for s as i Q r0" and d: "dev_state s as lo bpos (dev_part s i lo hi) r0 d"
  shows "stands_for s as i (Q @ row_pairs lo hi bpos) (add_extent d)"
proof -
  obtain off len r where e: "d = (off, len, r)" by (cases d) auto
  let ?P = "dev_part s i lo hi"
  have P: "len = int (length ?P)" "off = (if ?P = [] then -1 else lun_pos s (hd ?P))" "?P \<noteq> [] \<longrightarrow> map (lun_pos s) ?P = [off..off + len - 1]"
    "ex_iov r = ex_iov r0" "rw_len r = rw_len r0" "vec_addrs (rw_iov r) = vec_addrs (rw_iov r0) @ map (\<lambda>x. as ! nat (bpos + (x - lo))) ?P"
    "length (rw_iov r0) \<le> length (rw_iov r)" "?P \<noteq> [] \<longrightarrow> length (rw_iov r0) < length (rw_iov r)" using d by (auto simp: dev_state_def e)
  show ?thesis
  proof (cases "?P = []")
    case True
    then show ?thesis using P r by (simp add: stands_for_def add_extent_def e dev_pairs_row)
  next
    case False
    have "0 \<le> hd ?P" using hd_in_set [OF False] lo by (auto simp: dev_part_def)
    then have "0 \<le> off" using lun_pos_nonneg [OF sz, of "hd ?P"] P(2) False by simp
    then show ?thesis using P r False by (auto simp: stands_for_def add_extent_def e dev_pairs_row ext_offs_def comp_def)
  qed
qed

lemma lun_row_decompose_result:
  assumes sz: "lun_sizes s" and wf: "tbuf_wf tb" and lo: "0 \<le> start" "0 < rwlen" and b: "0 \<le> bpos" "bpos + rwlen \<le> int (length (tbuf_addrs tb))"
    and rw: "length rw = n_devices s" "\<forall>j < n_devices s. stands_for s (tbuf_addrs tb) j Q (rw ! j)"
  shows "\<exists>rw'. lun_row_decompose s rw start tb bpos rwlen = Some rw' \<and> length rw' = n_devices s \<and>
    (\<forall>j < n_devices s. stands_for s (tbuf_addrs tb) j (Q @ row_pairs start (start + rwlen - 1) bpos) (rw' ! j))"
proof -
  let ?hi = "start + rwlen - 1" and ?ss = "start div stripe_size s"
  note pos = lun_sizes_pos [OF sz]
  have ss: "?ss * stripe_size s \<le> start" "start < (?ss + 1) * stripe_size s"
    using pos by (simp_all add: minus_mod_eq_div_mult [symmetric] distrib_right)
  have e: "dev_part s j start (min ?hi (?ss * stripe_size s - 1)) = []" for j using ss(1) by (auto simp: dev_part_def)
  have st: "\<forall>j < n_devices s. devs_state s (tbuf_addrs tb) start ?hi bpos ?ss j (rw ! j) (map (\<lambda>rwb. (-1, 0, rwb)) rw ! j)"
    using rw(1) unfolding devs_state_def e by (simp add: dev_state_def)
  have b': "nat (bpos + (?hi - start)) < length (tbuf_addrs tb)" "start \<le> ?hi" using b lo by linarith+
  obtain ds where ds: "stripe_loop s tb start ?hi bpos ?ss tbx_tbuf_var_init (map (\<lambda>rwb. (-1, 0, rwb)) rw) = Some ds" "length ds = n_devices s"
    "\<forall>j < n_devices s. dev_state s (tbuf_addrs tb) start bpos (dev_part s j start ?hi) (rw ! j) (ds ! j)"
    using stripe_loop_result [OF sz wf lo(1) b'(2) b(1) b'(1) rw(1) vec_buffer.start [OF wf] _ ss(2) st] rw(1) by auto
  have "stands_for s (tbuf_addrs tb) j (Q @ row_pairs start ?hi bpos) (map add_extent ds ! j)" if "j < n_devices s" for j
    using add_extent_stands_for [OF sz lo(1) rw(2) [rule_format, OF that] ds(3) [rule_format, OF that]] ds(2) that by simp
  then show ?thesis using ds(1,2) pos by (auto simp: lun_row_decompose_def)
qed

end
