(* ===== verification/Lun_Rw.thy ===== *)
theory Lun_Rw
  imports Seg_Lun
begin

text \<open>
  Reading from and writing to the striped segment of \<^verbatim>\<open>lio/segment/lun.c\<close>: the request is distributed over the rows
  and the devices, the operations of all devices are executed in any order, and the failed ones are counted.  The results are those for the rows
  as \<open>Seg_Lun\<close> lays them out.
\<close>

section \<open>The code\<close>

subsection \<open>Collecting the operations\<close>

text \<open>
  The variables of the first loop: the rows, the rows in use in the order of their slots, the table with \<^verbatim>\<open>n_devices\<close> entries
  for each slot, \<^verbatim>\<open>isl_size\<close> and \<^verbatim>\<open>bpos\<close>.  A row is named by its place in the list of the rows.
\<close>

record lun_rw_t =
  rw_rows :: "seglun_row_t list"
  rw_bused :: "nat list"
  rwb_table :: "lun_rw_row_t list"
  rw_isl_size :: nat
  rw_bpos :: int

definition rw_start :: "lio_seglun_priv_t \<Rightarrow> int \<Rightarrow> lun_rw_t" where
  "rw_start s boff = \<lparr>rw_rows = isl s, rw_bused = [], rwb_table = replicate 100 rw_empty, rw_isl_size = 100, rw_bpos = boff\<rparr>"

definition rows_search :: "int \<Rightarrow> int \<Rightarrow> seglun_row_t list \<Rightarrow> nat list" where
  "rows_search lo hi bs = filter (\<lambda>k. seg_offset (bs ! k) \<le> hi \<and> lo \<le> seg_end (bs ! k)) [0..<length bs]"

text \<open>A part of the table is replaced.\<close>

definition table_put :: "nat \<Rightarrow> lun_rw_row_t list \<Rightarrow> lun_rw_row_t list \<Rightarrow> lun_rw_row_t list" where
  "table_put j es t = take j t @ es @ drop (j + length es) t"

definition rw_new_slot :: "lio_seglun_priv_t \<Rightarrow> nat \<Rightarrow> lun_rw_t \<Rightarrow> lun_rw_t option" where
  "rw_new_slot s k st =
     (let n_bslots = length (rw_bused st);
          j = n_bslots * n_devices s;
          isl_size = (if Suc n_bslots \<ge> rw_isl_size st then 3 * rw_isl_size st div 2 + 10 else rw_isl_size st);
          table = (if Suc n_bslots \<ge> rw_isl_size st
                   then rwb_table st @ replicate (n_devices s * isl_size - length (rwb_table st)) rw_empty else rwb_table st) in
      if n_bslots \<ge> rw_isl_size st \<or> j + n_devices s > length table then None
      else Some (st\<lparr>rw_rows := (rw_rows st)[k := (rw_rows st ! k)\<lparr>rwop_index := int n_bslots\<rparr>], rw_bused := rw_bused st @ [k],
                   rwb_table := table_put j (replicate (n_devices s) rw_empty) table, rw_isl_size := isl_size\<rparr>))"

definition rw_row :: "lio_seglun_priv_t \<Rightarrow> tbx_tbuf_t \<Rightarrow> int \<Rightarrow> int \<Rightarrow> nat \<Rightarrow> lun_rw_t \<Rightarrow> lun_rw_t option" where
  "rw_row s tb lo hi k st =
     (let b = rw_rows st ! k;
          start = (if lo \<le> seg_offset b then 0 else lo - seg_offset b);
          end' = (if hi \<ge> seg_end b then row_len b - 1 else hi - seg_offset b);
          blen = end' - start + 1 in do {
        st \<leftarrow> (if rwop_index b < 0 then rw_new_slot s k st else Some st);
        let j = nat (rwop_index (rw_rows st ! k)) * n_devices s;
        rw \<leftarrow> lun_row_decompose s (take (n_devices s) (drop j (rwb_table st))) start tb (rw_bpos st) blen;
        Some (st\<lparr>rwb_table := table_put j rw (rwb_table st), rw_bpos := rw_bpos st + blen\<rparr>)
      })"

fun rw_rows_loop :: "lio_seglun_priv_t \<Rightarrow> tbx_tbuf_t \<Rightarrow> int \<Rightarrow> int \<Rightarrow> nat list \<Rightarrow> lun_rw_t \<Rightarrow> lun_rw_t option" where
  "rw_rows_loop s tb lo hi [] st = Some st"
| "rw_rows_loop s tb lo hi (k # ks) st = do { st \<leftarrow> rw_row s tb lo hi k st; rw_rows_loop s tb lo hi ks st }"

fun rw_iovs :: "lio_seglun_priv_t \<Rightarrow> tbx_tbuf_t \<Rightarrow> (int \<times> int) list \<Rightarrow> lun_rw_t \<Rightarrow> lun_rw_t option" where
  "rw_iovs s tb [] st = Some st"
| "rw_iovs s tb ((off, l) # exs) st = do {
     let hi = off + l - 1;
     st \<leftarrow> rw_rows_loop s tb off hi (rows_search off hi (rw_rows st)) st;
     rw_iovs s tb exs st
   }"

subsection \<open>Forming the operations\<close>

text \<open>
  An operation of the data service, with the row and the device it is for.  It is skipped if the resource is on the blacklist.
\<close>

record lun_op =
  op_row :: nat
  op_dev :: nat
  op_cap :: nat
  op_rid :: string
  op_ext :: "(int \<times> int) list"
  op_buf :: tbx_tbuf_t
  op_len :: int
  op_skip :: bool

text \<open>
  What the outside does: the result of the operation on an allocation (\<open>Some k\<close> if it fails after \<open>k\<close> bytes), the order in which the
  operations are executed and completed, the time when an operation is formed, its execution time and the time when it is noticed.
\<close>

record lun_env =
  env_result :: "nat \<Rightarrow> nat option"
  env_order :: "lun_op list \<Rightarrow> lun_op list"
  env_now :: "nat \<Rightarrow> int"
  env_time :: "nat \<Rightarrow> int"
  env_noticed :: "nat \<Rightarrow> int"

text \<open>Is the resource skipped?  Also the blacklist and \<^verbatim>\<open>bl_count\<close>.\<close>

definition bl_skips :: "int \<Rightarrow> int \<Rightarrow> string \<Rightarrow> lio_blacklist_t option \<Rightarrow> int \<Rightarrow> bool \<times> lio_blacklist_t option \<times> int" where
  "bl_skips max_blacklist now rid bl bl_count =
     (case bl of
        None \<Rightarrow> (False, None, bl_count)
      | Some l \<Rightarrow> case blacklist_check l now rid of (bl_rid, l) \<Rightarrow>
          if bl_rid then if bl_count \<ge> max_blacklist then (False, Some l, bl_count) else (True, Some l, bl_count + 1)
          else (False, Some l, bl_count))"

definition form_op :: "nat \<Rightarrow> nat \<Rightarrow> seglun_block_t \<Rightarrow> nat \<Rightarrow> lun_rw_row_t \<Rightarrow> bool \<Rightarrow> lun_op" where
  "form_op k i b cap e skip =
     \<lparr>op_row = k, op_dev = i, op_cap = cap, op_rid = rid_key b,
      op_ext = (if length (rw_iov e) = 1 then [(fst (ex_iov e ! 0), rw_len e)] else ex_iov e),
      op_buf = tbx_tbuf_vec (to_size (rw_len e)) (rw_iov e), op_len = rw_len e, op_skip = skip\<rparr>"

fun dev_ops ::
  "lun_env \<Rightarrow> int \<Rightarrow> nat \<Rightarrow> nat \<Rightarrow> seglun_block_t list \<Rightarrow> lun_rw_row_t list \<Rightarrow> lio_blacklist_t option \<Rightarrow> int \<Rightarrow>
     (lun_op list \<times> lio_blacklist_t option) option" where
  "dev_ops env max_blacklist k i (b # bs) (e # es) bl bl_count =
     (if ex_iov e = [] then dev_ops env max_blacklist k (Suc i) bs es bl bl_count
      else do {
        cap \<leftarrow> data b;
        let (bl_rid, bl, bl_count) = bl_skips max_blacklist (env_now env cap) (rid_key b) bl bl_count;
        (ops, bl) \<leftarrow> dev_ops env max_blacklist k (Suc i) bs es bl bl_count;
        Some (form_op k i b cap e bl_rid # ops, bl)
      })"
| "dev_ops env max_blacklist k i bs es bl bl_count = Some ([], bl)"

fun slot_ops ::
  "lun_env \<Rightarrow> int \<Rightarrow> nat \<Rightarrow> seglun_row_t list \<Rightarrow> lun_rw_row_t list \<Rightarrow> nat list \<Rightarrow> lio_blacklist_t option \<Rightarrow>
     (lun_op list \<times> lio_blacklist_t option) option" where
  "slot_ops env max_blacklist n bs table [] bl = Some ([], bl)"
| "slot_ops env max_blacklist n bs table (k # ks) bl = do {
     (ops, bl) \<leftarrow> dev_ops env max_blacklist k 0 (block (bs ! k)) (take n table) bl 0;
     (ops', bl) \<leftarrow> slot_ops env max_blacklist n bs (drop n table) ks bl;
     Some (ops @ ops', bl)
   }"

definition clear_index :: "nat list \<Rightarrow> seglun_row_t list \<Rightarrow> seglun_row_t list" where
  "clear_index ks bs = fold (\<lambda>k bs. bs[k := (bs ! k)\<lparr>rwop_index := -1\<rparr>]) ks bs"

subsection \<open>Executing them\<close>

definition op_moves :: "lun_env \<Rightarrow> lun_op \<Rightarrow> (nat option \<times> int) list" where
  "op_moves env opr =
     (let qs = zip (byte_slice (tbuf_addrs (op_buf opr)) 0 (nat (op_len opr))) (ext_offs (op_ext opr)) in
      case env_result env (op_cap opr) of None \<Rightarrow> qs | Some k \<Rightarrow> take k qs)"

definition exec_op :: "lun_env \<Rightarrow> int \<Rightarrow> lun_op \<Rightarrow> ds_state \<times> mem \<Rightarrow> (ds_state \<times> mem) option" where
  "exec_op env rw_mode opr = (\<lambda>(w, m).
     if op_skip opr then Some (w, m)
     else if rw_mode = 0 then do { m \<leftarrow> ds_get (op_moves env opr) (store w (op_cap opr)) m; Some (w, m) }
     else do { al \<leftarrow> ds_put (op_moves env opr) m (store w (op_cap opr)); Some (w\<lparr>store := (store w)(op_cap opr := al)\<rparr>, m) })"

fun exec_ops :: "lun_env \<Rightarrow> int \<Rightarrow> lun_op list \<Rightarrow> ds_state \<times> mem \<Rightarrow> (ds_state \<times> mem) option" where
  "exec_ops env rw_mode [] x = Some x"
| "exec_ops env rw_mode (opr # ops) x = do { x \<leftarrow> exec_op env rw_mode opr x; exec_ops env rw_mode ops x }"

text \<open>
  Slow resources are put on the blacklist.  The code divides the number of bytes by the execution time in floating point;
  here the fractions are exact.
\<close>

definition bl_slow :: "lun_env \<Rightarrow> lun_op \<Rightarrow> lio_blacklist_t \<Rightarrow> lio_blacklist_t" where
  "bl_slow env opr bl =
     (let exec_time = env_time env (op_cap opr) in
      if \<not> op_skip opr \<and> exec_time > min_io_time bl \<and> op_len opr < min_bandwidth bl * exec_time
      then blacklist_add bl (env_noticed env (op_cap opr)) (op_rid opr) 0 else bl)"

definition op_failed :: "lun_env \<Rightarrow> lun_op \<Rightarrow> bool" where
  "op_failed env opr \<longleftrightarrow> op_skip opr \<or> env_result env (op_cap opr) \<noteq> None"

definition count_error :: "int \<Rightarrow> nat \<Rightarrow> seglun_row_t \<Rightarrow> seglun_row_t" where
  "count_error rw_mode i b =
     b\<lparr>block := (block b)[i := (if rw_mode = 0 then (block b ! i)\<lparr>read_err_count := Suc (read_err_count (block b ! i))\<rparr>
                               else (block b ! i)\<lparr>write_err_count := Suc (write_err_count (block b ! i))\<rparr>)]\<rparr>"

fun finish_ops :: "lun_env \<Rightarrow> int \<Rightarrow> lun_op list \<Rightarrow> seglun_row_t list \<times> mem \<Rightarrow> (seglun_row_t list \<times> mem) option" where
  "finish_ops env rw_mode [] x = Some x"
| "finish_ops env rw_mode (opr # ops) (bs, m) =
     (if op_failed env opr then do {
        m \<leftarrow> (if rw_mode = 0 then map_option snd (tbx_tbuf_memset (op_buf opr) 0 0 (to_size (op_len opr)) m) else Some m);
        finish_ops env rw_mode ops (bs[op_row opr := count_error rw_mode (op_dev opr) (bs ! op_row opr)], m)
      } else finish_ops env rw_mode ops (bs, m))"

definition max_errors :: "lun_env \<Rightarrow> lun_op list \<Rightarrow> nat list \<Rightarrow> nat" where
  "max_errors env ops ks = fold (\<lambda>k maxerr. max maxerr (length (filter (\<lambda>opr. op_row opr = k \<and> op_failed env opr) ops))) ks 0"

definition seglun_rw_op ::
  "lun_env \<Rightarrow> lio_seglun_priv_t \<Rightarrow> lio_blacklist_t option \<Rightarrow> int option \<Rightarrow> (int \<times> int) list \<Rightarrow> tbx_tbuf_t \<Rightarrow> int \<Rightarrow> int \<Rightarrow> ds_state \<Rightarrow> mem \<Rightarrow>
     ((int \<times> int) \<times> lio_seglun_priv_t \<times> lio_blacklist_t option \<times> ds_state \<times> mem) option" where
  "seglun_rw_op env s bl rw_hints exs tb boff rw_mode w m = do {
     let use = (case rw_hints of None \<Rightarrow> None | Some k \<Rightarrow> if k \<le> 0 then None else bl);
     st \<leftarrow> rw_iovs s tb exs (rw_start s boff);
     (ops, use) \<leftarrow> slot_ops env (case rw_hints of None \<Rightarrow> 0 | Some k \<Rightarrow> k) (n_devices s) (rw_rows st) (rwb_table st) (rw_bused st) use;
     let bs = clear_index (rw_bused st) (rw_rows st);
     if ops = [] then Some (gop_failure_status, s\<lparr>isl := bs\<rparr>, (if use = None then bl else use), w, m)
     else do {
       (w, m) \<leftarrow> exec_ops env rw_mode (env_order env ops) (w, m);
       let use = map_option (fold (bl_slow env) (env_order env ops)) use;
       (bs, m) \<leftarrow> finish_ops env rw_mode ops (bs, m);
       let maxerr = max_errors env ops (rw_bused st);
       let status = (if maxerr = 0 then gop_success_status else (OP_STATE_FAILURE, int maxerr));
       Some (status, s\<lparr>isl := bs\<rparr>, (if use = None then bl else use), w, m)
     }
   }"

section \<open>The layout of the segment\<close>

definition row_ok :: "lio_seglun_priv_t \<Rightarrow> seglun_row_t \<Rightarrow> bool" where
  "row_ok s b \<longleftrightarrow> seg_end b = seg_offset b + row_len b - 1 \<and> 0 < block_len b \<and> row_len b = int (n_devices s) * block_len b \<and>
     chunk_size s dvd block_len b \<and> length (block b) = n_devices s \<and> rwop_index b = -1 \<and>
     (\<forall>x \<in> set (block b). cap_offset x = 0 \<and> data x \<noteq> None)"

fun rows_tiled :: "int \<Rightarrow> seglun_row_t list \<Rightarrow> int \<Rightarrow> bool" where
  "rows_tiled a [] c \<longleftrightarrow> a = c"
| "rows_tiled a (b # bs) c \<longleftrightarrow> seg_offset b = a \<and> rows_tiled (seg_end b + 1) bs c"

definition lun_caps :: "seglun_row_t list \<Rightarrow> nat option list" where
  "lun_caps bs = concat (map (\<lambda>b. map data (block b)) bs)"

definition lun_ok :: "lio_seglun_priv_t \<Rightarrow> ds_state \<Rightarrow> bool" where
  "lun_ok s w \<longleftrightarrow> lun_sizes s \<and> (\<forall>b \<in> set (isl s). row_ok s b) \<and> rows_tiled 0 (isl s) (total_size s) \<and>
     distinct (lun_caps (isl s)) \<and> set (lun_caps (isl s)) \<subseteq> Some ` {..<next_cap w}"

definition in_row :: "seglun_row_t \<Rightarrow> int \<Rightarrow> bool" where
  "in_row b x \<longleftrightarrow> seg_offset b \<le> x \<and> x \<le> seg_end b"

text \<open>The byte of the file at an offset, if there is a row for it.\<close>

definition lun_cap :: "seglun_row_t \<Rightarrow> nat \<Rightarrow> nat" where
  "lun_cap b i = the (data (block b ! i))"

definition row_byte :: "lio_seglun_priv_t \<Rightarrow> (nat \<Rightarrow> int \<Rightarrow> u8) \<Rightarrow> seglun_row_t \<Rightarrow> int \<Rightarrow> u8" where
  "row_byte s st b x = st (lun_cap b (lun_dev_of s (x - seg_offset b))) (lun_pos s (x - seg_offset b))"

definition lun_view :: "lio_seglun_priv_t \<Rightarrow> ds_state \<Rightarrow> int \<Rightarrow> u8 option" where
  "lun_view s w x = map_option (\<lambda>b. row_byte s (store w) b x) (find (\<lambda>b. in_row b x) (isl s))"

lemma rows_tiled_append: "rows_tiled a (xs @ ys) c \<longleftrightarrow> (\<exists>m. rows_tiled a xs m \<and> rows_tiled m ys c)"
  by (induction xs arbitrary: a) auto

lemma row_ok_end: "lun_sizes s \<Longrightarrow> row_ok s b \<Longrightarrow> seg_offset b \<le> seg_end b"
  using lun_sizes_pos [of s] by (auto simp: row_ok_def)

lemma rows_tiled_le: "lun_sizes s \<Longrightarrow> \<forall>b \<in> set bs. row_ok s b \<Longrightarrow> rows_tiled a bs c \<Longrightarrow> a \<le> c"
  using row_ok_end by (induction bs arbitrary: a) fastforce+

lemma rows_tiled_member:
  "lun_sizes s \<Longrightarrow> \<forall>b \<in> set bs. row_ok s b \<Longrightarrow> rows_tiled a bs c \<Longrightarrow> b \<in> set bs \<Longrightarrow> a \<le> seg_offset b \<and> seg_end b < c"
proof (induction bs arbitrary: a)
  case (Cons x bs)
  have le: "seg_end x + 1 \<le> c" using rows_tiled_le [OF Cons.prems(1), of bs "seg_end x + 1" c] Cons.prems by auto
  show ?case using Cons.IH [of "seg_end x + 1"] Cons.prems le row_ok_end [OF Cons.prems(1), of x] by (cases "b = x") auto
qed auto

lemma rows_apart:
  assumes sz: "lun_sizes s" and ok: "\<forall>b \<in> set bs. row_ok s b" and t: "rows_tiled a bs c" and k: "k < k'" "k' < length bs"
  shows "seg_end (bs ! k) < seg_offset (bs ! k')"
proof -
  have "bs = take k' bs @ drop k' bs" by simp
  then obtain m where m: "rows_tiled a (take k' bs) m" "rows_tiled m (drop k' bs) c" using t rows_tiled_append by metis
  have "bs ! k \<in> set (take k' bs)" using k by (auto simp: in_set_conv_nth intro!: exI [of _ k])
  then have "seg_end (bs ! k) < m" using rows_tiled_member [OF sz _ m(1)] ok by (meson in_set_takeD)
  moreover have "seg_offset (bs ! k') = m" using m(2) k by (simp add: Cons_nth_drop_Suc [symmetric])
  ultimately show ?thesis by simp
qed

lemma in_row_same:
  assumes "lun_sizes s" "\<forall>b \<in> set bs. row_ok s b" "rows_tiled a bs c" "k < length bs" "k' < length bs" "in_row (bs ! k) x" "in_row (bs ! k') x"
  shows "k = k'"
  using rows_apart [OF assms(1-3), of k k'] rows_apart [OF assms(1-3), of k' k] assms(4-) by (cases k k' rule: linorder_cases) (auto simp: in_row_def)

lemma rows_cover:
  "rows_tiled a bs c \<Longrightarrow> a \<le> x \<Longrightarrow> x < c \<Longrightarrow> \<exists>k < length bs. in_row (bs ! k) x"
proof (induction bs arbitrary: a)
  case (Cons b bs)
  show ?case
  proof (cases "x \<le> seg_end b")
    case True
    then show ?thesis using Cons.prems by (intro exI [of _ 0]) (auto simp: in_row_def)
  next
    case False
    then obtain k where "k < length bs" "in_row (bs ! k) x" using Cons by force
    then show ?thesis by (intro exI [of _ "Suc k"]) auto
  qed
qed auto

lemma lun_view_row:
  assumes ok: "lun_ok s w" and k: "k < length (isl s)" "in_row (isl s ! k) x"
  shows "lun_view s w x = Some (row_byte s (store w) (isl s ! k) x)"
proof -
  have f: "find (\<lambda>b. in_row b x) (isl s) \<noteq> None" using k nth_mem [OF k(1)] unfolding find_None_iff by blast
  then obtain i where i: "i < length (isl s)" "in_row (isl s ! i) x" "find (\<lambda>b. in_row b x) (isl s) = Some (isl s ! i)"
    by (auto simp: find_Some_iff)
  then have "i = k" using in_row_same [of s "isl s" 0 "total_size s" i k x] ok k by (auto simp: lun_ok_def)
  then show ?thesis using i by (simp add: lun_view_def)
qed

lemma lun_inj:
  assumes sz: "lun_sizes s" and p: "lun_pos s x = lun_pos s y" and d: "lun_dev_of s x = lun_dev_of s y" and xy: "0 \<le> x" "0 \<le> y"
  shows "x = y"
proof -
  note pos = lun_sizes_pos [OF sz]
  have q: "lun_pos s z div chunk_size s = z div stripe_size s" for z using pos by (simp add: lun_pos_def)
  define ss where "ss = x div stripe_size s"
  have ss: "x div stripe_size s = ss" "y div stripe_size s = ss" using q [of x] q [of y] p by (simp_all add: ss_def)
  have b: "ss * stripe_size s \<le> z \<and> z < (ss + 1) * stripe_size s" if "z div stripe_size s = ss" for z
    using pos that by (auto simp: minus_mod_eq_div_mult [symmetric] distrib_right)
  have i: "lun_dev_of s x < n_devices s" using pos by (simp add: lun_dev_of_def nat_less_iff)
  have "lun_pos s z = ss * chunk_size s + (z - chunk_start s ss (lun_dev_of s x))" if "z div stripe_size s = ss" "lun_dev_of s z = lun_dev_of s x" for z
    by (rule lun_pos_chunk [OF sz]) (use lun_dev_chunk [OF sz i, of ss z] b [OF that(1)] that(2) in blast)+
  from this [OF ss(1) refl] this [OF ss(2) d [symmetric]] show ?thesis using p by linarith
qed

section \<open>The requests that are collected\<close>

text \<open>The bytes of a request, as pairs of the place in the file and the place in the buffer, and those that are in a row.\<close>

fun req_pairs :: "(int \<times> int) list \<Rightarrow> int \<Rightarrow> (int \<times> int) list" where
  "req_pairs [] bpos = []"
| "req_pairs ((off, l) # exs) bpos = row_pairs off (off + l - 1) bpos @ req_pairs exs (bpos + l)"

definition row_part :: "seglun_row_t \<Rightarrow> (int \<times> int) list \<Rightarrow> (int \<times> int) list" where
  "row_part b P = map (\<lambda>q. (fst q - seg_offset b, snd q)) (filter (\<lambda>q. in_row b (fst q)) P)"

lemma row_part_simps [simp]: "row_part b [] = []" "row_part b (P @ R) = row_part b P @ row_part b R"
  by (simp_all add: row_part_def)

lemma row_pairs_split: "lo \<le> mid \<Longrightarrow> mid \<le> hi + 1 \<Longrightarrow> row_pairs lo hi p = row_pairs lo (mid - 1) p @ row_pairs mid hi (p + (mid - lo))"
  by (simp add: row_pairs_def upto_append [of lo mid hi])

lemma row_pairs_empty: "hi < lo \<Longrightarrow> row_pairs lo hi p = []"
  by (simp add: row_pairs_def)

lemma row_part_pairs: "seg_offset b \<le> lo \<Longrightarrow> hi \<le> seg_end b \<Longrightarrow> row_part b (row_pairs lo hi p) = row_pairs (lo - seg_offset b) (hi - seg_offset b) p"
proof -
  assume h: "seg_offset b \<le> lo" "hi \<le> seg_end b"
  have "filter (\<lambda>x. in_row b x) [lo..hi] = [lo..hi]" using h by (intro filter_True) (auto simp: in_row_def)
  moreover have "[lo..hi] = map (\<lambda>x. x + seg_offset b) [lo - seg_offset b..hi - seg_offset b]" using map_add_upto [of "seg_offset b" "lo - seg_offset b" "hi - seg_offset b"] by simp
  ultimately show ?thesis by (simp add: row_part_def row_pairs_def filter_map o_def)
qed

lemma row_part_other: "hi < seg_offset b \<or> seg_end b < lo \<Longrightarrow> row_part b (row_pairs lo hi p) = []"
  by (auto simp: row_part_def row_pairs_def filter_empty_conv in_row_def)

lemma table_put_length [simp]: "j + length es \<le> length t \<Longrightarrow> length (table_put j es t) = length t"
  by (simp add: table_put_def)

lemma table_put_nth:
  "j + length es \<le> length t \<Longrightarrow> i < length t \<Longrightarrow> table_put j es t ! i = (if j \<le> i \<and> i < j + length es then es ! (i - j) else t ! i)"
  by (auto simp: table_put_def nth_append min_def)

lemma slot_apart: "j < n \<Longrightarrow> j' < n \<Longrightarrow> (i * n \<le> i' * n + j' \<and> i' * n + j' < i * n + n) \<longleftrightarrow> i = (i'::nat)"
proof
  assume h: "j < n" "j' < n" "i * n \<le> i' * n + j' \<and> i' * n + j' < i * n + n"
  then have "i * n < Suc i' * n" "i' * n < Suc i * n" by simp_all
  then have "i < Suc i'" "i' < Suc i" using h(1) by (simp_all only: mult_less_cancel2)
  then show "i = i'" by simp
qed auto

text \<open>The rows and the table when the part \<open>P\<close> of a request has been collected.\<close>

definition rows_marked :: "lio_seglun_priv_t \<Rightarrow> lun_rw_t \<Rightarrow> bool" where
  "rows_marked s st \<longleftrightarrow> length (rw_rows st) = length (isl s) \<and> distinct (rw_bused st) \<and> set (rw_bused st) \<subseteq> {..<length (isl s)} \<and>
     (\<forall>k < length (isl s). \<exists>ix. rw_rows st ! k = (isl s ! k)\<lparr>rwop_index := ix\<rparr> \<and>
        (if k \<in> set (rw_bused st) then 0 \<le> ix \<and> nat ix < length (rw_bused st) \<and> rw_bused st ! nat ix = k else ix = -1))"

definition table_room :: "lio_seglun_priv_t \<Rightarrow> lun_rw_t \<Rightarrow> bool" where
  "table_room s st \<longleftrightarrow> 100 \<le> length (rwb_table st) \<and> length (rw_bused st) < rw_isl_size st"

definition table_holds :: "lio_seglun_priv_t \<Rightarrow> nat option list \<Rightarrow> (int \<times> int) list \<Rightarrow> lun_rw_t \<Rightarrow> bool" where
  "table_holds s as P st \<longleftrightarrow> length (rw_bused st) * n_devices s \<le> length (rwb_table st) \<and>
     (\<forall>k < length (isl s). k \<notin> set (rw_bused st) \<longrightarrow> row_part (isl s ! k) P = []) \<and>
     (\<forall>i < length (rw_bused st). \<forall>j < n_devices s. stands_for s as j (row_part (isl s ! (rw_bused st ! i)) P) (rwb_table st ! (i * n_devices s + j)))"

definition collected :: "lio_seglun_priv_t \<Rightarrow> nat option list \<Rightarrow> (int \<times> int) list \<Rightarrow> lun_rw_t \<Rightarrow> bool" where
  "collected s as P st \<longleftrightarrow> rows_marked s st \<and> table_room s st \<and> table_holds s as P st"

lemma collected_start: "lun_ok s w \<Longrightarrow> collected s as [] (rw_start s boff)"
  by (auto simp: collected_def rows_marked_def table_room_def table_holds_def rw_start_def lun_ok_def row_ok_def intro!: exI [of _ "-1"])

lemma slots_bound:
  assumes "rows_marked s st" "k < length (isl s)" "k \<notin> set (rw_bused st)"
  shows "length (rw_bused st) < length (isl s)"
proof -
  have "set (rw_bused st) \<subseteq> {..<length (isl s)} - {k}" using assms by (auto simp: rows_marked_def)
  then have "card (set (rw_bused st)) \<le> card ({..<length (isl s)} - {k})" by (rule card_mono [rotated]) simp
  then show ?thesis using assms by (simp add: rows_marked_def distinct_card)
qed

lemma rw_new_slot_result:
  assumes c: "collected s as P st" and fit: "length (isl s) * n_devices s \<le> 100" and k: "k < length (isl s)" "k \<notin> set (rw_bused st)"
  shows "\<exists>st'. rw_new_slot s k st = Some st' \<and> collected s as P st' \<and> k \<in> set (rw_bused st') \<and> rw_bpos st' = rw_bpos st"
proof -
  let ?n = "n_devices s" and ?u = "length (rw_bused st)"
  have m: "rows_marked s st" and r: "table_room s st" and h: "table_holds s as P st" using c by (simp_all add: collected_def)
  have u: "?u < length (isl s)" using slots_bound [OF m k] .
  define isz where "isz = (if Suc ?u \<ge> rw_isl_size st then 3 * rw_isl_size st div 2 + 10 else rw_isl_size st)"
  define t where "t = (if Suc ?u \<ge> rw_isl_size st then rwb_table st @ replicate (?n * isz - length (rwb_table st)) rw_empty else rwb_table st)"
  have "Suc ?u * ?n \<le> length (isl s) * ?n" using u by (intro mult_right_mono) auto
  then have room: "?u * ?n + ?n \<le> 100" "100 \<le> length t" "?u < rw_isl_size st" "Suc ?u < isz" "length (rwb_table st) \<le> length t"
    using fit r by (auto simp: t_def isz_def table_room_def)
  define st' where "st' = st\<lparr>rw_rows := (rw_rows st)[k := (rw_rows st ! k)\<lparr>rwop_index := int ?u\<rparr>], rw_bused := rw_bused st @ [k],
     rwb_table := table_put (?u * ?n) (replicate ?n rw_empty) t, rw_isl_size := isz\<rparr>"
  have e: "rw_new_slot s k st = Some st'"
    using room unfolding rw_new_slot_def Let_def isz_def [symmetric] t_def [symmetric] st'_def by simp
  have "rows_marked s st'"
    unfolding rows_marked_def
  proof (intro conjI allI impI)
    fix k' assume k': "k' < length (isl s)"
    then obtain ix where ix: "rw_rows st ! k' = (isl s ! k')\<lparr>rwop_index := ix\<rparr>"
      "if k' \<in> set (rw_bused st) then 0 \<le> ix \<and> nat ix < ?u \<and> rw_bused st ! nat ix = k' else ix = -1" using m by (auto simp: rows_marked_def)
    show "\<exists>ix. rw_rows st' ! k' = (isl s ! k')\<lparr>rwop_index := ix\<rparr> \<and>
        (if k' \<in> set (rw_bused st') then 0 \<le> ix \<and> nat ix < length (rw_bused st') \<and> rw_bused st' ! nat ix = k' else ix = -1)"
    proof (cases "k' = k")
      case True
      then show ?thesis using ix m k by (intro exI [of _ "int ?u"]) (simp add: st'_def rows_marked_def)
    next
      case False
      then show ?thesis using ix m by (intro exI [of _ ix]) (auto simp: st'_def nth_append)
    qed
  qed (use m k in \<open>auto simp: rows_marked_def st'_def\<close>)
  moreover have "table_room s st'" using room by (simp add: table_room_def st'_def)
  moreover have "table_holds s as P st'"
    unfolding table_holds_def
  proof (intro conjI allI impI)
    fix i j assume i: "i < length (rw_bused st')" and j: "j < ?n"
    have "Suc i * ?n \<le> Suc ?u * ?n" using i by (intro mult_right_mono) (auto simp: st'_def)
    then have l: "i * ?n + j < length t" using j room unfolding mult_Suc by linarith
    show "stands_for s as j (row_part (isl s ! (rw_bused st' ! i)) P) (rwb_table st' ! (i * ?n + j))"
    proof (cases "i = ?u")
      case True
      then show ?thesis using l room j k h stands_for_empty by (simp add: st'_def table_put_nth table_holds_def)
    next
      case False
      then have i': "i < ?u" using i by (simp add: st'_def)
      then have "Suc i * ?n \<le> ?u * ?n" by (intro mult_right_mono) auto
      then have "i * ?n + j < ?u * ?n" using j unfolding mult_Suc by linarith
      moreover from this have "t ! (i * ?n + j) = rwb_table st ! (i * ?n + j)" using h by (auto simp: t_def nth_append table_holds_def)
      ultimately show ?thesis using l room j i' h by (simp add: st'_def table_put_nth table_holds_def nth_append)
    qed
  qed (use h k room in \<open>auto simp: table_holds_def st'_def\<close>)
  ultimately show ?thesis using e by (auto simp: collected_def st'_def)
qed

lemma marked_row: "rows_marked s st \<Longrightarrow> k < length (isl s) \<Longrightarrow>
    seg_offset (rw_rows st ! k) = seg_offset (isl s ! k) \<and> seg_end (rw_rows st ! k) = seg_end (isl s ! k) \<and>
    row_len (rw_rows st ! k) = row_len (isl s ! k) \<and> block (rw_rows st ! k) = block (isl s ! k) \<and> (rwop_index (rw_rows st ! k) < 0 \<longleftrightarrow> k \<notin> set (rw_bused st))"
  unfolding rows_marked_def by (metis (no_types, lifting) seglun_row_t.simps(1,2,3,5,6,12) not_less neg_less_0_iff_less zero_less_one
    seglun_row_t.surjective seglun_row_t.update_convs(6))

lemma marked_slot:
  assumes "rows_marked s st" "k < length (isl s)" "k \<in> set (rw_bused st)"
  shows "\<exists>i < length (rw_bused st). rwop_index (rw_rows st ! k) = int i \<and> rw_bused st ! i = k"
proof -
  obtain ix where "rw_rows st ! k = (isl s ! k)\<lparr>rwop_index := ix\<rparr>" "0 \<le> ix" "nat ix < length (rw_bused st)" "rw_bused st ! nat ix = k"
    using assms unfolding rows_marked_def by force
  then show ?thesis by (intro exI [of _ "nat ix"]) simp
qed

lemma marked_less: "rows_marked s st \<Longrightarrow> i < length (rw_bused st) \<Longrightarrow> rw_bused st ! i < length (isl s)"
  using nth_mem [of i "rw_bused st"] unfolding rows_marked_def by blast

lemma rows_marked_table [simp]: "rows_marked s (st\<lparr>rwb_table := t, rw_bpos := x\<rparr>) \<longleftrightarrow> rows_marked s st"
  by (simp add: rows_marked_def)

text \<open>The entries of one slot are replaced by those for more of the request, all of it in the row of the slot.\<close>

lemma table_holds_put:
  assumes ok: "lun_ok s w" and c: "collected s as P st" and i: "i < length (rw_bused st)"
    and R: "\<forall>q \<in> set R. in_row (isl s ! (rw_bused st ! i)) (fst q)"
    and rw: "length rw = n_devices s" "\<forall>j < n_devices s. stands_for s as j (row_part (isl s ! (rw_bused st ! i)) (P @ R)) (rw ! j)"
  shows "collected s as (P @ R) (st\<lparr>rwb_table := table_put (i * n_devices s) rw (rwb_table st), rw_bpos := x\<rparr>)"
proof -
  let ?n = "n_devices s" and ?u = "length (rw_bused st)" and ?k = "rw_bused st ! i"
  have m: "rows_marked s st" and r: "table_room s st" and h: "table_holds s as P st" using c by (simp_all add: collected_def)
  have k: "?k < length (isl s)" "?k \<in> set (rw_bused st)" using marked_less [OF m i] nth_mem [OF i] by simp_all
  have other: "row_part (isl s ! k') R = []" if k': "k' < length (isl s)" "k' \<noteq> ?k" for k'
  proof -
    have "\<not> in_row (isl s ! k') (fst q)" if "q \<in> set R" for q
      using R that k' k in_row_same [of s "isl s" 0 "total_size s" k' ?k "fst q"] ok unfolding lun_ok_def by blast
    then show ?thesis by (simp add: row_part_def)
  qed
  have room: "i * ?n + ?n \<le> length (rwb_table st)"
  proof -
    have "Suc i * ?n \<le> ?u * ?n" using i by (intro mult_right_mono) auto
    then show ?thesis using h by (simp add: table_holds_def add.commute)
  qed
  have "table_holds s as (P @ R) (st\<lparr>rwb_table := table_put (i * ?n) rw (rwb_table st), rw_bpos := x\<rparr>)"
    unfolding table_holds_def
  proof (intro conjI allI impI; simp)
    fix k' assume "k' < length (isl s)" "k' \<notin> set (rw_bused st)"
    then show "row_part (isl s ! k') P = [] \<and> row_part (isl s ! k') R = []" using other k(2) h by (auto simp: table_holds_def)
  next
    fix i' j assume i': "i' < ?u" and j: "j < ?n"
    have "Suc i' * ?n \<le> ?u * ?n" using i' by (intro mult_right_mono) auto
    then have l: "i' * ?n + j < length (rwb_table st)" using j h by (simp add: table_holds_def)
    have k': "rw_bused st ! i' < length (isl s)" using marked_less [OF m i'] .
    show "stands_for s as j (row_part (isl s ! (rw_bused st ! i')) P @ row_part (isl s ! (rw_bused st ! i')) R) (table_put (i * ?n) rw (rwb_table st) ! (i' * ?n + j))"
    proof (cases "i' = i")
      case True
      then show ?thesis using l room rw j by (simp add: table_put_nth)
    next
      case False
      then have "rw_bused st ! i' \<noteq> ?k" using m i i' by (auto simp: rows_marked_def nth_eq_iff_index_eq)
      moreover have "\<not> (i * ?n \<le> i' * ?n + j \<and> i' * ?n + j < i * ?n + ?n)" using slot_apart [of j ?n j i i'] j False by blast
      then have "table_put (i * ?n) rw (rwb_table st) ! (i' * ?n + j) = rwb_table st ! (i' * ?n + j)" using l room rw(1) by (simp only: table_put_nth if_False)
      ultimately show ?thesis using other [OF k'] h i' j by (simp add: table_holds_def)
    qed
  qed (use h room rw(1) in \<open>simp add: table_holds_def\<close>)
  then show ?thesis using m r room rw(1) by (simp add: collected_def table_room_def)
qed

lemma rw_row_collects:
  assumes ok: "lun_ok s w" and wf: "tbuf_wf tb" and c: "collected s (tbuf_addrs tb) P st" and fit: "length (isl s) * n_devices s \<le> 100"
    and k: "k < length (isl s)" "seg_offset (isl s ! k) \<le> hi" "lo \<le> seg_end (isl s ! k)" "lo \<le> hi"
    and LH: "L = max lo (seg_offset (isl s ! k))" "H = min hi (seg_end (isl s ! k))"
    and b: "0 \<le> rw_bpos st" "rw_bpos st + (H - L + 1) \<le> int (length (tbuf_addrs tb))"
  shows "\<exists>st'. rw_row s tb lo hi k st = Some st' \<and> collected s (tbuf_addrs tb) (P @ row_pairs L H (rw_bpos st)) st' \<and> rw_bpos st' = rw_bpos st + (H - L + 1)"
proof -
  let ?b = "isl s ! k" and ?n = "n_devices s" and ?as = "tbuf_addrs tb"
  have sz: "lun_sizes s" and rk: "row_ok s ?b" using ok k(1) by (auto simp: lun_ok_def)
  have mr: "seg_offset (rw_rows st ! k) = seg_offset ?b \<and> seg_end (rw_rows st ! k) = seg_end ?b \<and> row_len (rw_rows st ! k) = row_len ?b \<and>
      (rwop_index (rw_rows st ! k) < 0 \<longleftrightarrow> k \<notin> set (rw_bused st))" using marked_row [OF _ k(1)] c by (simp add: collected_def)
  then have mre: "seg_offset (rw_rows st ! k) = seg_offset ?b" "seg_end (rw_rows st ! k) = seg_end ?b" "row_len (rw_rows st ! k) = row_len ?b" by simp_all
  have e: "(if lo \<le> seg_offset ?b then 0 else lo - seg_offset ?b) = L - seg_offset ?b" "(if hi \<ge> seg_end ?b then row_len ?b - 1 else hi - seg_offset ?b) = H - seg_offset ?b"
    using rk by (auto simp: LH row_ok_def)
  have LH': "L \<le> H" "seg_offset ?b \<le> L" "H \<le> seg_end ?b" using k row_ok_end [OF sz rk] by (auto simp: LH)
  obtain st1 where st1: "(if rwop_index (rw_rows st ! k) < 0 then rw_new_slot s k st else Some st) = Some st1" "collected s ?as P st1"
    "k \<in> set (rw_bused st1)" "rw_bpos st1 = rw_bpos st"
    using rw_new_slot_result [OF c fit k(1)] mr c by (cases "k \<in> set (rw_bused st)") auto
  have m1: "rows_marked s st1" and h1: "table_holds s ?as P st1" using st1(2) by (simp_all add: collected_def)
  obtain i where i: "i < length (rw_bused st1)" "rwop_index (rw_rows st1 ! k) = int i" "rw_bused st1 ! i = k" using marked_slot [OF m1 k(1) st1(3)] by blast
  have "Suc i * ?n \<le> length (rw_bused st1) * ?n" using i(1) by (intro mult_right_mono) auto
  then have room: "i * ?n + ?n \<le> length (rwb_table st1)" using h1 by (simp add: table_holds_def)
  let ?old = "take ?n (drop (i * ?n) (rwb_table st1))"
  have old: "length ?old = ?n" "\<forall>j < ?n. stands_for s ?as j (row_part ?b P) (?old ! j)" using room h1 i by (auto simp: table_holds_def)
  have rp: "row_part ?b (row_pairs L H (rw_bpos st)) = row_pairs (L - seg_offset ?b) (L - seg_offset ?b + (H - seg_offset ?b - (L - seg_offset ?b) + 1) - 1) (rw_bpos st)"
    using row_part_pairs [OF LH'(2,3)] by simp
  obtain rw where rw: "lun_row_decompose s ?old (L - seg_offset ?b) tb (rw_bpos st) (H - seg_offset ?b - (L - seg_offset ?b) + 1) = Some rw" "length rw = ?n"
    "\<forall>j < ?n. stands_for s ?as j (row_part ?b P @ row_part ?b (row_pairs L H (rw_bpos st))) (rw ! j)"
    using lun_row_decompose_result [OF sz wf _ _ b(1) _ old, of "L - seg_offset ?b" "H - seg_offset ?b - (L - seg_offset ?b) + 1"] LH' b(2) unfolding rp by auto
  have "collected s ?as (P @ row_pairs L H (rw_bpos st)) (st1\<lparr>rwb_table := table_put (i * ?n) rw (rwb_table st1), rw_bpos := rw_bpos st1 + (H - L + 1)\<rparr>)"
    by (rule table_holds_put [OF ok st1(2) i(1)]) (use LH' rw(2,3) in \<open>auto simp: i(3) row_pairs_def in_row_def\<close>)
  moreover have "rw_row s tb lo hi k st = Some (st1\<lparr>rwb_table := table_put (i * ?n) rw (rwb_table st1), rw_bpos := rw_bpos st1 + (H - L + 1)\<rparr>)"
    unfolding rw_row_def Let_def mre e st1(1,4) bind.bind_lunit i(2) nat_int rw(1) by simp
  ultimately show ?thesis using st1(4) by simp
qed

lemma rows_drop:
  assumes "rows_tiled a (drop i bs) c" "i < length bs"
  shows "seg_offset (bs ! i) = a" "rows_tiled (seg_end (bs ! i) + 1) (drop (Suc i) bs) c"
  using assms by (simp_all add: Cons_nth_drop_Suc [symmetric])

lemma rw_rows_collects:
  assumes ok: "lun_ok s w" and wf: "tbuf_wf tb" and fit: "length (isl s) * n_devices s \<le> 100" and hi: "lo \<le> hi" "hi < total_size s"
  shows "i \<le> length (isl s) \<Longrightarrow> rows_tiled a (drop i (isl s)) (total_size s) \<Longrightarrow> collected s (tbuf_addrs tb) P st \<Longrightarrow>
    0 \<le> rw_bpos st \<Longrightarrow> a \<le> hi \<or> L = hi + 1 \<Longrightarrow> L = max lo a \<Longrightarrow> rw_bpos st + (hi - L + 1) \<le> int (length (tbuf_addrs tb)) \<Longrightarrow>
    \<exists>st'. rw_rows_loop s tb lo hi (filter (\<lambda>k. seg_offset (isl s ! k) \<le> hi \<and> lo \<le> seg_end (isl s ! k)) [i..<length (isl s)]) st = Some st' \<and>
      collected s (tbuf_addrs tb) (P @ row_pairs L hi (rw_bpos st)) st' \<and> rw_bpos st' = rw_bpos st + (hi - L + 1)"
proof (induction "length (isl s) - i" arbitrary: i a P st L)
  case 0
  then have "a = total_size s" by simp
  then show ?case using 0 hi by (simp add: row_pairs_empty)
next
  case (Suc d)
  let ?b = "isl s ! i"
  have i: "i < length (isl s)" using Suc.hyps(2) by simp
  then have l: "[i..<length (isl s)] = i # [Suc i..<length (isl s)]" by (rule upt_conv_Cons)
  note t = rows_drop [OF Suc.prems(2) i]
  have sz: "lun_sizes s" and rk: "row_ok s ?b" using ok i by (auto simp: lun_ok_def)
  note re = row_ok_end [OF sz rk]
  have d: "d = length (isl s) - Suc i" "Suc i \<le> length (isl s)" using Suc.hyps(2) by simp_all
  note IH = Suc.hyps(1) [OF d t(2)]
  show ?case
  proof (cases "a \<le> hi \<and> lo \<le> seg_end ?b")
    case True
    define H where "H = min hi (seg_end ?b)"
    have LH: "L \<le> H" "H \<le> hi" using True Suc.prems(6) t(1) hi re by (auto simp: H_def)
    obtain st1 where st1: "rw_row s tb lo hi i st = Some st1" "collected s (tbuf_addrs tb) (P @ row_pairs L H (rw_bpos st)) st1" "rw_bpos st1 = rw_bpos st + (H - L + 1)"
      using rw_row_collects [OF ok wf Suc.prems(3) fit i _ _ hi(1), of L H] True t(1) Suc.prems(4,6,7) LH H_def by auto
    show ?thesis
    proof (cases "hi \<le> seg_end ?b")
      case F: True
      then have Hh: "H = hi" by (simp add: H_def)
      have "\<not> seg_offset (isl s ! k) \<le> hi" if "k \<in> set [Suc i..<length (isl s)]" for k
        using rows_apart [OF sz _ _ _ , of "isl s" 0 "total_size s" i k] that ok F by (auto simp: lun_ok_def)
      then have "filter (\<lambda>k. seg_offset (isl s ! k) \<le> hi \<and> lo \<le> seg_end (isl s ! k)) [Suc i..<length (isl s)] = []" unfolding filter_empty_conv by blast
      then show ?thesis using st1 True t(1) unfolding l Hh by simp
    next
      case F: False
      then have Hh: "H = seg_end ?b" "max lo (H + 1) = H + 1" using True by (auto simp: H_def)
      obtain st2 where st2: "rw_rows_loop s tb lo hi (filter (\<lambda>k. seg_offset (isl s ! k) \<le> hi \<and> lo \<le> seg_end (isl s ! k)) [Suc i..<length (isl s)]) st1 = Some st2"
        "collected s (tbuf_addrs tb) ((P @ row_pairs L H (rw_bpos st)) @ row_pairs (H + 1) hi (rw_bpos st1)) st2" "rw_bpos st2 = rw_bpos st1 + (hi - (H + 1) + 1)"
        using IH [of "P @ row_pairs L H (rw_bpos st)" st1 "H + 1"] Suc.prems(4,7) i st1(2,3) F Hh LH by auto
      have "row_pairs L hi (rw_bpos st) = row_pairs L H (rw_bpos st) @ row_pairs (H + 1) hi (rw_bpos st1)"
        using row_pairs_split [of L "H + 1" hi "rw_bpos st"] LH unfolding st1(3) by (simp add: algebra_simps)
      then show ?thesis using st1(1,3) st2 True t(1) unfolding l by simp
    qed
  next
    case False
    then have L: "max lo (seg_end ?b + 1) = L \<and> seg_end ?b < hi \<or> L = hi + 1 \<and> hi < seg_end ?b + 1" using Suc.prems(5,6) hi re t(1) by auto
    have "\<exists>st'. rw_rows_loop s tb lo hi (filter (\<lambda>k. seg_offset (isl s ! k) \<le> hi \<and> lo \<le> seg_end (isl s ! k)) [Suc i..<length (isl s)]) st = Some st' \<and>
        collected s (tbuf_addrs tb) (P @ row_pairs L hi (rw_bpos st)) st' \<and> rw_bpos st' = rw_bpos st + (hi - L + 1)"
    proof (cases "seg_end ?b < hi")
      case True
      then show ?thesis using IH [of P st L] Suc.prems(3-7) i L by auto
    next
      case F: False
      then have "L = hi + 1" using L by auto
      moreover have "\<not> seg_offset (isl s ! k) \<le> hi" if "k \<in> set [Suc i..<length (isl s)]" for k
        using rows_apart [OF sz _ _ _ , of "isl s" 0 "total_size s" i k] that ok F by (auto simp: lun_ok_def)
      then have "filter (\<lambda>k. seg_offset (isl s ! k) \<le> hi \<and> lo \<le> seg_end (isl s ! k)) [Suc i..<length (isl s)] = []" unfolding filter_empty_conv by blast
      ultimately show ?thesis using Suc.prems(3) by (simp add: row_pairs_empty)
    qed
    then show ?thesis using False t(1) unfolding l by auto
  qed
qed

lemma rw_iovs_collects:
  assumes ok: "lun_ok s w" and wf: "tbuf_wf tb" and fit: "length (isl s) * n_devices s \<le> 100"
  shows "\<forall>(off, l) \<in> set exs. 0 \<le> off \<and> 0 < l \<and> off + l \<le> total_size s \<Longrightarrow> collected s (tbuf_addrs tb) P st \<Longrightarrow> 0 \<le> rw_bpos st \<Longrightarrow>
    rw_bpos st + sum_list (map snd exs) \<le> int (length (tbuf_addrs tb)) \<Longrightarrow>
    \<exists>st'. rw_iovs s tb exs st = Some st' \<and> collected s (tbuf_addrs tb) (P @ req_pairs exs (rw_bpos st)) st'"
proof (induction exs arbitrary: P st)
  case (Cons e exs)
  obtain off l where e: "e = (off, l)" by (cases e)
  have m: "rows_marked s st" using Cons.prems(2) by (simp add: collected_def)
  have "rows_search off (off + l - 1) (rw_rows st) =
      filter (\<lambda>k. seg_offset (isl s ! k) \<le> off + l - 1 \<and> off \<le> seg_end (isl s ! k)) [0..<length (isl s)]"
    unfolding rows_search_def using m marked_row [OF m] by (auto simp: rows_marked_def intro!: filter_cong)
  moreover have "0 \<le> sum_list (map snd exs)" using Cons.prems(1) by (intro sum_list_nonneg) (fastforce simp: e)
  moreover obtain st1 where st1: "rw_rows_loop s tb off (off + l - 1)
      (filter (\<lambda>k. seg_offset (isl s ! k) \<le> off + l - 1 \<and> off \<le> seg_end (isl s ! k)) [0..<length (isl s)]) st = Some st1"
    "collected s (tbuf_addrs tb) (P @ row_pairs off (off + l - 1) (rw_bpos st)) st1" "rw_bpos st1 = rw_bpos st + l"
    using rw_rows_collects [OF ok wf fit _ _ _ _ Cons.prems(2,3), of off "off + l - 1" 0 0 off] Cons.prems(1,4) calculation(2) ok
    by (auto simp: e lun_ok_def)
  ultimately show ?case using Cons.IH [OF _ st1(2)] Cons.prems by (auto simp: e)
qed auto

section \<open>The operations that are formed\<close>

definition dev_bytes :: "lio_seglun_priv_t \<Rightarrow> (int \<times> int) list \<Rightarrow> nat \<Rightarrow> nat \<Rightarrow> (int \<times> int) list" where
  "dev_bytes s P k j = dev_pairs s j (row_part (isl s ! k) P)"

definition op_for :: "lio_seglun_priv_t \<Rightarrow> nat option list \<Rightarrow> (int \<times> int) list \<Rightarrow> lun_op \<Rightarrow> bool" where
  "op_for s as P opr \<longleftrightarrow> op_row opr < length (isl s) \<and> op_dev opr < n_devices s \<and> op_cap opr = lun_cap (isl s ! op_row opr) (op_dev opr) \<and>
     tbuf_wf (op_buf opr) \<and> tbuf_addrs (op_buf opr) = map (\<lambda>q. as ! nat (snd q)) (dev_bytes s P (op_row opr) (op_dev opr)) \<and>
     op_len opr = int (length (dev_bytes s P (op_row opr) (op_dev opr))) \<and>
     ext_offs (op_ext opr) = map (lun_pos s \<circ> fst) (dev_bytes s P (op_row opr) (op_dev opr)) \<and> dev_bytes s P (op_row opr) (op_dev opr) \<noteq> []"

definition ops_for :: "lio_seglun_priv_t \<Rightarrow> nat option list \<Rightarrow> (int \<times> int) list \<Rightarrow> lun_op list \<Rightarrow> bool" where
  "ops_for s as P ops \<longleftrightarrow> distinct (map (\<lambda>opr. (op_row opr, op_dev opr)) ops) \<and> (\<forall>opr \<in> set ops. op_for s as P opr) \<and>
     (\<forall>k < length (isl s). \<forall>j < n_devices s. dev_bytes s P k j \<noteq> [] \<longrightarrow> (\<exists>opr \<in> set ops. op_row opr = k \<and> op_dev opr = j))"

lemma single_extent:
  assumes "length es = 1" "ext_offs es \<noteq> []"
  shows "ext_offs [(fst (es ! 0), int (length (ext_offs es)))] = ext_offs es"
proof -
  obtain off l where "es = [(off, l)]" using assms(1) by (cases es) auto
  then show ?thesis using assms(2) by (auto simp: ext_offs_def)
qed

lemma form_op_for:
  assumes st: "stands_for s as j (row_part (isl s ! k) P) e" and e: "ex_iov e \<noteq> []" and k: "k < length (isl s)" "j < n_devices s" and small: "length P < 2 ^ 31"
  shows "op_for s as P (form_op k j b (lun_cap (isl s ! k) j) e skip)"
proof -
  let ?D = "dev_bytes s P k j"
  have D: "ext_offs (ex_iov e) = map (lun_pos s \<circ> fst) ?D" "vec_addrs (rw_iov e) = map (\<lambda>q. as ! nat (snd q)) ?D" "rw_len e = int (length ?D)" "?D \<noteq> []"
    "length (ex_iov e) \<le> length (rw_iov e)" using st e by (auto simp: stands_for_def dev_bytes_def)
  have "length ?D \<le> length (row_part (isl s ! k) P)" by (simp add: dev_bytes_def dev_pairs_def)
  also have "\<dots> \<le> length P" by (simp add: row_part_def)
  finally have l: "vec_len (rw_iov e) = length ?D" "length ?D < 2 ^ 31" using D(2) small by (metis length_map vec_addrs_length, simp)
  have "ext_offs (if length (rw_iov e) = 1 then [(fst (ex_iov e ! 0), rw_len e)] else ex_iov e) = ext_offs (ex_iov e)"
  proof (cases "length (rw_iov e) = 1")
    case True
    then have "length (ex_iov e) = 1" using e D(5) by (cases "ex_iov e") auto
    then show ?thesis using single_extent [of "ex_iov e"] D(1,3,4) True by simp
  qed simp
  then show ?thesis using k D l tbuf_vec_wf [of "rw_iov e"] by (simp add: op_for_def form_op_def to_size_id)
qed

lemma upt_first: "[0..<Suc n] = 0 # map Suc [0..<n]"
  by (simp add: map_Suc_upt upt_conv_Cons del: upt_Suc)

lemma dev_ops_result:
  assumes "length bs = length es" "\<forall>b \<in> set bs. data b \<noteq> None"
  shows "\<exists>skip bl'. dev_ops env mb k i bs es bl c =
      Some (map (\<lambda>j. form_op k (i + j) (bs ! j) (the (data (bs ! j))) (es ! j) (skip j)) (filter (\<lambda>j. ex_iov (es ! j) \<noteq> []) [0..<length es]), bl') \<and>
    (bl = None \<longrightarrow> bl' = None \<and> (\<forall>j. \<not> skip j))"
  using assms
proof (induction bs es arbitrary: i bl c rule: list_induct2')
  case (4 b bs e es)
  have sh: "[0..<length (e # es)] = 0 # map Suc [0..<length es]" by (simp add: upt_first del: upt_Suc)
  have pre: "length bs = length es" "\<forall>b \<in> set bs. data b \<noteq> None" using 4(2,3) by auto
  show ?case
  proof (cases "ex_iov e = []")
    case True
    obtain skip bl' where r: "dev_ops env mb k (Suc i) bs es bl c =
        Some (map (\<lambda>j. form_op k (Suc i + j) (bs ! j) (the (data (bs ! j))) (es ! j) (skip j)) (filter (\<lambda>j. ex_iov (es ! j) \<noteq> []) [0..<length es]), bl')"
      "bl = None \<longrightarrow> bl' = None \<and> (\<forall>j. \<not> skip j)" using 4(1) [OF pre, of "Suc i" bl c] by blast
    show ?thesis using True r unfolding sh by (intro exI [of _ "\<lambda>j. case j of 0 \<Rightarrow> False | Suc j \<Rightarrow> skip j"] exI [of _ bl']) (simp add: filter_map o_def split: nat.split)
  next
    case False
    obtain cap where cap: "data b = Some cap" using 4(3) by auto
    obtain bl_rid bl1 c1 where b1: "bl_skips mb (env_now env cap) (rid_key b) bl c = (bl_rid, bl1, c1)" by (metis prod.exhaust)
    have n: "bl = None \<longrightarrow> bl1 = None \<and> \<not> bl_rid" using b1 by (auto simp: bl_skips_def)
    obtain skip bl' where r: "dev_ops env mb k (Suc i) bs es bl1 c1 =
        Some (map (\<lambda>j. form_op k (Suc i + j) (bs ! j) (the (data (bs ! j))) (es ! j) (skip j)) (filter (\<lambda>j. ex_iov (es ! j) \<noteq> []) [0..<length es]), bl')"
      "bl1 = None \<longrightarrow> bl' = None \<and> (\<forall>j. \<not> skip j)" using 4(1) [OF pre, of "Suc i" bl1 c1] by blast
    show ?thesis using False r b1 cap n unfolding sh
      by (intro exI [of _ "\<lambda>j. case j of 0 \<Rightarrow> bl_rid | Suc j \<Rightarrow> skip j"] exI [of _ bl']) (simp add: filter_map o_def split: nat.split)
  qed
qed auto

lemma slot_ops_result:
  assumes "length ks * n \<le> length table" "\<forall>k \<in> set ks. length (block (bs ! k)) = n \<and> (\<forall>b \<in> set (block (bs ! k)). data b \<noteq> None)"
  shows "\<exists>skip bl'. slot_ops env mb n bs table ks bl =
      Some (concat (map (\<lambda>i. map (\<lambda>j. form_op (ks ! i) j (block (bs ! (ks ! i)) ! j) (lun_cap (bs ! (ks ! i)) j) (table ! (i * n + j)) (skip i j))
        (filter (\<lambda>j. ex_iov (table ! (i * n + j)) \<noteq> []) [0..<n])) [0..<length ks]), bl') \<and> (bl = None \<longrightarrow> bl' = None \<and> (\<forall>i j. \<not> skip i j))"
  using assms
proof (induction ks arbitrary: table bl)
  case (Cons k ks)
  have sh: "[0..<length (k # ks)] = 0 # map Suc [0..<length ks]" by (simp add: upt_first del: upt_Suc)
  have n: "n \<le> length table" "length (take n table) = n" "length (block (bs ! k)) = length (take n table)" "\<forall>b \<in> set (block (bs ! k)). data b \<noteq> None"
    using Cons.prems by auto
  obtain skip bl1 where r: "dev_ops env mb k 0 (block (bs ! k)) (take n table) bl 0 =
      Some (map (\<lambda>j. form_op k j (block (bs ! k) ! j) (the (data (block (bs ! k) ! j))) (take n table ! j) (skip j)) (filter (\<lambda>j. ex_iov (take n table ! j) \<noteq> []) [0..<n]), bl1)"
    "bl = None \<longrightarrow> bl1 = None \<and> (\<forall>j. \<not> skip j)"
    using dev_ops_result [OF n(3,4), of env mb k 0 bl 0] unfolding n(2) by auto
  have r1: "map (\<lambda>j. form_op k j (block (bs ! k) ! j) (the (data (block (bs ! k) ! j))) (take n table ! j) (skip j)) (filter (\<lambda>j. ex_iov (take n table ! j) \<noteq> []) [0..<n]) =
      map (\<lambda>j. form_op k j (block (bs ! k) ! j) (lun_cap (bs ! k) j) (table ! j) (skip j)) (filter (\<lambda>j. ex_iov (table ! j) \<noteq> []) [0..<n])"
    by (auto simp: lun_cap_def intro!: map_cong filter_cong)
  obtain skip' bl' where r': "slot_ops env mb n bs (drop n table) ks bl1 =
      Some (concat (map (\<lambda>i. map (\<lambda>j. form_op (ks ! i) j (block (bs ! (ks ! i)) ! j) (lun_cap (bs ! (ks ! i)) j) (drop n table ! (i * n + j)) (skip' i j))
        (filter (\<lambda>j. ex_iov (drop n table ! (i * n + j)) \<noteq> []) [0..<n])) [0..<length ks]), bl')" "bl1 = None \<longrightarrow> bl' = None \<and> (\<forall>i j. \<not> skip' i j)"
    using Cons.IH [of "drop n table" bl1] Cons.prems by (auto simp: le_diff_conv2)
  have d: "drop n table ! (i * n + j) = table ! (Suc i * n + j)" for i j using n(1) by (simp add: add.assoc)
  show ?case using r r' unfolding sh r1 d
    by (intro exI [of _ "\<lambda>i j. case i of 0 \<Rightarrow> skip j | Suc i \<Rightarrow> skip' i j"] exI [of _ bl']) (simp add: o_def split: nat.split)
qed auto

lemma distinct_tagged: "distinct xs \<Longrightarrow> inj_on f (set xs) \<Longrightarrow> \<forall>x \<in> set xs. distinct (F x) \<Longrightarrow> distinct (concat (map (\<lambda>x. map (Pair (f x)) (F x)) xs))"
  by (induction xs) (auto simp: distinct_map inj_on_def)

lemma collected_ops:
  assumes ok: "lun_ok s w" and c: "collected s as P st" and small: "length P < 2 ^ 31"
  shows "\<exists>ops bl'. slot_ops env mb (n_devices s) (rw_rows st) (rwb_table st) (rw_bused st) bl = Some (ops, bl') \<and> ops_for s as P ops \<and>
    (bl = None \<longrightarrow> bl' = None \<and> (\<forall>opr \<in> set ops. \<not> op_skip opr))"
proof -
  let ?n = "n_devices s" and ?ks = "rw_bused st" and ?t = "rwb_table st"
  have m: "rows_marked s st" and h: "table_holds s as P st" using c by (simp_all add: collected_def)
  have kl: "k < length (isl s)" if "k \<in> set ?ks" for k using m that by (auto simp: rows_marked_def)
  have rk: "row_ok s (isl s ! k)" if "k < length (isl s)" for k using ok that by (auto simp: lun_ok_def)
  have blk: "block (rw_rows st ! k) = block (isl s ! k)" if "k \<in> set ?ks" for k using marked_row [OF m kl [OF that]] by blast
  have pre: "length ?ks * ?n \<le> length ?t" "\<forall>k \<in> set ?ks. length (block (rw_rows st ! k)) = ?n \<and> (\<forall>b \<in> set (block (rw_rows st ! k)). data b \<noteq> None)"
    using h blk rk [OF kl] by (auto simp: table_holds_def row_ok_def)
  define F where "F = (\<lambda>i. filter (\<lambda>j. ex_iov (?t ! (i * ?n + j)) \<noteq> []) [0..<?n])"
  obtain skip bl' where r: "slot_ops env mb ?n (rw_rows st) ?t ?ks bl = Some (concat (map (\<lambda>i. map (\<lambda>j. form_op (?ks ! i) j (block (rw_rows st ! (?ks ! i)) ! j)
      (lun_cap (rw_rows st ! (?ks ! i)) j) (?t ! (i * ?n + j)) (skip i j)) (F i)) [0..<length ?ks]), bl')" "bl = None \<longrightarrow> bl' = None \<and> (\<forall>i j. \<not> skip i j)"
    using slot_ops_result [OF pre, of env mb bl] unfolding F_def by blast
  define ops where "ops = concat (map (\<lambda>i. map (\<lambda>j. form_op (?ks ! i) j (block (rw_rows st ! (?ks ! i)) ! j)
      (lun_cap (rw_rows st ! (?ks ! i)) j) (?t ! (i * ?n + j)) (skip i j)) (F i)) [0..<length ?ks])"
  have "map (\<lambda>opr. (op_row opr, op_dev opr)) ops = concat (map (\<lambda>i. map (Pair (?ks ! i)) (F i)) [0..<length ?ks])"
    by (simp add: ops_def map_concat o_def form_op_def)
  then have "distinct (map (\<lambda>opr. (op_row opr, op_dev opr)) ops)"
    using m by (auto simp: rows_marked_def inj_on_def nth_eq_iff_index_eq F_def intro!: distinct_tagged)
  moreover have "op_for s as P opr" if opr: "opr \<in> set ops" for opr
  proof -
    obtain i j where ij: "i < length ?ks" "j \<in> set (F i)" "opr = form_op (?ks ! i) j (block (rw_rows st ! (?ks ! i)) ! j) (lun_cap (rw_rows st ! (?ks ! i)) j) (?t ! (i * ?n + j)) (skip i j)"
      using opr by (auto simp: ops_def)
    then have j: "j < ?n" "ex_iov (?t ! (i * ?n + j)) \<noteq> []" by (auto simp: F_def)
    have cap: "lun_cap (rw_rows st ! (?ks ! i)) j = lun_cap (isl s ! (?ks ! i)) j" using blk [OF nth_mem [OF ij(1)]] by (simp add: lun_cap_def)
    show ?thesis unfolding ij(3) cap by (rule form_op_for [OF _ j(2) marked_less [OF m ij(1)] j(1) small]) (use h ij(1) j(1) in \<open>auto simp: table_holds_def\<close>)
  qed
  moreover have "\<exists>opr \<in> set ops. op_row opr = k \<and> op_dev opr = j" if k: "k < length (isl s)" and j: "j < ?n" and ne: "dev_bytes s P k j \<noteq> []" for k j
  proof -
    have "k \<in> set ?ks" using h k ne by (auto simp: table_holds_def dev_bytes_def)
    then obtain i where i: "i < length ?ks" "?ks ! i = k" by (auto simp: in_set_conv_nth)
    then have "ex_iov (?t ! (i * ?n + j)) \<noteq> []" using h j ne by (auto simp: table_holds_def stands_for_def dev_bytes_def)
    then have "j \<in> set (F i)" using j by (simp add: F_def)
    then have "form_op k j (block (rw_rows st ! k) ! j) (lun_cap (rw_rows st ! k) j) (?t ! (i * ?n + j)) (skip i j) \<in> set ops" using i by (force simp: ops_def)
    then show ?thesis by (rule bexI [rotated]) (simp add: form_op_def)
  qed
  moreover have "\<not> op_skip opr" if "bl = None" "opr \<in> set ops" for opr using r(2) that by (auto simp: ops_def form_op_def)
  ultimately have "ops_for s as P ops" "bl = None \<longrightarrow> bl' = None \<and> (\<forall>opr \<in> set ops. \<not> op_skip opr)" using r(2) by (simp_all add: ops_for_def)
  then show ?thesis using r(1) [folded ops_def] by (intro exI conjI)
qed

lemma clear_index_nth:
  "set ks \<subseteq> {..<length bs} \<Longrightarrow> length (clear_index ks bs) = length bs \<and>
    (\<forall>k < length bs. clear_index ks bs ! k = (if k \<in> set ks then (bs ! k)\<lparr>rwop_index := -1\<rparr> else bs ! k))"
proof (induction ks arbitrary: bs)
  case (Cons k ks)
  then show ?case using Cons.IH [of "bs[k := (bs ! k)\<lparr>rwop_index := -1\<rparr>]"] by (auto simp: clear_index_def nth_list_update)
qed (simp add: clear_index_def)

lemma clear_index_marked:
  assumes ok: "lun_ok s w" and m: "rows_marked s st"
  shows "clear_index (rw_bused st) (rw_rows st) = isl s"
proof (rule nth_equalityI)
  have r: "set (rw_bused st) \<subseteq> {..<length (rw_rows st)}" "length (rw_rows st) = length (isl s)" using m by (simp_all add: rows_marked_def)
  show "length (clear_index (rw_bused st) (rw_rows st)) = length (isl s)" using clear_index_nth [OF r(1)] r(2) by simp
  fix k assume "k < length (clear_index (rw_bused st) (rw_rows st))"
  then have k: "k < length (isl s)" using clear_index_nth [OF r(1)] r(2) by simp
  then obtain ix where ix: "rw_rows st ! k = (isl s ! k)\<lparr>rwop_index := ix\<rparr>" "k \<notin> set (rw_bused st) \<longrightarrow> ix = -1" using m unfolding rows_marked_def by metis
  have i: "rwop_index (isl s ! k) = -1" using ok k by (auto simp: lun_ok_def row_ok_def)
  have "(isl s ! k)\<lparr>rwop_index := -1\<rparr> = isl s ! k" using i by (metis seglun_row_t.surjective seglun_row_t.update_convs(6))
  then show "clear_index (rw_bused st) (rw_rows st) ! k = isl s ! k" using clear_index_nth [OF r(1)] r(2) k ix by auto
qed

section \<open>The operations that are executed\<close>

definition op_addrs :: "lun_op \<Rightarrow> nat option set" where
  "op_addrs opr = set (tbuf_addrs (op_buf opr))"

lemma op_moves_for:
  assumes "op_for s as P opr"
  shows "op_moves env opr = (let qs = map (\<lambda>q. (as ! nat (snd q), lun_pos s (fst q))) (dev_bytes s P (op_row opr) (op_dev opr)) in
    case env_result env (op_cap opr) of None \<Rightarrow> qs | Some k \<Rightarrow> take k qs)"
proof -
  let ?D = "dev_bytes s P (op_row opr) (op_dev opr)"
  have "zip (byte_slice (tbuf_addrs (op_buf opr)) 0 (nat (op_len opr))) (ext_offs (op_ext opr)) =
      zip (map (\<lambda>q. as ! nat (snd q)) ?D) (map (lun_pos s \<circ> fst) ?D)" using assms by (simp add: op_for_def byte_slice_def)
  also have "\<dots> = map (\<lambda>q. (as ! nat (snd q), lun_pos s (fst q))) ?D" by (simp add: zip_map_map zip_same_conv_map)
  finally show ?thesis by (simp add: op_moves_def)
qed

lemma op_moves_fst:
  assumes "op_for s as P opr"
  shows "map fst (op_moves env opr) = (case env_result env (op_cap opr) of None \<Rightarrow> tbuf_addrs (op_buf opr) | Some k \<Rightarrow> take k (tbuf_addrs (op_buf opr)))"
proof -
  have "tbuf_addrs (op_buf opr) = map (\<lambda>q. as ! nat (snd q)) (dev_bytes s P (op_row opr) (op_dev opr))" using assms by (simp add: op_for_def)
  then show ?thesis by (simp add: op_moves_for [OF assms] Let_def take_map o_def split: option.split)
qed

lemma op_moves_addrs: "op_for s as P opr \<Longrightarrow> fst ` set (op_moves env opr) \<subseteq> op_addrs opr"
  using op_moves_fst [of s as P opr env] by (metis (no_types, lifting) list.set_map op_addrs_def option.case_eq_if order_refl set_take_subset)

lemma op_moves_distinct: "op_for s as P opr \<Longrightarrow> distinct (tbuf_addrs (op_buf opr)) \<Longrightarrow> distinct (map fst (op_moves env opr))"
  using op_moves_fst [of s as P opr env] by (simp add: distinct_take split: option.splits)

lemma exec_reads:
  assumes "distinct ops" "\<forall>opr \<in> set ops. distinct (map fst (op_moves env opr)) \<and> None \<notin> fst ` set (op_moves env opr)"
    "\<forall>opr \<in> set ops. \<forall>opr' \<in> set ops. opr \<noteq> opr' \<longrightarrow> fst ` set (op_moves env opr) \<inter> fst ` set (op_moves env opr') = {}"
  shows "\<exists>m'. exec_ops env 0 ops (w, m) = Some (w, m') \<and>
    (\<forall>opr \<in> set ops. \<not> op_skip opr \<longrightarrow> (\<forall>(a, off) \<in> set (op_moves env opr). m' (the a) = store w (op_cap opr) off)) \<and>
    (\<forall>a. (\<forall>opr \<in> set ops. Some a \<notin> fst ` set (op_moves env opr)) \<longrightarrow> m' a = m a)"
  using assms
proof (induction ops arbitrary: m)
  case (Cons opr ops)
  obtain m1 where m1: "ds_get (op_moves env opr) (store w (op_cap opr)) m = Some m1" using Cons.prems(2) ds_get_total by force
  let ?m1 = "if op_skip opr then m else m1"
  obtain m' where m': "exec_ops env 0 ops (w, ?m1) = Some (w, m')"
    "\<forall>opr \<in> set ops. \<not> op_skip opr \<longrightarrow> (\<forall>(a, off) \<in> set (op_moves env opr). m' (the a) = store w (op_cap opr) off)"
    "\<forall>a. (\<forall>opr \<in> set ops. Some a \<notin> fst ` set (op_moves env opr)) \<longrightarrow> m' a = ?m1 a"
    using Cons.IH [of ?m1] Cons.prems by auto
  have e: "exec_ops env 0 (opr # ops) (w, m) = Some (w, m')" using m1 m'(1) by (cases "op_skip opr") (simp_all add: exec_op_def)
  have "m' (the a) = store w (op_cap opr) off" if ns: "\<not> op_skip opr" and q: "(a, off) \<in> set (op_moves env opr)" for a off
  proof -
    obtain a' where a': "a = Some a'" using Cons.prems(2) q by (cases a) force+
    have "Some a' \<notin> fst ` set (op_moves env o')" if "o' \<in> set ops" for o'
    proof -
      have "o' \<noteq> opr" using Cons.prems(1) that by auto
      then show ?thesis using Cons.prems(3) that q a' by (force simp: image_iff)
    qed
    then have "m' a' = m1 a'" using m'(3) ns by auto
    then show ?thesis using ds_get_moves [OF m1] Cons.prems(2) q a' by simp
  qed
  moreover have "m' a = m a" if "\<forall>o' \<in> set (opr # ops). Some a \<notin> fst ` set (op_moves env o')" for a
    using that m'(3) ds_get_other [OF m1] by auto
  ultimately have "(\<forall>opr \<in> set (opr # ops). \<not> op_skip opr \<longrightarrow> (\<forall>(a, off) \<in> set (op_moves env opr). m' (the a) = store w (op_cap opr) off)) \<and>
      (\<forall>a. (\<forall>opr \<in> set (opr # ops). Some a \<notin> fst ` set (op_moves env opr)) \<longrightarrow> m' a = m a)" using m'(2) unfolding ball_simps list.set by blast
  then show ?case using e by blast
qed auto

lemma exec_writes:
  assumes "distinct ops" "\<forall>opr \<in> set ops. None \<notin> fst ` set (op_moves env opr)" "inj_on op_cap (set ops)" "rw_mode \<noteq> 0"
  shows "\<exists>w'. exec_ops env rw_mode ops (w, m) = Some (w', m) \<and> next_cap w' = next_cap w \<and> (\<forall>c. c \<notin> op_cap ` set ops \<longrightarrow> store w' c = store w c) \<and>
    (\<forall>opr \<in> set ops. store w' (op_cap opr) = (if op_skip opr then store w (op_cap opr) else the (ds_put (op_moves env opr) m (store w (op_cap opr)))))"
  using assms
proof (induction ops arbitrary: w)
  case (Cons opr ops)
  obtain al where al: "ds_put (op_moves env opr) m (store w (op_cap opr)) = Some al" using ds_put_result [of "op_moves env opr" m "store w (op_cap opr)"] Cons.prems(2) by auto
  let ?w1 = "if op_skip opr then w else w\<lparr>store := (store w)(op_cap opr := al)\<rparr>"
  have pre: "distinct ops" "\<forall>opr \<in> set ops. None \<notin> fst ` set (op_moves env opr)" "inj_on op_cap (set ops)" using Cons.prems by auto
  have ne: "op_cap opr \<notin> op_cap ` set ops" using Cons.prems(1,3) by (auto simp: inj_on_def)
  obtain w' where w': "exec_ops env rw_mode ops (?w1, m) = Some (w', m)" "next_cap w' = next_cap ?w1" "\<forall>c. c \<notin> op_cap ` set ops \<longrightarrow> store w' c = store ?w1 c"
    "\<forall>opr \<in> set ops. store w' (op_cap opr) = (if op_skip opr then store ?w1 (op_cap opr) else the (ds_put (op_moves env opr) m (store ?w1 (op_cap opr))))"
    using Cons.IH [OF pre Cons.prems(4), of ?w1] by blast
  have same: "store ?w1 (op_cap o') = store w (op_cap o')" if "o' \<in> set ops" for o'
  proof -
    have "op_cap o' \<noteq> op_cap opr" using ne that by (metis imageI)
    then show ?thesis by simp
  qed
  have "exec_ops env rw_mode (opr # ops) (w, m) = Some (w', m)" using al w'(1) Cons.prems(4) by (cases "op_skip opr") (simp_all add: exec_op_def)
  moreover have "store w' (op_cap o') = (if op_skip o' then store w (op_cap o') else the (ds_put (op_moves env o') m (store w (op_cap o'))))"
    if "o' \<in> set (opr # ops)" for o'
  proof (cases "o' = opr")
    case True
    then show ?thesis using w'(3) ne al by auto
  next
    case False
    then have "o' \<in> set ops" using that by simp
    then show ?thesis using w'(4) [rule_format, of o'] same [of o'] by (simp only:)
  qed
  moreover have "store w' c = store w c" if "c \<notin> op_cap ` set (opr # ops)" for c using w'(3) that by auto
  moreover have "next_cap w' = next_cap w" using w'(2) by simp
  ultimately show ?case by blast
qed auto

subsection \<open>Counting the errors\<close>

text \<open>The rows without the counts of the errors.\<close>

definition forget :: "seglun_row_t \<Rightarrow> seglun_row_t" where
  "forget b = b\<lparr>block := map (\<lambda>x. x\<lparr>read_err_count := 0, write_err_count := 0\<rparr>) (block b)\<rparr>"

lemma map_update_same: "g y = g (xs ! i) \<Longrightarrow> map g (xs[i := y]) = map g xs"
  by (induction xs arbitrary: i) (auto split: nat.split)

lemma forget_count [simp]: "forget (count_error rw_mode i b) = forget b"
  by (simp add: forget_def count_error_def map_update_same)

lemma forget_update: "map forget (bs[k := count_error rw_mode i (bs ! k)]) = map forget bs"
  by (simp add: map_update_same)

lemma forget_row [simp]:
  "row_ok s (forget b) = row_ok s b" "in_row (forget b) = in_row b" "seg_offset (forget b) = seg_offset b" "seg_end (forget b) = seg_end b"
  "map data (block (forget b)) = map data (block b)" "i < length (block b) \<Longrightarrow> lun_cap (forget b) i = lun_cap b i"
  by (auto simp: row_ok_def in_row_def lun_cap_def forget_def o_def)

lemma rows_tiled_forget: "rows_tiled a (map forget bs) c = rows_tiled a bs c"
  by (induction bs arbitrary: a) auto

lemma lun_caps_forget: "lun_caps (map forget bs) = lun_caps bs"
  by (simp add: lun_caps_def o_def)

lemma lun_sizes_isl [simp]: "lun_sizes (s\<lparr>isl := bs\<rparr>) = lun_sizes s" "row_ok (s\<lparr>isl := bs\<rparr>) = row_ok s"
  "row_byte (s\<lparr>isl := bs\<rparr>) = row_byte s"
  by (auto simp: lun_sizes_def row_ok_def row_byte_def lun_pos_def lun_dev_of_def intro!: ext)

lemma lun_ok_forget: "lun_ok (s\<lparr>isl := map forget (isl s)\<rparr>) w = lun_ok s w"
  by (simp add: lun_ok_def rows_tiled_forget lun_caps_forget)

lemma find_forget: "find (\<lambda>b. in_row b x) (map forget bs) = map_option forget (find (\<lambda>b. in_row b x) bs)"
  by (induction bs) auto

lemma lun_dev_less: "lun_sizes s \<Longrightarrow> lun_dev_of s x < n_devices s"
  using lun_sizes_pos [of s] by (simp add: lun_dev_of_def nat_less_iff)

lemma lun_view_forget:
  assumes "lun_ok s w0"
  shows "lun_view (s\<lparr>isl := map forget (isl s)\<rparr>) w x = lun_view s w x"
proof (cases "find (\<lambda>b. in_row b x) (isl s)")
  case (Some b)
  then have "b \<in> set (isl s)" by (auto simp: find_Some_iff)
  then have "lun_dev_of s (x - seg_offset b) < length (block b)" using assms lun_dev_less [of s] by (auto simp: lun_ok_def row_ok_def)
  then show ?thesis using Some by (simp add: lun_view_def find_forget row_byte_def)
qed (simp add: lun_view_def find_forget)

lemma alike:
  assumes ok: "lun_ok s w" and bs: "map forget bs = map forget (isl s)"
  shows "lun_ok (s\<lparr>isl := bs\<rparr>) w" "lun_view (s\<lparr>isl := bs\<rparr>) w' = lun_view s w'"
proof -
  have e: "s\<lparr>isl := bs, isl := map forget (isl (s\<lparr>isl := bs\<rparr>))\<rparr> = s\<lparr>isl := map forget (isl s)\<rparr>" using bs by simp
  show l: "lun_ok (s\<lparr>isl := bs\<rparr>) w" using lun_ok_forget [of "s\<lparr>isl := bs\<rparr>" w] lun_ok_forget [of s w] ok unfolding e by simp
  show "lun_view (s\<lparr>isl := bs\<rparr>) w' = lun_view s w'" using lun_view_forget [OF l, of w'] lun_view_forget [OF ok, of w'] unfolding e by auto
qed

lemma memset_op:
  assumes "tbuf_wf tb" "n = int (length (tbuf_addrs tb))"
  shows "tbx_tbuf_memset tb 0 0 (to_size n) m = Some (0, \<lambda>a. if Some a \<in> set (tbuf_addrs tb) then 0 else m a)"
proof -
  have l: "length (tbuf_addrs tb) < 2 ^ 31" using vec_buffer.fits [OF assms(1)] .
  then show ?thesis using vec_buffer.memset_flat [OF assms(1) vec_buffer.start [OF assms(1)], of 0 "length (tbuf_addrs tb)" 0 m] assms
    by (simp add: tbx_tbuf_memset_def tbuf_size_addrs to_size_id flat_set_def byte_slice_def)
qed

lemma finish_ops_result:
  assumes "\<forall>opr \<in> set ops. op_for s as P opr"
  shows "\<exists>bs'. finish_ops env rw_mode ops (bs, m) = Some (bs', \<lambda>a. if rw_mode = 0 \<and> (\<exists>opr \<in> set ops. op_failed env opr \<and> Some a \<in> op_addrs opr) then 0 else m a) \<and>
    map forget bs' = map forget bs"
  using assms
proof (induction ops arbitrary: bs m)
  case (Cons opr ops)
  have mem: "tbx_tbuf_memset (op_buf opr) 0 0 (to_size (op_len opr)) m = Some (0, \<lambda>a. if Some a \<in> op_addrs opr then 0 else m a)"
    using Cons.prems unfolding op_addrs_def by (intro memset_op) (auto simp: op_for_def)
  let ?m = "if rw_mode = 0 then (\<lambda>a. if Some a \<in> op_addrs opr then 0 else m a) else m"
  show ?case
  proof (cases "op_failed env opr")
    case True
    obtain bs' where bs': "finish_ops env rw_mode ops (bs[op_row opr := count_error rw_mode (op_dev opr) (bs ! op_row opr)], ?m) =
        Some (bs', \<lambda>a. if rw_mode = 0 \<and> (\<exists>opr \<in> set ops. op_failed env opr \<and> Some a \<in> op_addrs opr) then 0 else ?m a)" "map forget bs' = map forget bs"
      using Cons.IH [of "bs[op_row opr := count_error rw_mode (op_dev opr) (bs ! op_row opr)]" ?m] Cons.prems by (auto simp: forget_update)
    have "(\<lambda>a. if rw_mode = 0 \<and> (\<exists>opr \<in> set ops. op_failed env opr \<and> Some a \<in> op_addrs opr) then 0 else ?m a) =
        (\<lambda>a. if rw_mode = 0 \<and> (\<exists>opr \<in> set (opr # ops). op_failed env opr \<and> Some a \<in> op_addrs opr) then 0 else m a)"
      using True by (intro ext) auto
    then show ?thesis using True bs' mem by (cases "rw_mode = 0") (simp_all add: op_addrs_def)
  next
    case False
    then show ?thesis using Cons.IH [of bs m] Cons.prems by simp
  qed
qed simp

text \<open>The error code is the largest number of devices of a row that failed.\<close>

definition row_errors :: "lio_seglun_priv_t \<Rightarrow> (nat \<Rightarrow> bool) \<Rightarrow> (int \<times> int) list \<Rightarrow> nat \<Rightarrow> nat" where
  "row_errors s fails P k = length (filter (\<lambda>j. dev_bytes s P k j \<noteq> [] \<and> fails (lun_cap (isl s ! k) j)) [0..<n_devices s])"

definition lun_errors :: "lio_seglun_priv_t \<Rightarrow> (nat \<Rightarrow> bool) \<Rightarrow> (int \<times> int) list \<Rightarrow> nat" where
  "lun_errors s fails P = Max (insert 0 (row_errors s fails P ` {..<length (isl s)}))"

lemma fold_max: "fold (\<lambda>k. \<lambda>e. max e (f k)) ks (e::nat) = Max (insert e (f ` set ks))"
proof (induction ks arbitrary: e)
  case (Cons k ks)
  have "Max (insert (max e (f k)) (f ` set ks)) = Max (insert e (insert (f k) (f ` set ks)))" by (cases "ks = []") (auto simp: max.assoc)
  then show ?case using Cons by simp
qed simp

lemma row_errors_count:
  assumes o: "ops_for s as P ops" and k: "k < length (isl s)" and f: "\<forall>opr \<in> set ops. op_failed env opr = fails (op_cap opr)"
  shows "length (filter (\<lambda>opr. op_row opr = k \<and> op_failed env opr) ops) = row_errors s fails P k"
proof -
  let ?F = "filter (\<lambda>opr. op_row opr = k \<and> op_failed env opr) ops" and ?G = "filter (\<lambda>j. dev_bytes s P k j \<noteq> [] \<and> fails (lun_cap (isl s ! k) j)) [0..<n_devices s]"
  have d: "distinct (map (\<lambda>opr. (op_row opr, op_dev opr)) ops)" using o by (simp add: ops_for_def)
  have "distinct (map (\<lambda>opr. (op_row opr, op_dev opr)) ?F)" using d by (rule distinct_map_filter)
  then have df: "distinct (map op_dev ?F)" by (auto simp: distinct_map inj_on_def)
  have "set (map op_dev ?F) = set ?G"
  proof (intro equalityI subsetI)
    fix j assume "j \<in> set (map op_dev ?F)"
    then show "j \<in> set ?G" using o f by (auto simp: ops_for_def op_for_def)
  next
    fix j assume j: "j \<in> set ?G"
    then obtain opr where opr: "opr \<in> set ops" "op_row opr = k" "op_dev opr = j" using o k unfolding ops_for_def by fastforce
    then have "op_failed env opr" using j o f by (auto simp: ops_for_def op_for_def)
    then show "j \<in> set (map op_dev ?F)" using opr by force
  qed
  then have "length (map op_dev ?F) = length ?G" using distinct_card [OF df] distinct_card [of ?G] by simp
  then show ?thesis by (simp add: row_errors_def)
qed

lemma max_errors_result:
  assumes o: "ops_for s as P ops" and c: "collected s as P st" and f: "\<forall>opr \<in> set ops. op_failed env opr = fails (op_cap opr)"
  shows "max_errors env ops (rw_bused st) = lun_errors s fails P"
proof -
  let ?f = "\<lambda>k. length (filter (\<lambda>opr. op_row opr = k \<and> op_failed env opr) ops)"
  have s: "set (rw_bused st) \<subseteq> {..<length (isl s)}" using c by (simp add: collected_def rows_marked_def)
  have z: "row_errors s fails P k = 0" if "k < length (isl s)" "k \<notin> set (rw_bused st)" for k
    using c that by (auto simp: collected_def table_holds_def row_errors_def dev_bytes_def)
  have "max_errors env ops (rw_bused st) = Max (insert 0 (?f ` set (rw_bused st)))" by (simp add: max_errors_def fold_max)
  also have "?f ` set (rw_bused st) = row_errors s fails P ` set (rw_bused st)" using row_errors_count [OF o _ f] s by (intro image_cong) auto
  also have "insert 0 (row_errors s fails P ` set (rw_bused st)) = insert 0 (row_errors s fails P ` {..<length (isl s)})" using s z by force
  finally show ?thesis by (simp add: lun_errors_def)
qed

section \<open>The bytes of a request\<close>

lemma req_pairs_snd: "\<forall>(off, l) \<in> set exs. 0 < l \<Longrightarrow> map snd (req_pairs exs p) = [p..p + sum_list (map snd exs) - 1]"
proof (induction exs arbitrary: p)
  case (Cons e exs)
  obtain off l where e: "e = (off, l)" by (cases e)
  have l: "0 < l" "0 \<le> sum_list (map snd exs)" using Cons.prems by (auto simp: e intro!: sum_list_nonneg) fastforce
  have "map (\<lambda>x. p + (x - off)) [off..off + l - 1] = map (\<lambda>x. x + (p - off)) [off..off + l - 1]" by simp
  also have "\<dots> = [p..p + l - 1]" using map_add_upto [of "p - off" off "off + l - 1"] by (simp add: algebra_simps)
  finally have "map snd (req_pairs (e # exs) p) = [p..p + l - 1] @ [p + l..p + l + sum_list (map snd exs) - 1]" using Cons by (simp add: e row_pairs_def o_def)
  then show ?case using upto_append [of p "p + l" "p + l + sum_list (map snd exs) - 1"] l by (simp add: e algebra_simps)
qed simp

lemma req_pairs_fst: "(x, q) \<in> set (req_pairs exs p) \<Longrightarrow> \<exists>(off, l) \<in> set exs. off \<le> x \<and> x < off + l"
  by (induction exs p rule: req_pairs.induct) (auto simp: row_pairs_def)

lemma dev_bytes_mem:
  "(y, p) \<in> set (dev_bytes s P k j) \<longleftrightarrow> (y + seg_offset (isl s ! k), p) \<in> set P \<and> in_row (isl s ! k) (y + seg_offset (isl s ! k)) \<and> lun_dev_of s y = j"
  by (force simp: dev_bytes_def dev_pairs_def row_part_def)

lemma dev_bytes_snd: "distinct (map snd P) \<Longrightarrow> distinct (map snd (dev_bytes s P k j))"
  unfolding dev_bytes_def dev_pairs_def row_part_def by (intro distinct_map_filter) (simp add: o_def distinct_map_filter)

lemma dev_bytes_last:
  "in_row (isl s ! k) x \<Longrightarrow> lun_dev_of s (x - seg_offset (isl s ! k)) = j \<Longrightarrow> map_of (rev (dev_bytes s P k j)) (x - seg_offset (isl s ! k)) = map_of (rev P) x"
  by (induction P) (auto simp: dev_bytes_def dev_pairs_def row_part_def map_add_def split: option.splits)

lemma map_of_inj:
  "\<forall>q \<in> set D. f (fst q) = f y \<longrightarrow> fst q = y \<Longrightarrow> map_of (rev (map (\<lambda>q. (f (fst q), g (snd q))) D)) (f y) = map_option g (map_of (rev D) y)"
  by (induction D) (auto simp: map_add_def split: option.splits)

text \<open>The buffer has no address twice, and no \<^verbatim>\<open>NULL\<close>.\<close>

definition request_ok :: "lio_seglun_priv_t \<Rightarrow> (int \<times> int) list \<Rightarrow> tbx_tbuf_t \<Rightarrow> int \<Rightarrow> bool" where
  "request_ok s exs tb boff \<longleftrightarrow> exs \<noteq> [] \<and> (\<forall>(off, l) \<in> set exs. 0 \<le> off \<and> 0 < l \<and> off + l \<le> total_size s) \<and> tbuf_wf tb \<and> 0 \<le> boff \<and>
     boff + sum_list (map snd exs) \<le> int (length (tbuf_addrs tb)) \<and> distinct (tbuf_addrs tb) \<and> None \<notin> set (tbuf_addrs tb) \<and> length (isl s) * n_devices s \<le> 100"

definition any_order :: "lun_env \<Rightarrow> bool" where
  "any_order env \<longleftrightarrow> (\<forall>ops. mset (env_order env ops) = mset ops)"

lemma any_order_set: "any_order env \<Longrightarrow> set (env_order env ops) = set ops \<and> distinct (env_order env ops) = distinct ops"
  by (metis any_order_def mset_eq_setD mset_eq_imp_distinct_iff)

lemma request_pairs:
  assumes r: "request_ok s exs tb boff" and P: "P = req_pairs exs boff"
  shows "distinct (map snd P)" "length P < 2 ^ 31" "P \<noteq> []" "\<forall>(x, p) \<in> set P. 0 \<le> x \<and> x < total_size s \<and> 0 \<le> p \<and> nat p < length (tbuf_addrs tb)"
proof -
  have l: "\<forall>(off, l) \<in> set exs. 0 < l" using r by (auto simp: request_ok_def)
  note sn = req_pairs_snd [OF l, of boff, folded P]
  have pos: "boff + sum_list (map snd exs) \<le> int (length (tbuf_addrs tb))" "0 \<le> boff" "tbuf_wf tb" using r by (simp_all add: request_ok_def)
  show "distinct (map snd P)" unfolding sn by simp
  have "length P = nat (sum_list (map snd exs))" using arg_cong [OF sn, of length] by simp
  then show "length P < 2 ^ 31" using pos vec_buffer.fits [OF pos(3)] by simp
  show "P \<noteq> []" using r by (cases exs) (auto simp: P request_ok_def row_pairs_def)
  have "0 \<le> x \<and> x < total_size s \<and> 0 \<le> p \<and> nat p < length (tbuf_addrs tb)" if q: "(x, p) \<in> set P" for x p
  proof -
    have "p \<in> set (map snd P)" using q by force
    then have "boff \<le> p" "p \<le> boff + sum_list (map snd exs) - 1" unfolding sn by simp_all
    moreover obtain off l where "(off, l) \<in> set exs" "off \<le> x" "x < off + l" using req_pairs_fst q P by blast
    moreover from this have "0 \<le> off" "off + l \<le> total_size s" using r by (auto simp: request_ok_def)
    ultimately show ?thesis using pos by auto
  qed
  then show "\<forall>(x, p) \<in> set P. 0 \<le> x \<and> x < total_size s \<and> 0 \<le> p \<and> nat p < length (tbuf_addrs tb)" by blast
qed

text \<open>Every byte of the request belongs to one operation; the operations use different allocations and different addresses.\<close>

lemma op_of_byte:
  assumes ok: "lun_ok s w" and o: "ops_for s as P ops" and q: "(x, p) \<in> set P" "0 \<le> x" "x < total_size s"
  shows "\<exists>opr k. opr \<in> set ops \<and> k < length (isl s) \<and> in_row (isl s ! k) x \<and> op_row opr = k \<and> op_dev opr = lun_dev_of s (x - seg_offset (isl s ! k)) \<and>
    (x - seg_offset (isl s ! k), p) \<in> set (dev_bytes s P k (op_dev opr))"
proof -
  obtain k where k: "k < length (isl s)" "in_row (isl s ! k) x" using rows_cover [of 0 "isl s" "total_size s" x] ok q by (auto simp: lun_ok_def)
  have m: "(x - seg_offset (isl s ! k), p) \<in> set (dev_bytes s P k (lun_dev_of s (x - seg_offset (isl s ! k))))" using k q by (simp add: dev_bytes_mem)
  have j: "lun_dev_of s (x - seg_offset (isl s ! k)) < n_devices s" using ok lun_dev_less by (simp add: lun_ok_def)
  then obtain opr where "opr \<in> set ops" "op_row opr = k" "op_dev opr = lun_dev_of s (x - seg_offset (isl s ! k))"
    using o k(1) m unfolding ops_for_def by (metis empty_iff empty_set)
  then show ?thesis using k m by auto
qed

lemma op_addrs_mem: "op_for s as P opr \<Longrightarrow> a \<in> op_addrs opr \<longleftrightarrow> (\<exists>q \<in> set (dev_bytes s P (op_row opr) (op_dev opr)). a = as ! nat (snd q))"
  by (auto simp: op_for_def op_addrs_def)

lemma ops_apart:
  assumes ok: "lun_ok s w" and o: "ops_for s as P ops" and P: "distinct (map snd P)" "\<forall>(x, p) \<in> set P. 0 \<le> p \<and> nat p < length as" and as: "distinct as"
    and oo: "o1 \<in> set ops" "o2 \<in> set ops" "op_addrs o1 \<inter> op_addrs o2 \<noteq> {}"
  shows "o1 = o2"
proof -
  have f: "op_for s as P o1" "op_for s as P o2" using o oo by (auto simp: ops_for_def)
  obtain a where a: "a \<in> op_addrs o1" "a \<in> op_addrs o2" using oo(3) by blast
  obtain q1 q2 where q: "q1 \<in> set (dev_bytes s P (op_row o1) (op_dev o1))" "q2 \<in> set (dev_bytes s P (op_row o2) (op_dev o2))" "as ! nat (snd q1) = as ! nat (snd q2)"
    using a op_addrs_mem [OF f(1), of a] op_addrs_mem [OF f(2), of a] by metis
  obtain y1 p1 y2 p2 where e: "q1 = (y1, p1)" "q2 = (y2, p2)" by (metis prod.exhaust)
  let ?x1 = "y1 + seg_offset (isl s ! op_row o1)" and ?x2 = "y2 + seg_offset (isl s ! op_row o2)"
  have m: "(?x1, p1) \<in> set P" "in_row (isl s ! op_row o1) ?x1" "lun_dev_of s y1 = op_dev o1" "(?x2, p2) \<in> set P" "in_row (isl s ! op_row o2) ?x2" "lun_dev_of s y2 = op_dev o2"
    using q(1,2) unfolding e dev_bytes_mem by simp_all
  have p: "0 \<le> p1" "nat p1 < length as" "0 \<le> p2" "nat p2 < length as" using P(2) m(1,4) by blast+
  then have "nat p1 = nat p2" using q(3) nth_eq_iff_index_eq [OF as p(2,4)] by (simp add: e)
  then have "snd (?x1, p1) = snd (?x2, p2)" using p by simp
  then have x: "?x1 = ?x2" using m(1,4) P(1) unfolding distinct_map inj_on_def by blast
  have "op_row o1 = op_row o2"
    by (rule in_row_same [of s "isl s" 0 "total_size s" _ _ ?x1]) (use ok f m(2,5) x in \<open>auto simp: lun_ok_def op_for_def\<close>)
  moreover from this have "op_dev o1 = op_dev o2" using m(3,6) x by simp
  ultimately have "(op_row o1, op_dev o1) = (op_row o2, op_dev o2)" by simp
  then show ?thesis using o oo(1,2) unfolding ops_for_def distinct_map inj_on_def by blast
qed

definition byte_cap :: "lio_seglun_priv_t \<Rightarrow> int \<Rightarrow> nat" where
  "byte_cap s x = (case find (\<lambda>b. in_row b x) (isl s) of None \<Rightarrow> 0 | Some b \<Rightarrow> lun_cap b (lun_dev_of s (x - seg_offset b)))"

definition fails_on :: "lun_env \<Rightarrow> nat \<Rightarrow> bool" where
  "fails_on env c \<longleftrightarrow> env_result env c \<noteq> None"

definition lun_status :: "lio_seglun_priv_t \<Rightarrow> lun_env \<Rightarrow> (int \<times> int) list \<Rightarrow> int \<times> int" where
  "lun_status s env P =
     (let e = lun_errors s (fails_on env) P in if e = 0 then gop_success_status else (OP_STATE_FAILURE, int e))"

lemma byte_cap_row:
  assumes ok: "lun_ok s w" and k: "k < length (isl s)" "in_row (isl s ! k) x"
  shows "byte_cap s x = lun_cap (isl s ! k) (lun_dev_of s (x - seg_offset (isl s ! k)))"
proof -
  have f: "find (\<lambda>b. in_row b x) (isl s) \<noteq> None" using k nth_mem [OF k(1)] unfolding find_None_iff by blast
  then obtain i where i: "i < length (isl s)" "in_row (isl s ! i) x" "find (\<lambda>b. in_row b x) (isl s) = Some (isl s ! i)"
    by (auto simp: find_Some_iff)
  then have "i = k" using in_row_same [of s "isl s" 0 "total_size s" i k x] ok k by (auto simp: lun_ok_def)
  then show ?thesis using i by (simp add: byte_cap_def)
qed

lemma rw_prepared:
  assumes ok: "lun_ok s w" and r: "request_ok s exs tb boff" and P: "P = req_pairs exs boff"
  shows "\<exists>st ops use'. rw_iovs s tb exs (rw_start s boff) = Some st \<and>
    slot_ops env mb (n_devices s) (rw_rows st) (rwb_table st) (rw_bused st) use = Some (ops, use') \<and> ops_for s (tbuf_addrs tb) P ops \<and> ops \<noteq> [] \<and>
    collected s (tbuf_addrs tb) P st \<and> clear_index (rw_bused st) (rw_rows st) = isl s \<and> (use = None \<longrightarrow> use' = None \<and> (\<forall>opr \<in> set ops. \<not> op_skip opr))"
proof -
  note rp = request_pairs [OF r P]
  have "\<forall>(off, l) \<in> set exs. 0 \<le> off \<and> 0 < l \<and> off + l \<le> total_size s" "tbuf_wf tb" "length (isl s) * n_devices s \<le> 100"
    "0 \<le> rw_bpos (rw_start s boff)" "rw_bpos (rw_start s boff) + sum_list (map snd exs) \<le> int (length (tbuf_addrs tb))"
    using r by (auto simp: request_ok_def rw_start_def)
  then obtain st where st: "rw_iovs s tb exs (rw_start s boff) = Some st" "collected s (tbuf_addrs tb) P st"
    using rw_iovs_collects [OF ok, of tb exs "[]" "rw_start s boff"] collected_start [OF ok] P by (auto simp: rw_start_def)
  obtain ops use' where o: "slot_ops env mb (n_devices s) (rw_rows st) (rwb_table st) (rw_bused st) use = Some (ops, use')" "ops_for s (tbuf_addrs tb) P ops"
    "use = None \<longrightarrow> use' = None \<and> (\<forall>opr \<in> set ops. \<not> op_skip opr)" using collected_ops [OF ok st(2) rp(2), of env mb use] by blast
  obtain x p where "(x, p) \<in> set P" using rp(3) by (cases P) auto
  then have "ops \<noteq> []" using op_of_byte [OF ok o(2)] rp(4) by fastforce
  then show ?thesis using st o clear_index_marked [OF ok, of st] by (auto simp: collected_def)
qed

lemma distinct_concat_nth:
  "distinct (concat xss) \<Longrightarrow> i < length xss \<Longrightarrow> i' < length xss \<Longrightarrow> j < length (xss ! i) \<Longrightarrow> j' < length (xss ! i') \<Longrightarrow>
    xss ! i ! j = xss ! i' ! j' \<Longrightarrow> i = i' \<and> j = j'"
proof (induction xss arbitrary: i i')
  case (Cons xs xss)
  have x: "xs ! j \<noteq> xss ! k ! l" if "j < length xs" "k < length xss" "l < length (xss ! k)" for j k l
    using Cons.prems(1) that by (metis concat.simps(2) distinct_append disjoint_iff nth_mem set_concat UN_I)
  show ?case
  proof (cases i; cases i')
    fix k k' assume "i = Suc k" "i' = Suc k'"
    then show ?thesis using Cons.IH [of k k'] Cons.prems by simp
  next
    fix k assume "i = 0" "i' = Suc k"
    then show ?thesis using Cons.prems x [of j k j'] by simp
  next
    fix k assume "i = Suc k" "i' = 0"
    then show ?thesis using Cons.prems x [of j' k j] by simp
  next
    assume "i = 0" "i' = 0"
    then show ?thesis using Cons.prems by (simp add: nth_eq_iff_index_eq)
  qed
qed simp

lemma row_blocks:
  assumes "lun_ok s w" "k < length (isl s)"
  shows "length (block (isl s ! k)) = n_devices s" "j < n_devices s \<Longrightarrow> data (block (isl s ! k) ! j) = Some (lun_cap (isl s ! k) j)"
proof -
  have r: "row_ok s (isl s ! k)" using assms by (simp add: lun_ok_def)
  then show l: "length (block (isl s ! k)) = n_devices s" by (simp add: row_ok_def)
  show "data (block (isl s ! k) ! j) = Some (lun_cap (isl s ! k) j)" if "j < n_devices s"
  proof -
    have "block (isl s ! k) ! j \<in> set (block (isl s ! k))" using that l by simp
    then have "data (block (isl s ! k) ! j) \<noteq> None" using r unfolding row_ok_def by blast
    then show ?thesis by (simp add: lun_cap_def)
  qed
qed

lemma lun_cap_inj:
  assumes ok: "lun_ok s w" and b: "k < length (isl s)" "k' < length (isl s)" "j < n_devices s" "j' < n_devices s" and e: "lun_cap (isl s ! k) j = lun_cap (isl s ! k') j'"
  shows "k = k' \<and> j = j'"
proof -
  have d: "distinct (concat (map (\<lambda>b. map data (block b)) (isl s)))" using ok by (simp add: lun_ok_def lun_caps_def)
  show ?thesis by (rule distinct_concat_nth [OF d]) (use b e row_blocks [OF ok] in simp_all)
qed

lemma ops_caps_inj:
  assumes ok: "lun_ok s w" and o: "ops_for s as P ops"
  shows "inj_on op_cap (set ops)"
proof (rule inj_onI)
  fix o1 o2 assume oo: "o1 \<in> set ops" "o2 \<in> set ops" "op_cap o1 = op_cap o2"
  have b: "op_row opr < length (isl s) \<and> op_dev opr < n_devices s \<and> op_cap opr = lun_cap (isl s ! op_row opr) (op_dev opr)" if "opr \<in> set ops" for opr
    using o that by (simp add: ops_for_def op_for_def)
  have "op_row o1 = op_row o2 \<and> op_dev o1 = op_dev o2"
    by (rule lun_cap_inj [OF ok]) (use b [OF oo(1)] b [OF oo(2)] oo(3) in simp_all)
  then have "(op_row o1, op_dev o1) = (op_row o2, op_dev o2)" by simp
  then show "o1 = o2" using o oo(1,2) unfolding ops_for_def distinct_map inj_on_def by blast
qed

section \<open>Reading and writing\<close>

lemma lun_read_bytes:
  assumes ok: "lun_ok s w" and r: "request_ok s exs tb boff" and ord: "any_order env" and P: "P = req_pairs exs boff"
    and o: "ops_for s (tbuf_addrs tb) P ops" and ns: "\<forall>opr \<in> set ops. \<not> op_skip opr"
  shows "\<exists>m1. exec_ops env 0 (env_order env ops) (w, m) = Some (w, m1) \<and>
    (\<forall>(x, p) \<in> set P. (if \<exists>opr \<in> set ops. op_failed env opr \<and> Some (the (tbuf_addrs tb ! nat p)) \<in> op_addrs opr then 0 else m1 (the (tbuf_addrs tb ! nat p))) =
       (if fails_on env (byte_cap s x) then 0 else the (lun_view s w x))) \<and>
    (\<forall>a. Some a \<notin> (\<lambda>(x, p). tbuf_addrs tb ! nat p) ` set P \<longrightarrow>
       (if \<exists>opr \<in> set ops. op_failed env opr \<and> Some a \<in> op_addrs opr then 0 else m1 a) = m a)"
proof -
  let ?as = "tbuf_addrs tb"
  note rp = request_pairs [OF r P]
  have as: "distinct ?as" "None \<notin> set ?as" using r by (simp_all add: request_ok_def)
  have f: "op_for s ?as P opr" if "opr \<in> set ops" for opr using o that by (simp add: ops_for_def)
  have Pb: "\<forall>(x, p) \<in> set P. 0 \<le> p \<and> nat p < length ?as" using rp(4) by auto
  note apart = ops_apart [OF ok o rp(1) Pb as(1)]
  have sub: "op_addrs opr \<subseteq> (\<lambda>(x, p). ?as ! nat p) ` set P" if "opr \<in> set ops" for opr
    using op_addrs_mem [OF f [OF that]] by (force simp: dev_bytes_mem)
  have nn: "None \<notin> op_addrs opr" if "opr \<in> set ops" for opr using sub [OF that] as(2) Pb by (force simp: in_set_conv_nth)
  have da: "distinct (tbuf_addrs (op_buf opr))" if "opr \<in> set ops" for opr
  proof -
    let ?D = "dev_bytes s P (op_row opr) (op_dev opr)"
    have e: "tbuf_addrs (op_buf opr) = map ((!) ?as) (map (nat \<circ> snd) ?D)" using f [OF that] by (simp add: op_for_def o_def)
    have pos: "0 \<le> p \<and> nat p < length ?as" if "(y, p) \<in> set ?D" for y p using that Pb by (auto simp: dev_bytes_mem)
    have "0 \<le> p" if "p \<in> set (map snd ?D)" for p using that pos by force
    then have "inj_on nat (set (map snd ?D))" by (intro inj_onI) (metis nat_0_le)
    then have "distinct (map nat (map snd ?D))" unfolding distinct_map [of nat] using dev_bytes_snd [OF rp(1)] by blast
    moreover have "inj_on ((!) ?as) (set (map (nat \<circ> snd) ?D))" using as(1) pos by (auto simp: inj_on_def nth_eq_iff_index_eq)
    ultimately show ?thesis unfolding e distinct_map [of "(!) ?as"] by simp
  qed
  have set: "set (env_order env ops) = set ops" "distinct (env_order env ops)" using any_order_set [OF ord, of ops] o by (auto simp: ops_for_def distinct_map)
  have "\<exists>m1. exec_ops env 0 (env_order env ops) (w, m) = Some (w, m1) \<and>
    (\<forall>opr \<in> set (env_order env ops). \<not> op_skip opr \<longrightarrow> (\<forall>(a, off) \<in> set (op_moves env opr). m1 (the a) = store w (op_cap opr) off)) \<and>
    (\<forall>a. (\<forall>opr \<in> set (env_order env ops). Some a \<notin> fst ` set (op_moves env opr)) \<longrightarrow> m1 a = m a)"
  proof (rule exec_reads [OF set(2)]; unfold set(1))
    show "\<forall>opr \<in> set ops. distinct (map fst (op_moves env opr)) \<and> None \<notin> fst ` set (op_moves env opr)"
      using op_moves_distinct [OF f da] op_moves_addrs [OF f] nn by blast
    show "\<forall>o1 \<in> set ops. \<forall>o2 \<in> set ops. o1 \<noteq> o2 \<longrightarrow> fst ` set (op_moves env o1) \<inter> fst ` set (op_moves env o2) = {}"
    proof (intro ballI impI)
      fix o1 o2 assume o12: "o1 \<in> set ops" "o2 \<in> set ops" "o1 \<noteq> o2"
      then have "op_addrs o1 \<inter> op_addrs o2 = {}" using apart [OF o12(1,2)] by blast
      then show "fst ` set (op_moves env o1) \<inter> fst ` set (op_moves env o2) = {}"
        using op_moves_addrs [OF f [OF o12(1)], of env] op_moves_addrs [OF f [OF o12(2)], of env] by blast
    qed
  qed
  then obtain m1 where m1: "exec_ops env 0 (env_order env ops) (w, m) = Some (w, m1)"
    "\<forall>opr \<in> set ops. (\<forall>(a, off) \<in> set (op_moves env opr). m1 (the a) = store w (op_cap opr) off)"
    "\<forall>a. (\<forall>opr \<in> set ops. Some a \<notin> fst ` set (op_moves env opr)) \<longrightarrow> m1 a = m a" unfolding set(1) using ns by blast
  have "(if \<exists>opr \<in> set ops. op_failed env opr \<and> Some (the (?as ! nat p)) \<in> op_addrs opr then 0 else m1 (the (?as ! nat p))) =
       (if fails_on env (byte_cap s x) then 0 else the (lun_view s w x))" if q: "(x, p) \<in> set P" for x p
  proof -
    obtain opr k where k: "opr \<in> set ops" "k < length (isl s)" "in_row (isl s ! k) x" "op_row opr = k" "op_dev opr = lun_dev_of s (x - seg_offset (isl s ! k))"
      "(x - seg_offset (isl s ! k), p) \<in> set (dev_bytes s P k (op_dev opr))" using op_of_byte [OF ok o q] rp(4) q by blast
    have "?as ! nat p \<noteq> None" using as(2) Pb q by (metis (no_types, lifting) case_prodD nth_mem)
    then have a: "Some (the (?as ! nat p)) = ?as ! nat p" by simp
    have mem: "?as ! nat p \<in> op_addrs opr" using op_addrs_mem [OF f [OF k(1)], of "?as ! nat p"] k(4,6) by force
    have cap: "op_cap opr = byte_cap s x" using f [OF k(1)] byte_cap_row [OF ok k(2,3)] k(4,5) by (simp add: op_for_def)
    have one: "o2 = opr" if "o2 \<in> set ops" "?as ! nat p \<in> op_addrs o2" for o2 using apart [OF k(1) that(1)] that(2) mem by blast
    have fl: "(\<exists>opr \<in> set ops. op_failed env opr \<and> ?as ! nat p \<in> op_addrs opr) \<longleftrightarrow> fails_on env (byte_cap s x)"
      using one mem k(1) ns cap unfolding op_failed_def fails_on_def by metis
    have "m1 (the (?as ! nat p)) = the (lun_view s w x)" if "\<not> fails_on env (byte_cap s x)"
    proof -
      have "(?as ! nat p, lun_pos s (x - seg_offset (isl s ! k))) \<in> set (op_moves env opr)"
        using k(4,6) that cap unfolding op_moves_for [OF f [OF k(1)]] by (force simp: fails_on_def)
      then have "m1 (the (?as ! nat p)) = store w (op_cap opr) (lun_pos s (x - seg_offset (isl s ! k)))" using m1(2) k(1) by blast
      then show ?thesis using lun_view_row [OF ok k(2,3)] byte_cap_row [OF ok k(2,3)] cap by (simp add: row_byte_def)
    qed
    then show ?thesis unfolding a fl by simp
  qed
  moreover have "(if \<exists>opr \<in> set ops. op_failed env opr \<and> Some a \<in> op_addrs opr then 0 else m1 a) = m a" if "Some a \<notin> (\<lambda>(x, p). ?as ! nat p) ` set P" for a
  proof -
    have n: "Some a \<notin> op_addrs opr" if "opr \<in> set ops" for opr using sub [OF that] \<open>Some a \<notin> _\<close> by blast
    then have "m1 a = m a" using m1(3) op_moves_addrs [OF f] by blast
    then show ?thesis using n by auto
  qed
  ultimately show ?thesis using m1(1) by blast
qed

text \<open>
  C34: a read of any list of non-empty pieces inside of a well formed striped segment whose blocks start at offset zero of
  their allocations and whose rows have at most 100 devices together, without the blacklist, into a buffer that is large
  enough and has no address twice and no \<^verbatim>\<open>NULL\<close>.  It returns, in whatever order the operations on the devices are
  executed: every byte asked for whose allocation could be read is in its place in the buffer, those of the others are
  zero, and the rest of the memory is as before.  The read succeeds when no operation failed; else the error code is the
  largest number of devices that failed in one row.  The segment keeps its layout and its bytes.
\<close>

theorem seglun_read_correct:
  assumes "lun_ok s w" "request_ok s exs tb boff" "any_order env" "P = req_pairs exs boff"
  shows "\<exists>s' m'. seglun_rw_op env s bl None exs tb boff 0 w m = Some (lun_status s env P, s', bl, w, m') \<and> lun_ok s' w \<and> lun_view s' w = lun_view s w \<and>
    (\<forall>(x, p) \<in> set P. m' (the (tbuf_addrs tb ! nat p)) = (if fails_on env (byte_cap s x) then 0 else the (lun_view s w x))) \<and>
    (\<forall>a. Some a \<notin> (\<lambda>(x, p). tbuf_addrs tb ! nat p) ` set P \<longrightarrow> m' a = m a)"
proof -
  obtain st ops where st: "rw_iovs s tb exs (rw_start s boff) = Some st" "slot_ops env 0 (n_devices s) (rw_rows st) (rwb_table st) (rw_bused st) None = Some (ops, None)"
    "ops_for s (tbuf_addrs tb) P ops" "ops \<noteq> []" "collected s (tbuf_addrs tb) P st" "clear_index (rw_bused st) (rw_rows st) = isl s" "\<forall>opr \<in> set ops. \<not> op_skip opr"
    using rw_prepared [OF assms(1,2,4), of env 0 None] by blast
  obtain m1 where m1: "exec_ops env 0 (env_order env ops) (w, m) = Some (w, m1)"
    "\<forall>(x, p) \<in> set P. (if \<exists>opr \<in> set ops. op_failed env opr \<and> Some (the (tbuf_addrs tb ! nat p)) \<in> op_addrs opr then 0 else m1 (the (tbuf_addrs tb ! nat p))) =
       (if fails_on env (byte_cap s x) then 0 else the (lun_view s w x))"
    "\<forall>a. Some a \<notin> (\<lambda>(x, p). tbuf_addrs tb ! nat p) ` set P \<longrightarrow> (if \<exists>opr \<in> set ops. op_failed env opr \<and> Some a \<in> op_addrs opr then 0 else m1 a) = m a"
    using lun_read_bytes [OF assms st(3,7), of m] by blast
  have fo: "\<forall>opr \<in> set ops. op_for s (tbuf_addrs tb) P opr" using st(3) by (simp add: ops_for_def)
  define m' where "m' = (\<lambda>a. if \<exists>opr \<in> set ops. op_failed env opr \<and> Some a \<in> op_addrs opr then 0 else m1 a)"
  obtain bs where bs: "finish_ops env 0 ops (isl s, m1) = Some (bs, m')" "map forget bs = map forget (isl s)"
    using finish_ops_result [OF fo, of env 0 "isl s" m1] unfolding m'_def by auto
  have "max_errors env ops (rw_bused st) = lun_errors s (fails_on env) P"
    by (rule max_errors_result [OF st(3,5)]) (use st(7) in \<open>auto simp: op_failed_def fails_on_def\<close>)
  then have "seglun_rw_op env s bl None exs tb boff 0 w m = Some (lun_status s env P, s\<lparr>isl := bs\<rparr>, bl, w, m')"
    using st(1,2,4) m1(1) bs(1) by (simp add: seglun_rw_op_def st(6) lun_status_def Let_def)
  then show ?thesis using alike [OF assms(1) bs(2)] m1(2,3) unfolding m'_def by blast
qed

lemma op_moves_last:
  assumes f: "op_for s as P opr" and k: "in_row (isl s ! op_row opr) x" "op_dev opr = lun_dev_of s (x - seg_offset (isl s ! op_row opr))"
    and sz: "lun_sizes s" and pos: "seg_offset (isl s ! op_row opr) \<le> x" and res: "env_result env (op_cap opr) = None"
  shows "map_of (rev (map (\<lambda>q. (snd q, fst q)) (op_moves env opr))) (lun_pos s (x - seg_offset (isl s ! op_row opr))) =
    map_option (\<lambda>p. as ! nat p) (map_of (rev P) x)"
proof -
  let ?D = "dev_bytes s P (op_row opr) (op_dev opr)" and ?y = "x - seg_offset (isl s ! op_row opr)"
  have inj: "\<forall>q \<in> set ?D. lun_pos s (fst q) = lun_pos s ?y \<longrightarrow> fst q = ?y"
  proof (intro ballI impI)
    fix q assume q: "q \<in> set ?D" "lun_pos s (fst q) = lun_pos s ?y"
    obtain a p where a: "q = (a, p)" by (cases q)
    have "lun_dev_of s (fst q) = lun_dev_of s ?y" "0 \<le> fst q" using q(1) k(2) [symmetric] unfolding a dev_bytes_mem in_row_def fst_conv by simp_all
    then show "fst q = ?y" using lun_inj [OF sz q(2)] pos by simp
  qed
  have e: "map (\<lambda>q. (snd q, fst q)) (op_moves env opr) = map (\<lambda>q. (lun_pos s (fst q), as ! nat (snd q))) ?D"
    unfolding op_moves_for [OF f] res by simp
  show ?thesis unfolding e dev_bytes_last [OF k(1) k(2) [symmetric], of P, symmetric] by (rule map_of_inj [OF inj, of "\<lambda>p. as ! nat p"])
qed

lemma op_moves_none:
  assumes f: "op_for s as P opr" and k: "op_dev opr = lun_dev_of s (x - seg_offset (isl s ! op_row opr))"
    and sz: "lun_sizes s" and pos: "seg_offset (isl s ! op_row opr) \<le> x" and n: "x \<notin> fst ` set P"
  shows "map_of (rev (map (\<lambda>q. (snd q, fst q)) (op_moves env opr))) (lun_pos s (x - seg_offset (isl s ! op_row opr))) = None"
proof -
  let ?D = "dev_bytes s P (op_row opr) (op_dev opr)" and ?y = "x - seg_offset (isl s ! op_row opr)"
  have "snd q \<noteq> lun_pos s ?y" if q: "q \<in> set (op_moves env opr)" for q
  proof
    assume e: "snd q = lun_pos s ?y"
    obtain d where d: "d \<in> set ?D" "snd q = lun_pos s (fst d)"
      using q unfolding op_moves_for [OF f] by (auto simp: Let_def split: option.splits dest!: in_set_takeD)
    obtain a p where a: "d = (a, p)" by (cases d)
    have "lun_dev_of s (fst d) = lun_dev_of s ?y" "0 \<le> fst d" "(fst d + seg_offset (isl s ! op_row opr), p) \<in> set P"
      using d(1) k [symmetric] unfolding a dev_bytes_mem in_row_def fst_conv by simp_all
    moreover from this have "fst d = ?y" using lun_inj [OF sz, of "fst d" ?y] pos e d(2) by simp
    ultimately show False using n by force
  qed
  then have "lun_pos s ?y \<notin> snd ` set (op_moves env opr)" by (metis imageE)
  then show ?thesis by (simp add: map_of_eq_None_iff image_image)
qed

lemma lun_write_bytes:
  assumes ok: "lun_ok s w" and r: "request_ok s exs tb boff" and ord: "any_order env" and P: "P = req_pairs exs boff"
    and o: "ops_for s (tbuf_addrs tb) P ops" and ns: "\<forall>opr \<in> set ops. \<not> op_skip opr" and rw: "rw_mode \<noteq> 0"
  shows "\<exists>w'. exec_ops env rw_mode (env_order env ops) (w, m) = Some (w', m) \<and> next_cap w' = next_cap w \<and>
    (\<forall>x. \<not> fails_on env (byte_cap s x) \<or> x \<notin> fst ` set P \<longrightarrow>
       lun_view s w' x = (case map_of (rev P) x of None \<Rightarrow> lun_view s w x | Some p \<Rightarrow> Some (m (the (tbuf_addrs tb ! nat p))))) \<and>
    (\<forall>c. Some c \<notin> set (lun_caps (isl s)) \<longrightarrow> store w' c = store w c)"
proof -
  let ?as = "tbuf_addrs tb"
  note rp = request_pairs [OF r P]
  have as: "None \<notin> set ?as" using r by (simp add: request_ok_def)
  have sz: "lun_sizes s" using ok by (simp add: lun_ok_def)
  have mn: "map_of (rev P) x = None" if "x \<notin> fst ` set P" for x using that by (simp add: map_of_eq_None_iff)
  have f: "op_for s ?as P opr" if "opr \<in> set ops" for opr using o that by (simp add: ops_for_def)
  have nn: "None \<notin> fst ` set (op_moves env opr)" if opr: "opr \<in> set ops" for opr
  proof -
    have "a \<noteq> None" if a: "a \<in> op_addrs opr" for a
    proof -
      obtain y p where q: "(y, p) \<in> set (dev_bytes s P (op_row opr) (op_dev opr))" "a = ?as ! nat p" using op_addrs_mem [OF f [OF opr], of a] a by auto
      then have "nat p < length ?as" using rp(4) by (auto simp: dev_bytes_mem)
      then show ?thesis using as q(2) by (metis nth_mem)
    qed
    then show ?thesis using op_moves_addrs [OF f [OF opr], of env] by blast
  qed
  have set: "set (env_order env ops) = set ops" "distinct (env_order env ops)" using any_order_set [OF ord, of ops] o by (auto simp: ops_for_def distinct_map)
  have inj: "inj_on op_cap (set ops)" by (rule ops_caps_inj [OF ok o])
  obtain w' where w': "exec_ops env rw_mode (env_order env ops) (w, m) = Some (w', m)" "next_cap w' = next_cap w" "\<forall>c. c \<notin> op_cap ` set ops \<longrightarrow> store w' c = store w c"
    "\<forall>opr \<in> set ops. store w' (op_cap opr) = the (ds_put (op_moves env opr) m (store w (op_cap opr)))"
    using exec_writes [OF set(2), of env rw_mode w m] nn inj rw ns unfolding set(1) by auto
  have put: "store w' (op_cap opr) z = (case map_of (rev (map (\<lambda>q. (snd q, fst q)) (op_moves env opr))) z of None \<Rightarrow> store w (op_cap opr) z | Some a \<Rightarrow> m (the a))"
    if "opr \<in> set ops" for opr z using ds_put_result [OF nn [OF that], of m "store w (op_cap opr)"] w'(4) that by auto
  have caps: "op_cap opr = lun_cap (isl s ! op_row opr) (op_dev opr)" "op_row opr < length (isl s)" "op_dev opr < n_devices s" if "opr \<in> set ops" for opr
    using f [OF that] by (simp_all add: op_for_def)
  have capm: "Some (lun_cap (isl s ! k) j) \<in> set (lun_caps (isl s))" if "k < length (isl s)" "j < n_devices s" for k j
  proof -
    have "Some (lun_cap (isl s ! k) j) \<in> set (map data (block (isl s ! k)))" using row_blocks [OF ok that(1)] that(2) by (metis length_map nth_map nth_mem)
    then show ?thesis using nth_mem [OF that(1)] by (auto simp: lun_caps_def)
  qed
  have "lun_view s w' x = (case map_of (rev P) x of None \<Rightarrow> lun_view s w x | Some p \<Rightarrow> Some (m (the (?as ! nat p))))"
    if x: "\<not> fails_on env (byte_cap s x) \<or> x \<notin> fst ` set P" for x
  proof (cases "\<exists>k < length (isl s). in_row (isl s ! k) x")
    case False
    then have "find (\<lambda>b. in_row b x) (isl s) = None" by (auto simp: find_None_iff in_set_conv_nth)
    moreover have "x \<notin> fst ` set P" using rp(4) rows_cover [of 0 "isl s" "total_size s" x] ok False by (auto simp: lun_ok_def)
    ultimately show ?thesis using mn [of x] by (simp add: lun_view_def)
  next
    case True
    then obtain k where k: "k < length (isl s)" "in_row (isl s ! k) x" by blast
    let ?j = "lun_dev_of s (x - seg_offset (isl s ! k))"
    have j: "?j < n_devices s" using lun_dev_less [OF sz] .
    have pos: "seg_offset (isl s ! k) \<le> x" using k(2) by (simp add: in_row_def)
    have v: "lun_view s w1 x = Some (store w1 (lun_cap (isl s ! k) ?j) (lun_pos s (x - seg_offset (isl s ! k))))" for w1
      using lun_view_row [of s "w\<lparr>store := store w1\<rparr>", OF _ k] ok by (simp add: lun_ok_def row_byte_def lun_view_def)
    show ?thesis
    proof (cases "\<exists>opr \<in> set ops. op_row opr = k \<and> op_dev opr = ?j")
      case True
      then obtain opr where opr: "opr \<in> set ops" "op_row opr = k" "op_dev opr = ?j" by blast
      have c: "op_cap opr = lun_cap (isl s ! k) ?j" using caps(1) [OF opr(1)] opr by simp
      have "map_of (rev (map (\<lambda>q. (snd q, fst q)) (op_moves env opr))) (lun_pos s (x - seg_offset (isl s ! k))) = map_option (\<lambda>p. ?as ! nat p) (map_of (rev P) x)"
      proof (cases "fails_on env (byte_cap s x)")
        case True
        then have n: "x \<notin> fst ` set P" using x by blast
        then show ?thesis using mn [OF n] op_moves_none [OF f [OF opr(1)] _ sz _ n, of env] opr(2,3) pos by simp
      next
        case False
        then have "env_result env (op_cap opr) = None" using byte_cap_row [OF ok k] c by (simp add: fails_on_def)
        then show ?thesis using op_moves_last [OF f [OF opr(1)] _ _ sz, of x env] opr(2,3) pos k(2) by simp
      qed
      then show ?thesis using put [OF opr(1), of "lun_pos s (x - seg_offset (isl s ! k))"] c by (simp add: v split: option.split)
    next
      case False
      have none: "x \<notin> fst ` set P"
      proof
        assume "x \<in> fst ` set P"
        then obtain p where "(x, p) \<in> set P" by auto
        then have "(x - seg_offset (isl s ! k), p) \<in> set (dev_bytes s P k ?j)" using k(2) by (simp add: dev_bytes_mem)
        then show False using o k(1) j False unfolding ops_for_def by (metis empty_iff empty_set)
      qed
      have "lun_cap (isl s ! k) ?j \<notin> op_cap ` set ops"
      proof
        assume "lun_cap (isl s ! k) ?j \<in> op_cap ` set ops"
        then obtain opr where opr: "opr \<in> set ops" "op_cap opr = lun_cap (isl s ! k) ?j" by auto
        have "op_row opr = k \<and> op_dev opr = ?j" by (rule lun_cap_inj [OF ok]) (use caps [OF opr(1)] opr(2) k(1) j in auto)
        then show False using False opr(1) by blast
      qed
      then have "store w' (lun_cap (isl s ! k) ?j) = store w (lun_cap (isl s ! k) ?j)" using w'(3) by blast
      then show ?thesis using mn [OF none] by (simp add: v)
    qed
  qed
  moreover have "store w' c = store w c" if "Some c \<notin> set (lun_caps (isl s))" for c
    using w'(3) capm caps that by (metis (no_types, lifting) imageE)
  ultimately show ?thesis using w'(1,2) by blast
qed

text \<open>
  C32: a write, under the conditions of the read above, changes the bytes asked for and no others: with the operations on
  the devices in any order, a byte whose allocation could be written has the value that the last piece with that byte has
  in the buffer; all bytes that are not asked for, and all allocations that do not belong to the segment, are as before.
  The write succeeds when no operation failed; else the error code is the largest number of devices that failed in one row.
\<close>

theorem seglun_write_correct:
  assumes "lun_ok s w" "request_ok s exs tb boff" "any_order env" "P = req_pairs exs boff"
  shows "\<exists>s' w'. seglun_rw_op env s bl None exs tb boff 1 w m = Some (lun_status s env P, s', bl, w', m) \<and> lun_ok s' w' \<and>
    (\<forall>x. \<not> fails_on env (byte_cap s x) \<or> x \<notin> fst ` set P \<longrightarrow>
       lun_view s' w' x = (case map_of (rev P) x of None \<Rightarrow> lun_view s w x | Some p \<Rightarrow> Some (m (the (tbuf_addrs tb ! nat p))))) \<and>
    (\<forall>c. Some c \<notin> set (lun_caps (isl s)) \<longrightarrow> store w' c = store w c)"
proof -
  obtain st ops where st: "rw_iovs s tb exs (rw_start s boff) = Some st" "slot_ops env 0 (n_devices s) (rw_rows st) (rwb_table st) (rw_bused st) None = Some (ops, None)"
    "ops_for s (tbuf_addrs tb) P ops" "ops \<noteq> []" "collected s (tbuf_addrs tb) P st" "clear_index (rw_bused st) (rw_rows st) = isl s" "\<forall>opr \<in> set ops. \<not> op_skip opr"
    using rw_prepared [OF assms(1,2,4), of env 0 None] by blast
  obtain w' where w': "exec_ops env 1 (env_order env ops) (w, m) = Some (w', m)" "next_cap w' = next_cap w"
    "\<forall>x. \<not> fails_on env (byte_cap s x) \<or> x \<notin> fst ` set P \<longrightarrow>
       lun_view s w' x = (case map_of (rev P) x of None \<Rightarrow> lun_view s w x | Some p \<Rightarrow> Some (m (the (tbuf_addrs tb ! nat p))))"
    "\<forall>c. Some c \<notin> set (lun_caps (isl s)) \<longrightarrow> store w' c = store w c"
    using lun_write_bytes [OF assms st(3,7), of 1 m] by auto
  have fo: "\<forall>opr \<in> set ops. op_for s (tbuf_addrs tb) P opr" using st(3) by (simp add: ops_for_def)
  obtain bs where bs: "finish_ops env 1 ops (isl s, m) = Some (bs, m)" "map forget bs = map forget (isl s)"
    using finish_ops_result [OF fo, of env 1 "isl s" m] by auto
  have "max_errors env ops (rw_bused st) = lun_errors s (fails_on env) P"
    by (rule max_errors_result [OF st(3,5)]) (use st(7) in \<open>auto simp: op_failed_def fails_on_def\<close>)
  then have e: "seglun_rw_op env s bl None exs tb boff 1 w m = Some (lun_status s env P, s\<lparr>isl := bs\<rparr>, bl, w', m)"
    using st(1,2,4) w'(1) bs(1) by (simp add: seglun_rw_op_def st(6) lun_status_def Let_def)
  have "lun_ok s w'" using assms(1) w'(2) by (simp add: lun_ok_def)
  then show ?thesis using alike [of s w' bs] bs(2) w'(3,4) e by auto
qed

section \<open>A small segment\<close>

definition demo_row :: "nat \<Rightarrow> int \<Rightarrow> seglun_row_t" where
  "demo_row c off =
     \<lparr>block = map (\<lambda>i. \<lparr>data = Some (c + i), d_size = 4, d_max_size = 4, rid_key = [], cap_offset = 0, read_err_count = 0, write_err_count = 0\<rparr>) [0, 1],
      seg_offset = off, seg_end = off + 7, block_len = 4, row_len = 8, rwop_index = -1\<rparr>"

definition demo_lun :: lio_seglun_priv_t where
  "demo_lun = \<lparr>used_size = 16, total_size = 16, max_block_size = 4, excess_block_size = 0, max_row_size = 8, chunk_size = 2, stripe_size = 4, grow_count = 0,
     n_devices = 2, n_shift = 1, hard_errors = 0, grow_break = 0, isl = [demo_row 0 0, demo_row 2 8]\<rparr>"

definition demo_lun_store :: ds_state where
  "demo_lun_store = \<lparr>store = (\<lambda>c off. word_of_int (10 * int c + off)), next_cap = 4\<rparr>"

definition demo_buffer :: tbx_tbuf_t where
  "demo_buffer = tbx_tbuf_single 6 (Some 100)"

text \<open>The operation on allocation 1 fails after one byte.\<close>

definition demo_env :: lun_env where
  "demo_env = \<lparr>env_result = (\<lambda>c. if c = 1 then Some 1 else None), env_order = rev, env_now = (\<lambda>c. 0), env_time = (\<lambda>c. 0), env_noticed = (\<lambda>c. 0)\<rparr>"

lemma demo_lun_ok: "lun_ok demo_lun demo_lun_store"
  by code_simp

lemma demo_request_ok: "request_ok demo_lun [(5, 5)] demo_buffer 1"
  by (simp add: request_ok_def demo_lun_def demo_buffer_def tbuf_single_wf distinct_map)

lemma demo_order: "any_order demo_env"
  by (simp add: any_order_def demo_env_def)

theorem seglun_read_correct_witness:
  "\<exists>s' m'. seglun_rw_op demo_env demo_lun None None [(5, 5)] demo_buffer 1 0 demo_lun_store (\<lambda>_. 99) = Some ((OP_STATE_FAILURE, 1), s', None, demo_lun_store, m') \<and>
    lun_ok s' demo_lun_store \<and> map m' [100, 101, 102, 103, 104, 105, 106] = [99, 0, 2, 3, 20, 21, 99]"
proof -
  define P :: "(int \<times> int) list" where "P = [(5, 1), (6, 2), (7, 3), (8, 4), (9, 5)]"
  have P: "P = req_pairs [(5, 5)] 1" by (simp add: P_def row_pairs_def upto.simps)
  have st: "lun_status demo_lun demo_env P = (OP_STATE_FAILURE, 1)" unfolding P_def by code_simp
  obtain s' m' where r: "seglun_rw_op demo_env demo_lun None None [(5, 5)] demo_buffer 1 0 demo_lun_store (\<lambda>_. 99) = Some ((OP_STATE_FAILURE, 1), s', None, demo_lun_store, m')"
    "lun_ok s' demo_lun_store"
    "\<forall>(x, p) \<in> set P. m' (the (tbuf_addrs demo_buffer ! nat p)) = (if fails_on demo_env (byte_cap demo_lun x) then 0 else the (lun_view demo_lun demo_lun_store x))"
    "\<forall>a. Some a \<notin> (\<lambda>(x, p). tbuf_addrs demo_buffer ! nat p) ` set P \<longrightarrow> m' a = 99"
    using seglun_read_correct [OF demo_lun_ok demo_request_ok demo_order P, of None "\<lambda>_. 99"] unfolding st by blast
  have v: "map (\<lambda>x. if fails_on demo_env (byte_cap demo_lun x) then 0 else the (lun_view demo_lun demo_lun_store x)) [5, 6, 7, 8, 9] = [0, 2, 3, 20, 21]" by code_simp
  have a: "map ((!) (tbuf_addrs demo_buffer)) [1, 2, 3, 4, 5] = map Some [101, 102, 103, 104, 105]" by (simp add: demo_buffer_def)
  have "m' 100 = 99" "m' 106 = 99" using r(4) a by (simp_all add: P_def)
  then show ?thesis using r(1-3) v a by (auto simp: P_def)
qed

lemma demo_request2_ok: "request_ok demo_lun [(2, 2), (3, 2)] demo_buffer 0"
  by (simp add: request_ok_def demo_lun_def demo_buffer_def tbuf_single_wf distinct_map)

theorem seglun_write_correct_witness:
  "\<exists>s' w'. seglun_rw_op (demo_env\<lparr>env_result := (\<lambda>c. None)\<rparr>) demo_lun None None [(2, 2), (3, 2)] demo_buffer 0 1 demo_lun_store (\<lambda>a. word_of_nat a) =
      Some ((OP_STATE_SUCCESS, 0), s', None, w', \<lambda>a. word_of_nat a) \<and> lun_ok s' w' \<and>
    map (lun_view s' w') [1, 2, 3, 4, 5] = map Some [1, 100, 102, 103, 13]"
proof -
  let ?env = "demo_env\<lparr>env_result := (\<lambda>c. None)\<rparr>"
  define P :: "(int \<times> int) list" where "P = [(2, 0), (3, 1), (3, 2), (4, 3)]"
  have P: "P = req_pairs [(2, 2), (3, 2)] 0" by (simp add: P_def row_pairs_def upto.simps)
  have st: "lun_status demo_lun ?env P = (OP_STATE_SUCCESS, 0)" unfolding P_def by code_simp
  have ord: "any_order ?env" by (simp add: any_order_def demo_env_def)
  have nf: "\<not> fails_on ?env c" for c by (simp add: fails_on_def)
  obtain s' w' where r: "seglun_rw_op ?env demo_lun None None [(2, 2), (3, 2)] demo_buffer 0 1 demo_lun_store (\<lambda>a. word_of_nat a) =
      Some ((OP_STATE_SUCCESS, 0), s', None, w', \<lambda>a. word_of_nat a)" "lun_ok s' w'"
    "\<forall>x. lun_view s' w' x = (case map_of (rev P) x of None \<Rightarrow> lun_view demo_lun demo_lun_store x | Some p \<Rightarrow> Some (word_of_nat (the (tbuf_addrs demo_buffer ! nat p))))"
    using seglun_write_correct [OF demo_lun_ok demo_request2_ok ord P, of None "\<lambda>a. word_of_nat a"] unfolding st using nf by auto
  have v: "map (\<lambda>x. case map_of (rev P) x of None \<Rightarrow> lun_view demo_lun demo_lun_store x | Some p \<Rightarrow> Some (word_of_nat (the (tbuf_addrs demo_buffer ! nat p)))) [1, 2, 3, 4, 5] =
      map Some [1, 100, 102, 103, 13]" unfolding P_def by code_simp
  show ?thesis using r v by auto
qed

section \<open>The table on the stack\<close>

lemma stripe_devs_length: "stripe_devs s tb lo hi bpos ss i tbv ds = Some (tbv', ds') \<Longrightarrow> length ds' = length ds"
  by (induction s tb lo hi bpos ss i tbv ds arbitrary: tbv' ds' rule: stripe_devs.induct) (auto simp: bind_Some_iff)

lemma stripe_loop_length:
  assumes "stripe_loop s tb lo hi bpos ss tbv ds = Some ds'"
  shows "length ds' = length ds"
  using assms by (rule stripe_loop.raw_induct [rotated]) (fastforce simp: bind_Some_iff split: if_splits dest: stripe_devs_length)

lemma lun_row_decompose_length: "lun_row_decompose s rw start tb bpos n = Some rw' \<Longrightarrow> length rw' = length rw"
  using stripe_loop_length by (fastforce simp: lun_row_decompose_def Let_def bind_Some_iff split: if_splits)

definition stack_table :: "lio_seglun_priv_t \<Rightarrow> nat \<Rightarrow> lun_rw_t \<Rightarrow> bool" where
  "stack_table s i st \<longleftrightarrow> length (rw_bused st) = i \<and> length (rwb_table st) = 100 \<and> rw_isl_size st = 100 \<and> i * n_devices s \<le> 100 \<and>
     length (rw_rows st) = length (isl s) \<and> (\<forall>k. i \<le> k \<and> k < length (isl s) \<longrightarrow> rwop_index (rw_rows st ! k) < 0)"

lemma rw_row_stack:
  assumes q: "stack_table s i st" and i: "i < length (isl s)" "Suc i < 100" and r: "rw_row s tb lo hi i st = Some st'"
  shows "stack_table s (Suc i) st'"
proof -
  have neg: "rwop_index (rw_rows st ! i) < 0" using q i(1) by (simp add: stack_table_def)
  obtain st1 rw start bpos n x where st1: "rw_new_slot s i st = Some st1"
    "lun_row_decompose s (take (n_devices s) (drop (nat (rwop_index (rw_rows st1 ! i)) * n_devices s) (rwb_table st1))) start tb bpos n = Some rw"
    "st' = st1\<lparr>rwb_table := table_put (nat (rwop_index (rw_rows st1 ! i)) * n_devices s) rw (rwb_table st1), rw_bpos := x\<rparr>"
    using r unfolding rw_row_def Let_def if_P [OF neg] bind_Some_iff option.inject by blast
  have room: "i * n_devices s + n_devices s \<le> 100" and e: "st1 = st\<lparr>rw_rows := (rw_rows st)[i := (rw_rows st ! i)\<lparr>rwop_index := int i\<rparr>], rw_bused := rw_bused st @ [i],
      rwb_table := table_put (i * n_devices s) (replicate (n_devices s) rw_empty) (rwb_table st), rw_isl_size := 100\<rparr>"
    using st1(1) q i unfolding rw_new_slot_def Let_def by (auto simp: stack_table_def split: if_splits)
  have ix: "rwop_index (rw_rows st1 ! i) = int i" "length (rwb_table st1) = 100" using e q i room by (simp_all add: stack_table_def)
  have "length rw = n_devices s" using lun_row_decompose_length [OF st1(2)] room ix by simp
  then show ?thesis using st1(3) q room ix unfolding e by (auto simp: stack_table_def nth_list_update)
qed

lemma rw_rows_overflow:
  assumes N: "length (isl s) < 100" "100 < length (isl s) * n_devices s"
  shows "stack_table s i st \<Longrightarrow> i \<le> length (isl s) \<Longrightarrow> rw_rows_loop s tb lo hi [i..<length (isl s)] st = None"
proof (induction "length (isl s) - i" arbitrary: i st)
  case 0
  then show ?case using N by (auto simp: stack_table_def)
next
  case (Suc d)
  then have i: "i < length (isl s)" "Suc i < 100" using N by simp_all
  then have l: "[i..<length (isl s)] = i # [Suc i..<length (isl s)]" by (simp add: upt_conv_Cons)
  show ?case
  proof (cases "rw_row s tb lo hi i st")
    case (Some st')
    then show ?thesis using Suc.hyps rw_row_stack [OF Suc.prems(1) i Some] i unfolding l by simp
  qed (simp add: l)
qed

text \<open>
  C35: the table of the operations is on the stack and has room for 100 of them.  The code makes room for more only when
  the request covers 100 rows, but the table has an entry for each row and each device: a request that covers the whole segment writes behind the end of the table as soon as the
  rows have more than 100 devices together.
\<close>

theorem seglun_rw_overflow:
  assumes "lun_ok s w" "length (isl s) < 100" "100 < length (isl s) * n_devices s"
  shows "seglun_rw_op env s bl rw_hints [(0, total_size s)] tb boff rw_mode w m = None"
proof -
  have sz: "lun_sizes s" and t: "rows_tiled 0 (isl s) (total_size s)" and rk: "\<forall>b \<in> set (isl s). row_ok s b" using assms(1) by (simp_all add: lun_ok_def)
  have "seg_offset (isl s ! k) \<le> total_size s - 1 \<and> 0 \<le> seg_end (isl s ! k)" if "k < length (isl s)" for k
    using rows_tiled_member [OF sz rk t nth_mem [OF that]] row_ok_end [OF sz, of "isl s ! k"] rk that by force
  then have "rows_search 0 (total_size s - 1) (rw_rows (rw_start s boff)) = [0..<length (isl s)]" by (simp add: rows_search_def rw_start_def)
  moreover have "stack_table s 0 (rw_start s boff)" using rk by (auto simp: stack_table_def rw_start_def row_ok_def)
  ultimately have "rw_iovs s tb [(0, total_size s)] (rw_start s boff) = None" using rw_rows_overflow [OF assms(2,3), of 0] by simp
  then show ?thesis by (simp add: seglun_rw_op_def)
qed

text \<open>A segment of one row of 101 devices.\<close>

definition wide_row :: seglun_row_t where
  "wide_row =
     \<lparr>block = map (\<lambda>i. \<lparr>data = Some i, d_size = 1, d_max_size = 1, rid_key = [], cap_offset = 0, read_err_count = 0, write_err_count = 0\<rparr>) [0..<101],
      seg_offset = 0, seg_end = 100, block_len = 1, row_len = 101, rwop_index = -1\<rparr>"

definition wide_lun :: lio_seglun_priv_t where
  "wide_lun = \<lparr>used_size = 101, total_size = 101, max_block_size = 1, excess_block_size = 0, max_row_size = 101, chunk_size = 1, stripe_size = 101, grow_count = 0,
     n_devices = 101, n_shift = 0, hard_errors = 0, grow_break = 0, isl = [wide_row]\<rparr>"

lemma wide_lun_ok: "lun_ok wide_lun \<lparr>store = (\<lambda>c off. 0), next_cap = 101\<rparr>"
proof -
  have "lun_caps [wide_row] = map Some [0..<101]" by (simp add: lun_caps_def wide_row_def del: upt_rec_numeral)
  then have "distinct (lun_caps [wide_row])" "set (lun_caps [wide_row]) \<subseteq> Some ` {..<101}" by (auto simp: distinct_map simp del: upt_rec_numeral)
  then show ?thesis by (simp add: lun_ok_def wide_lun_def lun_sizes_def row_ok_def) (simp add: wide_row_def del: upt_rec_numeral)
qed

theorem seglun_rw_overflow_witness:
  "seglun_rw_op demo_env wide_lun None None [(0, 101)] demo_buffer 0 0 \<lparr>store = (\<lambda>c off. 0), next_cap = 101\<rparr> (\<lambda>_. 0) = None"
  using seglun_rw_overflow [OF wide_lun_ok, of demo_env None None demo_buffer 0 0 "\<lambda>_. 0"] by (simp add: wide_lun_def)

section \<open>The blacklist\<close>

text \<open>A check only takes entries off the list.\<close>

definition bl_sub :: "lio_blacklist_t option \<Rightarrow> lio_blacklist_t option \<Rightarrow> bool" where
  "bl_sub bl' bl \<longleftrightarrow> (\<forall>l'. bl' = Some l' \<longrightarrow> (\<exists>l. bl = Some l \<and> bl_table l' \<subseteq>\<^sub>m bl_table l))"

definition bl_blocks :: "lio_blacklist_t option \<Rightarrow> lun_env \<Rightarrow> lun_op \<Rightarrow> bool" where
  "bl_blocks bl env opr \<longleftrightarrow> (\<exists>l r. bl = Some l \<and> bl_table l (op_rid opr) = Some r \<and> env_now env (op_cap opr) \<le> recheck_time r)"

lemma bl_sub_refl: "bl_sub bl bl"
  by (simp add: bl_sub_def)

lemma bl_sub_trans: "bl_sub a b \<Longrightarrow> bl_sub b c \<Longrightarrow> bl_sub a c"
  unfolding bl_sub_def by (metis map_le_trans)

lemma bl_blocks_sub: "bl_blocks bl' env opr \<Longrightarrow> bl_sub bl' bl \<Longrightarrow> bl_blocks bl env opr"
  unfolding bl_sub_def bl_blocks_def by (metis domI map_le_def)

lemma bl_skips_result:
  assumes "bl_skips mb now rid bl c = (skip, bl', c')"
  shows "bl_sub bl' bl" "skip \<Longrightarrow> c' = c + 1 \<and> c < mb \<and> (\<exists>l r. bl = Some l \<and> bl_table l rid = Some r \<and> now \<le> recheck_time r)" "\<not> skip \<Longrightarrow> c' = c"
  using assms by (auto simp: bl_skips_def bl_sub_def blacklist_check_def map_le_def split: option.splits if_splits)

lemma dev_ops_skips:
  "dev_ops env mb k i bs es bl c = Some (ops, bl') \<Longrightarrow> bl_sub bl' bl \<and> int (length (filter op_skip ops)) \<le> max 0 (mb - c) \<and>
    (\<forall>opr \<in> set ops. op_row opr = k \<and> (op_skip opr \<longrightarrow> bl_blocks bl env opr))"
proof (induction env mb k i bs es bl c arbitrary: ops bl' rule: dev_ops.induct)
  case (1 env mb k i b bs e es bl c)
  show ?case
  proof (cases "ex_iov e = []")
    case True
    then show ?thesis using 1 by simp
  next
    case False
    obtain cap where cap: "data b = Some cap" using 1(3) False by (cases "data b") auto
    obtain skip bl1 c1 where sk0: "bl_skips mb (env_now env cap) (rid_key b) bl c = (skip, bl1, c1)" by (metis prod.exhaust)
    obtain ops1 where r: "data b = Some cap" "bl_skips mb (env_now env cap) (rid_key b) bl c = (skip, bl1, c1)"
      "dev_ops env mb k (Suc i) bs es bl1 c1 = Some (ops1, bl')" "ops = form_op k i b cap e skip # ops1"
      using 1(3) False cap sk0 by (auto simp: bind_Some_iff)
    note sk = bl_skips_result [OF r(2)]
    have IH: "bl_sub bl' bl1" "int (length (filter op_skip ops1)) \<le> max 0 (mb - c1)" "\<forall>opr \<in> set ops1. op_row opr = k \<and> (op_skip opr \<longrightarrow> bl_blocks bl1 env opr)"
      using 1(2) [OF False r(1) r(2) [symmetric] refl refl r(3)] by simp_all
    have "int (length (filter op_skip ops)) \<le> max 0 (mb - c)" using IH(2) sk(2,3) by (cases skip) (auto simp: r(4) form_op_def)
    moreover have "bl_blocks bl env opr" if "opr \<in> set ops1" "op_skip opr" for opr using IH(3) bl_blocks_sub [OF _ sk(1)] that by blast
    moreover have "bl_blocks bl env (form_op k i b cap e skip)" if skip using sk(2) that by (auto simp: bl_blocks_def form_op_def)
    ultimately show ?thesis using bl_sub_trans [OF IH(1) sk(1)] IH(3) by (auto simp: r(4) form_op_def)
  qed
qed (auto simp: bl_sub_refl)

lemma slot_ops_skips:
  "slot_ops env mb n bs table ks bl = Some (ops, bl') \<Longrightarrow> distinct ks \<Longrightarrow> bl_sub bl' bl \<and>
    (\<forall>k. int (length (filter (\<lambda>opr. op_row opr = k \<and> op_skip opr) ops)) \<le> max 0 mb) \<and> (\<forall>opr \<in> set ops. op_row opr \<in> set ks \<and> (op_skip opr \<longrightarrow> bl_blocks bl env opr))"
proof (induction ks arbitrary: table bl ops)
  case (Cons k ks)
  obtain ops1 bl1 ops2 where r: "dev_ops env mb k 0 (block (bs ! k)) (take n table) bl 0 = Some (ops1, bl1)" "slot_ops env mb n bs (drop n table) ks bl1 = Some (ops2, bl')"
    "ops = ops1 @ ops2" using Cons.prems(1) by (auto simp: bind_Some_iff)
  have d: "bl_sub bl1 bl" "int (length (filter op_skip ops1)) \<le> max 0 mb" "\<forall>opr \<in> set ops1. op_row opr = k \<and> (op_skip opr \<longrightarrow> bl_blocks bl env opr)"
    using dev_ops_skips [OF r(1)] by simp_all
  have IH: "bl_sub bl' bl1" "\<forall>k. int (length (filter (\<lambda>opr. op_row opr = k \<and> op_skip opr) ops2)) \<le> max 0 mb"
    "\<forall>opr \<in> set ops2. op_row opr \<in> set ks \<and> (op_skip opr \<longrightarrow> bl_blocks bl1 env opr)" using Cons.IH [OF r(2)] Cons.prems(2) by simp_all
  have "int (length (filter (\<lambda>opr. op_row opr = k' \<and> op_skip opr) ops)) \<le> max 0 mb" for k'
  proof (cases "k' = k")
    case True
    then have "filter (\<lambda>opr. op_row opr = k' \<and> op_skip opr) ops2 = []" using IH(3) Cons.prems(2) by (auto simp: filter_empty_conv)
    moreover have "filter (\<lambda>opr. op_row opr = k' \<and> op_skip opr) ops1 = filter op_skip ops1" using d(3) True by (intro filter_cong) auto
    ultimately show ?thesis using d(2) by (simp add: r(3))
  next
    case False
    then have "filter (\<lambda>opr. op_row opr = k' \<and> op_skip opr) ops1 = []" using d(3) by (auto simp: filter_empty_conv)
    then show ?thesis using IH(2) by (simp add: r(3))
  qed
  then show ?case using bl_sub_trans [OF IH(1) d(1)] d(3) IH(3) bl_blocks_sub [OF _ d(1)] by (auto simp: r(3))
qed (simp add: bl_sub_refl)

text \<open>
  With the blacklist in use, at most \<^verbatim>\<open>lun_max_blacklist\<close> operations are skipped in every row, and only on resources that are on the
  list and whose time to be checked again has not come.
\<close>

lemma lun_blacklist_bounded:
  assumes "slot_ops env max_blacklist n bs table ks bl = Some (ops, bl')" "distinct ks" "0 < max_blacklist"
  shows "int (length (filter (\<lambda>opr. op_row opr = k \<and> op_skip opr) ops)) \<le> max_blacklist \<and> (\<forall>opr \<in> set ops. op_skip opr \<longrightarrow> bl_blocks bl env opr)"
  using slot_ops_skips [OF assms(1,2)] assms(3) by auto

lemma lun_blacklist_bounded_witness:
  "\<exists>ops bl'. slot_ops demo_env 1 2 (isl demo_lun) (replicate 2 \<lparr>ex_iov = [(0, 1)], rw_iov = [\<lparr>iov_base = Some 100, iov_len = 1\<rparr>], rw_len = 1\<rparr>) [0]
      (Some \<lparr>bl_table = [[] \<mapsto> \<lparr>rs_added = 0, recheck_time = 5\<rparr>], min_bandwidth = 1, min_io_time = 1, bl_timeout = 1\<rparr>) = Some (ops, bl') \<and> length ops = 2 \<and>
    int (length (filter (\<lambda>opr. op_row opr = 0 \<and> op_skip opr) ops)) \<le> 1"
proof -
  obtain ops bl' where r: "slot_ops demo_env 1 2 (isl demo_lun) (replicate 2 \<lparr>ex_iov = [(0, 1)], rw_iov = [\<lparr>iov_base = Some 100, iov_len = 1\<rparr>], rw_len = 1\<rparr>) [0]
      (Some \<lparr>bl_table = [[] \<mapsto> \<lparr>rs_added = 0, recheck_time = 5\<rparr>], min_bandwidth = 1, min_io_time = 1, bl_timeout = 1\<rparr>) = Some (ops, bl')" "length ops = 2"
    by (simp add: numeral_2_eq_2 demo_lun_def demo_row_def demo_env_def bl_skips_def blacklist_check_def)
  then show ?thesis using lun_blacklist_bounded [OF r(1), of 0] by auto
qed

end
