(* ===== verification/Spec2Isabelle.thy ===== *)
theory Spec2Isabelle
  imports Prelude Varint Tbx_Stack Range_Stack Que Pigeon Seg_Log Rs_Simple String_Token Rs_Query Range_String Seg_Linear Tbuf Segment Linear_Copy Opque Skiplist_Map Interval_Search Lun_Rw
begin

text \<open>
  A verification library for L-Store, a distributed storage system written in C.

  \<^bold>\<open>The program.\<close>  L-Store is layered.  The toolbox (\<^verbatim>\<open>src/src/toolbox\<close>) has the containers, the string and byte
  encodings and the locking primitives.  The generic operations library (\<^verbatim>\<open>src/src/gop\<close>) runs queues of tasks.  The
  IBP client and server (\<^verbatim>\<open>src/src/ibp\<close>, \<^verbatim>\<open>src/src/ibp-server\<close>) move bytes to and from allocations on depots.  The
  file layer (\<^verbatim>\<open>src/src/lio\<close>) builds files out of segments: a linear segment lays a file out over a row of allocations,
  a striped segment over several devices at once, a log segment records changes to a base segment, a resource service chooses the depots for new allocations by
  evaluating a query against the attributes of each resource.  Object, authentication and caching services and the
  command line and FUSE front ends stand on top.

  \<^bold>\<open>What is modelled.\<close>  Each theory models the sources it names in its first text block.

  \<^item> \<^verbatim>\<open>Prelude\<close>: the machine types, runs of operations, copies in blocks of memory, and the refinement interface
    \<open>data_refinement\<close>.
  \<^item> \<^verbatim>\<open>C_String\<close>: the parts of the C library that the string code uses (\<^verbatim>\<open>strncmp\<close>, printing and scanning of decimal
    numbers) and \<^verbatim>\<open>toolbox/append_printf.c\<close>.
  \<^item> \<^verbatim>\<open>Varint\<close>: \<^verbatim>\<open>toolbox/varint.c\<close>, on words of 8 and 64 bits.
  \<^item> \<^verbatim>\<open>Tbx_Stack\<close>: \<^verbatim>\<open>toolbox/stack.c\<close>, the doubly linked list with a cursor, on an explicit store of elements.  The
    sequence with a cursor \<open>cstack\<close> is its specification; \<open>data_refinement\<close> is interpreted on the pointer operations.
  \<^item> \<^verbatim>\<open>Range_Stack\<close> and \<^verbatim>\<open>Range_String\<close>: \<^verbatim>\<open>toolbox/range_stack.c\<close>, ordered lists of byte ranges, on the sequence with
    a cursor, and their text.
  \<^item> \<^verbatim>\<open>Que\<close>: \<^verbatim>\<open>toolbox/que.c\<close>, the bounded queue between threads, as a step relation on passes of the loops.
  \<^item> \<^verbatim>\<open>Pigeon\<close>: \<^verbatim>\<open>toolbox/pigeon_hole.c\<close> and \<^verbatim>\<open>toolbox/pigeon_coop.c\<close>, allocation of numbered slots.
  \<^item> \<^verbatim>\<open>Skiplist\<close> and \<^verbatim>\<open>Skiplist_Map\<close>: \<^verbatim>\<open>toolbox/skiplist.c\<close>, nodes with several levels of links on an explicit store; a
    sorted list of keys with their data is its specification.  The locale \<open>key_compare\<close> has the laws of a comparison; it is
    interpreted on the comparisons of the library.
  \<^item> \<^verbatim>\<open>Interval_Skiplist\<close> and \<^verbatim>\<open>Interval_Search\<close>: \<^verbatim>\<open>toolbox/interval_skiplist.c\<close>, on the skip list of the end points; a sorted
    list of disjoint intervals is its specification.
  \<^item> \<^verbatim>\<open>Tbuf\<close>: \<^verbatim>\<open>toolbox/transfer_buffer.c\<close>, buffers scattered over memory.  The locale \<open>block_source\<close> is what the copy and
    the fill need of the walk through a buffer; it is interpreted on the walk through a vector.
  \<^item> \<^verbatim>\<open>String_Token\<close>: \<^verbatim>\<open>toolbox/string_token.c\<close>.
  \<^item> \<^verbatim>\<open>Rs_Simple\<close> and \<^verbatim>\<open>Rs_Query\<close>: \<^verbatim>\<open>lio/rs/query_base.c\<close> and the request handler of \<^verbatim>\<open>lio/rs/simple.c\<close>.
  \<^item> \<^verbatim>\<open>Seg_Log\<close>: \<^verbatim>\<open>lio/segment/log.c\<close>.
  \<^item> \<^verbatim>\<open>Segment\<close>: \<^verbatim>\<open>lio/segment.c\<close>, copies between segments and between segments and files, with the file calls of
    \<^verbatim>\<open>toolbox/direct_io.c\<close>.  The locales \<open>seg_source\<close>, \<open>seg_dest\<close> and \<open>seg_pair\<close> are the laws of a segment that they need.
  \<^item> \<^verbatim>\<open>Seg_Linear\<close>: \<^verbatim>\<open>lio/segment/linear.c\<close>.
  \<^item> \<^verbatim>\<open>Data_Service\<close>: the allocations of the data service and what its reads and writes move.
  \<^item> \<^verbatim>\<open>Seg_Lun\<close> and \<^verbatim>\<open>Lun_Rw\<close>: \<^verbatim>\<open>lio/segment/lun.c\<close>, taking a request apart into one operation per device and executing
    them, with \<^verbatim>\<open>lio/blacklist.c\<close>.
  \<^item> \<^verbatim>\<open>Linear_Copy\<close>: the interpretation of these locales on the linear segment, and what the copies do with it.
  \<^item> \<^verbatim>\<open>Opque\<close>: \<^verbatim>\<open>gop/opque.c\<close>, \<^verbatim>\<open>gop/gop.c\<close> and \<^verbatim>\<open>gop/callback.c\<close>, operations and nested queues of them, with a step
    relation on the calls that threads make.

  \<^bold>\<open>How the state corresponds.\<close>  A struct is a record with the fields of the source; pointers are addresses in an
  explicit store where the code links or frees objects (the stack and its clients, the skip lists) and are left out where they only
  pass data along.  In the segments the interval skip list is the list of its disjoint intervals in order, which is the
  contract that \<^verbatim>\<open>Interval_Search\<close> shows of it.
  Integers that cannot wrap in the code's own terms are \<open>int\<close> or \<open>nat\<close>; where a signed overflow is undefined, the
  model returns \<open>None\<close>.  \<open>None\<close> as the result of an operation always stands for undefined behaviour or an abort; a NULL
  result is a value.  What other services answer (the data service, the resource service, the clock, random numbers)
  is an argument of the operation.

  \<^bold>\<open>Loops and bounds.\<close>  Loops over data are structural; loops over a cursor, an offset or the rest of a string are
  functions with a measure.  The walks along the links of a skip list, \<^verbatim>\<open>tbx_stack_empty\<close>, \<^verbatim>\<open>tbx_stack_dup\<close>, the removal loop of the log, the loops
  over scattered buffers, those of the copies, and the callbacks of the task queues, which can run forever on a broken structure, are partial functions, and their lemmas show
  that they return on a well formed one.
  The only fixed bounds are the code's own: a buffer of 10240 bytes for a query, of 100 bytes for a number, 42
  bytes for each printed range, and a table of 100 operations for the devices of a striped segment.

  \<^bold>\<open>What is shown.\<close>  Codecs and texts are inverse to each other on the domain where the code supports it, and the
  domain is exact (varint, integers with scale, times, queries, ranges).  The linked stack implements a sequence with
  a cursor for every sequence of calls.  A skip list implements a sorted list for every sequence of calls and all random
  levels, its memory stays well typed, and its iterators visit every pair once; an interval skip list finds exactly the
  intervals that overlap a range, as long as the intervals do not overlap each other.  Lists of ranges stay canonical.  The queue is first in, first out under every
  interleaving.  Pigeon holes hand out free slots and iterate over exactly the used ones.  A copy
  between scattered buffers is a copy byte by byte.  A log segment is its base
  with the writes laid over it in order, loading it again restores this, and a read returns what is stored of it.  A linear segment stays a tiling of its
  size, reads and writes of one piece act on exactly their bytes, and a clone equals its source.  Copies between linear segments
  of all bytes, or of at least half a buffer, move exactly the bytes asked for, unless the destination ends with a full block at
  the end of the copy; a file that is put into a segment is got back.  Reads and
  writes of a striped segment act on exactly their bytes, in every order of the operations on the devices and with any of
  them failing, as long as the rows have at most 100 devices together.  A request with a
  unique test gets different values for all blocks that it places.  Waiting for a tree of task queues returns exactly when all of
  its operations are completed, with a failure iff one of them ended with \<^verbatim>\<open>OP_STATE_FAILURE\<close>, in every order of the calls.

  Some lemmas describe where the code does not do what its comments say; they are named in the findings: a task
  that timed out does not make its queue fail, an iterator that removes from a skip list frees a node that is still linked, an
  interval skip list with overlapping intervals loses one when another is removed, a disjunction in a query is always true, a write of several pieces to a linear segment loses pieces, a read of it
  never fails, a walk through a block of more than 4 GiB wraps around, a read of a log segment one byte before a range is shifted, a shrunk log segment is too short, a copy of few bytes does not
  end, a request over many devices of a striped segment writes behind a table on the stack, and a put of a given length loses its last piece.

  \<^bold>\<open>Not modelled.\<close>  The sockets, the thread pools, host portals and message queues of \<^verbatim>\<open>gop\<close>, the IBP protocol and the depot, the
  FUSE and command line programs, the object services on files and over the network, the caches, the erasure coded
  segment, the vendored Jerasure code, and the tests.  Of the modelled files: the serialisation of segments,
  the cloning and merging of log segments, the growing, cloning and repairing of striped segments, and the refresh of the
  resource table.  Of the task queues, locks and the order in which they are taken.  These are the next steps, in the
  order: serialisation with the ini parser, the sizes of the striped segment, the page cache.
\<close>

end
